(* ===== verification/Prelude.thy ===== *)
theory Prelude
  imports Main "HOL-Library.Multiset"
begin

text \<open>
  Shared vocabulary of the development.

  \<^item> \<open>cfault\<close> and \<open>'a cres\<close>: the outcome of C code. A run that leaves the bounds of an
    array, dereferences NULL or divides by zero has no defined meaning in C; it is the
    value \<open>Inl f\<close>, so that a theorem about \<open>Inr\<close> results says that no such access
    happened. A loop that can be seen to run for ever is \<open>Inl NeverReturns\<close>.
  \<^item> \<open>c_div\<close> and \<open>c_mod\<close>: the truncating integer division of C.
  \<^item> \<open>ring_list\<close>: the contents of a circular buffer, oldest first, with the two lemmas
    (append at the end, remove at the front) on which both queue components rest.
  \<^item> list and multiset lemmas used by several components.
\<close>

section \<open>Outcomes of C code\<close>

datatype cfault = OutOfBounds | NullDeref | DivByZero | Uninitialised | IntOverflow | UseAfterFree | NeverReturns

type_synonym 'a cres = "cfault + 'a"

definition cbind :: "'a cres \<Rightarrow> ('a \<Rightarrow> 'b cres) \<Rightarrow> 'b cres" where
  "cbind r f = (case r of Inl e \<Rightarrow> Inl e | Inr x \<Rightarrow> f x)"

lemma cbind_Inl [simp]: "cbind (Inl e) f = Inl e"
  by (simp add: cbind_def)

lemma cbind_Inr [simp]: "cbind (Inr x) f = f x"
  by (simp add: cbind_def)

lemma cbind_eq_Inr [simp]: "cbind r f = Inr y \<longleftrightarrow> (\<exists>x. r = Inr x \<and> f x = Inr y)"
  by (cases r) (auto simp: cbind_def)

lemma cbind_cong [fundef_cong]:
  assumes "r = r'" and "\<And>x. r' = Inr x \<Longrightarrow> f x = g x"
  shows "cbind r f = cbind r' g"
  using assms by (cases r') (auto simp: cbind_def)

section \<open>Integer division of C\<close>

definition c_div :: "int \<Rightarrow> int \<Rightarrow> int" where
  "c_div a b = sgn a * sgn b * (\<bar>a\<bar> div \<bar>b\<bar>)"

definition c_mod :: "int \<Rightarrow> int \<Rightarrow> int" where
  "c_mod a b = a - b * c_div a b"

lemma c_div_nonneg: "0 \<le> a \<Longrightarrow> 0 < b \<Longrightarrow> c_div a b = a div b"
  by (cases "a = 0") (simp_all add: c_div_def)

lemma c_mod_nonneg: "0 \<le> a \<Longrightarrow> 0 < b \<Longrightarrow> c_mod a b = a mod b"
  by (simp add: c_mod_def c_div_nonneg minus_mult_div_eq_mod)

section \<open>Circular buffers\<close>

definition ring_list :: "'a list \<Rightarrow> nat \<Rightarrow> nat \<Rightarrow> 'a list" where
  "ring_list d start n = map (\<lambda>i. d ! ((start + i) mod length d)) [0..<n]"

lemma length_ring_list [simp]: "length (ring_list d s n) = n"
  by (simp add: ring_list_def)

lemma ring_list_0 [simp]: "ring_list d s 0 = []"
  by (simp add: ring_list_def)

lemma ring_list_eq_Nil [simp]: "ring_list d s n = [] \<longleftrightarrow> n = 0"
  by (simp add: ring_list_def)

lemma ring_mod_inj:
  fixes s i j m :: nat
  assumes "i < m" "j < m" "(s + i) mod m = (s + j) mod m"
  shows "i = j"
proof -
  have "i mod m = j mod m"
    using assms(3) by (simp add: nat_mod_eq_iff)
  then show ?thesis using assms(1,2) by simp
qed

lemma ring_list_push:
  assumes "n < length d"
  shows "ring_list (d[(s + n) mod length d := x]) s (Suc n) = ring_list d s n @ [x]"
proof -
  have "d[(s + n) mod length d := x] ! ((s + i) mod length d) = d ! ((s + i) mod length d)"
    if "i < n" for i
  proof -
    have "(s + n) mod length d \<noteq> (s + i) mod length d"
      using that assms ring_mod_inj [of n "length d" i s] by auto
    then show ?thesis by simp
  qed
  moreover have "(s + n) mod length d < length d"
    using assms by (intro mod_less_divisor) linarith
  ultimately show ?thesis by (simp add: ring_list_def)
qed

lemma ring_list_pop:
  assumes "0 < n" and "s < length d"
  shows "ring_list d s n = d ! s # ring_list d (Suc s mod length d) (n - 1)"
proof -
  obtain k where n: "n = Suc k" using assms(1) by (cases n) auto
  have "[0..<Suc k] = 0 # map Suc [0..<k]"
    by (simp add: upt_conv_Cons map_Suc_upt)
  then show ?thesis
    using assms(2) by (simp add: ring_list_def n o_def mod_simps)
qed

section \<open>Lists and multisets\<close>

text \<open>Changing one thread's contribution changes the total by the difference.\<close>

lemma sum_list_update_add:
  fixes f :: "'a \<Rightarrow> 'b::comm_monoid_add"
  assumes "i < length xs"
  shows "f (xs ! i) + sum_list (map f (xs[i := y])) = f y + sum_list (map f xs)"
  using assms
proof (induction xs arbitrary: i)
  case Nil
  then show ?case by simp
next
  case (Cons x xs)
  then show ?case
  proof (cases i)
    case 0
    then show ?thesis by (simp add: ac_simps)
  next
    case (Suc k)
    with Cons.prems have "k < length xs" by simp
    from Cons.IH [OF this] Suc show ?thesis
      by simp (metis add.left_commute)
  qed
qed

section \<open>Schedules\<close>

text \<open>
  A concurrent program is a step function: the event names the thread that moves (or the
  signal that arrives), \<open>None\<close> says that the thread is blocked. A schedule is a list of
  events; a blocked event changes nothing. An invariant of the steps holds after every
  schedule.
\<close>

fun sched_run :: "('e \<Rightarrow> 's \<Rightarrow> 's option) \<Rightarrow> 'e list \<Rightarrow> 's \<Rightarrow> 's" where
  "sched_run step [] s = s"
| "sched_run step (e # es) s =
     (case step e s of None \<Rightarrow> sched_run step es s | Some s' \<Rightarrow> sched_run step es s')"

lemma sched_run_invariant:
  assumes "\<And>e s s'. I s \<Longrightarrow> step e s = Some s' \<Longrightarrow> I s'" and "I s"
  shows "I (sched_run step es s)"
  using assms(2) by (induction es arbitrary: s) (auto split: option.split intro: assms(1))

text \<open>The same for the schedules whose events are restricted to some kind.\<close>

lemma sched_run_invariant_on:
  assumes "\<And>e s s'. I s \<Longrightarrow> P e \<Longrightarrow> step e s = Some s' \<Longrightarrow> I s'" and "I s" and "list_all P es"
  shows "I (sched_run step es s)"
  using assms(2,3) by (induction es arbitrary: s) (auto split: option.split intro: assms(1))

text \<open>No thread can move.\<close>

definition stuck :: "('e \<Rightarrow> 's \<Rightarrow> 's option) \<Rightarrow> 's \<Rightarrow> bool" where
  "stuck step s \<longleftrightarrow> (\<forall>e. step e s = None)"

lemma sched_run_append:
  "sched_run step (es @ fs) s = sched_run step fs (sched_run step es s)"
  by (induction es arbitrary: s) (auto split: option.split)

text \<open>
  Progress under a scheduler that runs in rounds, as an interface. A step never raises the
  rank, and one that keeps it changes nobody's readiness; a ready thread lowers it; as long
  as the goal is not reached some thread of the round is ready, and it stays reached. Then
  the goal is reached after as many rounds as the rank says, whatever the order within them
  and whatever other events they contain.
\<close>

locale round_progress =
  fixes step :: "'e \<Rightarrow> 's \<Rightarrow> 's option"
    and inv :: "'s \<Rightarrow> bool"
    and rank :: "'s \<Rightarrow> nat"
    and ready :: "'e \<Rightarrow> 's \<Rightarrow> bool"
    and goal :: "'s \<Rightarrow> bool"
    and threads :: "'e set"
  assumes inv_step: "inv s \<Longrightarrow> step e s = Some s' \<Longrightarrow> inv s'"
    and rank_step: "inv s \<Longrightarrow> step e s = Some s' \<Longrightarrow> rank s' \<le> rank s"
    and ready_kept: "inv s \<Longrightarrow> step e s = Some s' \<Longrightarrow> rank s' = rank s \<Longrightarrow> ready q s' = ready q s"
    and ready_lowers: "inv s \<Longrightarrow> ready e s \<Longrightarrow> \<exists>s'. step e s = Some s' \<and> rank s' < rank s"
    and someone_ready: "inv s \<Longrightarrow> \<not> goal s \<Longrightarrow> \<exists>e\<in>threads. ready e s"
    and goal_stays: "inv s \<Longrightarrow> goal s \<Longrightarrow> step e s = Some s' \<Longrightarrow> goal s'"
begin

lemma run_down: "inv s \<Longrightarrow> inv (sched_run step r s) \<and> rank (sched_run step r s) \<le> rank s"
proof (rule sched_run_invariant [where I = "\<lambda>t. inv t \<and> rank t \<le> rank s" and step = step])
  fix e t t'
  assume t: "inv t \<and> rank t \<le> rank s" "step e t = Some t'"
  then have "inv t'" "rank t' \<le> rank t" using inv_step rank_step by blast+
  then show "inv t' \<and> rank t' \<le> rank s" using t(1) by simp
qed simp

lemma round_lowers:
  assumes "inv s" "ready e s" "e \<in> set r"
  shows "rank (sched_run step r s) < rank s"
  using assms
proof (induction r arbitrary: s)
  case (Cons a r)
  show ?case
  proof (cases "step a s")
    case None
    then have "e \<noteq> a" using ready_lowers [OF Cons.prems(1,2)] by auto
    then show ?thesis using Cons None by simp
  next
    case (Some s1)
    have i: "inv s1" "rank s1 \<le> rank s" using inv_step rank_step Cons.prems(1) Some by blast+
    show ?thesis
    proof (cases "rank s1 < rank s")
      case True
      then show ?thesis using Some run_down [OF i(1), of r] by simp
    next
      case False
      then have eq: "rank s1 = rank s" using i(2) by simp
      then have "ready e s1" using ready_kept [OF Cons.prems(1) Some] Cons.prems(2) by simp
      moreover have "e \<noteq> a" using ready_lowers [OF Cons.prems(1,2)] Some eq by auto
      ultimately show ?thesis using Cons.IH [OF i(1)] Cons.prems(3) eq Some by simp
    qed
  qed
qed simp

lemma rounds_reach:
  assumes "inv s" "rank s \<le> length rs" "\<forall>r\<in>set rs. threads \<subseteq> set r"
  shows "goal (sched_run step (concat rs) s)"
  using assms
proof (induction rs arbitrary: s)
  case Nil
  then show ?case using someone_ready [of s] ready_lowers [of s] by fastforce
next
  case (Cons r rs)
  show ?case
  proof (cases "goal s")
    case True
    have "inv t \<and> goal t" if "t = sched_run step (concat (r # rs)) s" for t
      unfolding that
      by (rule sched_run_invariant [where I = "\<lambda>u. inv u \<and> goal u" and step = step]) (use inv_step goal_stays True Cons.prems(1) in blast)+
    then show ?thesis by blast
  next
    case False
    then obtain e where e: "e \<in> threads" "ready e s" using someone_ready [OF Cons.prems(1)] by blast
    then have "e \<in> set r" using Cons.prems(3) by auto
    then have "rank (sched_run step r s) < rank s" by (rule round_lowers [OF Cons.prems(1) e(2)])
    then show ?thesis using Cons.IH [of "sched_run step r s"] run_down [OF Cons.prems(1)] Cons.prems(2,3) by (simp add: sched_run_append)
  qed
qed

end

end
