(* ===== verification/BoundedQueue.thy ===== *)
theory BoundedQueue
  imports Prelude
begin

text \<open>
  The interface of a bounded FIFO queue, as the thread pools of the repository use it: a
  producer that waits while the queue is full, a consumer that waits while it is empty.
  The laws are stated over the list of items, oldest first. An operation that would leave
  the array of the implementation yields a fault, so the laws also say that no operation
  within its guard does.
\<close>

locale bounded_queue =
  fixes enq :: "'q \<Rightarrow> 'a \<Rightarrow> 'q cres"
    and deq :: "'q \<Rightarrow> ('a \<times> 'q) cres"
    and storable :: "'a \<Rightarrow> bool"
    and is_full :: "'q \<Rightarrow> bool"
    and is_empty :: "'q \<Rightarrow> bool"
    and items :: "'q \<Rightarrow> 'a list"
    and room :: "'q \<Rightarrow> nat"
    and invar :: "'q \<Rightarrow> bool"
  assumes enq_law: "invar q \<Longrightarrow> \<not> is_full q \<Longrightarrow> storable x \<Longrightarrow>
      \<exists>q'. enq q x = Inr q' \<and> invar q' \<and> items q' = items q @ [x] \<and> room q' = room q"
    and deq_law: "invar q \<Longrightarrow> \<not> is_empty q \<Longrightarrow>
      \<exists>x q'. deq q = Inr (x, q') \<and> invar q' \<and> items q = x # items q' \<and> room q' = room q"
    and empty_iff: "invar q \<Longrightarrow> is_empty q \<longleftrightarrow> items q = []"
    and full_iff: "invar q \<Longrightarrow> is_full q \<longleftrightarrow> length (items q) = room q"
    and items_bound: "invar q \<Longrightarrow> length (items q) \<le> room q"
begin

lemma enqE:
  assumes "invar q" and "\<not> is_full q" and "storable x"
  obtains q' where "enq q x = Inr q'" and "invar q'"
    and "items q' = items q @ [x]" and "room q' = room q"
  using enq_law [OF assms] by blast

lemma deqE:
  assumes "invar q" and "\<not> is_empty q"
  obtains x q' where "deq q = Inr (x, q')" and "invar q'"
    and "items q = x # items q'" and "room q' = room q"
  using deq_law [OF assms] by blast

end

end
