(* ===== verification/PideQueue.thy ===== *)
theory PideQueue
  imports BoundedQueue
begin

text \<open>
  The circular queue of the pide shop: \<^verbatim>\<open>final/queue.h\<close> and \<^verbatim>\<open>final/queue.c\<close>. The C
  integers of the struct are \<open>int\<close>; \<open>pq_inv\<close> bounds every index by the capacity, so no
  computation on them leaves the range of a C \<^verbatim>\<open>int\<close>. \<open>malloc\<close> is an argument of
  \<open>createQueue\<close>: it yields the (arbitrary) contents of the block, or \<open>None\<close>.
\<close>

section \<open>Data and operations\<close>

record pide =
  pide_id :: int
  loc_x :: int
  loc_y :: int
  mod_time :: int

record pide_queue =
  q_data :: "pide list"
  q_front :: int
  q_rear :: int
  q_size :: int
  q_capacity :: int

definition zero_pide :: pide where
  "zero_pide = \<lparr>pide_id = 0, loc_x = 0, loc_y = 0, mod_time = 0\<rparr>"

definition createQueue :: "bool \<Rightarrow> (int \<Rightarrow> pide list option) \<Rightarrow> int \<Rightarrow> pide_queue option cres" where
  "createQueue header_ok malloc capacity =
     (if \<not> header_ok then Inl NullDeref
      else case malloc capacity of
        None \<Rightarrow> Inr None
      | Some block \<Rightarrow> Inr (Some \<lparr>q_data = block, q_front = 0, q_rear = capacity - 1,
                               q_size = 0, q_capacity = capacity\<rparr>))"

definition pq_isEmpty :: "pide_queue \<Rightarrow> bool" where
  "pq_isEmpty q = (q_size q = 0)"

definition pq_isFull :: "pide_queue \<Rightarrow> bool" where
  "pq_isFull q = (q_size q = q_capacity q)"

definition pq_at :: "pide_queue \<Rightarrow> int \<Rightarrow> pide cres" where
  "pq_at q i = (if 0 \<le> i \<and> i < int (length (q_data q)) then Inr (q_data q ! nat i)
                else Inl OutOfBounds)"

definition pq_enqueue :: "pide_queue \<Rightarrow> pide \<Rightarrow> pide_queue cres" where
  "pq_enqueue q item =
     (if pq_isFull q then Inr q
      else if q_capacity q = 0 then Inl DivByZero
      else let r = c_mod (q_rear q + 1) (q_capacity q) in
        if 0 \<le> r \<and> r < int (length (q_data q))
        then Inr (q\<lparr>q_rear := r, q_data := (q_data q)[nat r := item], q_size := q_size q + 1\<rparr>)
        else Inl OutOfBounds)"

definition pq_dequeue :: "pide_queue \<Rightarrow> (pide \<times> pide_queue) cres" where
  "pq_dequeue q =
     (if pq_isEmpty q then Inr (zero_pide, q)
      else cbind (pq_at q (q_front q)) (\<lambda>item.
        if q_capacity q = 0 then Inl DivByZero
        else Inr (item, q\<lparr>q_front := c_mod (q_front q + 1) (q_capacity q),
                          q_size := q_size q - 1\<rparr>)))"

definition pq_front :: "pide_queue \<Rightarrow> pide cres" where
  "pq_front q = (if pq_isEmpty q then Inr zero_pide else pq_at q (q_front q))"

definition pq_rear :: "pide_queue \<Rightarrow> pide cres" where
  "pq_rear q = (if pq_isEmpty q then Inr zero_pide else pq_at q (q_rear q))"

definition pq_size :: "pide_queue \<Rightarrow> int" where
  "pq_size q = q_size q"

text \<open>\<open>destroy\<close> frees the block and the header: nothing is left.\<close>

definition pq_destroy :: "pide_queue \<Rightarrow> pide_queue option" where
  "pq_destroy q = None"

lemmas pq_defs = createQueue_def pq_isEmpty_def pq_isFull_def pq_at_def pq_enqueue_def
  pq_dequeue_def pq_front_def pq_rear_def pq_size_def

section \<open>Well-formedness and contents\<close>

definition pq_inv :: "pide_queue \<Rightarrow> bool" where
  "pq_inv q \<longleftrightarrow> q_capacity q = int (length (q_data q)) \<and> 0 < q_capacity q
     \<and> 0 \<le> q_front q \<and> q_front q < q_capacity q
     \<and> 0 \<le> q_size q \<and> q_size q \<le> q_capacity q
     \<and> q_rear q = (q_front q + q_size q - 1) mod q_capacity q"

definition pq_items :: "pide_queue \<Rightarrow> pide list" where
  "pq_items q = ring_list (q_data q) (nat (q_front q)) (nat (q_size q))"

definition pq_room :: "pide_queue \<Rightarrow> nat" where
  "pq_room q = nat (q_capacity q)"

lemma pq_rear_next:
  assumes "pq_inv q"
  shows "c_mod (q_rear q + 1) (q_capacity q) = (q_front q + q_size q) mod q_capacity q"
proof -
  have "0 \<le> q_rear q" "0 < q_capacity q" using assms by (auto simp: pq_inv_def)
  then have "c_mod (q_rear q + 1) (q_capacity q) = (q_rear q + 1) mod q_capacity q"
    by (intro c_mod_nonneg) auto
  also have "\<dots> = (q_front q + q_size q) mod q_capacity q"
    using assms by (simp add: pq_inv_def mod_simps)
  finally show ?thesis .
qed

lemma nat_ring_index:
  "0 \<le> a \<Longrightarrow> 0 \<le> b \<Longrightarrow> nat ((a + b) mod int n) = (nat a + nat b) mod n"
  by (simp add: nat_mod_distrib nat_add_distrib)

lemma ring_rear_shift: "((f + 1) mod c + (s - 1) - 1) mod c = (f + s - 1) mod (c::int)"
proof -
  have "((f + 1) mod c + (s - 2)) mod c = (f + 1 + (s - 2)) mod c" by (rule mod_add_left_eq)
  then show ?thesis by (simp add: algebra_simps)
qed

lemma pq_enqueue_law:
  assumes inv: "pq_inv q" and nf: "\<not> pq_isFull q"
  shows "\<exists>q'. pq_enqueue q x = Inr q' \<and> pq_inv q' \<and> pq_items q' = pq_items q @ [x]
          \<and> pq_room q' = pq_room q"
proof -
  define r where "r = (q_front q + q_size q) mod q_capacity q"
  let ?q' = "q\<lparr>q_rear := r, q_data := (q_data q)[nat r := x], q_size := q_size q + 1\<rparr>"
  have r: "0 \<le> r" "r < int (length (q_data q))" using inv by (auto simp: r_def pq_inv_def)
  have "q_capacity q \<noteq> 0" using inv by (auto simp: pq_inv_def)
  then have "pq_enqueue q x = Inr ?q'"
    using nf r pq_rear_next [OF inv] by (simp add: pq_enqueue_def Let_def r_def [symmetric])
  moreover have "pq_inv ?q'"
    using inv nf by (auto simp: pq_inv_def pq_isFull_def r_def)
  moreover have "pq_items ?q' = pq_items q @ [x]"
  proof -
    have "nat r = (nat (q_front q) + nat (q_size q)) mod length (q_data q)"
      using inv nat_ring_index [of "q_front q" "q_size q"] by (simp add: r_def pq_inv_def)
    moreover have "nat (q_size q) < length (q_data q)"
      using inv nf by (auto simp: pq_inv_def pq_isFull_def)
    moreover have "nat (q_size q + 1) = Suc (nat (q_size q))"
      using inv by (auto simp: pq_inv_def)
    ultimately show ?thesis by (simp add: pq_items_def ring_list_push)
  qed
  ultimately show ?thesis by (auto simp: pq_room_def)
qed

lemma pq_dequeue_law:
  assumes inv: "pq_inv q" and ne: "\<not> pq_isEmpty q"
  shows "\<exists>x q'. pq_dequeue q = Inr (x, q') \<and> pq_inv q' \<and> pq_items q = x # pq_items q'
          \<and> pq_room q' = pq_room q"
proof -
  let ?x = "q_data q ! nat (q_front q)"
  let ?q' = "q\<lparr>q_front := (q_front q + 1) mod q_capacity q, q_size := q_size q - 1\<rparr>"
  have b: "0 \<le> q_front q" "q_front q < int (length (q_data q))" "0 < q_capacity q" "0 < q_size q"
    using inv ne by (auto simp: pq_inv_def pq_isEmpty_def)
  then have "pq_dequeue q = Inr (?x, ?q')"
    using ne by (simp add: pq_dequeue_def pq_at_def c_mod_nonneg)
  moreover have "pq_inv ?q'"
    using inv b ring_rear_shift [of "q_front q" "q_capacity q" "q_size q"]
    by (simp add: pq_inv_def)
  moreover have "pq_items q = ?x # pq_items ?q'"
  proof -
    have "nat ((q_front q + 1) mod q_capacity q) = Suc (nat (q_front q)) mod length (q_data q)"
      using inv nat_ring_index [of "q_front q" 1] b by (simp add: pq_inv_def)
    moreover have "nat (q_size q - 1) = nat (q_size q) - 1" using b by simp
    ultimately show ?thesis using b
      by (simp add: pq_items_def ring_list_pop [of "nat (q_size q)" "nat (q_front q)"])
  qed
  ultimately show ?thesis by (auto simp: pq_room_def)
qed

interpretation pq: bounded_queue pq_enqueue pq_dequeue "\<lambda>_. True" pq_isFull pq_isEmpty pq_items pq_room pq_inv
proof (unfold_locales, goal_cases)
  case (1 q x) then show ?case by (simp add: pq_enqueue_law)
next
  case (2 q) then show ?case by (rule pq_dequeue_law)
next
  case (3 q) then show ?case
    by (auto simp: pq_isEmpty_def pq_items_def pq_inv_def ring_list_def)
next
  case (4 q) then show ?case
    by (auto simp: pq_isFull_def pq_items_def pq_inv_def pq_room_def)
next
  case (5 q) then show ?case
    by (auto simp: pq_items_def pq_inv_def pq_room_def)
qed

lemma createQueue_inv:
  assumes "malloc capacity = Some block" and "int (length block) = capacity" and "0 < capacity"
  shows "\<exists>q. createQueue True malloc capacity = Inr (Some q) \<and> pq_inv q \<and> pq_items q = []
          \<and> pq_room q = nat capacity"
  using assms by (auto simp: createQueue_def pq_inv_def pq_items_def pq_room_def zmod_minus1)

lemma pq_dequeue_empty: "pq_isEmpty q \<Longrightarrow> pq_dequeue q = Inr (zero_pide, q)"
  by (simp add: pq_dequeue_def)

lemma pq_enqueue_full: "pq_isFull q \<Longrightarrow> pq_enqueue q x = Inr q"
  by (simp add: pq_enqueue_def)

lemma pq_front_items: "pq_inv q \<Longrightarrow> pq_items q = x # xs \<Longrightarrow> pq_front q = Inr x"
  by (auto simp: pq_items_def pq_front_def pq_isEmpty_def pq_at_def pq_inv_def
      ring_list_pop [of "nat (q_size q)" "nat (q_front q)"] split: if_splits)


section \<open>Refinement to a bounded list\<close>

text \<open>
  A run of any operations: \<open>Some x\<close> enqueues \<open>x\<close>, \<open>None\<close> dequeues; the results of the
  dequeues are collected. The specification works on the list of items.
\<close>

fun pq_run :: "pide option list \<Rightarrow> pide_queue \<Rightarrow> (pide list \<times> pide_queue) cres" where
  "pq_run [] q = Inr ([], q)"
| "pq_run (Some x # ops) q = cbind (pq_enqueue q x) (pq_run ops)"
| "pq_run (None # ops) q =
     cbind (pq_dequeue q) (\<lambda>(y, q'). cbind (pq_run ops q') (\<lambda>(ys, q''). Inr (y # ys, q'')))"

fun list_run :: "nat \<Rightarrow> pide option list \<Rightarrow> pide list \<Rightarrow> pide list \<times> pide list" where
  "list_run room [] xs = ([], xs)"
| "list_run room (Some x # ops) xs = list_run room ops (if length xs < room then xs @ [x] else xs)"
| "list_run room (None # ops) [] = (let (ys, r) = list_run room ops [] in (zero_pide # ys, r))"
| "list_run room (None # ops) (x # xs) = (let (ys, r) = list_run room ops xs in (x # ys, r))"

lemma pq_run_list:
  assumes "pq_inv q"
  shows "\<exists>q'. pq_run ops q = Inr (fst (list_run (pq_room q) ops (pq_items q)), q') \<and> pq_inv q'
    \<and> pq_items q' = snd (list_run (pq_room q) ops (pq_items q))"
  using assms
proof (induction ops arbitrary: q)
  case Nil
  then show ?case by simp
next
  case (Cons op ops)
  show ?case
  proof (cases op)
    case (Some x)
    show ?thesis
    proof (cases "pq_isFull q")
      case True
      then have "length (pq_items q) = pq_room q" using Cons.prems by (simp add: pq.full_iff)
      with Some True Cons.IH [OF Cons.prems] show ?thesis by (simp add: pq_enqueue_full)
    next
      case False
      then have "length (pq_items q) < pq_room q"
        using Cons.prems pq.full_iff pq.items_bound by (meson le_neq_implies_less)
      moreover from False obtain q' where q': "pq_enqueue q x = Inr q'" "pq_inv q'"
          "pq_items q' = pq_items q @ [x]" "pq_room q' = pq_room q"
        using pq.enqE [OF Cons.prems] by blast
      ultimately show ?thesis using Some Cons.IH [OF q'(2)] by simp
    qed
  next
    case None
    show ?thesis
    proof (cases "pq_isEmpty q")
      case True
      then have "pq_items q = []" using Cons.prems by (simp add: pq.empty_iff)
      with None True Cons.IH [OF Cons.prems] show ?thesis
        by (auto simp: pq_dequeue_empty split: prod.split)
    next
      case False
      then obtain x q' where q': "pq_dequeue q = Inr (x, q')" "pq_inv q'"
          "pq_items q = x # pq_items q'" "pq_room q' = pq_room q"
        using pq.deqE [OF Cons.prems] by blast
      then show ?thesis using None Cons.IH [OF q'(2)] by (auto split: prod.split)
    qed
  qed
qed

text \<open>
  C8. The ring buffer of \<^verbatim>\<open>queue.c\<close> is a bounded first-in first-out list. From a created
  queue of positive capacity, every sequence of enqueues and dequeues returns exactly what
  the list specification returns (the zero pide when empty; an enqueue on a full queue is
  ignored), ends in the queue that holds the same items, and never leaves the array.
\<close>

theorem pide_queue_refines_list:
  assumes "malloc capacity = Some block" and "int (length block) = capacity" and "0 < capacity"
  shows "\<exists>q q'. createQueue True malloc capacity = Inr (Some q)
    \<and> pq_run ops q = Inr (fst (list_run (nat capacity) ops []), q')
    \<and> pq_items q' = snd (list_run (nat capacity) ops [])"
proof -
  obtain q where q: "createQueue True malloc capacity = Inr (Some q)" "pq_inv q"
      "pq_items q = []" "pq_room q = nat capacity"
    using createQueue_inv [of malloc capacity block, OF assms] by blast
  show ?thesis using q pq_run_list [OF q(2), of ops] by auto
qed

theorem pide_queue_refines_list_witness:
  "\<exists>q q'. createQueue True (\<lambda>n. Some (replicate (nat n) zero_pide)) 1 = Inr (Some q)
    \<and> pq_run [None, Some \<lparr>pide_id = 1, loc_x = 2, loc_y = 3, mod_time = 4\<rparr>,
              Some \<lparr>pide_id = 5, loc_x = 6, loc_y = 7, mod_time = 8\<rparr>, None] q
      = Inr ([zero_pide, \<lparr>pide_id = 1, loc_x = 2, loc_y = 3, mod_time = 4\<rparr>], q')
    \<and> pq_items q' = []"
  using pide_queue_refines_list [of "\<lambda>n. Some (replicate (nat n) zero_pide)" 1
      "replicate 1 zero_pide"
      "[None, Some \<lparr>pide_id = 1, loc_x = 2, loc_y = 3, mod_time = 4\<rparr>,
        Some \<lparr>pide_id = 5, loc_x = 6, loc_y = 7, mod_time = 8\<rparr>, None]"] by simp

end
