(* ===== verification/CopyQueue.thy ===== *)
theory CopyQueue
  imports BoundedQueue
begin

text \<open>
  The job queue of the parallel copier: \<^verbatim>\<open>hw4_2024/put_your_codes_here/queue.h\<close> and
  \<^verbatim>\<open>queue.c\<close>. Its state is the global variables \<open>buffer\<close>, \<open>counter\<close> (the index of the
  oldest job), \<open>last\<close>, \<open>size\<close> and \<open>buffer_size_counter\<close> (the number of jobs). The
  functions of \<^verbatim>\<open>queue.c\<close> never change \<open>buffer_size_counter\<close>: its callers in
  \<^verbatim>\<open>1801042624_main.c\<close> do, and \<open>pool_put\<close> and \<open>pool_take\<close> are those two-line uses, which
  are what implements the bounded queue interface. A file name is the C string a
  \<^verbatim>\<open>char[256]\<close> holds.
\<close>

section \<open>Data and operations\<close>

definition MAX_FILENAME_LEN :: nat where
  "MAX_FILENAME_LEN = 256"

record copy_job =
  src_filename :: string
  dest_filename :: string
  src_fd :: int
  dest_fd :: int
  job_empty :: int

record copy_queue =
  cq_buffer :: "copy_job list"
  cq_counter :: int
  cq_last :: int
  cq_size :: int
  buffer_size_counter :: int

definition findAbsolute :: "int \<Rightarrow> int cres" where
  "findAbsolute n = (if n < 0 then if n = - (2 ^ 31) then Inl IntOverflow else Inr ((-1) * n)
                     else Inr n)"

definition cq_init :: "(int \<Rightarrow> copy_job list) \<Rightarrow> int \<Rightarrow> copy_queue \<Rightarrow> copy_queue" where
  "cq_init malloc len g = g\<lparr>cq_buffer := malloc len, cq_size := len\<rparr>"

definition cq_enqueue :: "copy_queue \<Rightarrow> copy_job \<Rightarrow> (int \<times> copy_queue) cres" where
  "cq_enqueue g element =
     (if buffer_size_counter g = cq_size g then Inr (0, g)
      else if \<not> (0 \<le> cq_last g \<and> cq_last g < int (length (cq_buffer g))) then Inl OutOfBounds
      else if MAX_FILENAME_LEN \<le> length (src_filename element)
              \<or> MAX_FILENAME_LEN \<le> length (dest_filename element) then Inl OutOfBounds
      else if cq_size g = 0 then Inl DivByZero
      else Inr (1, g\<lparr>cq_buffer := (cq_buffer g)[nat (cq_last g) := element\<lparr>job_empty := 0\<rparr>],
                     cq_last := c_mod (cq_last g + 1) (cq_size g)\<rparr>))"

definition cq_dequeue :: "copy_queue \<Rightarrow> (copy_job \<times> copy_queue) cres" where
  "cq_dequeue g =
     (let temp = cq_counter g in
      if cq_size g = 0 then Inl DivByZero
      else if \<not> (0 \<le> temp \<and> temp < int (length (cq_buffer g))) then Inl OutOfBounds
      else Inr (cq_buffer g ! nat temp, g\<lparr>cq_counter := c_mod (temp + 1) (cq_size g)\<rparr>))"

definition cq_destroy :: "copy_queue \<Rightarrow> copy_queue" where
  "cq_destroy g = g\<lparr>cq_buffer := []\<rparr>"

text \<open>The uses in \<open>copyAll\<close> and in \<open>consumer\<close>.\<close>

definition pool_put :: "copy_queue \<Rightarrow> copy_job \<Rightarrow> copy_queue cres" where
  "pool_put g job = cbind (cq_enqueue g job) (\<lambda>(r, g').
     Inr (if r \<noteq> 0 then g'\<lparr>buffer_size_counter := buffer_size_counter g' + 1\<rparr> else g'))"

definition pool_take :: "copy_queue \<Rightarrow> (copy_job \<times> copy_queue) cres" where
  "pool_take g = cbind (cq_dequeue g) (\<lambda>(job, g').
     Inr (job, g'\<lparr>buffer_size_counter := buffer_size_counter g' - 1\<rparr>))"

text \<open>The globals before \<open>init\<close>, and a job for examples.\<close>

definition cq_zero :: copy_queue where
  "cq_zero = \<lparr>cq_buffer = [], cq_counter = 0, cq_last = 0, cq_size = 0, buffer_size_counter = 0\<rparr>"

definition demo_job :: copy_job where
  "demo_job = \<lparr>src_filename = ''a'', dest_filename = ''b'', src_fd = 3, dest_fd = 4, job_empty = 0\<rparr>"

section \<open>Well-formedness and contents\<close>

definition cq_inv :: "copy_queue \<Rightarrow> bool" where
  "cq_inv g \<longleftrightarrow> cq_size g = int (length (cq_buffer g)) \<and> 0 < cq_size g
     \<and> 0 \<le> cq_counter g \<and> cq_counter g < cq_size g
     \<and> 0 \<le> buffer_size_counter g \<and> buffer_size_counter g \<le> cq_size g
     \<and> cq_last g = (cq_counter g + buffer_size_counter g) mod cq_size g"

definition cq_items :: "copy_queue \<Rightarrow> copy_job list" where
  "cq_items g = ring_list (cq_buffer g) (nat (cq_counter g)) (nat (buffer_size_counter g))"

definition cq_room :: "copy_queue \<Rightarrow> nat" where
  "cq_room g = nat (cq_size g)"

definition cq_full :: "copy_queue \<Rightarrow> bool" where
  "cq_full g = (buffer_size_counter g = cq_size g)"

definition cq_none :: "copy_queue \<Rightarrow> bool" where
  "cq_none g = (buffer_size_counter g = 0)"

definition job_ok :: "copy_job \<Rightarrow> bool" where
  "job_ok j \<longleftrightarrow> length (src_filename j) < MAX_FILENAME_LEN
     \<and> length (dest_filename j) < MAX_FILENAME_LEN \<and> job_empty j = 0"

lemma ring_nat_index: "0 \<le> a \<Longrightarrow> 0 \<le> b \<Longrightarrow> nat ((a + b) mod int n) = (nat a + nat b) mod n"
  by (simp add: nat_mod_distrib nat_add_distrib)

lemma job_empty_id: "job_empty x = 0 \<Longrightarrow> x\<lparr>job_empty := 0\<rparr> = x"
  by (cases x) simp

lemma pool_put_law:
  assumes inv: "cq_inv g" and nf: "\<not> cq_full g" and ok: "job_ok x"
  shows "\<exists>g'. pool_put g x = Inr g' \<and> cq_inv g' \<and> cq_items g' = cq_items g @ [x]
          \<and> cq_room g' = cq_room g"
proof -
  let ?l = "(cq_last g + 1) mod cq_size g"
  let ?g' = "g\<lparr>cq_buffer := (cq_buffer g)[nat (cq_last g) := x], cq_last := ?l,
               buffer_size_counter := buffer_size_counter g + 1\<rparr>"
  have b: "0 \<le> cq_last g" "cq_last g < int (length (cq_buffer g))" "0 < cq_size g"
    using inv by (auto simp: cq_inv_def)
  have xx: "x\<lparr>job_empty := 0\<rparr> = x" using ok by (intro job_empty_id) (simp add: job_ok_def)
  have "pool_put g (x\<lparr>job_empty := 0\<rparr>)
      = Inr (g\<lparr>cq_buffer := (cq_buffer g)[nat (cq_last g) := x\<lparr>job_empty := 0\<rparr>], cq_last := ?l,
               buffer_size_counter := buffer_size_counter g + 1\<rparr>)"
    using nf b ok unfolding job_ok_def
    by (simp add: pool_put_def cq_enqueue_def cq_full_def c_mod_nonneg)
  then have "pool_put g x = Inr ?g'" unfolding xx .
  moreover have "cq_inv ?g'"
    using inv nf by (auto simp: cq_inv_def cq_full_def mod_simps ac_simps)
  moreover have "cq_items ?g' = cq_items g @ [x]"
  proof -
    have "nat (cq_last g) = (nat (cq_counter g) + nat (buffer_size_counter g)) mod length (cq_buffer g)"
      using inv ring_nat_index [of "cq_counter g" "buffer_size_counter g"] by (simp add: cq_inv_def)
    moreover have "nat (buffer_size_counter g) < length (cq_buffer g)"
      using inv nf by (auto simp: cq_inv_def cq_full_def)
    moreover have "nat (buffer_size_counter g + 1) = Suc (nat (buffer_size_counter g))"
      using inv by (auto simp: cq_inv_def)
    ultimately show ?thesis by (simp add: cq_items_def ring_list_push)
  qed
  ultimately show ?thesis by (auto simp: cq_room_def)
qed

lemma pool_take_law:
  assumes inv: "cq_inv g" and ne: "\<not> cq_none g"
  shows "\<exists>x g'. pool_take g = Inr (x, g') \<and> cq_inv g' \<and> cq_items g = x # cq_items g'
          \<and> cq_room g' = cq_room g"
proof -
  let ?x = "cq_buffer g ! nat (cq_counter g)"
  let ?c = "(cq_counter g + 1) mod cq_size g"
  let ?g' = "g\<lparr>cq_counter := ?c, buffer_size_counter := buffer_size_counter g - 1\<rparr>"
  have b: "0 \<le> cq_counter g" "cq_counter g < int (length (cq_buffer g))" "0 < cq_size g"
      "0 < buffer_size_counter g"
    using inv ne by (auto simp: cq_inv_def cq_none_def)
  then have "pool_take g = Inr (?x, ?g')"
    by (simp add: pool_take_def cq_dequeue_def c_mod_nonneg Let_def)
  moreover have "cq_inv ?g'"
    using inv b by (auto simp: cq_inv_def mod_simps)
  moreover have "cq_items g = ?x # cq_items ?g'"
  proof -
    have "nat ?c = Suc (nat (cq_counter g)) mod length (cq_buffer g)"
      using inv ring_nat_index [of "cq_counter g" 1] b by (simp add: cq_inv_def)
    moreover have "nat (buffer_size_counter g - 1) = nat (buffer_size_counter g) - 1"
      using b by simp
    ultimately show ?thesis using b
      by (simp add: cq_items_def ring_list_pop [of "nat (buffer_size_counter g)" "nat (cq_counter g)"])
  qed
  ultimately show ?thesis by (auto simp: cq_room_def)
qed

interpretation cq: bounded_queue pool_put pool_take job_ok cq_full cq_none cq_items cq_room cq_inv
proof (unfold_locales, goal_cases)
  case (1 q x) then show ?case by (rule pool_put_law)
next
  case (2 q) then show ?case by (rule pool_take_law)
next
  case (3 q) then show ?case
    by (auto simp: cq_none_def cq_items_def cq_inv_def)
next
  case (4 q) then show ?case
    by (auto simp: cq_full_def cq_items_def cq_inv_def cq_room_def)
next
  case (5 q) then show ?case
    by (auto simp: cq_items_def cq_inv_def cq_room_def)
qed

lemma cq_init_inv:
  assumes "int (length (malloc len)) = len" and "0 < len"
    and "cq_counter g = 0" and "cq_last g = 0" and "buffer_size_counter g = 0"
  shows "cq_inv (cq_init malloc len g) \<and> cq_items (cq_init malloc len g) = []"
  using assms by (auto simp: cq_init_def cq_inv_def cq_items_def)

lemma cq_enqueue_full: "cq_full g \<Longrightarrow> cq_enqueue g x = Inr (0, g)"
  by (simp add: cq_full_def cq_enqueue_def)

section \<open>Any sequence of operations\<close>

text \<open>
  Jobs are put (\<open>Some\<close>) and taken (\<open>None\<close>) in any order; like the workers, a run takes
  only while \<open>buffer_size_counter\<close> is not 0. The specification is a list of jobs with a
  capacity.
\<close>

fun cq_run :: "copy_job option list \<Rightarrow> copy_queue \<Rightarrow> (copy_job list \<times> copy_queue) cres" where
  "cq_run [] g = Inr ([], g)"
| "cq_run (Some job # ops) g = cbind (pool_put g job) (cq_run ops)"
| "cq_run (None # ops) g =
     (if buffer_size_counter g = 0 then cq_run ops g
      else cbind (pool_take g) (\<lambda>(job, g'). cbind (cq_run ops g') (\<lambda>(jobs, g''). Inr (job # jobs, g''))))"

fun jobs_run :: "nat \<Rightarrow> copy_job option list \<Rightarrow> copy_job list \<Rightarrow> copy_job list \<times> copy_job list" where
  "jobs_run n [] xs = ([], xs)"
| "jobs_run n (Some job # ops) xs = jobs_run n ops (if length xs < n then xs @ [job] else xs)"
| "jobs_run n (None # ops) [] = jobs_run n ops []"
| "jobs_run n (None # ops) (x # xs) = (x # fst (jobs_run n ops xs), snd (jobs_run n ops xs))"

lemma pool_put_full: "cq_full g \<Longrightarrow> pool_put g job = Inr g"
  by (simp add: pool_put_def cq_enqueue_full)

lemma cq_run_jobs:
  assumes "cq_inv g" "\<forall>job. Some job \<in> set ops \<longrightarrow> job_ok job"
  shows "\<exists>g'. cq_run ops g = Inr (fst (jobs_run (cq_room g) ops (cq_items g)), g')
    \<and> cq_inv g' \<and> cq_items g' = snd (jobs_run (cq_room g) ops (cq_items g))"
  using assms
proof (induction ops arbitrary: g)
  case (Cons op ops)
  show ?case
  proof (cases op)
    case None
    show ?thesis
    proof (cases "cq_none g")
      case True
      then have "cq_items g = []" using cq.empty_iff [OF Cons.prems(1)] by simp
      then show ?thesis using Cons.IH [OF Cons.prems(1)] Cons.prems(2) None True by (simp add: cq_none_def)
    next
      case False
      then obtain x g1 where g1: "pool_take g = Inr (x, g1)" "cq_inv g1" "cq_items g = x # cq_items g1" "cq_room g1 = cq_room g"
        using Cons.prems(1) by (blast elim: cq.deqE)
      then show ?thesis using Cons.IH [OF g1(2)] Cons.prems(2) None False by (auto simp: cq_none_def)
    qed
  next
    case (Some job)
    show ?thesis
    proof (cases "cq_full g")
      case True
      then have "\<not> length (cq_items g) < cq_room g" using cq.full_iff [OF Cons.prems(1)] by simp
      then show ?thesis using Cons.IH [OF Cons.prems(1)] Cons.prems(2) Some True by (simp add: pool_put_full)
    next
      case False
      have "job_ok job" using Cons.prems(2) Some by simp
      then obtain g1 where g1: "pool_put g job = Inr g1" "cq_inv g1" "cq_items g1 = cq_items g @ [job]" "cq_room g1 = cq_room g"
        using Cons.prems(1) False by (blast elim: cq.enqE)
      have "length (cq_items g) < cq_room g"
        using cq.full_iff [OF Cons.prems(1)] cq.items_bound [OF Cons.prems(1)] False by linarith
      then show ?thesis using Cons.IH [OF g1(2)] Cons.prems(2) Some g1 by simp
    qed
  qed
qed simp

text \<open>
  C9. The queue of the copier is a bounded first-in first-out list. From \<open>init\<close>, every sequence
  of puts and takes, of any length and in any order, takes the jobs that the list takes, in
  its order; a job that is put while the queue is full is ignored; what is left is what the
  list holds, and no access leaves the buffer, however often the indices wrap around.
\<close>

theorem copy_queue_fifo:
  assumes "int (length (malloc len)) = len" and "0 < len" and "\<forall>job. Some job \<in> set ops \<longrightarrow> job_ok job"
  shows "\<exists>g. cq_run ops (cq_init malloc len cq_zero) = Inr (fst (jobs_run (nat len) ops []), g)
    \<and> cq_items g = snd (jobs_run (nat len) ops [])
    \<and> buffer_size_counter g = int (length (snd (jobs_run (nat len) ops [])))"
proof -
  let ?g = "cq_init malloc len cq_zero"
  have g: "cq_inv ?g" "cq_items ?g = []" "cq_room ?g = nat len"
    using cq_init_inv [of malloc len cq_zero] assms(1,2) by (simp_all add: cq_zero_def cq_room_def cq_init_def)
  obtain g' where g': "cq_run ops ?g = Inr (fst (jobs_run (nat len) ops []), g')" "cq_inv g'"
      "cq_items g' = snd (jobs_run (nat len) ops [])"
    using cq_run_jobs [OF g(1) assms(3)] g(2,3) by auto
  have "buffer_size_counter g' = int (length (cq_items g'))" using g'(2) by (auto simp: cq_items_def cq_inv_def)
  then show ?thesis using g' by simp
qed

theorem copy_queue_fifo_witness:
  "\<exists>g. cq_run [Some demo_job, Some demo_job, None, Some (demo_job\<lparr>src_fd := 5\<rparr>), None, None, None]
      (cq_init (\<lambda>n. replicate (nat n) demo_job) 1 cq_zero) = Inr ([demo_job, demo_job\<lparr>src_fd := 5\<rparr>], g)
    \<and> buffer_size_counter g = 0"
proof -
  define ops where "ops = [Some demo_job, Some demo_job, None, Some (demo_job\<lparr>src_fd := 5\<rparr>), None, None, None]"
  have "\<forall>job. Some job \<in> set ops \<longrightarrow> job_ok job" by (auto simp: ops_def job_ok_def demo_job_def MAX_FILENAME_LEN_def)
  moreover have "jobs_run (nat 1) ops [] = ([demo_job, demo_job\<lparr>src_fd := 5\<rparr>], [])" by (simp add: ops_def)
  ultimately show ?thesis using copy_queue_fifo [of "\<lambda>n. replicate (nat n) demo_job" 1 ops] unfolding ops_def [symmetric] by auto
qed

end
