(* ===== verification/CopyPool.thy ===== *)
theory CopyPool
  imports CopyQueue
begin

text \<open>
  The parallel copier of \<^verbatim>\<open>hw4_2024/put_your_codes_here/1801042624_main.c\<close>: one manager
  thread walks the source tree (\<open>copyAll\<close>, \<open>manager\<close>) and puts a job per regular file
  into the bounded queue; worker threads (\<open>consumer\<close>) take jobs and copy the bytes.

  The machine has one step per access to shared state: taking or waiting for the mutex, a
  critical section (what runs between lock and unlock or wait, whose data only the holder
  of the mutex touches), and each access outside a critical section on its own
  (\<open>running_status\<close>, \<open>done\<close> and \<open>buffer_size_counter\<close> in the loop condition of
  \<open>consumer\<close>, and the unprotected \<open>totalBytesCopied += bytes_read\<close>, a load and a store).
  A condition variable is the set of the threads that sleep on it (\<open>on_full\<close>, \<open>on_empty\<close>):
  \<open>pthread_cond_wait\<close> releases the mutex and joins the set in one step, \<open>pthread_cond_broadcast\<close>
  empties it, and a thread that waits (\<open>MWait\<close>, \<open>WWait\<close>) can take the mutex again only once it
  has left the set. POSIX allows spurious wake-ups, the event \<open>Spurious\<close>.

  The source tree is the \<open>node\<close> the directory calls see. File descriptors stand for
  open file descriptions, \<open>-1\<close> for a failed \<open>open\<close>. The number of bytes one
  \<open>write\<close> accepts is a parameter. \<open>produced\<close>, \<open>taken\<close> and \<open>finished\<close> are history
  variables: the jobs queued, dequeued and copied so far, in order.
\<close>

section \<open>Data\<close>

datatype node =
    Dir "(string \<times> node) list"      \<comment> \<open>DT_DIR, with its entries in \<open>readdir\<close> order\<close>
  | DirFail                          \<comment> \<open>DT_DIR whose \<open>stat\<close> or \<open>opendir\<close> fails\<close>
  | Reg int int                      \<comment> \<open>DT_REG: what the two \<open>open\<close> calls return\<close>
  | OtherEntry

datatype tid = Manager | Worker nat

datatype mgr_pc =
    MTest | MLock string int int | MHold string int int | MWait string int int
  | MEndLock | MEnd | MExit | MFault cfault

datatype wrk_pc =
    WTest | WTestCount | WLock | WHold | WWait
  | WCopy copy_job | WLoad copy_job string | WStore copy_job string int
  | WExit | WFault cfault

record pool =
  queue :: copy_queue
  max_buff_size :: int
  buffer_mutex :: "tid option"
  on_full :: "tid set"
  on_empty :: "tid set"
  running_status :: bool
  done_flag :: bool
  directory_count :: int
  regular_file_count :: int
  totalBytesCopied :: int
  mpc :: mgr_pc
  mstack :: "(string \<times> string \<times> (string \<times> node) list) list"
  workers :: "wrk_pc list"
  mkdirs :: "string list"
  outs :: "string list"
  fd_source :: "int \<Rightarrow> string"
  fd_sink :: "int \<Rightarrow> string"
  produced :: "copy_job list"
  taken :: "copy_job list"
  finished :: "copy_job list"

datatype pool_event = Run tid | Sigint | Spurious tid

definition MAX_LOG :: nat where "MAX_LOG = 1024"
definition PATH_BUF :: nat where "PATH_BUF = 1024"

definition no_such_source :: string where
  "no_such_source = ''Source filepath doesnot exists'' @ [CHR 0x0A]"

section \<open>The manager\<close>

definition join_path :: "string \<Rightarrow> string \<Rightarrow> string" where
  "join_path d name = d @ ''/'' @ name"

text \<open>One test of the loop of the innermost active \<open>copyAll\<close>, and the body up to the lock.\<close>

definition mgr_test :: "pool \<Rightarrow> pool" where
  "mgr_test s =
     (case mstack s of
        [] \<Rightarrow> s\<lparr>mpc := MEndLock\<rparr>
      | (src, dst, entries) # rest \<Rightarrow>
          (case entries of
             [] \<Rightarrow> s\<lparr>mstack := rest\<rparr>
           | (name, entry) # others \<Rightarrow>
               if \<not> running_status s then s\<lparr>mstack := rest\<rparr>
               else if name = ''.'' \<or> name = ''..'' then s\<lparr>mstack := (src, dst, others) # rest\<rparr>
               else (case entry of
                   Reg sfd dfd \<Rightarrow>
                     s\<lparr>regular_file_count := regular_file_count s + 1,
                       mpc := MLock name sfd dfd, mstack := (src, dst, others) # rest\<rparr>
                 | OtherEntry \<Rightarrow> s\<lparr>mstack := (src, dst, others) # rest\<rparr>
                 | _ \<Rightarrow>
                   (let s1 = s\<lparr>directory_count := directory_count s + 1\<rparr>;
                        src' = join_path src name; dst' = join_path dst name
                    in if PATH_BUF \<le> length src' \<or> PATH_BUF \<le> length dst'
                       then s1\<lparr>mpc := MFault OutOfBounds\<rparr>
                       else (case entry of
                           Dir sub \<Rightarrow> s1\<lparr>mkdirs := mkdirs s @ [dst'],
                               mstack := (src', dst', sub) # (src, dst, others) # rest\<rparr>
                         | _ \<Rightarrow> s1\<lparr>mkdirs := mkdirs s @ [dst'], outs := outs s @ [no_such_source],
                               mstack := (src, dst, others) # rest\<rparr>)))))"

text \<open>
  The critical section of \<open>copyAll\<close>: wait while the queue is full, else open both files,
  queue the job and unlock. A failed \<open>open\<close> returns from \<open>copyAll\<close> with the mutex held.
\<close>

definition mgr_hold :: "string \<Rightarrow> int \<Rightarrow> int \<Rightarrow> pool \<Rightarrow> pool" where
  "mgr_hold name sfd dfd s =
     (if buffer_size_counter (queue s) = max_buff_size s
      then s\<lparr>buffer_mutex := None, on_empty := insert Manager (on_empty s), mpc := MWait name sfd dfd\<rparr>
      else case mstack s of
        [] \<Rightarrow> s\<lparr>mpc := MFault NullDeref\<rparr>
      | (src, dst, others) # rest \<Rightarrow>
          let src' = join_path src name; dst' = join_path dst name in
          if PATH_BUF \<le> length src' \<or> PATH_BUF \<le> length dst' then s\<lparr>mpc := MFault OutOfBounds\<rparr>
          else if sfd = -1 \<or> dfd = -1 then s\<lparr>mpc := MTest, mstack := rest\<rparr>
          else
            let job = \<lparr>src_filename = src', dest_filename = dst', src_fd = sfd, dest_fd = dfd,
                       job_empty = 0\<rparr> in
            case (if MAX_FILENAME_LEN \<le> length src' \<or> MAX_FILENAME_LEN \<le> length dst'
                  then Inl OutOfBounds else pool_put (queue s) job) of
              Inl e \<Rightarrow> s\<lparr>mpc := MFault e\<rparr>
            | Inr q \<Rightarrow> s\<lparr>queue := q, produced := produced s @ [job], buffer_mutex := None,
                        on_full := {}, mpc := MTest\<rparr>)"

definition mgr_step :: "pool \<Rightarrow> pool option" where
  "mgr_step s =
     (case mpc s of
        MTest \<Rightarrow> Some (mgr_test s)
      | MLock name sfd dfd \<Rightarrow>
          if buffer_mutex s = None
          then Some (s\<lparr>buffer_mutex := Some Manager, mpc := MHold name sfd dfd\<rparr>) else None
      | MWait name sfd dfd \<Rightarrow>
          if buffer_mutex s = None \<and> Manager \<notin> on_empty s
          then Some (s\<lparr>buffer_mutex := Some Manager, mpc := MHold name sfd dfd\<rparr>) else None
      | MHold name sfd dfd \<Rightarrow> Some (mgr_hold name sfd dfd s)
      | MEndLock \<Rightarrow>
          if buffer_mutex s = None
          then Some (s\<lparr>buffer_mutex := Some Manager, mpc := MEnd\<rparr>) else None
      | MEnd \<Rightarrow> Some (s\<lparr>done_flag := True, buffer_mutex := None, on_full := {}, mpc := MExit\<rparr>)
      | MExit \<Rightarrow> None
      | MFault e \<Rightarrow> None)"

section \<open>The workers\<close>

definition set_wrk :: "nat \<Rightarrow> wrk_pc \<Rightarrow> pool \<Rightarrow> pool" where
  "set_wrk i pc s = s\<lparr>workers := (workers s)[i := pc]\<rparr>"

definition wrk_hold :: "nat \<Rightarrow> pool \<Rightarrow> pool" where
  "wrk_hold i s =
     (if buffer_size_counter (queue s) = 0
      then if done_flag s then (set_wrk i WExit s)\<lparr>buffer_mutex := None, on_empty := {}\<rparr>
           else (set_wrk i WWait s)\<lparr>buffer_mutex := None, on_full := insert (Worker i) (on_full s)\<rparr>
      else case pool_take (queue s) of
        Inl e \<Rightarrow> set_wrk i (WFault e) s
      | Inr (job, q) \<Rightarrow> (set_wrk i (WCopy job) s)
          \<lparr>queue := q, taken := taken s @ [job], buffer_mutex := None, on_empty := {}\<rparr>)"

definition wrk_copy :: "nat \<Rightarrow> copy_job \<Rightarrow> pool \<Rightarrow> pool" where
  "wrk_copy i job s =
     (let chunk = take MAX_LOG (fd_source s (src_fd job)) in
      if chunk = [] then (set_wrk i WTest s)\<lparr>finished := finished s @ [job]\<rparr>
      else (set_wrk i (WLoad job chunk) s)
        \<lparr>fd_source := (fd_source s)(src_fd job := drop MAX_LOG (fd_source s (src_fd job)))\<rparr>)"

definition wrk_store :: "(int \<Rightarrow> string \<Rightarrow> nat) \<Rightarrow> nat \<Rightarrow> copy_job \<Rightarrow> string \<Rightarrow> int \<Rightarrow> pool \<Rightarrow> pool" where
  "wrk_store accepts i job chunk before s =
     (set_wrk i (WCopy job) s)
       \<lparr>totalBytesCopied := before + int (length chunk),
        fd_sink := (fd_sink s)(dest_fd job :=
          fd_sink s (dest_fd job) @ take (accepts (dest_fd job) chunk) chunk)\<rparr>"

definition wrk_step :: "(int \<Rightarrow> string \<Rightarrow> nat) \<Rightarrow> nat \<Rightarrow> pool \<Rightarrow> pool option" where
  "wrk_step accepts i s =
     (if length (workers s) \<le> i then None
      else case workers s ! i of
        WTest \<Rightarrow> Some (set_wrk i (if \<not> running_status s then WExit
                                else if \<not> done_flag s then WLock else WTestCount) s)
      | WTestCount \<Rightarrow>
          Some (set_wrk i (if buffer_size_counter (queue s) \<noteq> 0 then WLock else WExit) s)
      | WLock \<Rightarrow> if buffer_mutex s = None
                then Some ((set_wrk i WHold s)\<lparr>buffer_mutex := Some (Worker i)\<rparr>) else None
      | WWait \<Rightarrow> if buffer_mutex s = None \<and> Worker i \<notin> on_full s
                then Some ((set_wrk i WHold s)\<lparr>buffer_mutex := Some (Worker i)\<rparr>) else None
      | WHold \<Rightarrow> Some (wrk_hold i s)
      | WCopy job \<Rightarrow> Some (wrk_copy i job s)
      | WLoad job chunk \<Rightarrow> Some (set_wrk i (WStore job chunk (totalBytesCopied s)) s)
      | WStore job chunk before \<Rightarrow> Some (wrk_store accepts i job chunk before s)
      | WExit \<Rightarrow> None
      | WFault e \<Rightarrow> None)"

section \<open>The program\<close>

definition pool_step :: "(int \<Rightarrow> string \<Rightarrow> nat) \<Rightarrow> pool_event \<Rightarrow> pool \<Rightarrow> pool option" where
  "pool_step accepts ev s =
     (case ev of
        Run Manager \<Rightarrow> mgr_step s
      | Run (Worker i) \<Rightarrow> wrk_step accepts i s
      | Sigint \<Rightarrow> Some (s\<lparr>running_status := False\<rparr>)
      | Spurious t \<Rightarrow> if t \<in> on_full s \<or> t \<in> on_empty s
          then Some (s\<lparr>on_full := on_full s - {t}, on_empty := on_empty s - {t}\<rparr>) else None)"

text \<open>The start of the threads, for arguments \<open>main\<close> accepts.\<close>

definition pool_init ::
    "int \<Rightarrow> nat \<Rightarrow> copy_job list \<Rightarrow> string \<Rightarrow> string \<Rightarrow> node \<Rightarrow> (int \<Rightarrow> string) \<Rightarrow> pool" where
  "pool_init bufferSize numOfWorker block src dst root contents =
     \<lparr>queue = cq_init (\<lambda>_. block) bufferSize
        \<lparr>cq_buffer = [], cq_counter = 0, cq_last = 0, cq_size = 0, buffer_size_counter = 0\<rparr>,
      max_buff_size = bufferSize, buffer_mutex = None, on_full = {}, on_empty = {}, running_status = True, done_flag = False,
      directory_count = 0, regular_file_count = 0, totalBytesCopied = 0,
      mpc = MTest, mstack = (case root of Dir es \<Rightarrow> [(src, dst, es)] | _ \<Rightarrow> []),
      workers = replicate numOfWorker WTest, mkdirs = [],
      outs = (case root of Dir es \<Rightarrow> [] | _ \<Rightarrow> [no_such_source]),
      fd_source = contents, fd_sink = (\<lambda>_. []), produced = [], taken = [], finished = []\<rparr>"

datatype start_result = UsageError | BadBuffer | BadWorkers | TooManyWorkers
  | StartFault cfault | Started pool

definition MAX_WORKER :: int where "MAX_WORKER = 20"
definition FILE_NAME_LEN :: nat where "FILE_NAME_LEN = 128"

text \<open>The argument checks of \<open>main\<close>, on what \<open>atoi\<close> returns for the two numbers.\<close>

definition pool_main ::
    "nat \<Rightarrow> int \<Rightarrow> int \<Rightarrow> string \<Rightarrow> string \<Rightarrow> (int \<Rightarrow> copy_job list) \<Rightarrow> node \<Rightarrow> (int \<Rightarrow> string)
     \<Rightarrow> start_result" where
  "pool_main argc bufferSize numOfWorker src dst malloc root contents =
     (if argc \<noteq> 5 then UsageError
      else if bufferSize = 0 then BadBuffer
      else if numOfWorker = 0 then BadWorkers
      else if MAX_WORKER < numOfWorker then TooManyWorkers
      else if FILE_NAME_LEN \<le> length src \<or> FILE_NAME_LEN \<le> length dst then StartFault OutOfBounds
      else Started (pool_init bufferSize (nat numOfWorker) (malloc bufferSize) src dst root contents))"

section \<open>Safety of every schedule\<close>

lemmas wrk_pc_splits = wrk_pc.splits if_splits option.splits sum.splits prod.splits

lemma pool_event_cases:
  obtains (manager) "ev = Run Manager" | (worker) i where "ev = Run (Worker i)" | (sigint) "ev = Sigint"
    | (spurious) t where "ev = Spurious t"
  by (metis pool_event.exhaust tid.exhaust)

lemma spurious_step:
  assumes "pool_step accepts (Spurious t) s = Some s'"
  shows "s' = s\<lparr>on_full := on_full s - {t}, on_empty := on_empty s - {t}\<rparr>"
  using assms by (simp add: pool_step_def split: if_splits)

definition queue_ok :: "pool \<Rightarrow> bool" where
  "queue_ok s \<longleftrightarrow> cq_inv (queue s) \<and> max_buff_size s = cq_size (queue s)
     \<and> produced s = taken s @ cq_items (queue s)"

lemma cq_full_max: "queue_ok s \<Longrightarrow> buffer_size_counter (queue s) = max_buff_size s \<longleftrightarrow> cq_full (queue s)"
  by (auto simp: queue_ok_def cq_full_def)

lemma cq_size_room: "cq_inv q \<Longrightarrow> cq_inv q' \<Longrightarrow> cq_room q' = cq_room q \<Longrightarrow> cq_size q' = cq_size q"
  by (auto simp: cq_room_def cq_inv_def)

lemma set_wrk_sel [simp]:
  "queue (set_wrk i p s) = queue s" "max_buff_size (set_wrk i p s) = max_buff_size s"
  "produced (set_wrk i p s) = produced s" "taken (set_wrk i p s) = taken s"
  "finished (set_wrk i p s) = finished s" "mpc (set_wrk i p s) = mpc s"
  "mstack (set_wrk i p s) = mstack s" "done_flag (set_wrk i p s) = done_flag s"
  "running_status (set_wrk i p s) = running_status s"
  "buffer_mutex (set_wrk i p s) = buffer_mutex s"
  "on_full (set_wrk i p s) = on_full s" "on_empty (set_wrk i p s) = on_empty s"
  "fd_source (set_wrk i p s) = fd_source s" "fd_sink (set_wrk i p s) = fd_sink s"
  "workers (set_wrk i p s) = (workers s)[i := p]"
  by (simp_all add: set_wrk_def)

lemma mgr_hold_put:
  assumes ok: "queue_ok s" and nf: "buffer_size_counter (queue s) \<noteq> max_buff_size s"
    and j: "job_ok job"
  obtains q where "pool_put (queue s) job = Inr q" "cq_inv q"
    "cq_items q = cq_items (queue s) @ [job]" "cq_size q = cq_size (queue s)"
proof -
  have "cq_inv (queue s)" "\<not> cq_full (queue s)"
    using ok nf by (simp_all add: queue_ok_def cq_full_def)
  then obtain q where "pool_put (queue s) job = Inr q" "cq_inv q"
      "cq_items q = cq_items (queue s) @ [job]" "cq_room q = cq_room (queue s)"
    using j by (rule cq.enqE)
  with \<open>cq_inv (queue s)\<close> show thesis using that by (blast intro: cq_size_room)
qed

text \<open>What the critical section of the manager can do, with the queue operation evaluated.\<close>

lemma mgr_hold_cases:
  assumes "queue_ok s"
  obtains (wait) "buffer_size_counter (queue s) = max_buff_size s"
      "mgr_hold name sfd dfd s = s\<lparr>buffer_mutex := None, on_empty := insert Manager (on_empty s), mpc := MWait name sfd dfd\<rparr>"
  | (fault) e where "mgr_hold name sfd dfd s = s\<lparr>mpc := MFault e\<rparr>"
  | (open_failed) f rest where "mstack s = f # rest" "sfd = -1 \<or> dfd = -1"
      "mgr_hold name sfd dfd s = s\<lparr>mpc := MTest, mstack := rest\<rparr>"
  | (put) src dst others rest q job where "mstack s = (src, dst, others) # rest"
      "sfd \<noteq> -1" "dfd \<noteq> -1"
      "job = \<lparr>src_filename = join_path src name, dest_filename = join_path dst name,
              src_fd = sfd, dest_fd = dfd, job_empty = 0\<rparr>"
      "mgr_hold name sfd dfd s = s\<lparr>queue := q, produced := produced s @ [job],
          buffer_mutex := None, on_full := {}, mpc := MTest\<rparr>"
      "cq_inv q" "cq_items q = cq_items (queue s) @ [job]" "cq_size q = cq_size (queue s)"
proof (cases "buffer_size_counter (queue s) = max_buff_size s")
  case True
  then show ?thesis by (intro wait) (simp_all add: mgr_hold_def)
next
  case nf: False
  show ?thesis
  proof (cases "mstack s")
    case Nil
    with nf show ?thesis by (intro fault [of NullDeref]) (simp add: mgr_hold_def)
  next
    case (Cons f rest)
    obtain src dst others where f: "f = (src, dst, others)" by (cases f)
    let ?job = "\<lparr>src_filename = join_path src name, dest_filename = join_path dst name,
                 src_fd = sfd, dest_fd = dfd, job_empty = 0\<rparr>"
    consider "PATH_BUF \<le> length (join_path src name) \<or> PATH_BUF \<le> length (join_path dst name)
        \<or> (sfd \<noteq> -1 \<and> dfd \<noteq> -1 \<and> \<not> job_ok ?job)"
      | "\<not> (PATH_BUF \<le> length (join_path src name) \<or> PATH_BUF \<le> length (join_path dst name))"
        "sfd = -1 \<or> dfd = -1"
      | "\<not> (PATH_BUF \<le> length (join_path src name) \<or> PATH_BUF \<le> length (join_path dst name))"
        "sfd \<noteq> -1" "dfd \<noteq> -1" "job_ok ?job" by blast
    then show ?thesis
    proof cases
      case 1
      with nf Cons f show ?thesis
        by (intro fault [of OutOfBounds]) (auto simp: mgr_hold_def job_ok_def Let_def)
    next
      case 2
      with nf Cons f show ?thesis by (intro open_failed) (auto simp: mgr_hold_def Let_def)
    next
      case 3
      obtain q where q: "pool_put (queue s) ?job = Inr q" "cq_inv q"
          "cq_items q = cq_items (queue s) @ [?job]" "cq_size q = cq_size (queue s)"
        using mgr_hold_put [OF assms nf 3(4)] .
      have lens: "\<not> (MAX_FILENAME_LEN \<le> length (join_path src name)
          \<or> MAX_FILENAME_LEN \<le> length (join_path dst name))"
        using 3(4) by (simp add: job_ok_def)
      have "mgr_hold name sfd dfd s = s\<lparr>queue := q, produced := produced s @ [?job],
          buffer_mutex := None, on_full := {}, mpc := MTest\<rparr>"
        using nf Cons f 3 q(1) lens by (simp add: mgr_hold_def Let_def)
      with Cons f 3 q show ?thesis
        by (intro put [where q = q and job = ?job and src = src and dst = dst
              and others = others and rest = rest]) simp_all
    qed
  qed
qed

text \<open>The worker's critical section, likewise.\<close>

lemma wrk_hold_cases:
  assumes "queue_ok s"
  obtains (exit) "cq_items (queue s) = []" "done_flag s"
      "wrk_hold i s = (set_wrk i WExit s)\<lparr>buffer_mutex := None, on_empty := {}\<rparr>"
  | (wait) "cq_items (queue s) = []" "\<not> done_flag s"
      "wrk_hold i s = (set_wrk i WWait s)\<lparr>buffer_mutex := None, on_full := insert (Worker i) (on_full s)\<rparr>"
  | (taking) job q where
      "wrk_hold i s = (set_wrk i (WCopy job) s)
          \<lparr>queue := q, taken := taken s @ [job], buffer_mutex := None, on_empty := {}\<rparr>"
      "cq_inv q" "cq_items (queue s) = job # cq_items q" "cq_size q = cq_size (queue s)"
proof (cases "buffer_size_counter (queue s) = 0")
  case True
  with assms have "cq_items (queue s) = []"
    by (metis cq.empty_iff cq_none_def queue_ok_def)
  with True exit wait show ?thesis by (cases "done_flag s") (auto simp: wrk_hold_def)
next
  case False
  with assms have "cq_inv (queue s)" "\<not> cq_none (queue s)"
    by (simp_all add: queue_ok_def cq_none_def)
  then obtain job q where q: "pool_take (queue s) = Inr (job, q)" "cq_inv q"
      "cq_items (queue s) = job # cq_items q" "cq_room q = cq_room (queue s)"
    by (rule cq.deqE)
  with \<open>cq_inv (queue s)\<close> have "cq_size q = cq_size (queue s)" by (blast intro: cq_size_room)
  with q False show ?thesis by (intro taking [where job = job and q = q]) (simp_all add: wrk_hold_def)
qed

lemma mgr_test_sel [simp]:
  "queue (mgr_test s) = queue s" "max_buff_size (mgr_test s) = max_buff_size s"
  "produced (mgr_test s) = produced s" "taken (mgr_test s) = taken s"
  "finished (mgr_test s) = finished s" "done_flag (mgr_test s) = done_flag s"
  "running_status (mgr_test s) = running_status s"
  "buffer_mutex (mgr_test s) = buffer_mutex s" "workers (mgr_test s) = workers s"
  "fd_source (mgr_test s) = fd_source s" "fd_sink (mgr_test s) = fd_sink s"
  "on_full (mgr_test s) = on_full s" "on_empty (mgr_test s) = on_empty s"
  by (simp_all add: mgr_test_def Let_def split: list.split prod.split node.split)

lemma mgr_test_mpc:
  "mpc s = MTest \<Longrightarrow> mpc (mgr_test s) = MTest \<or> mpc (mgr_test s) = MEndLock
     \<or> (\<exists>n a b. mpc (mgr_test s) = MLock n a b) \<or> (\<exists>e. mpc (mgr_test s) = MFault e)"
  by (simp add: mgr_test_def Let_def split: list.split prod.split node.split)

lemma wrk_copy_sel [simp]:
  "queue (wrk_copy i j s) = queue s" "max_buff_size (wrk_copy i j s) = max_buff_size s"
  "produced (wrk_copy i j s) = produced s" "taken (wrk_copy i j s) = taken s"
  "done_flag (wrk_copy i j s) = done_flag s" "mpc (wrk_copy i j s) = mpc s"
  "running_status (wrk_copy i j s) = running_status s" "mstack (wrk_copy i j s) = mstack s"
  "buffer_mutex (wrk_copy i j s) = buffer_mutex s" "fd_sink (wrk_copy i j s) = fd_sink s"
  "on_full (wrk_copy i j s) = on_full s" "on_empty (wrk_copy i j s) = on_empty s"
  by (simp_all add: wrk_copy_def Let_def)

definition copy_pc :: "copy_job \<Rightarrow> pool \<Rightarrow> wrk_pc" where
  "copy_pc job s = (if fd_source s (src_fd job) = [] then WTest
                    else WLoad job (take MAX_LOG (fd_source s (src_fd job))))"

lemma MAX_LOG_pos [simp]: "0 < MAX_LOG" "MAX_LOG \<noteq> 0"
  by (simp_all add: MAX_LOG_def)

lemma workers_wrk_copy: "workers (wrk_copy i job s) = (workers s)[i := copy_pc job s]"
  by (simp add: wrk_copy_def copy_pc_def Let_def)

lemma wrk_store_sel [simp]:
  "queue (wrk_store a i j c t s) = queue s" "max_buff_size (wrk_store a i j c t s) = max_buff_size s"
  "produced (wrk_store a i j c t s) = produced s" "taken (wrk_store a i j c t s) = taken s"
  "done_flag (wrk_store a i j c t s) = done_flag s" "mpc (wrk_store a i j c t s) = mpc s"
  "running_status (wrk_store a i j c t s) = running_status s"
  "mstack (wrk_store a i j c t s) = mstack s" "finished (wrk_store a i j c t s) = finished s"
  "buffer_mutex (wrk_store a i j c t s) = buffer_mutex s"
  "on_full (wrk_store a i j c t s) = on_full s" "on_empty (wrk_store a i j c t s) = on_empty s"
  "fd_source (wrk_store a i j c t s) = fd_source s"
  "workers (wrk_store a i j c t s) = (workers s)[i := WCopy j]"
  by (simp_all add: wrk_store_def)

lemma mgr_step_queue_ok:
  assumes "queue_ok s" and "mgr_step s = Some s'"
  shows "queue_ok s'"
proof (cases "mpc s")
  case (MHold name sfd dfd)
  with assms(2) have s': "s' = mgr_hold name sfd dfd s" by (simp add: mgr_step_def)
  show ?thesis unfolding s'
    by (rule mgr_hold_cases [OF assms(1), of name sfd dfd])
       (use assms(1) in \<open>auto simp: queue_ok_def\<close>)
qed (use assms in \<open>auto simp: mgr_step_def queue_ok_def split: if_splits\<close>)

lemma wrk_step_queue_ok:
  assumes "queue_ok s" and "wrk_step accepts i s = Some s'"
  shows "queue_ok s'"
proof (cases "workers s ! i")
  case WHold
  with assms(2) have s': "s' = wrk_hold i s" by (simp add: wrk_step_def split: if_splits)
  show ?thesis unfolding s'
    by (rule wrk_hold_cases [OF assms(1), of i]) (use assms(1) in \<open>auto simp: queue_ok_def\<close>)
qed (use assms in \<open>auto simp: wrk_step_def queue_ok_def split: if_splits\<close>)

lemma pool_step_queue_ok:
  assumes "queue_ok s" and "pool_step accepts ev s = Some s'"
  shows "queue_ok s'"
proof (cases ev rule: pool_event_cases)
  case manager
  with assms show ?thesis by (auto simp: pool_step_def intro: mgr_step_queue_ok)
next
  case (worker i)
  with assms show ?thesis by (auto simp: pool_step_def intro: wrk_step_queue_ok)
next
  case sigint
  with assms show ?thesis by (auto simp: pool_step_def queue_ok_def)
next
  case spurious
  with assms show ?thesis by (auto simp: pool_step_def queue_ok_def split: if_splits)
qed

section \<open>Mutual exclusion and the end of the program\<close>

fun mgr_section :: "mgr_pc \<Rightarrow> bool" where
  "mgr_section (MHold n a b) = True"
| "mgr_section MEnd = True"
| "mgr_section _ = False"

definition mutex_ok :: "pool \<Rightarrow> bool" where
  "mutex_ok s \<longleftrightarrow> (mgr_section (mpc s) \<longrightarrow> buffer_mutex s = Some Manager)
     \<and> (\<forall>i < length (workers s). workers s ! i = WHold \<longrightarrow> buffer_mutex s = Some (Worker i))"

definition exit_ok :: "pool \<Rightarrow> bool" where
  "exit_ok s \<longleftrightarrow> (done_flag s \<longleftrightarrow> mpc s = MExit)
     \<and> (running_status s \<longrightarrow>
         (WTestCount \<in> set (workers s) \<longrightarrow> done_flag s)
       \<and> (WExit \<in> set (workers s) \<longrightarrow> done_flag s \<and> cq_items (queue s) = []))"

text \<open>Nobody sleeps on a condition variable whose condition holds.\<close>

definition sleep_ok :: "pool \<Rightarrow> bool" where
  "sleep_ok s \<longleftrightarrow> (on_empty s \<noteq> {} \<longrightarrow> buffer_size_counter (queue s) = max_buff_size s)
     \<and> (on_full s \<noteq> {} \<longrightarrow> cq_items (queue s) = [] \<and> \<not> done_flag s)"

definition pool_inv :: "pool \<Rightarrow> bool" where
  "pool_inv s \<longleftrightarrow> queue_ok s \<and> mutex_ok s \<and> exit_ok s \<and> sleep_ok s"

lemma mgr_test_inv:
  assumes "mutex_ok s" "exit_ok s" "mpc s = MTest"
  shows "mutex_ok (mgr_test s)" "exit_ok (mgr_test s)"
  using assms mgr_test_mpc [OF assms(3)] by (auto simp: mutex_ok_def exit_ok_def)

lemma mgr_step_inv:
  assumes "pool_inv s" and "mgr_step s = Some s'"
  shows "mutex_ok s' \<and> exit_ok s'"
proof (cases "mpc s")
  case MTest
  then show ?thesis using assms mgr_test_inv by (auto simp: mgr_step_def pool_inv_def)
next
  case (MHold name sfd dfd)
  with assms(2) have s': "s' = mgr_hold name sfd dfd s" by (simp add: mgr_step_def)
  have q: "queue_ok s" using assms(1) by (simp add: pool_inv_def)
  show ?thesis unfolding s'
    by (rule mgr_hold_cases [OF q, of name sfd dfd])
       (use assms(1) MHold in \<open>auto simp: pool_inv_def mutex_ok_def exit_ok_def\<close>)
qed (use assms in \<open>auto simp: mgr_step_def pool_inv_def mutex_ok_def exit_ok_def split: if_splits\<close>)

lemma set_list_update_cases: "x \<in> set (xs[i := y]) \<Longrightarrow> x = y \<or> x \<in> set xs"
  using set_update_subset_insert by fastforce

lemma nth_update_cases:
  "xs[i := y] ! k = z \<Longrightarrow> k < length xs \<Longrightarrow> (k = i \<and> y = z) \<or> (k \<noteq> i \<and> xs ! k = z)"
  by (cases "k = i") auto

lemma mutex_ok_move:
  assumes "mutex_ok s" "pc \<noteq> WHold" "workers s' = (workers s)[i := pc]"
    "buffer_mutex s' = buffer_mutex s" "mpc s' = mpc s"
  shows "mutex_ok s'"
  using assms by (fastforce simp: mutex_ok_def dest: nth_update_cases)

lemma mutex_ok_acquire:
  assumes "mutex_ok s" "buffer_mutex s = None" "workers s' = (workers s)[i := WHold]"
    "buffer_mutex s' = Some (Worker i)" "mpc s' = mpc s"
  shows "mutex_ok s'"
  using assms by (fastforce simp: mutex_ok_def dest: nth_update_cases)

lemma mutex_ok_release:
  assumes "mutex_ok s" "workers s ! i = WHold" "i < length (workers s)" "pc \<noteq> WHold"
    "workers s' = (workers s)[i := pc]" "buffer_mutex s' = None" "mpc s' = mpc s"
  shows "mutex_ok s'"
proof -
  have own: "buffer_mutex s = Some (Worker i)" using assms(1,2,3) by (simp add: mutex_ok_def)
  then have "\<not> mgr_section (mpc s)" using assms(1) by (auto simp: mutex_ok_def)
  moreover have "workers s' ! k \<noteq> WHold" if k: "k < length (workers s)" for k
  proof
    assume "workers s' ! k = WHold"
    with k assms(4,5) have "k \<noteq> i" "workers s ! k = WHold" by (auto dest: nth_update_cases)
    with k assms(1) own show False by (simp add: mutex_ok_def)
  qed
  ultimately show ?thesis using assms(5,7) by (simp add: mutex_ok_def)
qed

lemma exit_ok_move:
  assumes "exit_ok s" "workers s' = (workers s)[i := pc]"
    "pc = WTestCount \<Longrightarrow> running_status s \<Longrightarrow> done_flag s"
    "pc = WExit \<Longrightarrow> running_status s \<Longrightarrow> done_flag s \<and> cq_items (queue s) = []"
    "done_flag s' = done_flag s" "mpc s' = mpc s" "running_status s' = running_status s"
    "cq_items (queue s) = [] \<Longrightarrow> cq_items (queue s') = []"
  shows "exit_ok s'"
  using assms by (auto simp: exit_ok_def dest!: set_list_update_cases)

lemma wrk_step_inv:
  assumes inv: "pool_inv s" and step: "wrk_step accepts i s = Some s'"
  shows "mutex_ok s' \<and> exit_ok s'"
proof -
  have i: "i < length (workers s)" using step by (auto simp: wrk_step_def split: if_splits)
  have q: "queue_ok s" and m: "mutex_ok s" and e: "exit_ok s"
    using inv by (simp_all add: pool_inv_def)
  show ?thesis
  proof (cases "workers s ! i")
    case WTest
    let ?pc = "if \<not> running_status s then WExit else if \<not> done_flag s then WLock else WTestCount"
    have "s' = set_wrk i ?pc s" using step i WTest by (simp add: wrk_step_def)
    then show ?thesis
      using mutex_ok_move [OF m, of ?pc s' i] exit_ok_move [OF e, of s' i ?pc] by (auto split: if_splits)
  next
    case WTestCount
    let ?pc = "if buffer_size_counter (queue s) \<noteq> 0 then WLock else WExit"
    have s': "s' = set_wrk i ?pc s" using step i WTestCount by (simp add: wrk_step_def)
    have "WTestCount \<in> set (workers s)" using i WTestCount nth_mem by metis
    then have "running_status s \<Longrightarrow> done_flag s" using e unfolding exit_ok_def by blast
    moreover have "buffer_size_counter (queue s) = 0 \<Longrightarrow> cq_items (queue s) = []"
      using q by (metis cq.empty_iff cq_none_def queue_ok_def)
    ultimately show ?thesis
      using s' mutex_ok_move [OF m, of ?pc s' i] exit_ok_move [OF e, of s' i ?pc] by (auto split: if_splits)
  next
    case WHold
    then have s': "s' = wrk_hold i s" using step i by (simp add: wrk_step_def)
    show ?thesis
    proof (rule wrk_hold_cases [OF q, of i], goal_cases)
      case 1
      then show ?case
        using s' mutex_ok_release [OF m WHold i, of WExit s'] exit_ok_move [OF e, of s' i WExit] by auto
    next
      case 2
      then show ?case
        using s' mutex_ok_release [OF m WHold i, of WWait s'] exit_ok_move [OF e, of s' i WWait] by auto
    next
      case (3 job q')
      then show ?case
        using s' mutex_ok_release [OF m WHold i, of "WCopy job" s']
          exit_ok_move [OF e, of s' i "WCopy job"] by auto
    qed
  next
    case (WCopy job)
    then have s': "s' = wrk_copy i job s" using step i by (simp add: wrk_step_def)
    have "workers s' = (workers s)[i := copy_pc job s]" unfolding s' by (rule workers_wrk_copy)
    moreover have "copy_pc job s \<noteq> WHold" "copy_pc job s \<noteq> WTestCount" "copy_pc job s \<noteq> WExit"
      by (simp_all add: copy_pc_def)
    moreover define pc where "pc = copy_pc job s"
    ultimately show ?thesis
      using s' mutex_ok_move [OF m, of pc s' i] exit_ok_move [OF e, of s' i pc] by simp
  next
    case (WLoad job chunk)
    then have "s' = set_wrk i (WStore job chunk (totalBytesCopied s)) s"
      using step i by (simp add: wrk_step_def)
    then show ?thesis
      using mutex_ok_move [OF m, of "WStore job chunk (totalBytesCopied s)" s' i]
        exit_ok_move [OF e, of s' i "WStore job chunk (totalBytesCopied s)"] by auto
  next
    case (WStore job chunk b)
    then have "s' = wrk_store accepts i job chunk b s" using step i by (simp add: wrk_step_def)
    then show ?thesis
      using mutex_ok_move [OF m, of "WCopy job" s' i] exit_ok_move [OF e, of s' i "WCopy job"] by auto
  next
    case WLock
    then have "s' = (set_wrk i WHold s)\<lparr>buffer_mutex := Some (Worker i)\<rparr>" "buffer_mutex s = None"
      using step i by (auto simp: wrk_step_def split: if_splits)
    then show ?thesis
      using mutex_ok_acquire [OF m, of s' i] exit_ok_move [OF e, of s' i WHold] by auto
  next
    case WWait
    then have "s' = (set_wrk i WHold s)\<lparr>buffer_mutex := Some (Worker i)\<rparr>" "buffer_mutex s = None"
      using step i by (auto simp: wrk_step_def split: if_splits)
    then show ?thesis
      using mutex_ok_acquire [OF m, of s' i] exit_ok_move [OF e, of s' i WHold] by auto
  next
    case WExit
    then show ?thesis using step i by (simp add: wrk_step_def)
  next
    case (WFault f)
    then show ?thesis using step i by (simp add: wrk_step_def)
  qed
qed

lemma mgr_step_sleep:
  assumes "pool_inv s" "mgr_step s = Some s'"
  shows "sleep_ok s'"
proof -
  have q: "queue_ok s" and sl: "sleep_ok s" using assms(1) by (simp_all add: pool_inv_def)
  show ?thesis
  proof (cases "mpc s")
    case (MHold name sfd dfd)
    with assms(2) have s': "s' = mgr_hold name sfd dfd s" by (simp add: mgr_step_def)
    show ?thesis
    proof (cases "buffer_size_counter (queue s) = max_buff_size s")
      case True
      then show ?thesis using sl by (simp add: s' mgr_hold_def sleep_ok_def)
    next
      case False
      then have none: "on_empty s = {}" using sl by (auto simp: sleep_ok_def)
      show ?thesis unfolding s'
        by (rule mgr_hold_cases [OF q, of name sfd dfd]) (use sl none False in \<open>auto simp: sleep_ok_def\<close>)
    qed
  qed (use assms sl in \<open>auto simp: mgr_step_def sleep_ok_def split: if_splits\<close>)
qed

lemma wrk_step_sleep:
  assumes "pool_inv s" "wrk_step accepts i s = Some s'"
  shows "sleep_ok s'"
proof -
  have q: "queue_ok s" and sl: "sleep_ok s" using assms(1) by (simp_all add: pool_inv_def)
  have i: "i < length (workers s)" using assms(2) by (auto simp: wrk_step_def split: if_splits)
  show ?thesis
  proof (cases "workers s ! i")
    case WHold
    with assms(2) i have s': "s' = wrk_hold i s" by (simp add: wrk_step_def)
    show ?thesis unfolding s'
      by (rule wrk_hold_cases [OF q, of i]) (use sl in \<open>auto simp: sleep_ok_def\<close>)
  qed (use assms(2) i sl in \<open>auto simp: wrk_step_def sleep_ok_def split: if_splits\<close>)
qed

lemma pool_step_inv:
  assumes "pool_inv s" and "pool_step accepts ev s = Some s'"
  shows "pool_inv s'"
proof -
  have q: "queue_ok s'"
    using assms(1) pool_step_queue_ok [OF _ assms(2)] by (simp add: pool_inv_def)
  show ?thesis
  proof (cases ev rule: pool_event_cases)
    case manager
    with assms(2) have "mgr_step s = Some s'" by (simp add: pool_step_def)
    with q mgr_step_inv [OF assms(1)] mgr_step_sleep [OF assms(1)] show ?thesis by (simp add: pool_inv_def)
  next
    case (worker i)
    with assms(2) have "wrk_step accepts i s = Some s'" by (simp add: pool_step_def)
    with q wrk_step_inv [OF assms(1)] wrk_step_sleep [OF assms(1)] show ?thesis by (simp add: pool_inv_def)
  next
    case sigint
    with assms q show ?thesis
      by (auto simp: pool_step_def pool_inv_def mutex_ok_def exit_ok_def sleep_ok_def)
  next
    case spurious
    then obtain t where s': "s' = s\<lparr>on_full := on_full s - {t}, on_empty := on_empty s - {t}\<rparr>"
      using assms(2) spurious_step by blast
    have m: "mutex_ok s" and e: "exit_ok s" and sl: "sleep_ok s" using assms(1) by (simp_all add: pool_inv_def)
    from m s' have "mutex_ok s'" by (simp add: mutex_ok_def)
    moreover from e s' have "exit_ok s'" by (auto simp: exit_ok_def)
    moreover from sl s' have "sleep_ok s'" by (auto simp: sleep_ok_def)
    ultimately show ?thesis using q by (simp add: pool_inv_def)
  qed
qed

end
