(* ===== verification/CopyPlan.thy ===== *)
theory CopyPlan
  imports CopyPool "HOL-Library.Sublist"
begin

text \<open>
  What the parallel copier of \<^verbatim>\<open>hw4_2024\<close> achieves. \<open>tree_jobs\<close> is the specification of
  the traversal: the recursion over the tree that \<open>copyAll\<close> is, without queue and
  threads. \<open>pending\<close> are the jobs the manager has yet to queue. The invariants relate the
  two and follow every byte from its source to its sink; from them comes the theorem that
  once the manager and a worker have ended without a signal, every file of the tree has
  been taken, and once no worker holds a job, copied.
\<close>

section \<open>The traversal\<close>

definition mk_job :: "string \<Rightarrow> string \<Rightarrow> string \<Rightarrow> int \<Rightarrow> int \<Rightarrow> copy_job" where
  "mk_job src dst name sfd dfd =
     \<lparr>src_filename = join_path src name, dest_filename = join_path dst name,
      src_fd = sfd, dest_fd = dfd, job_empty = 0\<rparr>"

fun tree_jobs :: "string \<Rightarrow> string \<Rightarrow> (string \<times> node) list \<Rightarrow> copy_job list" where
  "tree_jobs src dst [] = []"
| "tree_jobs src dst ((name, Dir sub) # es) =
     (if name = ''.'' \<or> name = ''..'' then []
      else tree_jobs (join_path src name) (join_path dst name) sub) @ tree_jobs src dst es"
| "tree_jobs src dst ((name, Reg sfd dfd) # es) =
     (if name = ''.'' \<or> name = ''..'' then [] else [mk_job src dst name sfd dfd])
     @ tree_jobs src dst es"
| "tree_jobs src dst ((name, DirFail) # es) = tree_jobs src dst es"
| "tree_jobs src dst ((name, OtherEntry) # es) = tree_jobs src dst es"

fun stack_jobs :: "(string \<times> string \<times> (string \<times> node) list) list \<Rightarrow> copy_job list" where
  "stack_jobs [] = []"
| "stack_jobs ((src, dst, es) # rest) = tree_jobs src dst es @ stack_jobs rest"

fun head_job :: "mgr_pc \<Rightarrow> (string \<times> string \<times> (string \<times> node) list) list \<Rightarrow> copy_job list" where
  "head_job (MLock name a b) ((src, dst, es) # rest) = [mk_job src dst name a b]"
| "head_job (MHold name a b) ((src, dst, es) # rest) = [mk_job src dst name a b]"
| "head_job (MWait name a b) ((src, dst, es) # rest) = [mk_job src dst name a b]"
| "head_job _ _ = []"

lemma head_job_same [simp]:
  "head_job (MHold n a b) st = head_job (MLock n a b) st"
  "head_job (MWait n a b) st = head_job (MLock n a b) st"
  by (cases st; auto)+

definition pending :: "pool \<Rightarrow> copy_job list" where
  "pending s = head_job (mpc s) (mstack s) @ stack_jobs (mstack s)"

definition openable :: "copy_job \<Rightarrow> bool" where
  "openable j \<longleftrightarrow> src_fd j \<noteq> -1 \<and> dest_fd j \<noteq> -1"

lemma mgr_test_pending:
  assumes "mpc s = MTest"
  shows "(running_status s \<and> (\<forall>e. mpc (mgr_test s) \<noteq> MFault e) \<and> pending (mgr_test s) = pending s)
    \<or> (\<not> running_status s \<or> (\<exists>e. mpc (mgr_test s) = MFault e)) \<and> subseq (pending (mgr_test s)) (pending s)"
proof (cases "mstack s")
  case Nil
  then show ?thesis using assms by (auto simp: mgr_test_def pending_def)
next
  case (Cons f rest)
  obtain src dst es where f: "f = (src, dst, es)" by (cases f)
  show ?thesis
  proof (cases es)
    case Nil
    with Cons f assms show ?thesis by (auto simp: mgr_test_def pending_def)
  next
    case es: (Cons e others)
    obtain name entry where e: "e = (name, entry)" by (cases e)
    show ?thesis
      using assms Cons f es e
      by (cases entry) (auto simp: mgr_test_def pending_def Let_def mk_job_def)
  qed
qed

text \<open>
  A step of the manager moves the head of the pending jobs to the queue, leaves both
  lists, or (when it stops early) drops pending jobs.
\<close>

lemma mgr_step_pending:
  assumes q: "queue_ok s" and step: "mgr_step s = Some s'"
  shows "(produced s' @ pending s' = produced s @ pending s)
     \<or> ((\<not> running_status s \<or> (\<exists>e. mpc s' = MFault e) \<or> (\<exists>j\<in>set (pending s). \<not> openable j))
         \<and> produced s' = produced s \<and> subseq (pending s') (pending s))"
proof (cases "mpc s")
  case MTest
  then have "s' = mgr_test s" using step by (simp add: mgr_step_def)
  with mgr_test_pending [OF MTest] show ?thesis by auto
next
  case (MHold name sfd dfd)
  then have s': "s' = mgr_hold name sfd dfd s" using step by (simp add: mgr_step_def)
  show ?thesis
  proof (rule mgr_hold_cases [OF q, of name sfd dfd], goal_cases)
    case 1
    then show ?case using MHold s' by (cases "mstack s") (auto simp: pending_def)
  next
    case (2 e)
    then show ?case using MHold s' by (auto simp: pending_def)
  next
    case (3 f rest)
    obtain src dst es where f: "f = (src, dst, es)" by (cases f)
    have "pending s' = stack_jobs rest" using 3 s' by (simp add: pending_def)
    moreover have "pending s = mk_job src dst name sfd dfd # tree_jobs src dst es @ stack_jobs rest"
      using 3 f MHold by (simp add: pending_def)
    ultimately have "subseq (pending s') (pending s)"
        "\<exists>j\<in>set (pending s). \<not> openable j" "produced s' = produced s"
      using 3 s' by (auto simp: openable_def mk_job_def)
    then show ?thesis by blast
  next
    case (4 src dst others rest q job)
    then show ?case using MHold s' by (auto simp: pending_def mk_job_def)
  qed
qed (use step in \<open>auto simp: mgr_step_def pending_def split: if_splits\<close>)

lemma wrk_step_manager:
  assumes q: "queue_ok s" and "wrk_step accepts i s = Some s'"
  shows "mpc s' = mpc s \<and> mstack s' = mstack s \<and> produced s' = produced s
     \<and> running_status s' = running_status s"
proof (cases "workers s ! i")
  case WHold
  then have "s' = wrk_hold i s" using assms(2) by (simp add: wrk_step_def split: if_splits)
  then show ?thesis by (cases rule: wrk_hold_cases [OF q, of i]) auto
qed (use assms in \<open>auto simp: wrk_step_def split: if_splits\<close>)

definition plan_ok :: "copy_job list \<Rightarrow> pool \<Rightarrow> bool" where
  "plan_ok jobs s \<longleftrightarrow> (running_status s \<longrightarrow> (\<forall>e. mpc s \<noteq> MFault e)
     \<longrightarrow> produced s @ pending s = jobs)"

lemma pool_step_plan:
  assumes inv: "pool_inv s" and plan: "plan_ok jobs s" and op: "\<forall>j\<in>set jobs. openable j"
    and step: "pool_step accepts ev s = Some s'"
  shows "plan_ok jobs s'"
proof (cases ev rule: pool_event_cases)
  case manager
  then have m: "mgr_step s = Some s'" using step by (simp add: pool_step_def)
  have q: "queue_ok s" using inv by (simp add: pool_inv_def)
  have nf: "\<forall>e. mpc s \<noteq> MFault e" using m by (auto simp: mgr_step_def)
  have r: "running_status s' = running_status s"
    using m by (auto simp: mgr_step_def mgr_hold_def Let_def
        split: mgr_pc.splits if_splits list.splits prod.splits sum.splits)
  show ?thesis
    using mgr_step_pending [OF q m] plan nf r op by (auto simp: plan_ok_def)
next
  case (worker i)
  then have w: "wrk_step accepts i s = Some s'" using step by (simp add: pool_step_def)
  have "queue_ok s" using inv by (simp add: pool_inv_def)
  from wrk_step_manager [OF this w] plan show ?thesis by (simp add: plan_ok_def pending_def)
next
  case sigint
  then show ?thesis using step by (auto simp: pool_step_def plan_ok_def)
next
  case (spurious t)
  then show ?thesis using plan spurious_step [OF step [unfolded spurious]] by (simp add: plan_ok_def pending_def)
qed

section \<open>The bytes\<close>

fun held :: "wrk_pc \<Rightarrow> copy_job multiset" where
  "held (WCopy j) = {#j#}"
| "held (WLoad j c) = {#j#}"
| "held (WStore j c b) = {#j#}"
| "held _ = {#}"

fun wrk_data :: "(int \<Rightarrow> string) \<Rightarrow> pool \<Rightarrow> wrk_pc \<Rightarrow> bool" where
  "wrk_data c0 s (WCopy j) = (fd_sink s (dest_fd j) @ fd_source s (src_fd j) = c0 (src_fd j))"
| "wrk_data c0 s (WLoad j c) = (fd_sink s (dest_fd j) @ c @ fd_source s (src_fd j) = c0 (src_fd j))"
| "wrk_data c0 s (WStore j c b) = (fd_sink s (dest_fd j) @ c @ fd_source s (src_fd j) = c0 (src_fd j))"
| "wrk_data c0 s _ = True"

definition todo :: "pool \<Rightarrow> copy_job list" where
  "todo s = cq_items (queue s) @ pending s"

definition data_ok :: "(int \<Rightarrow> string) \<Rightarrow> pool \<Rightarrow> bool" where
  "data_ok c0 s \<longleftrightarrow>
     distinct (map src_fd (taken s @ todo s)) \<and> distinct (map dest_fd (taken s @ todo s))
   \<and> (\<forall>j\<in>set (todo s). fd_source s (src_fd j) = c0 (src_fd j) \<and> fd_sink s (dest_fd j) = [])
   \<and> mset (taken s) = mset (finished s) + sum_list (map held (workers s))
   \<and> (\<forall>j\<in>set (finished s). fd_sink s (dest_fd j) = c0 (src_fd j))
   \<and> (\<forall>i < length (workers s). wrk_data c0 s (workers s ! i))"

lemma held_take_out:
  "i < length ws \<Longrightarrow> sum_list (map held ws) = held (ws ! i) + sum_list (map held (ws[i := WTest]))"
  using sum_list_update_add [of i ws held WTest] by simp

lemma held_two:
  assumes "i < length ws" "k < length ws" "i \<noteq> k"
  shows "held (ws ! i) + held (ws ! k) \<subseteq># sum_list (map held ws)"
  using held_take_out [OF assms(1)] held_take_out [of k "ws[i := WTest]"] assms by simp

definition other_fds :: "copy_job \<Rightarrow> copy_job \<Rightarrow> bool" where
  "other_fds j k \<longleftrightarrow> src_fd k \<noteq> src_fd j \<and> dest_fd k \<noteq> dest_fd j"

lemma distinct_fds_other:
  assumes "distinct (map src_fd L)" "distinct (map dest_fd L)" "j \<in> set L" "k \<in> set L" "k \<noteq> j"
  shows "other_fds j k"
  using assms by (auto simp: other_fds_def distinct_map inj_on_def)

lemma busy_worker:
  assumes ok: "data_ok c0 s" and i: "i < length (workers s)" and h: "held (workers s ! i) = {#j#}"
  shows "j \<in> set (taken s)"
    and "\<forall>k\<in>set (finished s) \<union> set (todo s). other_fds j k"
    and "\<forall>k < length (workers s). k \<noteq> i \<longrightarrow> (\<forall>j'\<in>#held (workers s ! k). other_fds j j')"
proof -
  let ?L = "taken s @ todo s"
  have d: "distinct (map src_fd ?L)" "distinct (map dest_fd ?L)"
    and ms: "mset (taken s) = mset (finished s) + sum_list (map held (workers s))"
    using ok by (simp_all add: data_ok_def)
  have dt: "distinct (taken s)" "set (taken s) \<inter> set (todo s) = {}"
    using d(1) by (auto simp: distinct_map inj_on_def)
  have one: "count (mset (taken s)) k \<le> 1" for k
    using dt(1) by (simp add: distinct_count_atmost_1)
  have sub: "{#j#} \<subseteq># sum_list (map held (workers s))"
    using held_take_out [OF i] h by simp
  then show j: "j \<in> set (taken s)"
  proof -
    have "j \<in># mset (taken s)" using sub ms by simp
    then show ?thesis by simp
  qed
  have "j \<notin> set (finished s)"
  proof
    assume "j \<in> set (finished s)"
    then have "1 \<le> count (mset (finished s)) j"
      by (simp add: Suc_le_eq)
    moreover have "1 \<le> count (sum_list (map held (workers s))) j"
      using sub by (simp add: Suc_le_eq)
    moreover have "count (mset (taken s)) j
        = count (mset (finished s)) j + count (sum_list (map held (workers s))) j"
      unfolding ms by (rule count_union)
    ultimately show False using one [of j] by linarith
  qed
  moreover have "set (finished s) \<subseteq> set (taken s)" using ms by (metis set_mset_mset set_mset_union Un_upper1)
  moreover have "j \<notin> set (todo s)" using j dt(2) by blast
  ultimately show "\<forall>k\<in>set (finished s) \<union> set (todo s). other_fds j k"
    using d j by (auto intro!: distinct_fds_other [where L = ?L])
  show "\<forall>k < length (workers s). k \<noteq> i \<longrightarrow> (\<forall>j'\<in>#held (workers s ! k). other_fds j j')"
  proof (intro allI impI ballI)
    fix k j' assume k: "k < length (workers s)" "k \<noteq> i" and j': "j' \<in># held (workers s ! k)"
    then have two: "{#j#} + held (workers s ! k) \<subseteq># sum_list (map held (workers s))"
      using held_two [OF i k(1)] h by simp
    have "{#j#} + {#j'#} \<subseteq># {#j#} + held (workers s ! k)" using j' by simp
    also note two
    also have "sum_list (map held (workers s)) \<subseteq># mset (taken s)" using ms by simp
    finally have le: "{#j#} + {#j'#} \<subseteq># mset (taken s)" .
    have "j' \<noteq> j"
    proof
      assume "j' = j"
      then have "2 \<le> count (mset (taken s)) j" using mset_subset_eq_count [OF le, of j] by simp
      then show False using one [of j] by simp
    qed
    moreover have "j' \<in> set (taken s)" using mset_subset_eqD [OF le, of j'] by simp
    ultimately show "other_fds j j'" using d j by (intro distinct_fds_other [where L = ?L]) auto
  qed
qed

lemma other_fds_sym: "other_fds j k \<longleftrightarrow> other_fds k j"
  by (auto simp: other_fds_def)

lemma wrk_data_held: "held pc = {#} \<Longrightarrow> wrk_data c0 s pc"
  by (cases pc) auto

text \<open>A worker whose job has other descriptors does not notice an update at \<open>j\<close>.\<close>

lemma wrk_data_frame:
  assumes "wrk_data c0 s pc" and "\<forall>j'\<in>#held pc. other_fds j j'"
    and "\<And>fd. fd \<noteq> src_fd j \<Longrightarrow> fd_source s' fd = fd_source s fd"
    and "\<And>fd. fd \<noteq> dest_fd j \<Longrightarrow> fd_sink s' fd = fd_sink s fd"
  shows "wrk_data c0 s' pc"
  using assms by (cases pc) (auto simp: other_fds_def)

text \<open>A step of worker \<open>i\<close> on its job \<open>j\<close> that only touches the job's own descriptors.\<close>

lemma data_ok_own_step:
  assumes ok: "data_ok c0 s" and i: "i < length (workers s)" and h: "held (workers s ! i) = {#j#}"
    and src: "\<And>fd. fd \<noteq> src_fd j \<Longrightarrow> fd_source s' fd = fd_source s fd"
    and dst: "\<And>fd. fd \<noteq> dest_fd j \<Longrightarrow> fd_sink s' fd = fd_sink s fd"
    and ws: "workers s' = (workers s)[i := pc]"
    and same: "taken s' = taken s" "todo s' = todo s"
    and fin: "held pc = {#j#} \<and> finished s' = finished s
       \<or> held pc = {#} \<and> finished s' = finished s @ [j] \<and> fd_sink s' (dest_fd j) = c0 (src_fd j)"
    and own: "wrk_data c0 s' pc"
  shows "data_ok c0 s'"
proof -
  note busy = busy_worker [OF ok i h]
  have "mset (taken s') = mset (finished s') + sum_list (map held (workers s'))"
    using ok fin held_take_out [OF i] held_take_out [of i "workers s'"] i h ws
    by (auto simp: data_ok_def same)
  moreover have "\<forall>k\<in>set (todo s'). fd_source s' (src_fd k) = c0 (src_fd k) \<and> fd_sink s' (dest_fd k) = []"
    using ok busy(2) src dst by (auto simp: data_ok_def same other_fds_def)
  moreover have "\<forall>k\<in>set (finished s'). fd_sink s' (dest_fd k) = c0 (src_fd k)"
    using ok busy(2) dst fin by (auto simp: data_ok_def other_fds_def)
  moreover have "wrk_data c0 s' (workers s' ! k)" if k: "k < length (workers s')" for k
  proof (cases "k = i")
    case True
    with own ws i show ?thesis by simp
  next
    case False
    with k ws have "workers s' ! k = workers s ! k" "k < length (workers s)" by simp_all
    then show ?thesis
      using wrk_data_frame [of c0 s "workers s ! k" j s'] ok busy(3) False src dst
      by (auto simp: data_ok_def)
  qed
  ultimately show ?thesis using ok by (simp add: data_ok_def same)
qed

text \<open>A step of worker \<open>i\<close> that holds no job before and after.\<close>

lemma data_ok_idle_step:
  assumes ok: "data_ok c0 s" and i: "i < length (workers s)" and h: "held (workers s ! i) = {#}"
    and same: "fd_source s' = fd_source s" "fd_sink s' = fd_sink s" "taken s' = taken s"
      "todo s' = todo s" "finished s' = finished s"
    and ws: "workers s' = (workers s)[i := pc]" and pc: "held pc = {#}"
  shows "data_ok c0 s'"
proof -
  have "wrk_data c0 s' (workers s' ! k)" if k: "k < length (workers s')" for k
  proof (cases "k = i")
    case True
    with pc ws i show ?thesis by (simp add: wrk_data_held)
  next
    case False
    with k ws have "workers s' ! k = workers s ! k" "k < length (workers s)" by simp_all
    moreover from this have "wrk_data c0 s (workers s ! k)" using ok by (simp add: data_ok_def)
    ultimately show ?thesis using same by (cases "workers s ! k") auto
  qed
  moreover have "sum_list (map held (workers s')) = sum_list (map held (workers s))"
    using held_take_out [OF i] held_take_out [of i "workers s'"] i h pc ws by simp
  ultimately show ?thesis using ok by (simp add: data_ok_def same)
qed

lemma data_ok_take_step:
  assumes ok: "data_ok c0 s" and i: "i < length (workers s)" and h: "held (workers s ! i) = {#}"
    and same: "fd_source s' = fd_source s" "fd_sink s' = fd_sink s" "finished s' = finished s"
    and move: "taken s' = taken s @ [j]" "todo s = j # todo s'"
    and ws: "workers s' = (workers s)[i := WCopy j]"
  shows "data_ok c0 s'"
proof -
  have "wrk_data c0 s' (workers s' ! k)" if k: "k < length (workers s')" for k
  proof (cases "k = i")
    case True
    with ok ws i move same show ?thesis by (simp add: data_ok_def)
  next
    case False
    with k ws have "workers s' ! k = workers s ! k" "k < length (workers s)" by simp_all
    moreover from this have "wrk_data c0 s (workers s ! k)" using ok by (simp add: data_ok_def)
    ultimately show ?thesis using same by (cases "workers s ! k") auto
  qed
  moreover have "sum_list (map held (workers s')) = {#j#} + sum_list (map held (workers s))"
    using held_take_out [OF i] held_take_out [of i "workers s'"] i h ws by simp
  ultimately show ?thesis using ok by (simp add: data_ok_def same move)
qed

lemma subseq_prepend: "subseq ys zs \<Longrightarrow> subseq (xs @ ys) (xs @ zs)"
  by (rule list_emb_append_mono) simp_all

lemma subseq_distinct: "subseq xs ys \<Longrightarrow> distinct ys \<Longrightarrow> distinct xs"
  by (auto simp: subseq_conv_nths intro: distinct_nthsI)

lemma subseq_subset: "subseq xs ys \<Longrightarrow> set xs \<subseteq> set ys"
  by (auto simp: subseq_conv_nths dest: in_set_nthsD)

lemma data_ok_manager:
  assumes ok: "data_ok c0 s"
    and same: "fd_source s' = fd_source s" "fd_sink s' = fd_sink s" "taken s' = taken s"
      "finished s' = finished s" "workers s' = workers s"
    and sub: "subseq (todo s') (todo s)"
  shows "data_ok c0 s'"
proof -
  have "subseq (taken s @ todo s') (taken s @ todo s)" using sub by (rule subseq_prepend)
  then have "distinct (map src_fd (taken s @ todo s'))" "distinct (map dest_fd (taken s @ todo s'))"
    using ok subseq_distinct [OF subseq_map] unfolding data_ok_def by blast+
  moreover have "set (todo s') \<subseteq> set (todo s)" using sub by (rule subseq_subset)
  moreover have "wrk_data c0 s pc \<Longrightarrow> wrk_data c0 s' pc" for pc
    using same by (cases pc) auto
  ultimately show ?thesis using ok by (auto simp: data_ok_def same)
qed

lemma todo_taken: "queue_ok s \<Longrightarrow> produced s @ pending s = taken s @ todo s"
  by (simp add: queue_ok_def todo_def)

lemma mgr_step_data:
  assumes q: "queue_ok s" and ok: "data_ok c0 s" and m: "mgr_step s = Some s'"
  shows "data_ok c0 s'"
proof -
  have q': "queue_ok s'" using q m by (rule mgr_step_queue_ok)
  have same: "fd_source s' = fd_source s" "fd_sink s' = fd_sink s" "taken s' = taken s"
      "finished s' = finished s" "workers s' = workers s"
    using m by (auto simp: mgr_step_def mgr_hold_def Let_def
        split: mgr_pc.splits if_splits list.splits prod.splits sum.splits)
  have "subseq (todo s') (todo s)"
    using mgr_step_pending [OF q m] q q' same(3) by (auto simp: queue_ok_def todo_def intro: subseq_prepend)
  with ok same show ?thesis by (rule data_ok_manager)
qed

lemma wrk_step_data:
  assumes full: "\<forall>fd c. length c \<le> accepts fd c" and q: "queue_ok s" and ok: "data_ok c0 s"
    and w: "wrk_step accepts i s = Some s'"
  shows "data_ok c0 s'"
proof -
  have i: "i < length (workers s)" using w by (auto simp: wrk_step_def split: if_splits)
  have own: "wrk_data c0 s (workers s ! i)" using ok i by (simp add: data_ok_def)
  have p: "pending s' = pending s" using wrk_step_manager [OF q w] by (simp add: pending_def)
  show ?thesis
  proof (cases "workers s ! i")
    case WHold
    then have s': "s' = wrk_hold i s" using w i by (simp add: wrk_step_def)
    show ?thesis
    proof (rule wrk_hold_cases [OF q, of i], goal_cases)
      case 1
      then show ?case using s' data_ok_idle_step [OF ok i, of s' WExit] WHold p by (simp add: todo_def)
    next
      case 2
      then show ?case using s' data_ok_idle_step [OF ok i, of s' WWait] WHold p by (simp add: todo_def)
    next
      case (3 job q')
      then show ?case using s' data_ok_take_step [OF ok i, of s' job] WHold p by (simp add: todo_def)
    qed
  next
    case (WCopy j)
    have s': "s' = wrk_copy i j s" using w i WCopy by (simp add: wrk_step_def)
    have "wrk_data c0 s' (copy_pc j s)"
      using own WCopy s' by (auto simp: wrk_copy_def copy_pc_def Let_def)
    then show ?thesis
      using s' WCopy own p
      by (intro data_ok_own_step [OF ok i, where j = j and pc = "copy_pc j s"])
         (auto simp: workers_wrk_copy todo_def wrk_copy_def copy_pc_def Let_def)
  next
    case (WLoad j c)
    have "s' = set_wrk i (WStore j c (totalBytesCopied s)) s" using w i WLoad by (simp add: wrk_step_def)
    then show ?thesis
      using WLoad own p
      by (intro data_ok_own_step [OF ok i, where j = j and pc = "WStore j c (totalBytesCopied s)"])
         (auto simp: todo_def)
  next
    case (WStore j c b)
    have s': "s' = wrk_store accepts i j c b s" using w i WStore by (simp add: wrk_step_def)
    have "wrk_data c0 s' (WCopy j)" using s' WStore own full by (simp add: wrk_store_def)
    then show ?thesis
      using s' WStore p
      by (intro data_ok_own_step [OF ok i, where j = j and pc = "WCopy j"])
         (auto simp: todo_def wrk_store_def)
  next
    case WTest
    then show ?thesis
      using w i p data_ok_idle_step [OF ok i, of s' "workers s' ! i"]
      by (auto simp: wrk_step_def todo_def split: if_splits)
  next
    case WTestCount
    then show ?thesis
      using w i p data_ok_idle_step [OF ok i, of s' "workers s' ! i"]
      by (auto simp: wrk_step_def todo_def split: if_splits)
  next
    case WLock
    then show ?thesis
      using w i p data_ok_idle_step [OF ok i, of s' WHold]
      by (auto simp: wrk_step_def todo_def split: if_splits)
  next
    case WWait
    then show ?thesis
      using w i p data_ok_idle_step [OF ok i, of s' WHold]
      by (auto simp: wrk_step_def todo_def split: if_splits)
  qed (use w i in \<open>auto simp: wrk_step_def\<close>)
qed

lemma pool_step_data:
  assumes full: "\<forall>fd c. length c \<le> accepts fd c" and inv: "pool_inv s" and ok: "data_ok c0 s"
    and step: "pool_step accepts ev s = Some s'"
  shows "data_ok c0 s'"
proof (cases ev rule: pool_event_cases)
  case manager
  then show ?thesis
    using step inv mgr_step_data [OF _ ok] by (simp add: pool_step_def pool_inv_def)
next
  case (worker i)
  then show ?thesis
    using step inv wrk_step_data [OF full _ ok] by (simp add: pool_step_def pool_inv_def)
next
  case sigint
  then have s': "s' = s\<lparr>running_status := False\<rparr>" using step by (simp add: pool_step_def)
  have "wrk_data c0 s pc \<Longrightarrow> wrk_data c0 s' pc" for pc using s' by (cases pc) auto
  then show ?thesis using ok s' by (auto simp: data_ok_def todo_def pending_def)
next
  case (spurious t)
  note s' = spurious_step [OF step [unfolded spurious]]
  have "wrk_data c0 s pc \<Longrightarrow> wrk_data c0 s' pc" for pc using s' by (cases pc) auto
  then show ?thesis using ok s' by (auto simp: data_ok_def todo_def pending_def)
qed

section \<open>Every schedule from the start\<close>

definition end_ok :: "pool \<Rightarrow> bool" where
  "end_ok s \<longleftrightarrow> (mpc s \<in> {MEndLock, MEnd, MExit} \<longrightarrow> mstack s = [])"

lemma mgr_test_end:
  "mpc s = MTest \<Longrightarrow> mpc (mgr_test s) \<in> {MEndLock, MEnd, MExit} \<Longrightarrow> mstack (mgr_test s) = []"
  by (cases "mstack s") (simp_all add: mgr_test_def Let_def split: list.splits prod.splits node.splits if_splits)

lemma mgr_step_end:
  assumes "queue_ok s" "end_ok s" "mgr_step s = Some s'"
  shows "end_ok s'"
proof (cases "mpc s")
  case MTest
  then have "s' = mgr_test s" using assms(3) by (simp add: mgr_step_def)
  then show ?thesis using mgr_test_end [OF MTest] unfolding end_ok_def by blast
next
  case (MHold n a b)
  then have s': "s' = mgr_hold n a b s" using assms(3) by (simp add: mgr_step_def)
  show ?thesis unfolding s'
    by (rule mgr_hold_cases [OF assms(1), of n a b]) (use MHold in \<open>auto simp: end_ok_def\<close>)
qed (use assms in \<open>auto simp: mgr_step_def end_ok_def split: if_splits\<close>)

lemma pool_step_end:
  assumes "pool_inv s" "end_ok s" "pool_step accepts ev s = Some s'"
  shows "end_ok s'"
proof (cases ev rule: pool_event_cases)
  case manager
  then show ?thesis using assms mgr_step_end [of s s'] by (simp add: pool_step_def pool_inv_def)
next
  case (worker i)
  then have w: "wrk_step accepts i s = Some s'" using assms(3) by (simp add: pool_step_def)
  have "queue_ok s" using assms(1) by (simp add: pool_inv_def)
  from wrk_step_manager [OF this w] assms(2) show ?thesis by (simp add: end_ok_def)
next
  case sigint
  then show ?thesis using assms by (auto simp: pool_step_def end_ok_def)
next
  case (spurious t)
  then show ?thesis using assms(2) spurious_step [OF assms(3) [unfolded spurious]] by (simp add: end_ok_def)
qed

lemma pool_init_queue:
  assumes "0 < bufferSize" "int (length block) = bufferSize"
  shows "cq_inv (queue (pool_init bufferSize n block src dst root contents))"
    and "cq_items (queue (pool_init bufferSize n block src dst root contents)) = []"
  using cq_init_inv [of "\<lambda>_. block" bufferSize
      "\<lparr>cq_buffer = [], cq_counter = 0, cq_last = 0, cq_size = 0, buffer_size_counter = 0\<rparr>"] assms
  by (simp_all add: pool_init_def)

lemma pool_init_inv:
  assumes "0 < bufferSize" "int (length block) = bufferSize"
  shows "pool_inv (pool_init bufferSize n block src dst root contents)"
  using pool_init_queue [OF assms, of n src dst root contents]
  by (auto simp: pool_inv_def queue_ok_def mutex_ok_def exit_ok_def sleep_ok_def pool_init_def cq_init_def)

lemma pool_run_inv:
  "pool_inv s \<Longrightarrow> pool_inv (sched_run (pool_step accepts) evs s)"
  by (rule sched_run_invariant [where I = pool_inv]) (rule pool_step_inv)

lemma pool_run_plan:
  assumes "pool_inv s" "plan_ok jobs s" "end_ok s" and op: "\<forall>j\<in>set jobs. openable j"
  shows "pool_inv (sched_run (pool_step accepts) evs s)
    \<and> plan_ok jobs (sched_run (pool_step accepts) evs s)
    \<and> end_ok (sched_run (pool_step accepts) evs s)"
proof (rule sched_run_invariant [where I = "\<lambda>s. pool_inv s \<and> plan_ok jobs s \<and> end_ok s"])
  fix ev t t'
  assume I: "pool_inv t \<and> plan_ok jobs t \<and> end_ok t" and st: "pool_step accepts ev t = Some t'"
  then have i: "pool_inv t" and p: "plan_ok jobs t" and e: "end_ok t" by simp_all
  show "pool_inv t' \<and> plan_ok jobs t' \<and> end_ok t'"
    using pool_step_inv [OF i st] pool_step_plan [OF i p op st] pool_step_end [OF i e st] by simp
qed (use assms in simp)

lemma pool_run_data:
  assumes full: "\<forall>fd c. length c \<le> accepts fd c" and "pool_inv s" "data_ok c0 s"
  shows "data_ok c0 (sched_run (pool_step accepts) evs s)"
proof -
  have "pool_inv (sched_run (pool_step accepts) evs s)
      \<and> data_ok c0 (sched_run (pool_step accepts) evs s)"
  proof (rule sched_run_invariant [where I = "\<lambda>s. pool_inv s \<and> data_ok c0 s"])
    fix ev t t'
    assume I: "pool_inv t \<and> data_ok c0 t" and st: "pool_step accepts ev t = Some t'"
    then have i: "pool_inv t" and d: "data_ok c0 t" by simp_all
    show "pool_inv t' \<and> data_ok c0 t'"
      using pool_step_inv [OF i st] pool_step_data [OF full i d st] by simp
  qed (use assms in simp)
  then show ?thesis ..
qed

lemma pool_init_plan:
  assumes "0 < bufferSize" "int (length block) = bufferSize"
  shows "plan_ok (tree_jobs src dst es) (pool_init bufferSize n block src dst (Dir es) contents)"
    and "end_ok (pool_init bufferSize n block src dst (Dir es) contents)"
  by (simp_all add: plan_ok_def end_ok_def pool_init_def pending_def)

lemma sum_held_idle: "\<forall>pc\<in>set ws. held pc = {#} \<Longrightarrow> sum_list (map held ws) = {#}"
  by (induction ws) auto

lemma pool_init_data:
  assumes b: "0 < bufferSize" "int (length block) = bufferSize"
    and d: "distinct (map src_fd (tree_jobs src dst es))" "distinct (map dest_fd (tree_jobs src dst es))"
  shows "data_ok contents (pool_init bufferSize n block src dst (Dir es) contents)"
proof -
  let ?s = "pool_init bufferSize n block src dst (Dir es) contents"
  have t: "todo ?s = tree_jobs src dst es"
    using pool_init_queue(2) [OF b] by (simp add: todo_def pending_def pool_init_def)
  have r: "fd_source ?s = contents" "fd_sink ?s = (\<lambda>_. [])" "taken ?s = []" "finished ?s = []"
      "workers ?s = replicate n WTest"
    by (simp_all add: pool_init_def)
  have "sum_list (map held (replicate n WTest)) = {#}" by (rule sum_held_idle) simp
  then show ?thesis using d by (simp add: data_ok_def t r)
qed

end
