(* ===== verification/CText.thy ===== *)
theory CText
  imports Prelude
begin

text \<open>
  C strings and the parts of the C library that the programs apply to them. A C string is
  the \<open>string\<close> of its characters before the terminating NUL. \<open>dec\<close> is \<^verbatim>\<open>%d\<close> of \<^verbatim>\<open>printf\<close>,
  \<open>c_atoi\<close> is the number that \<^verbatim>\<open>atoi\<close> reads; the result of \<^verbatim>\<open>atoi\<close> is that number where it fits an
  \<^verbatim>\<open>int\<close> and undefined beyond, so that what is said of an argument of 2^31 or more is not said
  of the programs. (\<open>c_strtol\<close> of \<open>FifoCalc\<close>, whose result is cut to an \<^verbatim>\<open>int\<close>, is exact.) \<open>c_strncmp0\<close> is the test \<^verbatim>\<open>strncmp(a, b, n) == 0\<close>, \<open>split_on\<close> and \<open>tokens\<close> are
  what a loop over \<^verbatim>\<open>strtok\<close> sees.
\<close>

section \<open>Characters\<close>

definition newline :: char where "newline = CHR 0x0A"

definition c_isdigit :: "char \<Rightarrow> bool" where
  "c_isdigit c \<longleftrightarrow> 48 \<le> (of_char c :: nat) \<and> (of_char c :: nat) \<le> 57"

definition c_isspace :: "char \<Rightarrow> bool" where
  "c_isspace c \<longleftrightarrow> (of_char c :: nat) = 32 \<or> (9 \<le> (of_char c :: nat) \<and> (of_char c :: nat) \<le> 13)"

definition digit_char :: "nat \<Rightarrow> char" where
  "digit_char d = char_of (48 + d mod 10)"

definition digit_val :: "char \<Rightarrow> nat" where
  "digit_val c = of_char c - 48"

lemma digit_char_code: "(of_char (digit_char d) :: nat) = 48 + d mod 10"
proof -
  have "48 + d mod 10 < 256" using mod_less_divisor [of 10 d] by simp
  then show ?thesis by (simp add: digit_char_def of_char_of)
qed

lemma digit_char [simp]: "c_isdigit (digit_char d)" "digit_val (digit_char d) = d mod 10"
  "\<not> c_isspace (digit_char d)" "digit_char d \<noteq> CHR ''-''" "digit_char d \<noteq> CHR ''+''"
proof -
  have b: "d mod 10 < 10" by simp
  show "c_isdigit (digit_char d)" using b by (simp add: c_isdigit_def digit_char_code)
  show "digit_val (digit_char d) = d mod 10" by (simp add: digit_val_def digit_char_code)
  show "\<not> c_isspace (digit_char d)" using b by (simp add: c_isspace_def digit_char_code)
  show "digit_char d \<noteq> CHR ''-''" "digit_char d \<noteq> CHR ''+''"
    using digit_char_code [of d] by auto
qed

section \<open>Decimal numbers\<close>

fun dec_nat :: "nat \<Rightarrow> string" where
  "dec_nat n = (if n < 10 then [digit_char n] else dec_nat (n div 10) @ [digit_char n])"

declare dec_nat.simps [simp del]

definition dec :: "int \<Rightarrow> string" where
  "dec i = (if i < 0 then CHR ''-'' # dec_nat (nat (- i)) else dec_nat (nat i))"

text \<open>\<open>pad0 w i\<close> is \<^verbatim>\<open>%0wd\<close> for a number that is not negative.\<close>

definition pad0 :: "nat \<Rightarrow> int \<Rightarrow> string" where
  "pad0 w i = replicate (w - length (dec i)) (CHR ''0'') @ dec i"

definition digits_val :: "string \<Rightarrow> nat" where
  "digits_val s = foldl (\<lambda>a c. 10 * a + digit_val c) 0 s"

fun atoi_sign :: "string \<Rightarrow> int" where
  "atoi_sign (c # s) = (if c = CHR ''-'' then - int (digits_val (takeWhile c_isdigit s))
     else if c = CHR ''+'' then int (digits_val (takeWhile c_isdigit s))
     else int (digits_val (takeWhile c_isdigit (c # s))))"
| "atoi_sign [] = 0"

definition c_atoi :: "string \<Rightarrow> int" where
  "c_atoi s = atoi_sign (dropWhile c_isspace s)"

lemma dec_nat_digits: "\<forall>c\<in>set (dec_nat n). \<exists>d. c = digit_char d"
proof (induction n rule: dec_nat.induct)
  case (1 n)
  then show ?case by (subst dec_nat.simps) auto
qed

lemma dec_nat_nonempty [simp]: "dec_nat n \<noteq> []"
  by (subst dec_nat.simps) simp

lemma dec_nonempty [simp]: "dec i \<noteq> []"
  by (simp add: dec_def)

lemma digits_val_snoc: "digits_val (s @ [c]) = 10 * digits_val s + digit_val c"
  by (simp add: digits_val_def)

lemma digits_val_dec_nat: "digits_val (dec_nat n) = n"
proof (induction n rule: dec_nat.induct)
  case (1 n)
  show ?case
  proof (cases "n < 10")
    case True
    then show ?thesis by (subst dec_nat.simps) (simp add: digits_val_def)
  next
    case False
    then show ?thesis using 1 by (subst dec_nat.simps) (simp add: digits_val_snoc)
  qed
qed

lemma takeWhile_dec_nat: "takeWhile c_isdigit (dec_nat n) = dec_nat n"
  using dec_nat_digits [of n] by (auto intro: takeWhile_eq_all_conv [THEN iffD2])

lemma dec_nat_head: "\<exists>d s. dec_nat n = digit_char d # s"
  using dec_nat_digits [of n] by (cases "dec_nat n") auto

lemma atoi_sign_dec_nat: "atoi_sign (dec_nat n) = int n"
proof -
  obtain d s where ds: "dec_nat n = digit_char d # s" using dec_nat_head by blast
  then have "atoi_sign (dec_nat n) = int (digits_val (takeWhile c_isdigit (dec_nat n)))" by simp
  then show ?thesis by (simp add: takeWhile_dec_nat digits_val_dec_nat)
qed

lemma dropWhile_dec: "dropWhile c_isspace (dec i) = dec i"
proof -
  obtain d s where "dec_nat (nat i) = digit_char d # s" using dec_nat_head by blast
  moreover have "\<not> c_isspace (CHR ''-'')" by (simp add: c_isspace_def)
  ultimately show ?thesis by (auto simp: dec_def)
qed

lemma atoi_dec: "c_atoi (dec i) = i"
proof (cases "i < 0")
  case True
  then show ?thesis
    by (simp add: c_atoi_def dropWhile_dec) (simp add: dec_def takeWhile_dec_nat digits_val_dec_nat)
next
  case False
  then show ?thesis
    by (simp add: c_atoi_def dropWhile_dec) (simp add: dec_def atoi_sign_dec_nat)
qed

lemma dec_inj: "dec i = dec j \<longleftrightarrow> i = j"
  by (metis atoi_dec)

text \<open>The characters of a printed number.\<close>

lemma dec_chars: "c \<in> set (dec i) \<Longrightarrow> c = CHR ''-'' \<or> c_isdigit c"
  using dec_nat_digits by (fastforce simp: dec_def split: if_splits)

section \<open>Comparison and tokens\<close>

definition c_strncmp0 :: "string \<Rightarrow> string \<Rightarrow> nat \<Rightarrow> bool" where
  "c_strncmp0 a b n \<longleftrightarrow> take n a = take n b"

fun split_on :: "char \<Rightarrow> string \<Rightarrow> string list" where
  "split_on d [] = [[]]"
| "split_on d (c # s) =
     (if c = d then [] # split_on d s
      else case split_on d s of [] \<Rightarrow> [[c]] | w # ws \<Rightarrow> (c # w) # ws)"

definition tokens :: "char \<Rightarrow> string \<Rightarrow> string list" where
  "tokens d s = filter (\<lambda>w. w \<noteq> []) (split_on d s)"

lemma split_on_nonempty [simp]: "split_on d s \<noteq> []"
  by (induction s) (auto split: list.split)

lemma split_on_word: "d \<notin> set w \<Longrightarrow> split_on d w = [w]"
  by (induction w) auto

lemma split_on_app: "d \<notin> set w \<Longrightarrow> split_on d (w @ d # s) = w # split_on d s"
  by (induction w) (auto split: list.split)

lemma tokens_word: "d \<notin> set w \<Longrightarrow> w \<noteq> [] \<Longrightarrow> tokens d w = [w]"
  by (simp add: tokens_def split_on_word)

lemma tokens_app: "d \<notin> set w \<Longrightarrow> w \<noteq> [] \<Longrightarrow> tokens d (w @ d # s) = w # tokens d s"
  by (simp add: tokens_def split_on_app)

lemma tokens_Nil [simp]: "tokens d [] = []"
  by (simp add: tokens_def)

lemma tokens_free: "w \<in> set (tokens d s) \<Longrightarrow> d \<notin> set w \<and> w \<noteq> []"
  unfolding tokens_def
proof (induction s arbitrary: w)
  case Nil
  then show ?case by simp
next
  case (Cons c s)
  then show ?case by (fastforce split: if_splits list.splits)
qed


section \<open>Lines\<close>

definition ln :: "string \<Rightarrow> string" where
  "ln s = s @ [newline]"

text \<open>The file that has these lines, each ended by a newline.\<close>

definition text_of :: "string list \<Rightarrow> string" where
  "text_of ls = concat (map ln ls)"

lemma text_of_simps [simp]:
  "text_of [] = []" "text_of (l # ls) = ln l @ text_of ls" "text_of (ls @ ks) = text_of ls @ text_of ks"
  by (simp_all add: text_of_def)

section \<open>strcmp\<close>

text \<open>The characters compare as \<^verbatim>\<open>unsigned char\<close>; the end of a string is the value 0.\<close>

fun c_strcmp :: "string \<Rightarrow> string \<Rightarrow> int" where
  "c_strcmp [] [] = 0"
| "c_strcmp [] (b # bs) = (if of_char b = (0::int) then 0 else -1)"
| "c_strcmp (a # as) [] = (if of_char a = (0::int) then 0 else 1)"
| "c_strcmp (a # as) (b # bs) =
     (if a = b then c_strcmp as bs
      else if (of_char a :: int) < of_char b then -1 else 1)"

definition c_text :: "string \<Rightarrow> bool" where
  "c_text s \<longleftrightarrow> CHR 0x00 \<notin> set s"

definition c_string :: "string \<Rightarrow> string" where
  "c_string bytes = takeWhile (\<lambda>c. c \<noteq> CHR 0x00) bytes"

lemma c_string_text: "c_text s \<Longrightarrow> c_string s = s"
  by (auto simp: c_text_def c_string_def)

lemma of_char_int_eq: "(of_char a :: int) = of_char b \<longleftrightarrow> a = b"
  by (metis char_of_char)

lemma of_char_0: "(of_char c :: int) = 0 \<longleftrightarrow> c = CHR 0x00"
  using of_char_int_eq [of c "CHR 0x00"] by simp

lemma c_text_Cons [simp]: "c_text (c # s) \<longleftrightarrow> c \<noteq> CHR 0x00 \<and> c_text s" "c_text []"
  by (auto simp: c_text_def)

lemma c_strcmp_refl [simp]: "c_strcmp a a = 0"
  by (induction a) auto

lemma c_strcmp_eq: "c_text a \<Longrightarrow> c_text b \<Longrightarrow> c_strcmp a b = 0 \<longleftrightarrow> a = b"
  by (induction a b rule: c_strcmp.induct) (auto simp: of_char_0)

lemma c_strcmp_swap: "c_strcmp b a = - c_strcmp a b"
proof (induction a b rule: c_strcmp.induct)
  case (4 a as b bs)
  then show ?case using of_char_int_eq [of a b] by auto
qed auto

lemma c_strcmp_trans:
  "c_text a \<Longrightarrow> c_text b \<Longrightarrow> c_text c \<Longrightarrow> c_strcmp a b \<le> 0 \<Longrightarrow> c_strcmp b c \<le> 0 \<Longrightarrow> c_strcmp a c \<le> 0"
proof (induction a b arbitrary: c rule: c_strcmp.induct)
  case (4 a as b bs)
  then show ?case by (cases c) (auto simp: of_char_0 split: if_splits)
next
  case (2 b bs)
  then show ?case by (cases c) auto
qed (auto simp: of_char_0)

lemma c_strcmp_total: "c_strcmp a b \<le> 0 \<or> c_strcmp b a \<le> 0"
  using c_strcmp_swap [of a b] by linarith

end
