(* ===== verification/CopyProps.thy ===== *)
theory CopyProps
  imports CopyPlan CText
begin

text \<open>
  The properties of the parallel copier of \<^verbatim>\<open>hw4_2024\<close>, over every schedule of the
  manager, the workers and the interrupt signal, and three concrete runs: a complete copy,
  the lost update of the unprotected byte counter, and the mutex that stays locked when
  an \<open>open\<close> fails.
\<close>

section \<open>Nobody waits for a mutex that is never released\<close>

definition owner_ok :: "pool \<Rightarrow> bool" where
  "owner_ok s \<longleftrightarrow>
     (buffer_mutex s = Some Manager \<longrightarrow> mgr_section (mpc s) \<or> (\<exists>e. mpc s = MFault e))
   \<and> (\<forall>i. buffer_mutex s = Some (Worker i) \<longrightarrow> i < length (workers s) \<and> workers s ! i = WHold)
   \<and> (\<forall>w\<in>set (workers s). \<forall>e. w \<noteq> WFault e)"

lemma mgr_section_cases:
  "mgr_section pc \<longleftrightarrow> (\<exists>n a b. pc = MHold n a b) \<or> pc = MEnd"
  by (cases pc) auto

lemma owner_other:
  assumes "pool_inv s" "owner_ok s" "mgr_section (mpc s)"
  shows "buffer_mutex s = Some Manager"
  using assms by (simp add: pool_inv_def mutex_ok_def)

lemma mgr_step_owner:
  assumes inv: "pool_inv s" and ow: "owner_ok s" and op: "\<forall>j\<in>set (pending s). openable j"
    and step: "mgr_step s = Some s'"
  shows "owner_ok s'"
proof (cases "mpc s")
  case MTest
  then have s': "s' = mgr_test s" using step by (simp add: mgr_step_def)
  have "buffer_mutex s \<noteq> Some Manager" using ow MTest by (simp add: owner_ok_def)
  then show ?thesis using ow s' by (simp add: owner_ok_def)
next
  case (MHold name sfd dfd)
  then have s': "s' = mgr_hold name sfd dfd s" using step by (simp add: mgr_step_def)
  have q: "queue_ok s" using inv by (simp add: pool_inv_def)
  have m: "buffer_mutex s = Some Manager" using owner_other [OF inv ow] MHold by simp
  show ?thesis
  proof (rule mgr_hold_cases [OF q, of name sfd dfd], goal_cases)
    case (3 f rest)
    obtain src dst es where "f = (src, dst, es)" by (cases f)
    then have "mk_job src dst name sfd dfd \<in> set (pending s)"
      using 3 MHold by (simp add: pending_def)
    then show ?case using op 3 by (auto simp: openable_def mk_job_def)
  qed (use ow m s' in \<open>auto simp: owner_ok_def\<close>)
next
  case MEndLock
  then show ?thesis using step ow by (auto simp: mgr_step_def owner_ok_def split: if_splits)
next
  case (MLock n a b)
  then show ?thesis using step ow by (auto simp: mgr_step_def owner_ok_def split: if_splits)
next
  case (MWait n a b)
  then show ?thesis using step ow by (auto simp: mgr_step_def owner_ok_def split: if_splits)
qed (use step ow in \<open>auto simp: mgr_step_def owner_ok_def\<close>)

lemma no_fault_update:
  assumes "\<forall>w\<in>set ws. \<forall>e. w \<noteq> WFault e" "\<forall>e. pc \<noteq> WFault e"
  shows "\<forall>w\<in>set (ws[i := pc]). \<forall>e. w \<noteq> WFault e"
  using assms set_list_update_cases by metis

lemma owner_ok_move:
  assumes "owner_ok s" "i < length (workers s)" "workers s ! i \<noteq> WHold" "\<forall>e. pc \<noteq> WFault e"
    "workers s' = (workers s)[i := pc]" "buffer_mutex s' = buffer_mutex s" "mpc s' = mpc s"
  shows "owner_ok s'"
  using assms no_fault_update [of "workers s" pc i]
  by (simp add: owner_ok_def nth_list_update) metis

lemma owner_ok_acquire:
  assumes "owner_ok s" "i < length (workers s)" "workers s' = (workers s)[i := WHold]"
    "buffer_mutex s' = Some (Worker i)" "mpc s' = mpc s"
  shows "owner_ok s'"
  using assms no_fault_update [of "workers s" WHold i] by (simp add: owner_ok_def)

lemma owner_ok_release:
  assumes "owner_ok s" "\<forall>e. pc \<noteq> WFault e"
    "workers s' = (workers s)[i := pc]" "buffer_mutex s' = None" "mpc s' = mpc s"
  shows "owner_ok s'"
  using assms no_fault_update [of "workers s" pc i] by (simp add: owner_ok_def)

lemma wrk_step_owner:
  assumes inv: "pool_inv s" and ow: "owner_ok s" and step: "wrk_step accepts i s = Some s'"
  shows "owner_ok s'"
proof -
  have i: "i < length (workers s)" using step by (auto simp: wrk_step_def split: if_splits)
  have q: "queue_ok s" using inv by (simp add: pool_inv_def)
  show ?thesis
  proof (cases "workers s ! i")
    case WTest
    then obtain pc where "s' = set_wrk i pc s" "pc \<in> {WExit, WLock, WTestCount}"
      using step i by (auto simp: wrk_step_def split: if_splits)
    then show ?thesis using owner_ok_move [OF ow i, of pc s'] WTest by auto
  next
    case WTestCount
    then obtain pc where "s' = set_wrk i pc s" "pc \<in> {WExit, WLock}"
      using step i by (auto simp: wrk_step_def split: if_splits)
    then show ?thesis using owner_ok_move [OF ow i, of pc s'] WTestCount by auto
  next
    case WLock
    then show ?thesis using step i owner_ok_acquire [OF ow i, of s']
      by (auto simp: wrk_step_def split: if_splits)
  next
    case WWait
    then show ?thesis using step i owner_ok_acquire [OF ow i, of s']
      by (auto simp: wrk_step_def split: if_splits)
  next
    case WHold
    then have s': "s' = wrk_hold i s" using step i by (simp add: wrk_step_def)
    show ?thesis unfolding s'
      by (rule wrk_hold_cases [OF q, of i])
         (simp_all add: owner_ok_release [OF ow, of WExit _ i] owner_ok_release [OF ow, of WWait _ i]
            owner_ok_release [OF ow, of "WCopy _" _ i])
  next
    case (WCopy job)
    then have "s' = wrk_copy i job s" using step i by (simp add: wrk_step_def)
    then show ?thesis using owner_ok_move [OF ow i, of "copy_pc job s" s'] WCopy
      by (simp add: workers_wrk_copy copy_pc_def)
  next
    case (WLoad job c)
    then have "s' = set_wrk i (WStore job c (totalBytesCopied s)) s" using step i by (simp add: wrk_step_def)
    then show ?thesis using owner_ok_move [OF ow i, of "WStore job c (totalBytesCopied s)" s'] WLoad by simp
  next
    case (WStore job c b)
    then have "s' = wrk_store accepts i job c b s" using step i by (simp add: wrk_step_def)
    then show ?thesis using owner_ok_move [OF ow i, of "WCopy job" s'] WStore by simp
  qed (use step i in \<open>auto simp: wrk_step_def\<close>)
qed

lemma pool_step_owner:
  assumes "pool_inv s" "owner_ok s" "\<forall>j\<in>set (pending s). openable j"
    and step: "pool_step accepts ev s = Some s'"
  shows "owner_ok s'"
proof (cases ev rule: pool_event_cases)
  case manager
  then show ?thesis using assms mgr_step_owner [OF assms(1-3)] by (simp add: pool_step_def)
next
  case (worker i)
  then show ?thesis using step wrk_step_owner [OF assms(1,2)] by (simp add: pool_step_def)
next
  case sigint
  then show ?thesis using assms(2) step by (auto simp: pool_step_def owner_ok_def)
next
  case (spurious t)
  then show ?thesis using assms(2) spurious_step [OF step [unfolded spurious]] by (simp add: owner_ok_def)
qed

text \<open>Whatever happens, the jobs queued and pending are among the jobs of the tree, in order.\<close>

lemma pool_step_subplan:
  assumes "pool_inv s" "subseq (produced s @ pending s) jobs"
    and step: "pool_step accepts ev s = Some s'"
  shows "subseq (produced s' @ pending s') jobs"
proof (cases ev rule: pool_event_cases)
  case manager
  then have m: "mgr_step s = Some s'" using step by (simp add: pool_step_def)
  have q: "queue_ok s" using assms(1) by (simp add: pool_inv_def)
  show ?thesis
    using mgr_step_pending [OF q m] assms(2)
    by (metis list_emb_append_mono subseq_order.order_trans subseq_order.order_refl)
next
  case (worker i)
  then have w: "wrk_step accepts i s = Some s'" using step by (simp add: pool_step_def)
  have "queue_ok s" using assms(1) by (simp add: pool_inv_def)
  from wrk_step_manager [OF this w] assms(2) show ?thesis by (simp add: pending_def)
next
  case sigint
  then show ?thesis using assms(2) step by (auto simp: pool_step_def pending_def)
next
  case (spurious t)
  then show ?thesis using assms(2) spurious_step [OF step [unfolded spurious]] by (simp add: pending_def)
qed

lemma subseq_openable:
  assumes "subseq (produced s @ pending s) jobs" "\<forall>j\<in>set jobs. openable j"
  shows "\<forall>j\<in>set (pending s). openable j"
proof
  fix j assume "j \<in> set (pending s)"
  moreover have "set (produced s @ pending s) \<subseteq> set jobs"
    using assms(1) by (metis notin_set_nthsI subseq_conv_nths subsetI)
  ultimately show "openable j" using assms(2) by auto
qed

lemma pool_run_owner:
  assumes "pool_inv s" "owner_ok s" "subseq (produced s @ pending s) jobs"
    and op: "\<forall>j\<in>set jobs. openable j"
  shows "pool_inv (sched_run (pool_step accepts) evs s)
    \<and> owner_ok (sched_run (pool_step accepts) evs s)
    \<and> subseq (produced (sched_run (pool_step accepts) evs s)
        @ pending (sched_run (pool_step accepts) evs s)) jobs"
proof (rule sched_run_invariant
    [where I = "\<lambda>s. pool_inv s \<and> owner_ok s \<and> subseq (produced s @ pending s) jobs"])
  fix ev t t'
  assume I: "pool_inv t \<and> owner_ok t \<and> subseq (produced t @ pending t) jobs"
    and st: "pool_step accepts ev t = Some t'"
  then have i: "pool_inv t" and o: "owner_ok t" and p: "subseq (produced t @ pending t) jobs"
    by simp_all
  show "pool_inv t' \<and> owner_ok t' \<and> subseq (produced t' @ pending t') jobs"
    using pool_step_inv [OF i st] pool_step_owner [OF i o subseq_openable [OF p op] st]
      pool_step_subplan [OF i p st] by simp
qed (use assms in simp)

lemma pool_init_owner:
  "owner_ok (pool_init bufferSize n block src dst (Dir es) contents)"
  "subseq (produced (pool_init bufferSize n block src dst (Dir es) contents)
     @ pending (pool_init bufferSize n block src dst (Dir es) contents)) (tree_jobs src dst es)"
  by (simp_all add: owner_ok_def pool_init_def pending_def)

lemma wrk_step_enabled:
  assumes "i < length (workers s)" "workers s ! i \<noteq> WExit" "\<forall>e. workers s ! i \<noteq> WFault e"
    "buffer_mutex s = None \<or> buffer_mutex s = Some (Worker i) \<and> workers s ! i = WHold"
    "workers s ! i = WWait \<longrightarrow> Worker i \<notin> on_full s"
  shows "\<exists>s'. wrk_step accepts i s = Some s'"
  using assms by (cases "workers s ! i") (auto simp: wrk_step_def)

lemma mgr_step_enabled:
  assumes "mpc s \<noteq> MExit" "\<forall>e. mpc s \<noteq> MFault e" "buffer_mutex s = None \<or> mgr_section (mpc s)"
    "Manager \<notin> on_empty s"
  shows "\<exists>s'. mgr_step s = Some s'"
  using assms by (cases "mpc s") (auto simp: mgr_step_def)

text \<open>
  Somebody can always move: the holder of the mutex, and when it is free the manager, unless it
  sleeps. Then the queue is full, so no worker sleeps, and none has ended.
\<close>

lemma pool_progress:
  assumes inv: "pool_inv s" and ow: "owner_ok s" and nf: "\<forall>e. mpc s \<noteq> MFault e"
    and run: "running_status s" and n: "workers s \<noteq> []" and room: "0 < max_buff_size s"
    and live: "mpc s \<noteq> MExit \<or> (\<exists>w\<in>set (workers s). w \<noteq> WExit)"
  shows "\<exists>t s'. pool_step accepts (Run t) s = Some s'"
proof -
  have q: "queue_ok s" and e: "exit_ok s" and sl: "sleep_ok s" using inv by (simp_all add: pool_inv_def)
  have manager: ?thesis if "mgr_step s = Some s'" for s'
    using that by (intro exI [of _ Manager] exI [of _ s']) (simp add: pool_step_def)
  have worker: ?thesis if "wrk_step accepts i s = Some s'" for i s'
    using that by (intro exI [of _ "Worker i"] exI [of _ s']) (simp add: pool_step_def)
  have nw: "\<forall>e. workers s ! i \<noteq> WFault e" if "i < length (workers s)" for i
    using ow that nth_mem by (fastforce simp: owner_ok_def)
  show ?thesis
  proof (cases "buffer_mutex s")
    case None
    consider (ended) "mpc s = MExit" | (asleep) "mpc s \<noteq> MExit" "Manager \<in> on_empty s"
      | (awake) "mpc s \<noteq> MExit" "Manager \<notin> on_empty s" by blast
    then show ?thesis
    proof cases
      case ended
      then obtain i where i: "i < length (workers s)" "workers s ! i \<noteq> WExit"
        using live by (auto simp: in_set_conv_nth)
      have "done_flag s" using e ended by (simp add: exit_ok_def)
      then have "on_full s = {}" using sl by (auto simp: sleep_ok_def)
      then show ?thesis using wrk_step_enabled [OF i nw [OF i(1)]] None worker by blast
    next
      case asleep
      then have "buffer_size_counter (queue s) = max_buff_size s" using sl by (auto simp: sleep_ok_def)
      then have ne: "cq_items (queue s) \<noteq> []"
        using room q cq.empty_iff [of "queue s"] by (auto simp: queue_ok_def cq_none_def)
      then have awake: "on_full s = {}" and busy: "WExit \<notin> set (workers s)"
        using sl e run by (auto simp: sleep_ok_def exit_ok_def)
      have i: "0 < length (workers s)" using n by simp
      then have "workers s ! 0 \<noteq> WExit" using busy by (metis nth_mem)
      then show ?thesis using wrk_step_enabled [OF i _ nw [OF i]] None awake worker by blast
    next
      case awake
      then show ?thesis using mgr_step_enabled [OF awake(1) nf] None manager by blast
    qed
  next
    case (Some t)
    show ?thesis
    proof (cases t)
      case Manager
      then have "mgr_section (mpc s)" using Some ow nf by (auto simp: owner_ok_def)
      then have "\<exists>s'. mgr_step s = Some s'" by (auto simp: mgr_section_cases mgr_step_def)
      then show ?thesis using manager by blast
    next
      case (Worker i)
      then have i: "i < length (workers s)" "workers s ! i = WHold"
        using Some ow by (simp_all add: owner_ok_def)
      then have "\<exists>s'. wrk_step accepts i s = Some s'" by (simp add: wrk_step_def)
      then show ?thesis using worker by blast
    qed
  qed
qed


text \<open>What no thread changes.\<close>

lemma pool_run_setting:
  assumes "Sigint \<notin> set evs"
  shows "running_status (sched_run (pool_step accepts) evs s) = running_status s
    \<and> length (workers (sched_run (pool_step accepts) evs s)) = length (workers s)
    \<and> max_buff_size (sched_run (pool_step accepts) evs s) = max_buff_size s"
proof (rule sched_run_invariant_on [where P = "\<lambda>e. e \<noteq> Sigint" and I = "\<lambda>t. running_status t = running_status s
    \<and> length (workers t) = length (workers s) \<and> max_buff_size t = max_buff_size s"])
  fix e t t'
  assume I: "running_status t = running_status s \<and> length (workers t) = length (workers s) \<and> max_buff_size t = max_buff_size s"
    and e: "e \<noteq> Sigint" and st: "pool_step accepts e t = Some t'"
  have "running_status t' = running_status t \<and> length (workers t') = length (workers t) \<and> max_buff_size t' = max_buff_size t"
  proof (cases e rule: pool_event_cases)
    case manager
    then show ?thesis using st
      by (auto simp: pool_step_def mgr_step_def mgr_hold_def Let_def split: mgr_pc.splits if_splits list.splits prod.splits sum.splits)
  next
    case (worker i)
    then show ?thesis using st
      by (auto simp: pool_step_def wrk_step_def wrk_hold_def workers_wrk_copy split: if_splits prod.splits sum.splits wrk_pc.splits)
  next
    case (spurious u)
    then show ?thesis using spurious_step [OF st [unfolded spurious]] by simp
  qed (use e in simp)
  then show "running_status t' = running_status s \<and> length (workers t') = length (workers s) \<and> max_buff_size t' = max_buff_size s"
    using I by simp
qed (use assms in \<open>auto simp: list_all_iff\<close>)

section \<open>The properties\<close>

lemma pool_end_facts:
  assumes "pool_inv s" "plan_ok jobs s" "end_ok s" "data_ok c0 s" "running_status s"
    and ne: "workers s \<noteq> []" and fin: "\<forall>w\<in>set (workers s). w = WExit"
  shows "taken s = jobs" and "mset (finished s) = mset jobs"
    and "\<forall>j\<in>set jobs. fd_sink s (dest_fd j) = c0 (src_fd j)"
proof -
  have "WExit \<in> set (workers s)" using ne fin by (cases "workers s") auto
  then have d: "done_flag s" "cq_items (queue s) = []"
    using assms(1,5) unfolding pool_inv_def exit_ok_def by blast+
  then have m: "mpc s = MExit" using assms(1) unfolding pool_inv_def exit_ok_def by blast
  then have "mstack s = []" using assms(3) by (simp add: end_ok_def)
  with m have p: "pending s = []" by (simp add: pending_def)
  then show t: "taken s = jobs"
    using assms(1,2,5) d m by (simp add: plan_ok_def pool_inv_def queue_ok_def)
  have "sum_list (map held (workers s)) = {#}" by (rule sum_held_idle) (use fin in auto)
  with assms(4) t show f: "mset (finished s) = mset jobs" by (simp add: data_ok_def)
  then have "set (finished s) = set jobs" by (rule mset_eq_setD)
  with assms(4) show "\<forall>j\<in>set jobs. fd_sink s (dest_fd j) = c0 (src_fd j)" by (simp add: data_ok_def)
qed

lemma pool_run_copies:
  assumes "0 < bufferSize" "int (length block) = bufferSize"
    and "\<forall>j\<in>set (tree_jobs src dst es). openable j"
    and "distinct (map src_fd (tree_jobs src dst es))" "distinct (map dest_fd (tree_jobs src dst es))"
    and "\<forall>fd c. length c \<le> accepts fd c"
    and s: "s = sched_run (pool_step accepts) evs (pool_init bufferSize n block src dst (Dir es) contents)"
    and "running_status s" "workers s \<noteq> []" "\<forall>w\<in>set (workers s). w = WExit"
  shows "taken s = tree_jobs src dst es" and "mset (finished s) = mset (tree_jobs src dst es)"
    and "\<forall>j\<in>set (tree_jobs src dst es). fd_sink s (dest_fd j) = contents (src_fd j)"
proof -
  let ?s0 = "pool_init bufferSize n block src dst (Dir es) contents"
  have i: "pool_inv ?s0" by (rule pool_init_inv [OF assms(1,2)])
  have p: "pool_inv s \<and> plan_ok (tree_jobs src dst es) s \<and> end_ok s"
    unfolding s by (rule pool_run_plan [OF i pool_init_plan [OF assms(1,2)] assms(3)])
  have d: "data_ok contents s"
    unfolding s by (rule pool_run_data [OF assms(6) i pool_init_data [OF assms(1,2,4,5)]])
  show "taken s = tree_jobs src dst es" "mset (finished s) = mset (tree_jobs src dst es)"
      "\<forall>j\<in>set (tree_jobs src dst es). fd_sink s (dest_fd j) = contents (src_fd j)"
    using pool_end_facts [OF _ _ _ d assms(8-10), of "tree_jobs src dst es"] p by simp_all
qed

text \<open>
  C1. The copier copies the tree. Take any schedule of the manager and at least one worker
  over any source tree whose files can be opened, with no interrupt. Once every worker has
  ended, the jobs were taken exactly in the order of the recursive traversal, each file
  was finished exactly once, and every destination holds all the bytes of its source.
\<close>

theorem copy_pool_copies_tree:
  assumes "0 < bufferSize" "int (length block) = bufferSize"
    and "\<forall>j\<in>set (tree_jobs src dst es). openable j"
    and "distinct (map src_fd (tree_jobs src dst es))"
    and "distinct (map dest_fd (tree_jobs src dst es))"
    and "\<forall>fd c. length c \<le> accepts fd c"
    and "s = sched_run (pool_step accepts) evs
           (pool_init bufferSize n block src dst (Dir es) contents)"
    and "running_status s" "workers s \<noteq> []" "\<forall>w\<in>set (workers s). w = WExit"
  shows "taken s = tree_jobs src dst es
    \<and> mset (finished s) = mset (tree_jobs src dst es)
    \<and> (\<forall>j\<in>set (tree_jobs src dst es). fd_sink s (dest_fd j) = contents (src_fd j))"
  using pool_run_copies [OF assms] by blast

definition demo_block :: "nat \<Rightarrow> copy_job list" where
  "demo_block n = replicate n \<lparr>src_filename = [], dest_filename = [], src_fd = 0, dest_fd = 0, job_empty = 0\<rparr>"

definition demo_contents :: "int \<Rightarrow> string" where
  "demo_contents fd = (if fd = 3 then ''x'' else if fd = 5 then ''y'' else [])"

definition mgr_runs :: "nat \<Rightarrow> pool_event list" where
  "mgr_runs k = replicate k (Run Manager)"

definition wrk_runs :: "nat \<Rightarrow> nat \<Rightarrow> pool_event list" where
  "wrk_runs k i = replicate k (Run (Worker i))"

definition demo_start :: pool where
  "demo_start = pool_init 1 1 (demo_block 1) ''s'' ''d'' (Dir [(''.'', OtherEntry), (''a'', Reg 3 4)])
     demo_contents"

definition demo_end :: pool where
  "demo_end = sched_run (pool_step (\<lambda>_. length)) (mgr_runs 8 @ wrk_runs 10 0) demo_start"

lemma demo_start_eq: "demo_start = pool_init 1 1 (demo_block 1) ''s'' ''d''
    (Dir [(''.'', OtherEntry), (''a'', Reg 3 4)]) demo_contents"
  by (rule demo_start_def)

lemma demo_end_workers: "workers demo_end = [WExit] \<and> running_status demo_end"
  by code_simp

theorem copy_pool_copies_tree_witness:
  "taken demo_end = [mk_job ''s'' ''d'' ''a'' 3 4] \<and> fd_sink demo_end 4 = ''x''"
proof -
  let ?es = "[(''.'', OtherEntry), (''a'', Reg 3 4)]"
  have j: "tree_jobs ''s'' ''d'' ?es = [mk_job ''s'' ''d'' ''a'' 3 4]" by simp
  have "taken demo_end = tree_jobs ''s'' ''d'' ?es
    \<and> mset (finished demo_end) = mset (tree_jobs ''s'' ''d'' ?es)
    \<and> (\<forall>j\<in>set (tree_jobs ''s'' ''d'' ?es). fd_sink demo_end (dest_fd j) = demo_contents (src_fd j))"
    by (rule copy_pool_copies_tree [where bufferSize = 1 and block = "demo_block 1" and n = 1
          and accepts = "\<lambda>_. length" and evs = "mgr_runs 8 @ wrk_runs 10 0"])
       (use demo_end_workers in \<open>auto simp: demo_block_def demo_end_def demo_start_def openable_def mk_job_def\<close>)
  then show ?thesis unfolding j by (simp add: mk_job_def demo_contents_def)
qed


text \<open>
  C3. Safety of the copier at every moment of every schedule, interrupts included: the jobs
  queued are exactly those already taken followed by those in the buffer, the buffer never
  holds more than its capacity, and no two threads are in a critical section.
\<close>

theorem copy_pool_safe:
  assumes "0 < bufferSize" "int (length block) = bufferSize"
    and "s = sched_run (pool_step accepts) evs
           (pool_init bufferSize n block src dst root contents)"
  shows "produced s = taken s @ cq_items (queue s)
    \<and> 0 \<le> buffer_size_counter (queue s) \<and> buffer_size_counter (queue s) \<le> max_buff_size s
    \<and> (\<forall>i k. i < length (workers s) \<longrightarrow> k < length (workers s)
         \<longrightarrow> workers s ! i = WHold \<longrightarrow> workers s ! k = WHold \<longrightarrow> i = k)
    \<and> (\<forall>i name a b. i < length (workers s) \<longrightarrow> workers s ! i = WHold \<longrightarrow> mpc s \<noteq> MHold name a b)"
proof -
  have i: "pool_inv s" unfolding assms(3) by (rule pool_run_inv [OF pool_init_inv [OF assms(1,2)]])
  then have q: "queue_ok s" and m: "mutex_ok s" by (simp_all add: pool_inv_def)
  have "0 \<le> buffer_size_counter (queue s)" "buffer_size_counter (queue s) \<le> max_buff_size s"
    using q by (simp_all add: queue_ok_def cq_inv_def)
  moreover have "mpc s \<noteq> MHold name a b" if "workers s ! i = WHold" "i < length (workers s)" for i name a b
    using m that by (auto simp: mutex_ok_def)
  moreover have "i = k" if "i < length (workers s)" "k < length (workers s)"
      "workers s ! i = WHold" "workers s ! k = WHold" for i k
    using m that unfolding mutex_ok_def by (metis option.inject tid.inject)
  moreover have "produced s = taken s @ cq_items (queue s)" using q by (simp add: queue_ok_def)
  ultimately show ?thesis by blast
qed

definition demo_mid :: pool where
  "demo_mid = sched_run (pool_step (\<lambda>_. length)) (mgr_runs 4) demo_start"

theorem copy_pool_safe_witness:
  "produced demo_mid = taken demo_mid @ cq_items (queue demo_mid)
   \<and> buffer_size_counter (queue demo_mid) \<le> 1 \<and> length (produced demo_mid) = 1"
proof -
  have m: "max_buff_size demo_mid = 1 \<and> length (produced demo_mid) = 1" by code_simp
  show ?thesis
    using copy_pool_safe [of 1 "demo_block 1", OF _ _ demo_mid_def [unfolded demo_start_def]] m
    by (simp add: demo_block_def)
qed

text \<open>
  C6. No deadlock while every \<open>open\<close> succeeds and nobody interrupts: in every state that any
  schedule of the manager and at least one worker reaches, with or without spurious
  wake-ups, unless a path has overflowed its buffer, either all threads have ended or some
  thread can take a step. A thread that sleeps on a condition variable, or waits for a mutex
  that is held, cannot: no wake-up is lost.
\<close>

theorem copy_pool_deadlock_free:
  assumes "0 < bufferSize" "int (length block) = bufferSize" "0 < n"
    and "\<forall>j\<in>set (tree_jobs src dst es). openable j"
    and "s = sched_run (pool_step accepts) evs
           (pool_init bufferSize n block src dst (Dir es) contents)"
    and "Sigint \<notin> set evs" "\<forall>e. mpc s \<noteq> MFault e"
  shows "mpc s = MExit \<and> (\<forall>w\<in>set (workers s). w = WExit)
    \<or> (\<exists>t s'. pool_step accepts (Run t) s = Some s')"
proof -
  let ?s0 = "pool_init bufferSize n block src dst (Dir es) contents"
  have inv: "pool_inv s" "owner_ok s" unfolding assms(5)
    using pool_run_owner [OF pool_init_inv [OF assms(1,2)] pool_init_owner assms(4)] by blast+
  have "running_status s \<and> length (workers s) = n \<and> max_buff_size s = bufferSize"
    using pool_run_setting [OF assms(6), of accepts ?s0] unfolding assms(5) by (simp add: pool_init_def)
  then show ?thesis using pool_progress [OF inv assms(7), of accepts] assms(1,3) by auto
qed

theorem copy_pool_deadlock_free_witness:
  "\<exists>t s'. pool_step (\<lambda>_. length) (Run t)
      (sched_run (pool_step (\<lambda>_. length)) (wrk_runs 3 0 @ mgr_runs 4) demo_start) = Some s'"
proof -
  let ?s = "sched_run (pool_step (\<lambda>_. length)) (wrk_runs 3 0 @ mgr_runs 4) demo_start"
  have m: "mpc ?s = MTest" by code_simp
  have "mpc ?s = MExit \<and> (\<forall>w\<in>set (workers ?s). w = WExit)
      \<or> (\<exists>t s'. pool_step (\<lambda>_. length) (Run t) ?s = Some s')"
    by (rule copy_pool_deadlock_free [where bufferSize = 1 and block = "demo_block 1" and n = 1
          and evs = "wrk_runs 3 0 @ mgr_runs 4" and src = "''s''" and dst = "''d''"
          and es = "[(''.'', OtherEntry), (''a'', Reg 3 4)]" and contents = demo_contents])
       (use m in \<open>auto simp: demo_block_def demo_start_def openable_def mk_job_def wrk_runs_def mgr_runs_def\<close>)
  with m show ?thesis by simp
qed

section \<open>Two ways to hang\<close>

definition locked_out :: "copy_job list \<Rightarrow> pool \<Rightarrow> bool" where
  "locked_out js s \<longleftrightarrow> buffer_mutex s = Some Manager \<and> \<not> done_flag s \<and> taken s = js
     \<and> (mpc s = MTest \<or> mpc s = MEndLock \<or> (\<exists>n a b. mpc s = MLock n a b) \<or> (\<exists>e. mpc s = MFault e))
     \<and> (\<forall>i < length (workers s). workers s ! i \<noteq> WHold)"

lemma locked_out_step:
  assumes l: "locked_out js s" and step: "pool_step accepts ev s = Some s'"
  shows "locked_out js s'"
proof (cases ev rule: pool_event_cases)
  case manager
  then have "s' = mgr_test s \<and> mpc s = MTest"
    using l step by (auto simp: pool_step_def mgr_step_def locked_out_def)
  then show ?thesis using l mgr_test_mpc [of s] by (auto simp: locked_out_def)
next
  case (worker i)
  then have w: "wrk_step accepts i s = Some s'" using step by (simp add: pool_step_def)
  then have i: "i < length (workers s)" by (auto simp: wrk_step_def split: if_splits)
  have h: "workers s ! i \<noteq> WHold" using l i by (simp add: locked_out_def)
  show ?thesis using l i h w
    by (cases "workers s ! i")
       (auto simp: locked_out_def wrk_step_def nth_list_update workers_wrk_copy copy_pc_def split: if_splits)
next
  case sigint
  then show ?thesis using l step by (auto simp: pool_step_def locked_out_def)
next
  case (spurious t)
  then show ?thesis using l spurious_step [OF step [unfolded spurious]] by (simp add: locked_out_def)
qed

text \<open>
  C7. When an \<open>open\<close> in \<open>copyAll\<close> fails, the function returns without unlocking
  \<open>buffer_mutex\<close>: whatever happens afterwards, the mutex stays with the manager, \<open>done\<close> is
  never set, no worker takes another job, and a worker that waits for the mutex stays there.
\<close>

theorem copy_pool_open_failure_hangs:
  assumes "0 < bufferSize" "int (length block) = bufferSize"
    and "s = sched_run (pool_step accepts) evs
           (pool_init bufferSize n block src dst root contents)"
    and "mpc s = MHold name sfd dfd" "mstack s = (src', dst', others) # rest"
    and "buffer_size_counter (queue s) \<noteq> max_buff_size s" "sfd = -1 \<or> dfd = -1"
    and "length (join_path src' name) < PATH_BUF" "length (join_path dst' name) < PATH_BUF"
    and "s1 = sched_run (pool_step accepts) (Run Manager # evs') s"
  shows "buffer_mutex s1 = Some Manager \<and> \<not> done_flag s1 \<and> taken s1 = taken s
    \<and> (\<forall>i. workers s1 ! i = WLock \<or> workers s1 ! i = WWait \<longrightarrow> wrk_step accepts i s1 = None)"
proof -
  have "pool_inv s" unfolding assms(3) by (rule pool_run_inv [OF pool_init_inv [OF assms(1,2)]])
  then have m: "mutex_ok s" and e: "exit_ok s" by (simp_all add: pool_inv_def)
  have st: "mgr_step s = Some (s\<lparr>mpc := MTest, mstack := rest\<rparr>)"
    using assms(4-9) by (simp add: mgr_step_def mgr_hold_def Let_def)
  have "buffer_mutex s = Some Manager" using m assms(4) by (simp add: mutex_ok_def)
  moreover have "\<not> done_flag s" using e assms(4) by (simp add: exit_ok_def)
  moreover have "\<forall>i < length (workers s). workers s ! i \<noteq> WHold"
    using m assms(4) by (auto simp: mutex_ok_def)
  ultimately have "locked_out (taken s) (s\<lparr>mpc := MTest, mstack := rest\<rparr>)"
    by (simp add: locked_out_def)
  then have "locked_out (taken s) s1"
    using sched_run_invariant [of "locked_out (taken s)" "pool_step accepts", OF locked_out_step]
    unfolding assms(10) by (simp add: pool_step_def st)
  then show ?thesis by (auto simp: locked_out_def wrk_step_def)
qed

definition fail_start :: pool where
  "fail_start = pool_init 1 1 (demo_block 1) ''s'' ''d'' (Dir [(''a'', Reg (-1) (-1))]) demo_contents"

lemma fail_start_reach:
  "mpc (sched_run (pool_step (\<lambda>_. length)) (mgr_runs 2) fail_start) = MHold ''a'' (-1) (-1)
   \<and> mstack (sched_run (pool_step (\<lambda>_. length)) (mgr_runs 2) fail_start) = [(''s'', ''d'', [])]
   \<and> buffer_size_counter (queue (sched_run (pool_step (\<lambda>_. length)) (mgr_runs 2) fail_start)) = 0
   \<and> max_buff_size (sched_run (pool_step (\<lambda>_. length)) (mgr_runs 2) fail_start) = 1"
  by code_simp

theorem copy_pool_open_failure_hangs_witness:
  "\<forall>evs'. \<not> done_flag (sched_run (pool_step (\<lambda>_. length)) (Run Manager # evs')
      (sched_run (pool_step (\<lambda>_. length)) (mgr_runs 2) fail_start))"
proof
  fix evs'
  show "\<not> done_flag (sched_run (pool_step (\<lambda>_. length)) (Run Manager # evs')
      (sched_run (pool_step (\<lambda>_. length)) (mgr_runs 2) fail_start))"
    using copy_pool_open_failure_hangs [where bufferSize = 1 and block = "demo_block 1" and n = 1
        and src = "''s''" and dst = "''d''" and root = "Dir [(''a'', Reg (-1) (-1))]"
        and accepts = "\<lambda>_. length" and evs = "mgr_runs 2" and contents = demo_contents
        and evs' = evs', OF _ _ refl _ _ _ _ _ _ refl] fail_start_reach
    unfolding fail_start_def by (simp add: demo_block_def join_path_def PATH_BUF_def)
qed


definition stuck_full :: "copy_job list \<Rightarrow> pool \<Rightarrow> bool" where
  "stuck_full js s \<longleftrightarrow> buffer_size_counter (queue s) = max_buff_size s \<and> \<not> done_flag s \<and> taken s = js
     \<and> (\<exists>n a b. mpc s = MLock n a b \<or> mpc s = MWait n a b \<or> mpc s = MHold n a b)
     \<and> (\<forall>i < length (workers s). workers s ! i = WExit)"

lemma stuck_full_step:
  assumes l: "stuck_full js s" and step: "pool_step accepts ev s = Some s'"
  shows "stuck_full js s'"
proof (cases ev rule: pool_event_cases)
  case manager
  then have m: "mgr_step s = Some s'" using step by (simp add: pool_step_def)
  show ?thesis using l m
    by (auto simp: stuck_full_def mgr_step_def mgr_hold_def split: if_splits)
next
  case (worker i)
  then have "wrk_step accepts i s = Some s'" using step by (simp add: pool_step_def)
  then show ?thesis using l by (auto simp: stuck_full_def wrk_step_def split: if_splits)
next
  case sigint
  then show ?thesis using l step by (auto simp: pool_step_def stuck_full_def)
next
  case (spurious t)
  then show ?thesis using l spurious_step [OF step [unfolded spurious]] by (simp add: stuck_full_def)
qed

text \<open>
  C35. An interrupt can leave the program waiting for ever. The wait of the manager for room
  in the buffer does not look at \<open>running_status\<close>: once the interrupt has ended all the
  workers while the buffer is full and the manager has a file to queue, no continuation
  ever sets \<open>done\<close> or takes a job, so the \<open>pthread_join\<close> of \<open>main\<close> never returns.
\<close>

theorem copy_pool_interrupt_hangs:
  assumes "buffer_size_counter (queue s) = max_buff_size s" "mpc s = MLock name sfd dfd"
    and "\<not> done_flag s" "\<forall>i < length (workers s). workers s ! i = WExit"
    and "s1 = sched_run (pool_step accepts) evs s"
  shows "\<not> done_flag s1 \<and> mpc s1 \<noteq> MExit \<and> taken s1 = taken s
    \<and> buffer_size_counter (queue s1) = max_buff_size s1"
proof -
  have "stuck_full (taken s) s" using assms(1-4) by (auto simp: stuck_full_def)
  then have "stuck_full (taken s) s1"
    unfolding assms(5)
    by (rule sched_run_invariant [where I = "stuck_full (taken s)", rotated]) (rule stuck_full_step)
  then show ?thesis by (auto simp: stuck_full_def)
qed

definition hang_start :: pool where
  "hang_start = pool_init 1 1 (demo_block 1) ''s'' ''d''
     (Dir [(''a'', Reg 3 4), (''b'', Reg 5 6)]) demo_contents"

definition hang_mid :: pool where
  "hang_mid = sched_run (pool_step (\<lambda>_. length)) (mgr_runs 4 @ [Sigint] @ wrk_runs 1 0) hang_start"

theorem copy_pool_interrupt_hangs_witness:
  "\<forall>evs. \<not> done_flag (sched_run (pool_step (\<lambda>_. length)) evs hang_mid)"
proof
  fix evs
  have "buffer_size_counter (queue hang_mid) = max_buff_size hang_mid
      \<and> mpc hang_mid = MLock ''b'' 5 6 \<and> \<not> done_flag hang_mid \<and> workers hang_mid = [WExit]"
    by code_simp
  then show "\<not> done_flag (sched_run (pool_step (\<lambda>_. length)) evs hang_mid)"
    using copy_pool_interrupt_hangs [OF _ _ _ _ refl, of hang_mid "''b''" 5 6] by auto
qed

section \<open>The unprotected byte counter\<close>

definition race_start :: pool where
  "race_start = pool_init 2 2 (demo_block 2) ''s'' ''d''
     (Dir [(''a'', Reg 3 4), (''b'', Reg 5 6)]) demo_contents"

definition race_schedule :: "pool_event list" where
  "race_schedule = mgr_runs 10 @ wrk_runs 6 0 @ wrk_runs 6 1 @ wrk_runs 4 0 @ wrk_runs 4 1"

text \<open>
  \<open>totalBytesCopied += bytes_read\<close> is not protected by the mutex. For two workers and
  two files of one byte there is a schedule that ends with both files copied, all threads
  ended, and a reported total of one byte.
\<close>

theorem copy_pool_loses_bytes:
  "\<exists>evs s. s = sched_run (pool_step (\<lambda>_. length)) evs race_start
     \<and> mpc s = MExit \<and> workers s = [WExit, WExit]
     \<and> length (fd_sink s 4) + length (fd_sink s 6) = 2 \<and> totalBytesCopied s = 1"
proof -
  have "(\<lambda>s. mpc s = MExit \<and> workers s = [WExit, WExit]
      \<and> length (fd_sink s 4) + length (fd_sink s 6) = 2 \<and> totalBytesCopied s = 1)
      (sched_run (pool_step (\<lambda>_. length)) race_schedule race_start)"
    by code_simp
  then show ?thesis by blast
qed


section \<open>The report\<close>

text \<open>What \<open>main\<close> prints after the joins, from the two \<open>gettimeofday\<close> values in milliseconds.\<close>

definition pool_report :: "int \<Rightarrow> int \<Rightarrow> int \<Rightarrow> int \<Rightarrow> pool \<Rightarrow> string list" where
  "pool_report numOfWorker bufferSize initmsec lastmsec s =
     (let totalmsec = lastmsec - initmsec;
          minutes = c_div totalmsec (1000 * 60);
          remain = c_mod totalmsec (1000 * 60);
          seconds = c_div remain 1000;
          milliseconds_part = c_mod remain 1000
      in [''---------------STATS---------------'' @ [newline],
          ''Worker: '' @ dec numOfWorker @ '', Buffer Size '' @ dec bufferSize @ [newline],
          ''Total File: '' @ dec (regular_file_count s) @ [newline]
            @ ''Total Directory: '' @ dec (directory_count s) @ [newline],
          ''Total Bytes Copied: '' @ dec (totalBytesCopied s) @ [newline],
          ''Total Time : '' @ pad0 2 minutes @ '':'' @ pad0 2 seconds @ ''.'' @ pad0 3 milliseconds_part
            @ ''(min:sec:msec)'' @ [newline]])"

end
