(* ===== verification/CopyEnd.thy ===== *)
theory CopyEnd
  imports CopyProps
begin

text \<open>
  The parallel copier of \<^verbatim>\<open>hw4_2024\<close> always finishes. The rank of a state counts what is left to
  do: entries of the tree, jobs, bytes. A step that does not lower it brings its thread nearer
  to sleep, and a thread sleeps until another one has lowered the rank and broadcasts. With
  the progress of \<^verbatim>\<open>CopyProps\<close> this is an instance of \<open>round_progress\<close>.
\<close>

section \<open>Paths that fit\<close>

definition job_fits :: "string \<Rightarrow> string \<Rightarrow> string \<Rightarrow> bool" where
  "job_fits src dst name \<longleftrightarrow> length (join_path src name) < MAX_FILENAME_LEN \<and> length (join_path dst name) < MAX_FILENAME_LEN"

definition dir_fits :: "string \<Rightarrow> string \<Rightarrow> string \<Rightarrow> bool" where
  "dir_fits src dst name \<longleftrightarrow> length (join_path src name) < PATH_BUF \<and> length (join_path dst name) < PATH_BUF"

fun tree_fits :: "string \<Rightarrow> string \<Rightarrow> (string \<times> node) list \<Rightarrow> bool" where
  "tree_fits src dst [] = True"
| "tree_fits src dst ((name, Dir sub) # es) =
     ((name = ''.'' \<or> name = ''..'' \<or> dir_fits src dst name \<and> tree_fits (join_path src name) (join_path dst name) sub)
      \<and> tree_fits src dst es)"
| "tree_fits src dst ((name, Reg sfd dfd) # es) =
     ((name = ''.'' \<or> name = ''..'' \<or> job_fits src dst name) \<and> tree_fits src dst es)"
| "tree_fits src dst ((name, DirFail) # es) =
     ((name = ''.'' \<or> name = ''..'' \<or> dir_fits src dst name) \<and> tree_fits src dst es)"
| "tree_fits src dst ((name, OtherEntry) # es) = tree_fits src dst es"

definition top_fits :: "string \<Rightarrow> (string \<times> string \<times> (string \<times> node) list) list \<Rightarrow> bool" where
  "top_fits name st = (case st of [] \<Rightarrow> False | (src, dst, es) # rest \<Rightarrow> job_fits src dst name)"

definition fit_ok :: "pool \<Rightarrow> bool" where
  "fit_ok s \<longleftrightarrow> (\<forall>(src, dst, es)\<in>set (mstack s). tree_fits src dst es)
     \<and> (case mpc s of MLock name a b \<Rightarrow> top_fits name (mstack s) | MHold name a b \<Rightarrow> top_fits name (mstack s)
        | MWait name a b \<Rightarrow> top_fits name (mstack s) | MFault e \<Rightarrow> False | _ \<Rightarrow> True)"

section \<open>The rank\<close>

fun entries_size :: "(string \<times> node) list \<Rightarrow> nat" where
  "entries_size [] = 0"
| "entries_size ((name, Dir sub) # es) = 2 + entries_size sub + entries_size es"
| "entries_size ((name, Reg sfd dfd) # es) = 3 + entries_size es"
| "entries_size ((name, DirFail) # es) = 1 + entries_size es"
| "entries_size ((name, OtherEntry) # es) = 1 + entries_size es"

definition stack_size :: "(string \<times> string \<times> (string \<times> node) list) list \<Rightarrow> nat" where
  "stack_size st = sum_list (map (\<lambda>(src, dst, es). 1 + entries_size es) st)"

fun mgr_cost :: "mgr_pc \<Rightarrow> nat" where
  "mgr_cost MTest = 3"
| "mgr_cost (MLock n a b) = 4"
| "mgr_cost (MHold n a b) = 4"
| "mgr_cost (MWait n a b) = 4"
| "mgr_cost MEndLock = 2"
| "mgr_cost MEnd = 1"
| "mgr_cost _ = 0"

definition job_cost :: "(int \<Rightarrow> string) \<Rightarrow> copy_job \<Rightarrow> nat" where
  "job_cost f j = 4 + 3 * length (f (src_fd j))"

fun wrk_cost :: "(int \<Rightarrow> string) \<Rightarrow> wrk_pc \<Rightarrow> nat" where
  "wrk_cost f WTest = 3"
| "wrk_cost f WTestCount = 2"
| "wrk_cost f WLock = 1"
| "wrk_cost f WHold = 1"
| "wrk_cost f WWait = 1"
| "wrk_cost f (WCopy j) = job_cost f j"
| "wrk_cost f (WLoad j c) = job_cost f j + 2"
| "wrk_cost f (WStore j c b) = job_cost f j + 1"
| "wrk_cost f _ = 0"

definition pool_rank :: "pool \<Rightarrow> nat" where
  "pool_rank s = mgr_cost (mpc s) + stack_size (mstack s) + sum_list (map (job_cost (fd_source s)) (todo s))
     + sum_list (map (wrk_cost (fd_source s)) (workers s))"

definition sound :: "copy_job list \<Rightarrow> pool \<Rightarrow> bool" where
  "sound jobs s \<longleftrightarrow> pool_inv s \<and> owner_ok s \<and> subseq (produced s @ pending s) jobs \<and> running_status s \<and> fit_ok s"

section \<open>The manager\<close>

lemma test_lowers:
  assumes "mpc s = MTest" "running_status s" "fit_ok s"
  shows "fit_ok (mgr_test s) \<and> mgr_cost (mpc (mgr_test s)) + stack_size (mstack (mgr_test s)) < mgr_cost (mpc s) + stack_size (mstack s)"
proof (cases "mstack s")
  case Nil
  then show ?thesis using assms by (simp add: mgr_test_def fit_ok_def)
next
  case (Cons f rest)
  obtain src dst es where f: "f = (src, dst, es)" by (cases f)
  show ?thesis
  proof (cases es)
    case Nil
    then show ?thesis using assms Cons f by (simp add: mgr_test_def fit_ok_def stack_size_def)
  next
    case es: (Cons e others)
    obtain name entry where e: "e = (name, entry)" by (cases e)
    show ?thesis using assms Cons f es e
      by (cases entry) (auto simp: mgr_test_def fit_ok_def stack_size_def top_fits_def dir_fits_def Let_def)
  qed
qed

lemma hold_put:
  assumes "queue_ok s" "buffer_size_counter (queue s) \<noteq> max_buff_size s" "mstack s = (src, dst, es) # rest"
    and "job_fits src dst name" "openable (mk_job src dst name sfd dfd)"
  obtains q where "mgr_hold name sfd dfd s = s\<lparr>queue := q, produced := produced s @ [mk_job src dst name sfd dfd],
      buffer_mutex := None, on_full := {}, mpc := MTest\<rparr>" "cq_items q = cq_items (queue s) @ [mk_job src dst name sfd dfd]"
proof -
  have "job_ok (mk_job src dst name sfd dfd)" using assms(4) by (simp add: job_ok_def job_fits_def mk_job_def)
  then obtain q where q: "pool_put (queue s) (mk_job src dst name sfd dfd) = Inr q"
      "cq_items q = cq_items (queue s) @ [mk_job src dst name sfd dfd]"
    using mgr_hold_put [OF assms(1,2)] by metis
  have "mgr_hold name sfd dfd s = s\<lparr>queue := q, produced := produced s @ [mk_job src dst name sfd dfd],
      buffer_mutex := None, on_full := {}, mpc := MTest\<rparr>"
    using assms q(1) by (simp add: mgr_hold_def Let_def job_fits_def openable_def mk_job_def PATH_BUF_def MAX_FILENAME_LEN_def)
  then show thesis using that q(2) by blast
qed

lemma sound_openable:
  "sound jobs s \<Longrightarrow> \<forall>j\<in>set jobs. openable j \<Longrightarrow> j \<in> set (pending s) \<Longrightarrow> openable j"
  using subseq_openable unfolding sound_def by blast

text \<open>
  What a step of the manager does to the rank: it is lowered, or the manager has only taken
  the mutex, or found the queue full.
\<close>

lemma mgr_effect:
  assumes s: "sound jobs s" and op: "\<forall>j\<in>set jobs. openable j" and step: "mgr_step s = Some s'"
  obtains (lower) "pool_rank s' < pool_rank s" "fit_ok s'"
  | (lock) n a b where "mpc s = MLock n a b \<or> mpc s = MWait n a b \<and> Manager \<notin> on_empty s" "buffer_mutex s = None"
      "s' = s\<lparr>buffer_mutex := Some Manager, mpc := MHold n a b\<rparr>" "pool_rank s' = pool_rank s" "fit_ok s'"
  | (full) n a b where "mpc s = MHold n a b" "buffer_size_counter (queue s) = max_buff_size s"
      "s' = s\<lparr>buffer_mutex := None, on_empty := insert Manager (on_empty s), mpc := MWait n a b\<rparr>" "pool_rank s' = pool_rank s" "fit_ok s'"
proof -
  have q: "queue_ok s" and r: "running_status s" and f: "fit_ok s" using s by (simp_all add: sound_def pool_inv_def)
  show thesis
  proof (cases "mpc s")
    case MTest
    then have s': "s' = mgr_test s" using step by (simp add: mgr_step_def)
    note l = test_lowers [OF MTest r f]
    then have "\<forall>e. mpc s' \<noteq> MFault e" unfolding s' by (auto simp: fit_ok_def)
    then have "pending s' = pending s" using mgr_test_pending [OF MTest] r s' by auto
    then have "todo s' = todo s" by (simp add: s' todo_def)
    then show thesis using lower l by (simp add: s' pool_rank_def)
  next
    case (MLock n a b)
    then have "s' = s\<lparr>buffer_mutex := Some Manager, mpc := MHold n a b\<rparr>" "buffer_mutex s = None"
      using step by (simp_all add: mgr_step_def split: if_splits)
    then show thesis using lock MLock f by (simp add: pool_rank_def todo_def pending_def fit_ok_def)
  next
    case (MWait n a b)
    then have "s' = s\<lparr>buffer_mutex := Some Manager, mpc := MHold n a b\<rparr>" "buffer_mutex s = None" "Manager \<notin> on_empty s"
      using step by (simp_all add: mgr_step_def split: if_splits)
    then show thesis using lock MWait f by (simp add: pool_rank_def todo_def pending_def fit_ok_def)
  next
    case (MHold n a b)
    then have s': "s' = mgr_hold n a b s" using step by (simp add: mgr_step_def)
    show thesis
    proof (cases "buffer_size_counter (queue s) = max_buff_size s")
      case True
      then have "s' = s\<lparr>buffer_mutex := None, on_empty := insert Manager (on_empty s), mpc := MWait n a b\<rparr>" by (simp add: s' mgr_hold_def)
      then show thesis using full [OF MHold True] MHold f by (simp add: pool_rank_def todo_def pending_def fit_ok_def)
    next
      case False
      obtain src dst es rest where st: "mstack s = (src, dst, es) # rest" "job_fits src dst n"
        using f MHold by (auto simp: fit_ok_def top_fits_def split: list.splits)
      have "openable (mk_job src dst n a b)"
        by (rule sound_openable [OF s op]) (simp add: pending_def MHold st)
      then obtain p where p: "s' = s\<lparr>queue := p, produced := produced s @ [mk_job src dst n a b], buffer_mutex := None, on_full := {}, mpc := MTest\<rparr>"
          "cq_items p = cq_items (queue s) @ [mk_job src dst n a b]"
        using hold_put [OF q False st] s' by metis
      have "todo s' = todo s" using p st MHold by (simp add: todo_def pending_def)
      then show thesis using lower p(1) MHold f by (simp add: pool_rank_def fit_ok_def)
    qed
  qed (use step lower f in \<open>auto simp: mgr_step_def pool_rank_def todo_def pending_def fit_ok_def split: if_splits\<close>)
qed

section \<open>The workers\<close>

lemma cost_mono:
  assumes "\<And>d. length (g d) \<le> length (f d)"
  shows "job_cost g j \<le> job_cost f j" and "wrk_cost g pc \<le> wrk_cost f pc"
proof -
  show j: "job_cost g j \<le> job_cost f j" for j using assms by (simp add: job_cost_def)
  show "wrk_cost g pc \<le> wrk_cost f pc" by (cases pc) (simp_all add: j)
qed

lemma workers_lower:
  assumes "i < length ws" "wrk_cost g pc < wrk_cost f (ws ! i)" "\<And>d. length (g d) \<le> length (f d)"
  shows "sum_list (map (wrk_cost g) (ws[i := pc])) < sum_list (map (wrk_cost f) ws)"
proof -
  have "wrk_cost f (ws ! i) + sum_list (map (wrk_cost f) (ws[i := pc])) = wrk_cost f pc + sum_list (map (wrk_cost f) ws)"
    by (rule sum_list_update_add [OF assms(1)])
  moreover have "wrk_cost g (ws ! i) + sum_list (map (wrk_cost g) (ws[i := pc])) = wrk_cost g pc + sum_list (map (wrk_cost g) ws)"
    by (rule sum_list_update_add [OF assms(1)])
  moreover have "sum_list (map (wrk_cost g) (ws[i := WExit])) \<le> sum_list (map (wrk_cost f) (ws[i := WExit]))"
    by (rule sum_list_mono) (rule cost_mono(2) [OF assms(3)])
  moreover have "wrk_cost g (ws ! i) + sum_list (map (wrk_cost g) (ws[i := WExit])) = sum_list (map (wrk_cost g) ws)"
    "wrk_cost f (ws ! i) + sum_list (map (wrk_cost f) (ws[i := WExit])) = sum_list (map (wrk_cost f) ws)"
    using sum_list_update_add [OF assms(1), of "wrk_cost g" WExit] sum_list_update_add [OF assms(1), of "wrk_cost f" WExit] by simp_all
  ultimately show ?thesis using assms(2) by linarith
qed

lemma jobs_mono: "(\<And>d. length (g d) \<le> length (f d)) \<Longrightarrow> sum_list (map (job_cost g) js) \<le> sum_list (map (job_cost f) js)"
  by (rule sum_list_mono) (rule cost_mono(1))

text \<open>A step of a worker that leaves the queue alone.\<close>

lemma worker_lowers:
  assumes "i < length (workers s)" "wrk_cost (fd_source s') pc < wrk_cost (fd_source s) (workers s ! i)"
    and "workers s' = (workers s)[i := pc]" "\<And>d. length (fd_source s' d) \<le> length (fd_source s d)"
    and "mpc s' = mpc s" "mstack s' = mstack s" "queue s' = queue s"
  shows "pool_rank s' < pool_rank s"
proof -
  have "todo s' = todo s" by (simp add: todo_def pending_def assms)
  then have "sum_list (map (job_cost (fd_source s')) (todo s')) \<le> sum_list (map (job_cost (fd_source s)) (todo s))"
    by (simp add: jobs_mono assms(4))
  moreover have "sum_list (map (wrk_cost (fd_source s')) (workers s')) < sum_list (map (wrk_cost (fd_source s)) (workers s))"
    unfolding assms(3) by (rule workers_lower [OF assms(1,2,4)])
  ultimately show ?thesis by (simp add: pool_rank_def assms(5,6))
qed

lemma wrk_effect:
  assumes q: "queue_ok s" and step: "wrk_step accepts i s = Some s'"
  obtains (lower) "pool_rank s' < pool_rank s"
  | (lock) "workers s ! i = WLock \<or> workers s ! i = WWait \<and> Worker i \<notin> on_full s" "buffer_mutex s = None"
      "s' = (set_wrk i WHold s)\<lparr>buffer_mutex := Some (Worker i)\<rparr>" "pool_rank s' = pool_rank s"
  | (none) "workers s ! i = WHold" "cq_items (queue s) = []" "\<not> done_flag s"
      "s' = (set_wrk i WWait s)\<lparr>buffer_mutex := None, on_full := insert (Worker i) (on_full s)\<rparr>" "pool_rank s' = pool_rank s"
proof -
  have i: "i < length (workers s)" using step by (auto simp: wrk_step_def split: if_splits)
  have same: "pool_rank s1 = pool_rank s" if "workers s1 = (workers s)[i := pc]" "wrk_cost (fd_source s) pc = wrk_cost (fd_source s) (workers s ! i)"
      "fd_source s1 = fd_source s" "mpc s1 = mpc s" "mstack s1 = mstack s" "queue s1 = queue s" for s1 pc
    using sum_list_update_add [OF i, of "wrk_cost (fd_source s)" pc] that by (simp add: pool_rank_def todo_def pending_def)
  show thesis
  proof (cases "workers s ! i")
    case WTest
    let ?pc = "if \<not> running_status s then WExit else if \<not> done_flag s then WLock else WTestCount"
    have "s' = set_wrk i ?pc s" using step i WTest by (simp add: wrk_step_def)
    then show thesis using lower worker_lowers [OF i, of s' ?pc] WTest by simp
  next
    case WTestCount
    let ?pc = "if buffer_size_counter (queue s) \<noteq> 0 then WLock else WExit"
    have "s' = set_wrk i ?pc s" using step i WTestCount by (simp add: wrk_step_def)
    then show thesis using lower worker_lowers [OF i, of s' ?pc] WTestCount by simp
  next
    case WLock
    then have "s' = (set_wrk i WHold s)\<lparr>buffer_mutex := Some (Worker i)\<rparr>" "buffer_mutex s = None"
      using step i by (simp_all add: wrk_step_def split: if_splits)
    then show thesis using lock same [of s' WHold] WLock by simp
  next
    case WWait
    then have "s' = (set_wrk i WHold s)\<lparr>buffer_mutex := Some (Worker i)\<rparr>" "buffer_mutex s = None" "Worker i \<notin> on_full s"
      using step i by (simp_all add: wrk_step_def split: if_splits)
    then show thesis using lock same [of s' WHold] WWait by simp
  next
    case WHold
    then have s': "s' = wrk_hold i s" using step i by (simp add: wrk_step_def)
    show thesis
    proof (cases rule: wrk_hold_cases [OF q, of i])
      case 1
      then show thesis using lower worker_lowers [OF i, of s' WExit] WHold s' by simp
    next
      case 2
      then show thesis using none [OF WHold] same [of s' WWait] WHold s' by simp
    next
      case (3 job p)
      then have "todo s = job # todo s'" by (simp add: s' todo_def pending_def)
      moreover have "wrk_cost (fd_source s) (workers s ! i) + sum_list (map (wrk_cost (fd_source s)) (workers s'))
          = job_cost (fd_source s) job + sum_list (map (wrk_cost (fd_source s)) (workers s))"
        using sum_list_update_add [OF i, of "wrk_cost (fd_source s)" "WCopy job"] 3 by (simp add: s')
      ultimately have "pool_rank s' < pool_rank s" using 3 WHold by (simp add: s' pool_rank_def)
      then show thesis by (rule lower)
    qed
  next
    case (WCopy job)
    let ?f = "fd_source s" and ?n = "length (fd_source s (src_fd job))"
    have s': "s' = wrk_copy i job s" using step i WCopy by (simp add: wrk_step_def)
    have w: "workers s' = (workers s)[i := copy_pc job s]" unfolding s' by (rule workers_wrk_copy)
    have f: "length (fd_source s' d) \<le> length (?f d)" for d by (simp add: s' wrk_copy_def Let_def)
    have "wrk_cost (fd_source s') (copy_pc job s) < wrk_cost ?f (WCopy job)"
    proof (cases "?f (src_fd job) = []")
      case False
      then have "length (fd_source s' (src_fd job)) < ?n" by (simp add: s' wrk_copy_def Let_def)
      then show ?thesis using False by (simp add: copy_pc_def job_cost_def)
    qed (simp add: copy_pc_def job_cost_def)
    then show thesis using lower worker_lowers [OF i _ w f] WCopy s' by simp
  next
    case (WLoad job chunk)
    then have "s' = set_wrk i (WStore job chunk (totalBytesCopied s)) s" using step i by (simp add: wrk_step_def)
    then show thesis using lower worker_lowers [OF i, of s' "WStore job chunk (totalBytesCopied s)"] WLoad by simp
  next
    case (WStore job chunk b)
    then have "s' = wrk_store accepts i job chunk b s" using step i by (simp add: wrk_step_def)
    then show thesis using lower worker_lowers [OF i, of s' "WCopy job"] WStore by simp
  qed (use step i in \<open>simp_all add: wrk_step_def\<close>)
qed

section \<open>Every step\<close>

lemma sound_step:
  assumes s: "sound jobs s" and op: "\<forall>j\<in>set jobs. openable j" and step: "pool_step accepts (Run t) s = Some s'"
  shows "sound jobs s'" and "pool_rank s' \<le> pool_rank s"
proof -
  have inv: "pool_inv s" "owner_ok s" "subseq (produced s @ pending s) jobs" "running_status s" "fit_ok s"
    using s by (simp_all add: sound_def)
  have keep: "pool_inv s'" "owner_ok s'" "subseq (produced s' @ pending s') jobs"
    using pool_step_inv [OF inv(1) step] pool_step_subplan [OF inv(1,3) step]
      pool_step_owner [OF inv(1,2) subseq_openable [OF inv(3) op] step] by simp_all
  have "running_status s' \<and> fit_ok s' \<and> pool_rank s' \<le> pool_rank s"
  proof (cases t)
    case Manager
    then have m: "mgr_step s = Some s'" using step by (simp add: pool_step_def)
    have "running_status s' = running_status s"
      using m by (auto simp: mgr_step_def mgr_hold_def Let_def split: mgr_pc.splits if_splits list.splits prod.splits sum.splits)
    then show ?thesis using inv(4) by (cases rule: mgr_effect [OF s op m]) auto
  next
    case (Worker i)
    then have w: "wrk_step accepts i s = Some s'" using step by (simp add: pool_step_def)
    have q: "queue_ok s" using inv(1) by (simp add: pool_inv_def)
    have same: "mpc s' = mpc s" "mstack s' = mstack s" "running_status s' = running_status s"
      using wrk_step_manager [OF q w] by simp_all
    then have "fit_ok s'" using inv(5) by (simp only: fit_ok_def) blast
    moreover have "pool_rank s' \<le> pool_rank s" by (cases rule: wrk_effect [OF q w]) simp_all
    ultimately show ?thesis using inv(4) same(3) by simp
  qed
  then show "sound jobs s'" "pool_rank s' \<le> pool_rank s" using keep by (simp_all add: sound_def)
qed

definition all_ended :: "pool \<Rightarrow> bool" where
  "all_ended s \<longleftrightarrow> mpc s = MExit \<and> (\<forall>w\<in>set (workers s). w = WExit)"

lemma spurious_sound:
  assumes "sound jobs s" "pool_step accepts (Spurious t) s = Some s'" "\<forall>j\<in>set jobs. openable j"
  shows "sound jobs s' \<and> pool_rank s' = pool_rank s"
proof -
  have inv: "pool_inv s" "owner_ok s" "subseq (produced s @ pending s) jobs" "running_status s" "fit_ok s"
    using assms(1) by (simp_all add: sound_def)
  note s' = spurious_step [OF assms(2)]
  have "pool_inv s'" "owner_ok s'" "subseq (produced s' @ pending s') jobs"
    using pool_step_inv [OF inv(1) assms(2)] pool_step_subplan [OF inv(1,3) assms(2)]
      pool_step_owner [OF inv(1,2) subseq_openable [OF inv(3) assms(3)] assms(2)] by simp_all
  moreover have same: "mpc s' = mpc s" "mstack s' = mstack s" by (simp_all add: s')
  moreover from same inv(5) have "fit_ok s'" by (simp only: fit_ok_def) blast
  ultimately show ?thesis using inv(4) s' by (simp add: sound_def pool_rank_def todo_def pending_def)
qed

lemma runs_keep:
  assumes s: "sound jobs s" and op: "\<forall>j\<in>set jobs. openable j" and "Sigint \<notin> set evs"
  shows "sound jobs (sched_run (pool_step accepts) evs s) \<and> pool_rank (sched_run (pool_step accepts) evs s) \<le> pool_rank s"
proof (rule sched_run_invariant_on [where I = "\<lambda>t. sound jobs t \<and> pool_rank t \<le> pool_rank s" and P = "\<lambda>e. e \<noteq> Sigint"])
  fix e t t'
  assume t: "sound jobs t \<and> pool_rank t \<le> pool_rank s" "e \<noteq> Sigint" "pool_step accepts e t = Some t'"
  show "sound jobs t' \<and> pool_rank t' \<le> pool_rank s"
  proof (cases e)
    case (Run u)
    then show ?thesis using t sound_step [OF _ op, of t accepts u t'] by auto
  next
    case (Spurious u)
    then show ?thesis using t spurious_sound [OF _ _ op, of t accepts u t'] by auto
  qed (use t in simp)
qed (use assms in \<open>auto simp: list_all_iff\<close>)

text \<open>How far a thread is from sleep: two steps when it competes for the mutex, one when it has it.\<close>

definition mgr_near :: "pool \<Rightarrow> nat" where
  "mgr_near s = (case mpc s of MLock n a b \<Rightarrow> 2 | MWait n a b \<Rightarrow> if Manager \<in> on_empty s then 0 else 2
     | MHold n a b \<Rightarrow> 1 | _ \<Rightarrow> 0)"

definition wrk_near :: "pool \<Rightarrow> nat \<Rightarrow> nat" where
  "wrk_near s i = (case workers s ! i of WLock \<Rightarrow> 2 | WWait \<Rightarrow> if Worker i \<in> on_full s then 0 else 2
     | WHold \<Rightarrow> 1 | _ \<Rightarrow> 0)"

definition near :: "pool \<Rightarrow> nat" where
  "near s = mgr_near s + (\<Sum>i < length (workers s). wrk_near s i)"

definition full_rank :: "pool \<Rightarrow> nat" where
  "full_rank s = pool_rank s * (2 * length (workers s) + 3) + near s"

lemma near_bound: "near s \<le> 2 * length (workers s) + 2"
proof -
  have "wrk_near s i \<le> 2" for i by (simp add: wrk_near_def split: wrk_pc.split)
  then have "(\<Sum>i < length (workers s). wrk_near s i) \<le> (\<Sum>i < length (workers s). 2)" by (intro sum_mono) simp
  moreover have "mgr_near s \<le> 2" by (simp add: mgr_near_def split: mgr_pc.split)
  ultimately show ?thesis by (simp add: near_def)
qed

lemma full_rank_lower:
  assumes "pool_rank s' < pool_rank s" "length (workers s') = length (workers s)"
  shows "full_rank s' < full_rank s"
proof -
  have "(pool_rank s' + 1) * (2 * length (workers s) + 3) \<le> pool_rank s * (2 * length (workers s) + 3)"
    using assms(1) by (intro mult_le_mono1) simp
  then show ?thesis using near_bound [of s'] assms(2) by (simp add: full_rank_def)
qed

lemma near_lower:
  assumes "i < length (workers s)" "workers s' = (workers s)[i := pc]" "wrk_near s' i < wrk_near s i"
    and "mgr_near s' = mgr_near s" "\<And>j. j \<noteq> i \<Longrightarrow> wrk_near s' j = wrk_near s j"
  shows "near s' < near s"
proof -
  have "(\<Sum>j < length (workers s). wrk_near s' j) < (\<Sum>j < length (workers s). wrk_near s j)"
  proof (rule sum_strict_mono_ex1)
    show "\<forall>j\<in>{..<length (workers s)}. wrk_near s' j \<le> wrk_near s j"
      using assms(3,5) by (metis order_refl less_imp_le)
  qed (use assms(1,3) in auto)
  then show ?thesis using assms(2,4) by (simp add: near_def)
qed

lemma full_rank_near:
  assumes "pool_rank s' = pool_rank s" "length (workers s') = length (workers s)" "near s' < near s"
  shows "full_rank s' < full_rank s"
  using assms by (simp add: full_rank_def)

lemma near_manager:
  assumes "workers s' = workers s" "on_full s' = on_full s" "mgr_near s' < mgr_near s"
  shows "near s' < near s"
proof -
  have "wrk_near s' = wrk_near s" using assms(1,2) by (simp add: wrk_near_def fun_eq_iff)
  then show ?thesis using assms by (simp add: near_def)
qed

text \<open>Every step of a thread lowers the full rank.\<close>

lemma every_step_lowers:
  assumes s: "sound jobs s" and op: "\<forall>j\<in>set jobs. openable j" and step: "pool_step accepts (Run t) s = Some s'"
  shows "full_rank s' < full_rank s"
proof (cases t)
  case Manager
  then have m: "mgr_step s = Some s'" using step by (simp add: pool_step_def)
  have len: "length (workers s') = length (workers s)" using pool_run_setting [of "[Run t]" accepts s] step by simp
  show ?thesis
  proof (cases rule: mgr_effect [OF s op m])
    case 1
    then show ?thesis using full_rank_lower len by blast
  next
    case (2 n a b)
    then have "near s' < near s" by (intro near_manager) (auto simp: mgr_near_def)
    then show ?thesis using full_rank_near 2(4) len by blast
  next
    case (3 n a b)
    then have "near s' < near s" by (intro near_manager) (simp_all add: mgr_near_def)
    then show ?thesis using full_rank_near 3(4) len by blast
  qed
next
  case (Worker i)
  then have w: "wrk_step accepts i s = Some s'" using step by (simp add: pool_step_def)
  have len: "length (workers s') = length (workers s)" using pool_run_setting [of "[Run t]" accepts s] step by simp
  have i: "i < length (workers s)" using w by (auto simp: wrk_step_def split: if_splits)
  have q: "queue_ok s" using s by (simp add: sound_def pool_inv_def)
  show ?thesis
  proof (cases rule: wrk_effect [OF q w])
    case 1
    then show ?thesis using full_rank_lower len by blast
  next
    case 2
    have "near s' < near s"
      by (rule near_lower [OF i, of _ WHold]) (use 2 i in \<open>auto simp: mgr_near_def wrk_near_def\<close>)
    then show ?thesis using full_rank_near 2(4) len by blast
  next
    case 3
    have "near s' < near s"
      by (rule near_lower [OF i, of _ WWait]) (use 3 i in \<open>auto simp: mgr_near_def wrk_near_def\<close>)
    then show ?thesis using full_rank_near 3(5) len by blast
  qed
qed

section \<open>Every schedule ends\<close>

definition live_ok :: "copy_job list \<Rightarrow> nat \<Rightarrow> pool \<Rightarrow> bool" where
  "live_ok jobs n s \<longleftrightarrow> sound jobs s \<and> (\<forall>j\<in>set jobs. openable j) \<and> length (workers s) = n \<and> 0 < n \<and> 0 < max_buff_size s"

lemma live_ok_step:
  assumes "live_ok jobs n s" "pool_step accepts (Run t) s = Some s'"
  shows "live_ok jobs n s'"
  using assms sound_step(1) [of jobs s accepts t s'] pool_run_setting [of "[Run t]" accepts s] by (simp add: live_ok_def)

lemma live_ok_moves:
  assumes "live_ok jobs n s" "\<not> all_ended s"
  shows "\<exists>t\<in>insert Manager (Worker ` {..<n}). pool_step accepts (Run t) s \<noteq> None"
proof -
  have s: "sound jobs s" and n: "workers s \<noteq> []" "length (workers s) = n" and room: "0 < max_buff_size s"
    using assms(1) by (auto simp: live_ok_def)
  have inv: "pool_inv s" "owner_ok s" "running_status s" "\<forall>e. mpc s \<noteq> MFault e"
    using s by (auto simp: sound_def fit_ok_def)
  obtain t s' where t: "pool_step accepts (Run t) s = Some s'"
    using pool_progress [OF inv(1,2,4,3) n(1) room, of accepts] assms(2) by (auto simp: all_ended_def)
  have "t \<in> insert Manager (Worker ` {..<n})"
    using t n(2) by (cases t) (auto simp: pool_step_def wrk_step_def split: if_splits)
  then show ?thesis using t by blast
qed

lemma all_ended_stays: "all_ended s \<Longrightarrow> pool_step accepts (Run t) s = None"
proof (cases t)
  case (Worker i)
  assume a: "all_ended s"
  have "workers s ! i = WExit" if "i < length (workers s)" using a that by (simp add: all_ended_def)
  then show ?thesis using Worker by (simp add: pool_step_def wrk_step_def)
qed (simp add: all_ended_def pool_step_def mgr_step_def)

interpretation copy_rounds: round_progress "\<lambda>t. pool_step accepts (Run t)" "live_ok jobs n" full_rank
    "\<lambda>t s. pool_step accepts (Run t) s \<noteq> None" all_ended "insert Manager (Worker ` {..<n})" for accepts jobs n
proof (unfold_locales, goal_cases)
  case (1 s e s')
  then show ?case by (rule live_ok_step)
next
  case (2 s e s')
  then show ?case using every_step_lowers [of jobs s accepts e s'] by (simp add: live_ok_def)
next
  case (3 s e s' q)
  then show ?case using every_step_lowers [of jobs s accepts e s'] by (simp add: live_ok_def)
next
  case (4 s e)
  then obtain s' where "pool_step accepts (Run e) s = Some s'" by blast
  then show ?case using 4 every_step_lowers [of jobs s accepts e s'] by (simp add: live_ok_def)
next
  case (5 s)
  then show ?case by (rule live_ok_moves)
next
  case (6 s e s')
  then show ?case using all_ended_stays by fastforce
qed

lemma sched_run_map: "sched_run step (map g es) s = sched_run (\<lambda>e. step (g e)) es s"
  by (induction es arbitrary: s) (auto split: option.split)

lemma init_sound:
  assumes "0 < bufferSize" "int (length block) = bufferSize" "tree_fits src dst es"
  shows "sound (tree_jobs src dst es) (pool_init bufferSize n block src dst (Dir es) contents)"
  using pool_init_inv [OF assms(1,2), of n src dst "Dir es" contents] pool_init_owner [of bufferSize n block src dst es contents] assms(3)
  by (simp add: sound_def) (simp add: pool_init_def fit_ok_def)

definition copy_work :: "(int \<Rightarrow> string) \<Rightarrow> nat \<Rightarrow> string \<Rightarrow> string \<Rightarrow> (string \<times> node) list \<Rightarrow> nat" where
  "copy_work contents n src dst es = 4 + entries_size es + sum_list (map (job_cost contents) (tree_jobs src dst es)) + 3 * n"

lemma init_rank:
  assumes "0 < bufferSize" "int (length block) = bufferSize"
  shows "pool_rank (pool_init bufferSize n block src dst (Dir es) contents) = copy_work contents n src dst es"
proof -
  have "todo (pool_init bufferSize n block src dst (Dir es) contents) = tree_jobs src dst es"
    using pool_init_queue(2) [OF assms] by (simp add: todo_def pending_def pool_init_def)
  then show ?thesis by (simp add: pool_rank_def copy_work_def pool_init_def stack_size_def sum_list_replicate)
qed

text \<open>
  C2. Total correctness of the copier. Take any tree whose paths fit the buffers and whose
  files can be opened, any queue and at least one worker. Let the program have run in any
  way, with spurious wake-ups and without an interrupt, and let it then be scheduled in
  rounds in which every thread gets a turn, in any order. After as many rounds as the work
  of the tree says (its entries and bytes, times what a wake-up of all threads costs) all
  threads have ended, and every destination holds all the bytes of its source.
\<close>

theorem copy_pool_finishes:
  assumes "0 < bufferSize" "int (length block) = bufferSize" "0 < n" "tree_fits src dst es"
    and "\<forall>j\<in>set (tree_jobs src dst es). openable j"
    and "distinct (map src_fd (tree_jobs src dst es))" "distinct (map dest_fd (tree_jobs src dst es))"
    and "\<forall>fd c. length c \<le> accepts fd c" "Sigint \<notin> set evs"
    and "copy_work contents n src dst es * (2 * n + 3) + 2 * n + 2 \<le> length rounds"
    and "\<forall>r\<in>set rounds. Manager \<in> set r \<and> (\<forall>i < n. Worker i \<in> set r)"
    and "s = sched_run (pool_step accepts) (evs @ map Run (concat rounds)) (pool_init bufferSize n block src dst (Dir es) contents)"
  shows "mpc s = MExit \<and> (\<forall>w\<in>set (workers s). w = WExit)
    \<and> (\<forall>j\<in>set (tree_jobs src dst es). fd_sink s (dest_fd j) = contents (src_fd j))"
proof -
  let ?s0 = "pool_init bufferSize n block src dst (Dir es) contents"
  let ?s1 = "sched_run (pool_step accepts) evs ?s0"
  have w0: "length (workers ?s0) = n" "max_buff_size ?s0 = bufferSize" by (simp_all add: pool_init_def)
  note k = runs_keep [OF init_sound [OF assms(1,2,4)] assms(5,9), of accepts n contents]
  note set1 = pool_run_setting [OF assms(9), of accepts ?s0]
  have live: "live_ok (tree_jobs src dst es) n ?s1" using k set1 w0 assms(1,3,5) by (simp add: live_ok_def)
  have "pool_rank ?s1 \<le> copy_work contents n src dst es" using k unfolding init_rank [OF assms(1,2)] by blast
  then have "pool_rank ?s1 * (2 * n + 3) \<le> copy_work contents n src dst es * (2 * n + 3)" by (rule mult_le_mono1)
  moreover have "near ?s1 \<le> 2 * n + 2" using near_bound [of ?s1] set1 w0 by simp
  moreover have "full_rank ?s1 = pool_rank ?s1 * (2 * n + 3) + near ?s1" using set1 w0 by (simp add: full_rank_def)
  ultimately have "full_rank ?s1 \<le> length rounds" using assms(10) by linarith
  then have "all_ended (sched_run (\<lambda>t. pool_step accepts (Run t)) (concat rounds) ?s1)"
    by (rule copy_rounds.rounds_reach [OF live]) (use assms(11) in auto)
  then have "all_ended s" by (simp add: assms(12) sched_run_append sched_run_map)
  then have ended: "mpc s = MExit" "\<forall>w\<in>set (workers s). w = WExit" by (simp_all add: all_ended_def)
  have "Sigint \<notin> set (evs @ map Run (concat rounds))" using assms(9) by auto
  then have "running_status s" "length (workers s) = n"
    using pool_run_setting [of "evs @ map Run (concat rounds)" accepts ?s0] w0 unfolding assms(12) by (simp_all add: pool_init_def)
  moreover from this have "workers s \<noteq> []" using assms(3) by auto
  ultimately have "\<forall>j\<in>set (tree_jobs src dst es). fd_sink s (dest_fd j) = contents (src_fd j)"
    using pool_run_copies(3) [OF assms(1,2,5-8) assms(12) _ _ ended(2)] by blast
  then show ?thesis using ended by blast
qed

theorem copy_pool_finishes_witness:
  "fd_sink (sched_run (pool_step (\<lambda>_. length)) (wrk_runs 5 0 @ map Run (concat (replicate 94 [Worker 0, Manager]))) demo_start) 4 = ''x''"
proof -
  let ?es = "[(''.'', OtherEntry), (''a'', Reg 3 4)]"
  let ?s = "sched_run (pool_step (\<lambda>_. length)) (wrk_runs 5 0 @ map Run (concat (replicate 94 [Worker 0, Manager]))) demo_start"
  have w: "copy_work demo_contents 1 ''s'' ''d'' ?es = 18"
    by (simp add: copy_work_def job_cost_def mk_job_def demo_contents_def)
  have "mpc ?s = MExit \<and> (\<forall>w\<in>set (workers ?s). w = WExit)
    \<and> (\<forall>j\<in>set (tree_jobs ''s'' ''d'' ?es). fd_sink ?s (dest_fd j) = demo_contents (src_fd j))"
    by (rule copy_pool_finishes [where bufferSize = 1 and block = "demo_block 1" and n = 1 and accepts = "\<lambda>_. length"
          and evs = "wrk_runs 5 0" and rounds = "replicate 94 [Worker 0, Manager]"])
       (simp_all add: demo_block_def wrk_runs_def openable_def mk_job_def job_fits_def join_path_def MAX_FILENAME_LEN_def w [unfolded One_nat_def]
          demo_start_def)
  then show ?thesis by (simp add: mk_job_def demo_contents_def)
qed

end
