(* ===== verification/ParkingLot.thy ===== *)
theory ParkingLot
  imports CText
begin

text \<open>
  The parking lot of \<^verbatim>\<open>hw3_2024/hw3.c\<close>: the thread \<open>carOwner\<close> brings cars, the threads
  \<open>carAttendantAutomobile\<close> and \<open>carAttendantPickup\<close> park them, four counting semaphores
  pass the word. The counters \<open>mFree_automobile\<close>, \<open>mFree_pickup\<close> and \<open>carID\<close> are plain
  global variables, so every access to them is a step of its own: a test, a load, a store.
  A random number that the owner draws comes with the event of its step. \<open>came_a\<close>,
  \<open>parked_a\<close>, \<open>left_a\<close> and their twins for pickups count, as history, the cars announced to
  an attendant, the stores of the attendant and the stores of the owner.

  The handler of \<^verbatim>\<open>SIGINT\<close> is installed without \<^verbatim>\<open>SA_RESTART\<close>, and no result of \<open>sem_wait\<close> is
  tested: a thread that receives the signal while it is blocked in \<open>sem_wait\<close> goes on as if
  the semaphore had been posted.
\<close>

section \<open>State and threads\<close>

datatype owner_pc =
    OTest | OCheckA | OPostA | OSayA | OWaitA | OFullA | OCheckP | OPostP | OSayP | OWaitP | OFullP
  | OLeave | OTestA | OLoadA | OStoreA int | OTestP | OLoadP | OStoreP int
  | OTellA | OTellP | OFinP | OFinA | OExit

datatype att_pc = ATest | AWait | ACheck | ALoad | AStore int | ASay | APost | AExit

record lot =
  carID :: int
  mFree_automobile :: int
  mFree_pickup :: int
  newAutomobile :: nat
  newPickup :: nat
  inChargeforAutomobile :: nat
  inChargeforPickup :: nat
  runStatus :: bool
  opc :: owner_pc
  apc :: att_pc
  ppc :: att_pc
  lot_out :: "string list"
  parked_a :: int
  parked_p :: int
  left_a :: int
  left_p :: int
  came_a :: int
  came_p :: int

datatype lot_thread = MainThread | OwnerThread | AttAThread | AttPThread

datatype lot_event = Owner nat | AttA | AttP | Interrupt lot_thread

definition bar :: string where
  "bar = ''-------------------'' @ [newline]"

text \<open>The messages of \<open>carOwner\<close>.\<close>

definition msg_new :: "string \<Rightarrow> int \<Rightarrow> string" where
  "msg_new kind i = bar @ ''New '' @ kind @ '' (carID : '' @ dec i @ '') comes to parking lot'' @ [newline]"

definition msg_full_a :: "int \<Rightarrow> int \<Rightarrow> string" where
  "msg_full_a i free = msg_new ''Automobile'' i
     @ ''No Available Space For Automobile: '' @ dec free @ [newline]
     @ ''Could not parked Automobile, CarID: '' @ dec i @ ''...'' @ [newline]
     @ ''Leaving...'' @ [newline] @ bar"

definition msg_full_p :: "int \<Rightarrow> int \<Rightarrow> string" where
  "msg_full_p i free = bar @ ''No Available Space For Pickup: '' @ dec free @ [newline]
     @ ''Could not parked Pickup, CarID: '' @ dec i @ ''...'' @ [newline]
     @ ''Leaving...'' @ [newline] @ bar"

definition msg_left :: "string \<Rightarrow> string \<Rightarrow> int \<Rightarrow> string" where
  "msg_left kind var free = ''********'' @ kind @ '' Leaving, New Available Space ('' @ var @ ''): ''
     @ dec free @ [newline]"

definition msg_park :: "string \<Rightarrow> int \<Rightarrow> int \<Rightarrow> string" where
  "msg_park kind free i = ''Available Space For '' @ kind @ '': '' @ dec (free + 1) @ [newline]
     @ ''Parking '' @ kind @ '', CarID: '' @ dec i @ ''...'' @ [newline]
     @ ''Available Space After Park: '' @ dec free @ [newline] @ bar"

text \<open>\<open>carOwner\<close>; \<open>r\<close> is the number \<open>rand\<close> returns where the step calls it.\<close>

definition owner_step :: "nat \<Rightarrow> lot \<Rightarrow> lot option" where
  "owner_step r s = (case opc s of
      OTest \<Rightarrow> Some (if runStatus s
        then s\<lparr>carID := carID s + 1, opc := (if r mod 2 = 0 then OCheckA else OCheckP)\<rparr>
        else s\<lparr>opc := OFinP\<rparr>)
    | OCheckA \<Rightarrow> Some (s\<lparr>opc := (if mFree_automobile s > 0 then OPostA else OFullA)\<rparr>)
    | OPostA \<Rightarrow> Some (s\<lparr>newAutomobile := newAutomobile s + 1, came_a := came_a s + 1, opc := OSayA\<rparr>)
    | OSayA \<Rightarrow> Some (s\<lparr>lot_out := lot_out s @ [msg_new ''Automobile'' (carID s)], opc := OWaitA\<rparr>)
    | OWaitA \<Rightarrow> if inChargeforAutomobile s = 0 then None
        else Some (s\<lparr>inChargeforAutomobile := inChargeforAutomobile s - 1, opc := OLeave\<rparr>)
    | OFullA \<Rightarrow> Some (s\<lparr>lot_out := lot_out s @ [msg_full_a (carID s) (mFree_automobile s)], opc := OLeave\<rparr>)
    | OCheckP \<Rightarrow> Some (s\<lparr>opc := (if mFree_pickup s > 0 then OPostP else OFullP)\<rparr>)
    | OPostP \<Rightarrow> Some (s\<lparr>newPickup := newPickup s + 1, came_p := came_p s + 1, opc := OSayP\<rparr>)
    | OSayP \<Rightarrow> Some (s\<lparr>lot_out := lot_out s @ [msg_new ''Pickup'' (carID s)], opc := OWaitP\<rparr>)
    | OWaitP \<Rightarrow> if inChargeforPickup s = 0 then None
        else Some (s\<lparr>inChargeforPickup := inChargeforPickup s - 1, opc := OLeave\<rparr>)
    | OFullP \<Rightarrow> Some (s\<lparr>lot_out := lot_out s @ [msg_full_p (carID s) (mFree_pickup s)], opc := OLeave\<rparr>)
    | OLeave \<Rightarrow> Some (s\<lparr>opc := (if r mod 11 = 0 then if r mod 2 = 0 then OTestA else OTestP else OTest)\<rparr>)
    | OTestA \<Rightarrow> Some (s\<lparr>opc := (if mFree_automobile s < 8 then OLoadA else OTest)\<rparr>)
    | OLoadA \<Rightarrow> Some (s\<lparr>opc := OStoreA (mFree_automobile s)\<rparr>)
    | OStoreA v \<Rightarrow> Some (s\<lparr>mFree_automobile := v + 1, left_a := left_a s + 1, opc := OTellA\<rparr>)
    | OTellA \<Rightarrow> Some (s\<lparr>lot_out := lot_out s @ [msg_left ''Automobile'' ''mFreeAutomobile'' (mFree_automobile s)],
        opc := OTest\<rparr>)
    | OTestP \<Rightarrow> Some (s\<lparr>opc := (if mFree_pickup s < 4 then OLoadP else OTest)\<rparr>)
    | OLoadP \<Rightarrow> Some (s\<lparr>opc := OStoreP (mFree_pickup s)\<rparr>)
    | OStoreP v \<Rightarrow> Some (s\<lparr>mFree_pickup := v + 1, left_p := left_p s + 1, opc := OTellP\<rparr>)
    | OTellP \<Rightarrow> Some (s\<lparr>lot_out := lot_out s @ [msg_left ''Pickup'' ''mFreePickup'' (mFree_pickup s)],
        opc := OTest\<rparr>)
    | OFinP \<Rightarrow> Some (s\<lparr>newPickup := newPickup s + 1, opc := OFinA\<rparr>)
    | OFinA \<Rightarrow> Some (s\<lparr>newAutomobile := newAutomobile s + 1, opc := OExit\<rparr>)
    | OExit \<Rightarrow> None)"

definition att_a_step :: "lot \<Rightarrow> lot option" where
  "att_a_step s = (case apc s of
      ATest \<Rightarrow> Some (s\<lparr>apc := (if runStatus s then AWait else AExit)\<rparr>)
    | AWait \<Rightarrow> if newAutomobile s = 0 then None
        else Some (s\<lparr>newAutomobile := newAutomobile s - 1, apc := ACheck\<rparr>)
    | ACheck \<Rightarrow> Some (s\<lparr>apc := (if mFree_automobile s > 0 then ALoad else ASay)\<rparr>)
    | ALoad \<Rightarrow> Some (s\<lparr>apc := AStore (mFree_automobile s)\<rparr>)
    | AStore v \<Rightarrow> Some (s\<lparr>mFree_automobile := v - 1, parked_a := parked_a s + 1, apc := ASay\<rparr>)
    | ASay \<Rightarrow> Some (s\<lparr>lot_out := lot_out s @ [msg_park ''Automobile'' (mFree_automobile s) (carID s)],
        apc := APost\<rparr>)
    | APost \<Rightarrow> Some (s\<lparr>inChargeforAutomobile := inChargeforAutomobile s + 1, apc := ATest\<rparr>)
    | AExit \<Rightarrow> None)"

definition att_p_step :: "lot \<Rightarrow> lot option" where
  "att_p_step s = (case ppc s of
      ATest \<Rightarrow> Some (s\<lparr>ppc := (if runStatus s then AWait else AExit)\<rparr>)
    | AWait \<Rightarrow> if newPickup s = 0 then None
        else Some (s\<lparr>newPickup := newPickup s - 1, ppc := ACheck\<rparr>)
    | ACheck \<Rightarrow> Some (s\<lparr>ppc := (if mFree_pickup s > 0 then ALoad else ASay)\<rparr>)
    | ALoad \<Rightarrow> Some (s\<lparr>ppc := AStore (mFree_pickup s)\<rparr>)
    | AStore v \<Rightarrow> Some (s\<lparr>mFree_pickup := v - 1, parked_p := parked_p s + 1, ppc := ASay\<rparr>)
    | ASay \<Rightarrow> Some (s\<lparr>lot_out := lot_out s @ [bar @ msg_park ''Pickup'' (mFree_pickup s) (carID s)],
        ppc := APost\<rparr>)
    | APost \<Rightarrow> Some (s\<lparr>inChargeforPickup := inChargeforPickup s + 1, ppc := ATest\<rparr>)
    | AExit \<Rightarrow> None)"

text \<open>The handler, in the thread that receives the signal; an ended thread receives none.\<close>

definition interrupt_step :: "lot_thread \<Rightarrow> lot \<Rightarrow> lot option" where
  "interrupt_step who s = (let s1 = s\<lparr>lot_out := lot_out s @ [''SIGINT Handled'' @ [newline]], runStatus := False\<rparr> in
     case who of
       MainThread \<Rightarrow> Some s1
     | OwnerThread \<Rightarrow> if opc s = OExit then None
         else if opc s = OWaitA \<and> inChargeforAutomobile s = 0 then Some (s1\<lparr>opc := OLeave\<rparr>)
         else if opc s = OWaitP \<and> inChargeforPickup s = 0 then Some (s1\<lparr>opc := OLeave\<rparr>)
         else Some s1
     | AttAThread \<Rightarrow> if apc s = AExit then None
         else if apc s = AWait \<and> newAutomobile s = 0 then Some (s1\<lparr>apc := ACheck\<rparr>)
         else Some s1
     | AttPThread \<Rightarrow> if ppc s = AExit then None
         else if ppc s = AWait \<and> newPickup s = 0 then Some (s1\<lparr>ppc := ACheck\<rparr>)
         else Some s1)"

definition lot_step :: "lot_event \<Rightarrow> lot \<Rightarrow> lot option" where
  "lot_step ev s = (case ev of
      Owner r \<Rightarrow> owner_step r s
    | AttA \<Rightarrow> att_a_step s
    | AttP \<Rightarrow> att_p_step s
    | Interrupt who \<Rightarrow> interrupt_step who s)"

text \<open>Schedules whose interrupts, if there are any, reach \<open>main\<close>, which only joins the threads.\<close>

definition spared :: "lot_event \<Rightarrow> bool" where
  "spared e = (case e of Interrupt who \<Rightarrow> who = MainThread | _ \<Rightarrow> True)"

text \<open>The start, given what \<open>sem_open\<close> finds in the four semaphores.\<close>

definition lot_init :: "nat \<Rightarrow> nat \<Rightarrow> nat \<Rightarrow> nat \<Rightarrow> lot" where
  "lot_init chargeP chargeA newP newA =
     \<lparr>carID = 0, mFree_automobile = 8, mFree_pickup = 4, newAutomobile = newA, newPickup = newP,
      inChargeforAutomobile = chargeA, inChargeforPickup = chargeP, runStatus = True,
      opc = OTest, apc = ATest, ppc = ATest, lot_out = [],
      parked_a = 0, parked_p = 0, left_a = 0, left_p = 0, came_a = 0, came_p = 0\<rparr>"

text \<open>
  \<open>main\<close>: the four \<open>sem_open\<close> calls (\<open>None\<close> for \<open>SEM_FAILED\<close>). A failure of the first is
  only reported; the threads start with an unusable \<open>inChargeforPickup\<close>.
\<close>

datatype lot_start =
    LotStarted lot                     \<comment> \<open>all four semaphores are open\<close>
  | LotStartedNoPickup lot             \<comment> \<open>\<open>inChargeforPickup\<close> is \<open>SEM_FAILED\<close>\<close>
  | LotFailed "string list"            \<comment> \<open>\<open>exit\<close> after unlinking these names\<close>

definition lot_main :: "nat option \<Rightarrow> nat option \<Rightarrow> nat option \<Rightarrow> nat option \<Rightarrow> lot_start" where
  "lot_main chargeP chargeA newP newA =
     (case chargeA of None \<Rightarrow> LotFailed [''/sem_InChangeforPickup'']
      | Some a \<Rightarrow> (case newP of None \<Rightarrow> LotFailed [''/sem_InChangeforPickup'', ''/sem_inChargeforAutomobile'']
      | Some np \<Rightarrow> (case newA of None \<Rightarrow>
            LotFailed [''/sem_InChangeforPickup'', ''/sem_inChargeforAutomobile'', ''/sem_newPickup'']
      | Some na \<Rightarrow> (case chargeP of None \<Rightarrow> LotStartedNoPickup (lot_init 0 a np na)
      | Some p \<Rightarrow> LotStarted (lot_init p a np na)))))"

section \<open>Invariants\<close>

text \<open>A car in the hands of an attendant, and the cars the owner has announced.\<close>

fun serving :: "att_pc \<Rightarrow> nat" where
  "serving ATest = 0" | "serving AWait = 0" | "serving AExit = 0" | "serving _ = 1"

fun calls_a :: "owner_pc \<Rightarrow> nat" where
  "calls_a OSayA = 1" | "calls_a OWaitA = 1" | "calls_a OExit = 1" | "calls_a _ = 0"

fun calls_p :: "owner_pc \<Rightarrow> nat" where
  "calls_p OSayP = 1" | "calls_p OWaitP = 1" | "calls_p OFinA = 1" | "calls_p OExit = 1"
| "calls_p _ = 0"

fun holds_a :: "lot \<Rightarrow> owner_pc \<Rightarrow> bool" where
  "holds_a s OPostA = (mFree_automobile s > 0)"
| "holds_a s OLoadA = (mFree_automobile s < 8)"
| "holds_a s (OStoreA v) = (v = mFree_automobile s \<and> v < 8)"
| "holds_a s _ = True"

fun holds_p :: "lot \<Rightarrow> owner_pc \<Rightarrow> bool" where
  "holds_p s OPostP = (mFree_pickup s > 0)"
| "holds_p s OLoadP = (mFree_pickup s < 4)"
| "holds_p s (OStoreP v) = (v = mFree_pickup s \<and> v < 4)"
| "holds_p s _ = True"

fun att_ok :: "int \<Rightarrow> att_pc \<Rightarrow> bool" where
  "att_ok free ALoad = (free > 0)"
| "att_ok free (AStore v) = (v = free \<and> free > 0)"
| "att_ok free _ = True"

definition lot_inv_a :: "lot \<Rightarrow> bool" where
  "lot_inv_a s \<longleftrightarrow> newAutomobile s + serving (apc s) + inChargeforAutomobile s = calls_a (opc s)
     \<and> 0 \<le> mFree_automobile s \<and> mFree_automobile s \<le> 8
     \<and> mFree_automobile s = 8 - parked_a s + left_a s
     \<and> holds_a s (opc s) \<and> att_ok (mFree_automobile s) (apc s)"

definition lot_inv_p :: "lot \<Rightarrow> bool" where
  "lot_inv_p s \<longleftrightarrow> newPickup s + serving (ppc s) + inChargeforPickup s = calls_p (opc s)
     \<and> 0 \<le> mFree_pickup s \<and> mFree_pickup s \<le> 4
     \<and> mFree_pickup s = 4 - parked_p s + left_p s
     \<and> holds_p s (opc s) \<and> att_ok (mFree_pickup s) (ppc s)"

lemma att_ok_idle: "serving pc = 0 \<Longrightarrow> att_ok free pc"
  by (cases pc) auto

lemma holds_idle: "calls_a pc \<noteq> 0 \<Longrightarrow> holds_a s pc" "calls_p pc \<noteq> 0 \<Longrightarrow> holds_p s pc"
  by (cases pc; simp)+

lemma owner_step_inv_a:
  assumes "lot_inv_a s" "owner_step r s = Some s'"
  shows "lot_inv_a s'"
  using assms
  by (cases "opc s") (auto simp: lot_inv_a_def owner_step_def att_ok_idle split: if_splits)

lemma owner_step_inv_p:
  assumes "lot_inv_p s" "owner_step r s = Some s'"
  shows "lot_inv_p s'"
  using assms
  by (cases "opc s") (auto simp: lot_inv_p_def owner_step_def att_ok_idle split: if_splits)

lemma holds_cong:
  "mFree_automobile s' = mFree_automobile s \<Longrightarrow> holds_a s' pc = holds_a s pc"
  "mFree_pickup s' = mFree_pickup s \<Longrightarrow> holds_p s' pc = holds_p s pc"
  by (cases pc; simp)+

lemma lot_inv_a_cong:
  assumes "lot_inv_a s" "newAutomobile s' = newAutomobile s" "apc s' = apc s" "opc s' = opc s"
    "inChargeforAutomobile s' = inChargeforAutomobile s" "mFree_automobile s' = mFree_automobile s"
    "parked_a s' = parked_a s" "left_a s' = left_a s"
  shows "lot_inv_a s'"
  using assms(1) holds_cong(1) [OF assms(6), of "opc s"] unfolding lot_inv_a_def assms(2-8) by blast

lemma lot_inv_p_cong:
  assumes "lot_inv_p s" "newPickup s' = newPickup s" "ppc s' = ppc s" "opc s' = opc s"
    "inChargeforPickup s' = inChargeforPickup s" "mFree_pickup s' = mFree_pickup s"
    "parked_p s' = parked_p s" "left_p s' = left_p s"
  shows "lot_inv_p s'"
  using assms(1) holds_cong(2) [OF assms(6), of "opc s"] unfolding lot_inv_p_def assms(2-8) by blast

lemma att_a_step_inv_a:
  assumes "lot_inv_a s" "att_a_step s = Some s'"
  shows "lot_inv_a s'"
proof (cases "serving (apc s) = 0")
  case True
  then show ?thesis using assms
    by (cases "apc s"; cases "opc s") (auto simp: lot_inv_a_def att_a_step_def split: if_splits)
next
  case False
  then have "calls_a (opc s) \<noteq> 0" using assms(1) by (auto simp: lot_inv_a_def)
  moreover have "opc s' = opc s" using assms(2)
    by (auto simp: att_a_step_def split: att_pc.splits if_splits)
  ultimately have "holds_a s' (opc s')" using holds_idle by metis
  then show ?thesis using False assms
    by (cases "apc s") (auto simp: lot_inv_a_def att_a_step_def split: if_splits)
qed

lemma att_p_step_inv_p:
  assumes "lot_inv_p s" "att_p_step s = Some s'"
  shows "lot_inv_p s'"
proof (cases "serving (ppc s) = 0")
  case True
  then show ?thesis using assms
    by (cases "ppc s"; cases "opc s") (auto simp: lot_inv_p_def att_p_step_def split: if_splits)
next
  case False
  then have "calls_p (opc s) \<noteq> 0" using assms(1) by (auto simp: lot_inv_p_def)
  moreover have "opc s' = opc s" using assms(2)
    by (auto simp: att_p_step_def split: att_pc.splits if_splits)
  ultimately have "holds_p s' (opc s')" using holds_idle by metis
  then show ?thesis using False assms
    by (cases "ppc s") (auto simp: lot_inv_p_def att_p_step_def split: if_splits)
qed

definition lot_inv :: "lot \<Rightarrow> bool" where
  "lot_inv s \<longleftrightarrow> lot_inv_a s \<and> lot_inv_p s"

lemma lot_step_inv:
  assumes "lot_inv s" "spared ev" "lot_step ev s = Some s'"
  shows "lot_inv s'"
proof (cases ev)
  case (Owner r)
  then have st: "owner_step r s = Some s'" using assms(3) by (simp add: lot_step_def)
  show ?thesis using assms(1) owner_step_inv_a [OF _ st] owner_step_inv_p [OF _ st]
    by (simp add: lot_inv_def)
next
  case AttA
  then have st: "att_a_step s = Some s'" using assms(3) by (simp add: lot_step_def)
  have "lot_inv_p s'" by (rule lot_inv_p_cong [of s])
      (use assms(1) st in \<open>auto simp: lot_inv_def att_a_step_def split: att_pc.splits if_splits\<close>)
  then show ?thesis using att_a_step_inv_a [OF _ st] assms(1) by (simp add: lot_inv_def)
next
  case AttP
  then have st: "att_p_step s = Some s'" using assms(3) by (simp add: lot_step_def)
  have "lot_inv_a s'" by (rule lot_inv_a_cong [of s])
      (use assms(1) st in \<open>auto simp: lot_inv_def att_p_step_def split: att_pc.splits if_splits\<close>)
  then show ?thesis using att_p_step_inv_p [OF _ st] assms(1) by (simp add: lot_inv_def)
next
  case (Interrupt who)
  then have s': "s' = s\<lparr>lot_out := lot_out s @ [''SIGINT Handled'' @ [newline]], runStatus := False\<rparr>"
    using assms(2,3) by (simp add: lot_step_def interrupt_step_def spared_def)
  show ?thesis using assms(1) s' lot_inv_a_cong [of s s'] lot_inv_p_cong [of s s']
    by (simp add: lot_inv_def)
qed

lemma lot_init_inv: "lot_inv (lot_init 0 0 0 0)"
  by (simp add: lot_inv_def lot_inv_a_def lot_inv_p_def lot_init_def)


section \<open>Every announced car is parked\<close>

fun unserved :: "att_pc \<Rightarrow> nat" where
  "unserved ACheck = 1" | "unserved ALoad = 1" | "unserved (AStore v) = 1" | "unserved _ = 0"

definition served_a :: "lot \<Rightarrow> bool" where
  "served_a s \<longleftrightarrow> opc s \<noteq> OExit \<longrightarrow>
     came_a s = parked_a s + int (newAutomobile s + unserved (apc s))
     \<and> (newAutomobile s + unserved (apc s) > 0 \<longrightarrow> mFree_automobile s > 0)"

definition served_p :: "lot \<Rightarrow> bool" where
  "served_p s \<longleftrightarrow> opc s \<notin> {OFinA, OExit} \<longrightarrow>
     came_p s = parked_p s + int (newPickup s + unserved (ppc s))
     \<and> (newPickup s + unserved (ppc s) > 0 \<longrightarrow> mFree_pickup s > 0)"

definition alive :: "lot \<Rightarrow> bool" where
  "alive s \<longleftrightarrow> runStatus s \<longrightarrow> apc s \<noteq> AExit \<and> ppc s \<noteq> AExit
     \<and> opc s \<notin> {OFinP, OFinA, OExit}"

lemma unserved_le: "unserved pc \<le> serving pc"
  by (cases pc) auto

lemma unserved_idle: "serving pc = 0 \<Longrightarrow> unserved pc = 0"
  using unserved_le [of pc] by simp

lemma owner_step_served:
  assumes "lot_inv s" "served_a s" "served_p s" "owner_step r s = Some s'"
  shows "served_a s'" "served_p s'"
  using assms
  by (cases "opc s"; fastforce simp: lot_inv_def lot_inv_a_def served_a_def owner_step_def unserved_idle
        split: if_splits)
     (use assms in \<open>cases "opc s"; fastforce simp: lot_inv_def lot_inv_p_def served_p_def owner_step_def
        unserved_idle split: if_splits\<close>)

lemma calls_le: "calls_a pc \<le> 1" "calls_p pc \<le> 1"
  by (cases pc; simp)+

lemma att_a_step_served:
  assumes "lot_inv s" "served_a s" "served_p s" "att_a_step s = Some s'"
  shows "served_a s'" "served_p s'"
proof -
  have one: "newAutomobile s + serving (apc s) \<le> 1" and ok: "att_ok (mFree_automobile s) (apc s)"
    using assms(1) calls_le(1) [of "opc s"] unfolding lot_inv_def lot_inv_a_def by linarith+
  show "served_a s'"
    using assms(2,4) one ok
    by (cases "apc s") (simp_all add: served_a_def att_a_step_def split: if_splits, auto)
  show "served_p s'" using assms(3,4)
    by (auto simp: served_p_def att_a_step_def split: att_pc.splits if_splits)
qed

lemma att_p_step_served:
  assumes "lot_inv s" "served_a s" "served_p s" "att_p_step s = Some s'"
  shows "served_a s'" "served_p s'"
proof -
  have one: "newPickup s + serving (ppc s) \<le> 1" and ok: "att_ok (mFree_pickup s) (ppc s)"
    using assms(1) calls_le(2) [of "opc s"] unfolding lot_inv_def lot_inv_p_def by linarith+
  show "served_p s'"
    using assms(3,4) one ok
    by (cases "ppc s") (simp_all add: served_p_def att_p_step_def split: if_splits, auto)
  show "served_a s'" using assms(2,4)
    by (auto simp: served_a_def att_p_step_def split: att_pc.splits if_splits)
qed

lemma owner_step_alive: "alive s \<Longrightarrow> owner_step r s = Some s' \<Longrightarrow> alive s'"
  by (cases "opc s") (auto simp: alive_def owner_step_def split: if_splits)

lemma att_step_alive:
  "alive s \<Longrightarrow> att_a_step s = Some s' \<Longrightarrow> alive s'"
  "alive s \<Longrightarrow> att_p_step s = Some s' \<Longrightarrow> alive s'"
  by (cases "apc s"; auto simp: alive_def att_a_step_def split: if_splits)
     (cases "ppc s"; auto simp: alive_def att_p_step_def split: if_splits)

definition lot_good :: "lot \<Rightarrow> bool" where
  "lot_good s \<longleftrightarrow> lot_inv s \<and> served_a s \<and> served_p s \<and> alive s"

lemma lot_step_good:
  assumes "lot_good s" "spared ev" "lot_step ev s = Some s'"
  shows "lot_good s'"
proof -
  have g: "lot_inv s" "served_a s" "served_p s" "alive s" using assms(1) by (simp_all add: lot_good_def)
  have i: "lot_inv s'" by (rule lot_step_inv [OF g(1) assms(2,3)])
  show ?thesis
  proof (cases ev)
    case (Owner r)
    then have st: "owner_step r s = Some s'" using assms(3) by (simp add: lot_step_def)
    show ?thesis using i owner_step_served [OF g(1-3) st] owner_step_alive [OF g(4) st]
      by (simp add: lot_good_def)
  next
    case AttA
    then have st: "att_a_step s = Some s'" using assms(3) by (simp add: lot_step_def)
    show ?thesis using i att_a_step_served [OF g(1-3) st] att_step_alive(1) [OF g(4) st]
      by (simp add: lot_good_def)
  next
    case AttP
    then have st: "att_p_step s = Some s'" using assms(3) by (simp add: lot_step_def)
    show ?thesis using i att_p_step_served [OF g(1-3) st] att_step_alive(2) [OF g(4) st]
      by (simp add: lot_good_def)
  next
    case (Interrupt who)
    then have s': "s' = s\<lparr>lot_out := lot_out s @ [''SIGINT Handled'' @ [newline]], runStatus := False\<rparr>"
      using assms(2,3) by (simp add: lot_step_def interrupt_step_def spared_def)
    have "served_a s' = served_a s" "served_p s' = served_p s" "alive s'"
      unfolding s' by (simp_all add: served_a_def served_p_def alive_def)
    then show ?thesis using i g by (simp add: lot_good_def)
  qed
qed

lemma lot_run_good: "list_all spared evs \<Longrightarrow> lot_good (sched_run lot_step evs (lot_init 0 0 0 0))"
proof (rule sched_run_invariant_on [where I = lot_good and P = spared])
  show "lot_good (lot_init 0 0 0 0)"
    using lot_init_inv by (simp add: lot_good_def served_a_def served_p_def alive_def lot_init_def)
qed (use lot_step_good in blast)+

section \<open>The properties\<close>

text \<open>
  C10. The parking counters are right at every moment of every schedule in which no interrupt
  reaches a thread of the parking lot, although no lock protects them: the free automobile
  places are between 0 and 8 and equal 8 minus the cars parked plus the cars that left, the
  pickup places between 0 and 4 likewise; no update is lost.
\<close>

theorem parking_counters_exact:
  assumes "list_all spared evs"
  shows "let s = sched_run lot_step evs (lot_init 0 0 0 0) in
     0 \<le> mFree_automobile s \<and> mFree_automobile s \<le> 8
   \<and> mFree_automobile s = 8 - parked_a s + left_a s
   \<and> 0 \<le> mFree_pickup s \<and> mFree_pickup s \<le> 4
   \<and> mFree_pickup s = 4 - parked_p s + left_p s"
  using lot_run_good [OF assms]
  by (simp add: Let_def lot_good_def lot_inv_def lot_inv_a_def lot_inv_p_def)

definition park_one :: "lot_event list" where
  "park_one = [Owner 0, Owner 0, Owner 0, Owner 0] @ replicate 7 AttA @ [Owner 0, Owner 1]"

lemma park_one_spared: "list_all spared park_one"
  by code_simp

theorem parking_counters_exact_witness:
  "mFree_automobile (sched_run lot_step park_one (lot_init 0 0 0 0)) = 7"
proof -
  have "parked_a (sched_run lot_step park_one (lot_init 0 0 0 0)) = 1
      \<and> left_a (sched_run lot_step park_one (lot_init 0 0 0 0)) = 0" by code_simp
  then show ?thesis using parking_counters_exact [OF park_one_spared] by (simp add: Let_def)
qed

text \<open>
  C12. No announced car is lost as long as no interrupt reaches a thread of the parking lot: in
  every reachable state in which the owner is about to bring the next car, each automobile
  and each pickup announced so far has been parked exactly once.
\<close>

theorem parking_serves_every_car:
  assumes "list_all spared evs" and "s = sched_run lot_step evs (lot_init 0 0 0 0)" and "opc s = OTest"
  shows "came_a s = parked_a s \<and> came_p s = parked_p s"
proof -
  have g: "lot_good s" unfolding assms(2) by (rule lot_run_good [OF assms(1)])
  then have "newAutomobile s = 0" "serving (apc s) = 0" "newPickup s = 0" "serving (ppc s) = 0"
    using assms(3) by (simp_all add: lot_good_def lot_inv_def lot_inv_a_def lot_inv_p_def)
  then show ?thesis
    using g assms(3) by (simp add: lot_good_def served_a_def served_p_def unserved_idle)
qed

theorem parking_serves_every_car_witness:
  "came_a (sched_run lot_step park_one (lot_init 0 0 0 0)) = 1
   \<and> parked_a (sched_run lot_step park_one (lot_init 0 0 0 0)) = 1"
proof -
  have "opc (sched_run lot_step park_one (lot_init 0 0 0 0)) = OTest
      \<and> came_a (sched_run lot_step park_one (lot_init 0 0 0 0)) = 1" by code_simp
  then show ?thesis using parking_serves_every_car [OF park_one_spared refl] by simp
qed

text \<open>
  C13. A car is not kept waiting: whenever the owner waits for one of the attendants and the
  program has not been interrupted, seven steps of that attendant are enough to let the
  owner go on, from every reachable state.
\<close>

theorem parking_owner_released:
  assumes "list_all spared evs" and "s = sched_run lot_step evs (lot_init 0 0 0 0)" and "runStatus s"
  shows "(opc s = OWaitA \<longrightarrow> opc (sched_run lot_step (replicate 7 AttA @ [Owner r]) s) = OLeave)
    \<and> (opc s = OWaitP \<longrightarrow> opc (sched_run lot_step (replicate 7 AttP @ [Owner r]) s) = OLeave)"
proof -
  have g: "lot_good s" unfolding assms(2) by (rule lot_run_good [OF assms(1)])
  have seven: "replicate 7 e = [e, e, e, e, e, e, e]" for e :: lot_event
    by (simp add: numeral_eq_Suc)
  have "opc (sched_run lot_step (replicate 7 AttA @ [Owner r]) s) = OLeave" if w: "opc s = OWaitA"
  proof -
    have one: "newAutomobile s + serving (apc s) + inChargeforAutomobile s = 1" "apc s \<noteq> AExit"
      using g w assms(3) by (simp_all add: lot_good_def lot_inv_def lot_inv_a_def alive_def)
    show ?thesis using w assms(3) one unfolding seven
      by (cases "apc s"; cases "newAutomobile s = 0")
         (simp_all add: lot_step_def att_a_step_def owner_step_def)
  qed
  moreover have "opc (sched_run lot_step (replicate 7 AttP @ [Owner r]) s) = OLeave" if w: "opc s = OWaitP"
  proof -
    have one: "newPickup s + serving (ppc s) + inChargeforPickup s = 1" "ppc s \<noteq> AExit"
      using g w assms(3) by (simp_all add: lot_good_def lot_inv_def lot_inv_p_def alive_def)
    show ?thesis using w assms(3) one unfolding seven
      by (cases "ppc s"; cases "newPickup s = 0")
         (simp_all add: lot_step_def att_p_step_def owner_step_def)
  qed
  ultimately show ?thesis by blast
qed

theorem parking_owner_released_witness:
  "opc (sched_run lot_step (replicate 7 AttA @ [Owner 0])
      (sched_run lot_step (replicate 4 (Owner 0)) (lot_init 0 0 0 0))) = OLeave
   \<and> opc (sched_run lot_step (replicate 7 AttP @ [Owner 0])
      (sched_run lot_step [Owner 1, Owner 0, Owner 0, Owner 0] (lot_init 0 0 0 0))) = OLeave"
proof -
  let ?a = "sched_run lot_step (replicate 4 (Owner 0)) (lot_init 0 0 0 0)"
  let ?p = "sched_run lot_step [Owner 1, Owner 0, Owner 0, Owner 0] (lot_init 0 0 0 0)"
  have "opc ?a = OWaitA \<and> runStatus ?a" "opc ?p = OWaitP \<and> runStatus ?p"
      "list_all spared (replicate 4 (Owner 0))" "list_all spared [Owner 1, Owner 0, Owner 0, Owner 0]"
    by code_simp+
  then show ?thesis
    using parking_owner_released [of "replicate 4 (Owner 0)" ?a 0] parking_owner_released [of "[Owner 1, Owner 0, Owner 0, Owner 0]" ?p 0]
    by blast
qed


definition abandoned :: "lot \<Rightarrow> bool" where
  "abandoned s \<longleftrightarrow> apc s = AExit \<and> inChargeforAutomobile s = 0 \<and> opc s \<in> {OPostA, OSayA, OWaitA}"

lemma abandoned_exit: "abandoned s \<Longrightarrow> opc s \<noteq> OExit"
  by (auto simp: abandoned_def)

lemma abandoned_step:
  assumes "abandoned s" "lot_step ev s = Some s'" "spared ev"
  shows "abandoned s'"
proof (cases ev)
  case (Owner r)
  then show ?thesis using assms
    by (cases "opc s") (simp_all add: abandoned_def lot_step_def owner_step_def split: if_splits, auto)
next
  case AttA
  then show ?thesis using assms by (simp add: abandoned_def lot_step_def att_a_step_def)
next
  case AttP
  then have "apc s' = apc s \<and> opc s' = opc s \<and> inChargeforAutomobile s' = inChargeforAutomobile s"
    using assms(2) by (auto simp: lot_step_def att_p_step_def split: att_pc.splits if_splits)
  then show ?thesis using assms(1) by (simp add: abandoned_def)
next
  case (Interrupt who)
  then have "s' = s\<lparr>lot_out := lot_out s @ [''SIGINT Handled'' @ [newline]], runStatus := False\<rparr>"
    using assms(2,3) by (simp add: lot_step_def interrupt_step_def spared_def)
  then show ?thesis using assms(1) by (simp add: abandoned_def)
qed

text \<open>
  An interrupt can leave the program hanging: the attendant tests \<open>runStatus\<close> and ends
  while the owner, already past its own test, announces a car to him and then waits on a
  semaphore that nobody will post. There is a schedule after which no continuation ends
  the owner, unless another interrupt reaches it.
\<close>

theorem parking_interrupt_hangs:
  "\<exists>evs. \<forall>evs'. list_all spared evs' \<longrightarrow> opc (sched_run lot_step (evs @ evs') (lot_init 0 0 0 0)) \<noteq> OExit"
proof -
  let ?evs = "[Owner 0, Owner 0, Interrupt MainThread, AttA]"
  have "abandoned (sched_run lot_step (?evs @ evs') (lot_init 0 0 0 0))" if "list_all spared evs'" for evs'
    unfolding sched_run_append
  proof (rule sched_run_invariant_on [where I = abandoned and P = spared])
    show "abandoned (sched_run lot_step ?evs (lot_init 0 0 0 0))" by code_simp
  qed (use that abandoned_step in blast)+
  then show ?thesis using abandoned_exit by blast
qed

text \<open>
  The wake-up at shutdown parks a car that does not exist: there is a schedule in which
  no automobile ever comes and all three threads end, yet the attendant has parked one.
\<close>

theorem parking_phantom_car:
  "\<exists>evs s. s = sched_run lot_step evs (lot_init 0 0 0 0) \<and> opc s = OExit \<and> apc s = AExit
     \<and> ppc s = AExit \<and> came_a s = 0 \<and> parked_a s = 1 \<and> mFree_automobile s = 7"
proof -
  have "(\<lambda>s. opc s = OExit \<and> apc s = AExit \<and> ppc s = AExit \<and> came_a s = 0 \<and> parked_a s = 1
      \<and> mFree_automobile s = 7)
    (sched_run lot_step ([AttA, Interrupt MainThread, AttP, Owner 0, Owner 0, Owner 0] @ replicate 7 AttA)
       (lot_init 0 0 0 0))"
    by code_simp
  then show ?thesis by blast
qed

end
