(* ===== verification/MidStart.thy ===== *)
theory MidStart
  imports CText
begin

text \<open>
  Starting the server and a client of \<^verbatim>\<open>midterm\<close>: \<open>main\<close> of \<open>server.c\<close> and of \<open>client.c\<close> up to
  their loops. The names in the file system are a map to numbers of files (directories and
  FIFOs); a FIFO keeps its number when its name is removed. A start is one step: the
  server has created its FIFOs and opened them, or has returned an error. The number of
  clients is read by \<^verbatim>\<open>atoi\<close>, which is undefined for 2^31 and more.
\<close>

section \<open>Names and pipes\<close>

definition SERVER_FIFO :: string where "SERVER_FIFO = ''/tmp/serverFifo''"
definition TEMP_DOWNLOAD_FIFO :: string where "TEMP_DOWNLOAD_FIFO = ''/tmp/downfifo''"

definition client_fifo :: "int \<Rightarrow> string" where
  "client_fifo pid = ''/tmp/clientFifo_'' @ dec pid"

definition client_sems :: "int \<Rightarrow> string set" where
  "client_sems pid = {''sem.'' @ dec pid, ''sem2.'' @ dec pid}"

record mid_system =
  paths :: "string \<rightharpoonup> nat"
  next_file :: nat
  pipes :: "nat \<Rightarrow> (int \<times> int) list"     \<comment> \<open>requests sent, or waiting in \<^verbatim>\<open>open\<close> for a reader: the client and the server it asks for\<close>
  semaphores :: "string set"
  log_txt :: "string list"

definition make_name :: "string \<Rightarrow> mid_system \<Rightarrow> mid_system" where
  "make_name p s = s\<lparr>paths := (paths s)(p \<mapsto> next_file s), next_file := next_file s + 1, pipes := (pipes s)(next_file s := [])\<rparr>"

definition unlink :: "string \<Rightarrow> mid_system \<Rightarrow> mid_system" where
  "unlink p s = s\<lparr>paths := (paths s)(p := None)\<rparr>"

definition add_log :: "string \<Rightarrow> mid_system \<Rightarrow> mid_system" where
  "add_log l s = s\<lparr>log_txt := log_txt s @ [l]\<rparr>"

section \<open>The server\<close>

text \<open>
  The flags say whether \<^verbatim>\<open>mkdir\<close> and the two \<^verbatim>\<open>mkfifo\<close> work where the name is free. The result
  is the number of clients and the FIFO that the server reads.
\<close>

definition server_setup :: "bool \<Rightarrow> bool \<Rightarrow> bool \<Rightarrow> int \<Rightarrow> string list \<Rightarrow> mid_system \<Rightarrow> (int \<times> nat) option \<times> mid_system" where
  "server_setup mkdir_ok fifo_ok down_ok pid argv s =
     (let s = s\<lparr>log_txt := []\<rparr> in
      if length argv \<noteq> 3
      then (None, add_log (''>> Invalid size of argument(s) '' @ dec (int (length argv)) @ [newline]
             @ ''Example command : ./neHosServer Here #ofClients'' @ [newline] @ ''Exiting...'' @ [newline]) s)
      else let n = c_atoi (argv ! 2) in
      if n \<le> 0
      then (None, add_log (''>>#of Clients must be greater than 0! You entered : '' @ dec n @ [newline] @ ''Exiting...'' @ [newline]) s)
      else if paths s (argv ! 1) = None \<and> \<not> mkdir_ok then (None, add_log (''>> mkdir syscall error'' @ [newline]) s)
      else let s = (if paths s (argv ! 1) = None then make_name (argv ! 1) s else s) in
      if paths s SERVER_FIFO \<noteq> None then (None, add_log (''>> mkfifo '' @ SERVER_FIFO @ [newline]) (unlink SERVER_FIFO s))
      else if \<not> fifo_ok then (None, add_log (''>> mkfifo '' @ SERVER_FIFO @ [newline]) s)
      else let i = next_file s; s = make_name SERVER_FIFO s in
      if paths s TEMP_DOWNLOAD_FIFO \<noteq> None
      then (None, add_log (''mkfifo '' @ TEMP_DOWNLOAD_FIFO @ [newline]) (unlink TEMP_DOWNLOAD_FIFO (unlink SERVER_FIFO s)))
      else if \<not> down_ok then (None, add_log (''mkfifo '' @ TEMP_DOWNLOAD_FIFO @ [newline]) s)
      else (Some (n, i), add_log (''>> Server started PID '' @ dec pid @ ''...'' @ [newline] @ ''>>waiting for clients...'' @ [newline])
             (add_log (''>> server fifo created : '' @ SERVER_FIFO @ [newline]) (make_name TEMP_DOWNLOAD_FIFO s))))"

text \<open>What the handler of the server removes, by name.\<close>

definition server_cleanup :: "mid_system \<Rightarrow> mid_system" where
  "server_cleanup s = unlink TEMP_DOWNLOAD_FIFO (unlink SERVER_FIFO s)"

section \<open>The client\<close>

text \<open>The flags say whether \<^verbatim>\<open>mkfifo\<close> works where the name is free and whether the request is written.\<close>

definition client_setup :: "bool \<Rightarrow> bool \<Rightarrow> int \<Rightarrow> string list \<Rightarrow> mid_system \<Rightarrow> bool \<times> mid_system" where
  "client_setup mkfifo_ok write_ok pid argv s =
     (if length argv \<noteq> 3
      then (False, add_log (''Invalid size of argument(s) '' @ dec (int (length argv)) @ [newline]
             @ ''Example command : ./neHosClient <connect/tryConnect> serverPID'' @ [newline] @ ''Exiting...'' @ [newline]) s)
      else if argv ! 1 \<noteq> ''connect'' \<and> argv ! 1 \<noteq> ''tryConnect''
      then (False, add_log (''Valid command is \"connect\" or \"tryConnect\" you entered :'' @ argv ! 1 @ [newline]
             @ ''Example command : ./neHosClient <connect/tryConnect> serverPID'' @ [newline] @ ''Exiting...'' @ [newline]) s)
      else let serverPid = c_atoi (argv ! 2) in
      if serverPid \<le> 1 then (False, s)
      else case paths s SERVER_FIFO of
          None \<Rightarrow> (False, s)
        | Some i \<Rightarrow>
            let s = add_log (''>> Server fifo opened in client '' @ dec pid @ ''...'' @ [newline]) s in
            if paths s (client_fifo pid) \<noteq> None \<or> \<not> mkfifo_ok then (False, unlink (client_fifo pid) s)
            else let s = (make_name (client_fifo pid) s)\<lparr>semaphores := semaphores s \<union> client_sems pid\<rparr> in
            if \<not> write_ok then (False, unlink (client_fifo pid) s)
            else (True, s\<lparr>pipes := (pipes s)(i := pipes s i @ [(pid, serverPid)])\<rparr>))"

text \<open>The handler of the client for \<^verbatim>\<open>SIGTERM\<close>.\<close>

definition client_cleanup :: "int \<Rightarrow> mid_system \<Rightarrow> mid_system" where
  "client_cleanup pid s = (unlink (client_fifo pid) s)\<lparr>semaphores := semaphores s - client_sems pid\<rparr>"

section \<open>Many starts\<close>

datatype mid_start = StartServer bool bool bool int "string list" | StartClient bool bool int "string list"
  | EndServer | EndClient int

fun mid_event :: "mid_start \<Rightarrow> mid_system \<Rightarrow> mid_system" where
  "mid_event (StartServer a b c pid argv) s = snd (server_setup a b c pid argv s)"
| "mid_event (StartClient a b pid argv) s = snd (client_setup a b pid argv s)"
| "mid_event EndServer s = server_cleanup s"
| "mid_event (EndClient pid) s = client_cleanup pid s"

definition mid_events :: "mid_start list \<Rightarrow> mid_system \<Rightarrow> mid_system" where
  "mid_events es s = fold mid_event es s"

text \<open>A pipe without a name is reached by nobody any more.\<close>

definition unnamed :: "nat \<Rightarrow> mid_system \<Rightarrow> bool" where
  "unnamed i s \<longleftrightarrow> i \<notin> ran (paths s) \<and> i < next_file s"

lemma unnamed_make: "unnamed i s \<Longrightarrow> unnamed i (make_name p s) \<and> pipes (make_name p s) i = pipes s i"
  by (auto simp: unnamed_def make_name_def ran_def)

lemma unnamed_unlink: "unnamed i s \<Longrightarrow> unnamed i (unlink p s)"
  by (auto simp: unnamed_def unlink_def ran_def)

lemma unnamed_fields [simp]:
  "unnamed i (add_log l s) = unnamed i s" "unnamed i (s\<lparr>log_txt := ls\<rparr>) = unnamed i s"
  "unnamed i (s\<lparr>semaphores := ss\<rparr>) = unnamed i s" "unnamed i (s\<lparr>pipes := f\<rparr>) = unnamed i s"
  "pipes (add_log l s) = pipes s" "paths (add_log l s) = paths s" "pipes (unlink p s) = pipes s"
  by (simp_all add: unnamed_def add_log_def unlink_def)

end
