(* ===== verification/MidStartProps.thy ===== *)
theory MidStartProps
  imports MidStart
begin

text \<open>What a second start does to a server that runs.\<close>

lemma unnamed_setup:
  assumes "unnamed i s"
  shows "unnamed i (snd (server_setup a b c pid argv s)) \<and> pipes (snd (server_setup a b c pid argv s)) i = pipes s i"
proof -
  define s1 where "s1 = s\<lparr>log_txt := []\<rparr>"
  define s2 where "s2 = (if paths s1 (argv ! 1) = None then make_name (argv ! 1) s1 else s1)"
  define s3 where "s3 = make_name SERVER_FIFO s2"
  have u1: "unnamed i s1 \<and> pipes s1 i = pipes s i" using assms by (simp add: s1_def)
  then have u2: "unnamed i s2 \<and> pipes s2 i = pipes s i" using unnamed_make by (auto simp: s2_def)
  then have u3: "unnamed i s3 \<and> pipes s3 i = pipes s i" using unnamed_make by (auto simp: s3_def)
  have "unnamed i (make_name TEMP_DOWNLOAD_FIFO s3) \<and> pipes (make_name TEMP_DOWNLOAD_FIFO s3) i = pipes s i"
    using u3 unnamed_make by auto
  then show ?thesis using u1 u2 u3 unnamed_unlink
    unfolding server_setup_def Let_def s1_def [symmetric] s2_def [symmetric] s3_def [symmetric]
    by (simp split: if_split)
qed

lemma unnamed_client:
  assumes "unnamed i s"
  shows "unnamed i (snd (client_setup a b pid argv s)) \<and> pipes (snd (client_setup a b pid argv s)) i = pipes s i"
proof (cases "paths s SERVER_FIFO")
  case None
  then show ?thesis using assms by (simp add: client_setup_def Let_def)
next
  case (Some j)
  then have ne: "j \<noteq> i" using assms by (auto simp: unnamed_def ran_def)
  define s1 where "s1 = add_log (''>> Server fifo opened in client '' @ dec pid @ ''...'' @ [newline]) s"
  define s2 where "s2 = (make_name (client_fifo pid) s1)\<lparr>semaphores := semaphores s1 \<union> client_sems pid\<rparr>"
  have u1: "unnamed i s1 \<and> pipes s1 i = pipes s i" using assms by (simp add: s1_def)
  then have u2: "unnamed i s2 \<and> pipes s2 i = pipes s i" using unnamed_make by (auto simp: s2_def)
  show ?thesis using Some assms ne u1 u2 unnamed_unlink
    unfolding client_setup_def Let_def s1_def [symmetric] s2_def [symmetric]
    by (simp split: if_split)
qed

lemma unnamed_event: "unnamed i s \<Longrightarrow> unnamed i (mid_event e s) \<and> pipes (mid_event e s) i = pipes s i"
  using unnamed_setup unnamed_client unnamed_unlink
  by (cases e) (simp_all add: server_cleanup_def client_cleanup_def)

lemma unnamed_events: "unnamed i s \<Longrightarrow> pipes (mid_events es s) i = pipes s i"
proof (induction es arbitrary: s)
  case (Cons e es)
  then show ?case using unnamed_event [OF Cons.prems, of e] by (simp add: mid_events_def)
qed (simp add: mid_events_def)

text \<open>Every name has a number that was given out before.\<close>

definition mid_fresh :: "mid_system \<Rightarrow> bool" where
  "mid_fresh s \<longleftrightarrow> (\<forall>p j. paths s p = Some j \<longrightarrow> j < next_file s) \<and> inj_on (paths s) (dom (paths s))"

lemma fifo_names: "SERVER_FIFO \<noteq> TEMP_DOWNLOAD_FIFO"
  by (simp add: SERVER_FIFO_def TEMP_DOWNLOAD_FIFO_def)

lemma fresh_make: "mid_fresh s \<Longrightarrow> mid_fresh (make_name p s)"
  by (fastforce simp: mid_fresh_def make_name_def inj_on_def dom_def less_Suc_eq)

lemma fresh_fields [simp]:
  "mid_fresh (add_log l s) = mid_fresh s" "mid_fresh (s\<lparr>log_txt := ls\<rparr>) = mid_fresh s"
  "next_file (add_log l s) = next_file s" "next_file (unlink p s) = next_file s"
  "next_file (make_name p s) = next_file s + 1"
  "paths (make_name p s) = (paths s)(p \<mapsto> next_file s)" "paths (unlink p s) = (paths s)(p := None)"
  by (simp_all add: mid_fresh_def add_log_def unlink_def make_name_def)

lemma fresh_unnamed: "mid_fresh s \<Longrightarrow> paths s p = Some i \<Longrightarrow> unnamed i (unlink p s)"
  by (fastforce simp: mid_fresh_def unnamed_def inj_on_def dom_def ran_def)

text \<open>The arguments of a server that can start.\<close>

definition valid_args :: "string list \<Rightarrow> bool" where
  "valid_args argv \<longleftrightarrow> length argv = 3 \<and> 0 < c_atoi (argv ! 2) \<and> argv ! 1 \<noteq> SERVER_FIFO \<and> argv ! 1 \<noteq> TEMP_DOWNLOAD_FIFO"

lemma setup_ok:
  assumes "valid_args argv" "paths s SERVER_FIFO = None" "paths s TEMP_DOWNLOAD_FIFO = None"
  shows "\<exists>i s'. server_setup True True True pid argv s = (Some (c_atoi (argv ! 2), i), s') \<and> paths s' SERVER_FIFO = Some i
    \<and> paths s' TEMP_DOWNLOAD_FIFO \<noteq> None \<and> paths s' (argv ! 1) \<noteq> None \<and> next_file s \<le> i \<and> (mid_fresh s \<longrightarrow> mid_fresh s')"
  using assms fifo_names fresh_make
  by (auto simp: server_setup_def valid_args_def Let_def)

lemma setup_server_exists:
  assumes "valid_args argv" "paths s SERVER_FIFO = Some i" "paths s (argv ! 1) \<noteq> None"
  shows "\<exists>l ls. server_setup a b c pid argv s = (None, add_log l (unlink SERVER_FIFO (s\<lparr>log_txt := ls\<rparr>)))"
  using assms by (auto simp: server_setup_def valid_args_def Let_def)

lemma setup_down_exists:
  assumes "valid_args argv" "paths s SERVER_FIFO = None" "paths s TEMP_DOWNLOAD_FIFO \<noteq> None" "paths s (argv ! 1) \<noteq> None"
  shows "\<exists>s'. server_setup True True True pid argv s = (None, s') \<and> paths s' SERVER_FIFO = None
    \<and> paths s' TEMP_DOWNLOAD_FIFO = None \<and> next_file s \<le> next_file s'"
  using assms fifo_names by (auto simp: server_setup_def valid_args_def Let_def)

text \<open>
  C40. While a server runs, a second start fails, and cuts the first one off: it removes the
  name of its FIFO, and whatever servers and clients start or end afterwards, no request
  ever reaches that FIFO again. The next start fails too, because of the other FIFO that is
  left, and removes it; only the third succeeds, with a FIFO of its own. (The number of
  clients is below 2^31, where \<^verbatim>\<open>atoi\<close> is defined.)
\<close>

theorem mid_second_start:
  assumes "valid_args argv" "mid_fresh s0" "paths s0 SERVER_FIFO = None" "paths s0 TEMP_DOWNLOAD_FIFO = None"
  shows "\<exists>i s1 s2 s3 j s4. server_setup True True True pid argv s0 = (Some (c_atoi (argv ! 2), i), s1)
    \<and> server_setup True True True p2 argv s1 = (None, s2)
    \<and> (\<forall>es. pipes (mid_events es s2) i = pipes s1 i)
    \<and> server_setup True True True p3 argv s2 = (None, s3)
    \<and> server_setup True True True p4 argv s3 = (Some (c_atoi (argv ! 2), j), s4) \<and> j \<noteq> i"
proof -
  obtain i s1 where s1: "server_setup True True True pid argv s0 = (Some (c_atoi (argv ! 2), i), s1)" "paths s1 SERVER_FIFO = Some i"
      "paths s1 TEMP_DOWNLOAD_FIFO \<noteq> None" "paths s1 (argv ! 1) \<noteq> None" "mid_fresh s1"
    using setup_ok [OF assms(1,3,4)] assms(2) by blast
  obtain l ls where s2: "server_setup True True True p2 argv s1 = (None, add_log l (unlink SERVER_FIFO (s1\<lparr>log_txt := ls\<rparr>)))"
    using setup_server_exists [OF assms(1) s1(2,4)] by blast
  let ?s2 = "add_log l (unlink SERVER_FIFO (s1\<lparr>log_txt := ls\<rparr>))"
  have "unnamed i ?s2" using fresh_unnamed [of "s1\<lparr>log_txt := ls\<rparr>" SERVER_FIFO i] s1(2,5) by simp
  then have cut: "pipes (mid_events es ?s2) i = pipes s1 i" for es using unnamed_events by simp
  have "argv ! 1 \<noteq> SERVER_FIFO" using assms(1) by (simp add: valid_args_def)
  then obtain s3 where s3: "server_setup True True True p3 argv ?s2 = (None, s3)" "paths s3 SERVER_FIFO = None"
      "paths s3 TEMP_DOWNLOAD_FIFO = None" "next_file ?s2 \<le> next_file s3"
    using setup_down_exists [OF assms(1), of ?s2 p3] s1(3,4) fifo_names by auto
  obtain j s4 where s4: "server_setup True True True p4 argv s3 = (Some (c_atoi (argv ! 2), j), s4)" "next_file s3 \<le> j"
    using setup_ok [OF assms(1) s3(2,3)] by blast
  have "i < next_file s1" using s1(2,5) by (simp add: mid_fresh_def)
  then have "j \<noteq> i" using s3(4) s4(2) by simp
  then show ?thesis using s1(1) s2 cut s3(1) s4(1) by blast
qed

lemma mid_second_start_witness:
  "let s = \<lparr>paths = [''Here'' \<mapsto> 0], next_file = 1, pipes = (\<lambda>_. []), semaphores = {}, log_txt = []\<rparr> in
   \<exists>i s1 s2. server_setup True True True 7 [''srv'', ''Here'', ''2''] s = (Some (2, i), s1)
     \<and> server_setup True True True 8 [''srv'', ''Here'', ''2''] s1 = (None, s2)
     \<and> pipes (mid_events [StartClient True True 9 [''cl'', ''connect'', ''7'']] s2) i = pipes s1 i"
proof -
  let ?s = "\<lparr>paths = [''Here'' \<mapsto> 0], next_file = 1, pipes = (\<lambda>_. []), semaphores = {}, log_txt = []\<rparr>"
  have n: "c_atoi ''2'' = 2" by code_simp
  have "valid_args [''srv'', ''Here'', ''2'']" by (simp add: valid_args_def n SERVER_FIFO_def TEMP_DOWNLOAD_FIFO_def)
  moreover have "mid_fresh ?s" "paths ?s SERVER_FIFO = None" "paths ?s TEMP_DOWNLOAD_FIFO = None"
    by (auto simp: mid_fresh_def SERVER_FIFO_def TEMP_DOWNLOAD_FIFO_def split: if_splits)
  ultimately show ?thesis using mid_second_start [of "[''srv'', ''Here'', ''2'']" ?s 7 8 9 10] n
    unfolding Let_def by simp blast
qed

end
