(* ===== verification/GradeParse.thy ===== *)
theory GradeParse
  imports CText
begin

text \<open>
  The command line of the grade book \<^verbatim>\<open>hw1_2024/management_system.c\<close>: \<open>parse_command\<close>
  cuts the input at blanks and quotes into at most eight words of at most 23 characters
  (the sizes of the arrays; anything longer is a write out of bounds), \<open>validateCommand\<close>
  recognises the command and the number of its arguments. The specification
  \<open>command_words\<close> says what the words are; the two agree whenever the words fit.
\<close>

section \<open>The parser\<close>

datatype terminalCommand =
    GTUSTUDENTGRADE | GTUSTUDENTGRADE_CREATE | ADDSTUDENT | SEARCHSTUDENT
  | SORTALL_0 | SORTALL_1 | SHOWALL | LISTGRADES | LISTSOME | COMMAND_ERR

definition quote :: char where "quote = CHR 0x22"

definition is_sep :: "char \<Rightarrow> bool" where
  "is_sep c \<longleftrightarrow> c = CHR '' '' \<or> c = quote"

definition TOKEN_LEN :: nat where "TOKEN_LEN = 24"
definition MAX_WORDS :: nat where "MAX_WORDS = 8"

fun parse_loop :: "string \<Rightarrow> string \<Rightarrow> string list \<Rightarrow> string list cres" where
  "parse_loop [] temp_token parsed = Inr parsed"
| "parse_loop (c # rest) temp_token parsed =
     (if \<not> is_sep c \<and> rest \<noteq> [] then
        (if TOKEN_LEN \<le> length temp_token then Inl OutOfBounds
         else parse_loop rest (temp_token @ [c]) parsed)
      else if temp_token \<noteq> [] then
        (if TOKEN_LEN \<le> length temp_token \<or> MAX_WORDS \<le> length parsed then Inl OutOfBounds
         else parse_loop rest [] (parsed @ [temp_token]))
      else parse_loop rest [] parsed)"

definition parse_command :: "string \<Rightarrow> string list cres" where
  "parse_command command = parse_loop command [] []"

text \<open>
  \<open>while(command[counter][0] != 0) counter++\<close> stops at the first empty word; with all
  eight words filled it runs past the array.
\<close>

definition word_count :: "string list \<Rightarrow> nat cres" where
  "word_count ws = (if MAX_WORDS \<le> length ws then Inl OutOfBounds else Inr (length ws))"

definition is_cmd :: "string list \<Rightarrow> string \<Rightarrow> bool" where
  "is_cmd ws name \<longleftrightarrow> c_strncmp0 (case ws of [] \<Rightarrow> [] | w # _ \<Rightarrow> w) name (length name)"

definition classify :: "string list \<Rightarrow> nat \<Rightarrow> terminalCommand" where
  "classify command counter =
     (if is_cmd command ''gtuStudentGrade''
      then if counter = 1 then GTUSTUDENTGRADE
           else if counter = 2 then GTUSTUDENTGRADE_CREATE else COMMAND_ERR
      else if is_cmd command ''addStudentGrade''
      then if counter = 4 \<or> counter = 5 then ADDSTUDENT else COMMAND_ERR
      else if is_cmd command ''searchStudent''
      then if counter = 4 \<or> counter = 5 then SEARCHSTUDENT else COMMAND_ERR
      else if is_cmd command ''sortAll''
      then if counter = 2 then SORTALL_0 else if counter = 3 then SORTALL_1 else COMMAND_ERR
      else if is_cmd command ''showAll''
      then if counter = 2 then SHOWALL else COMMAND_ERR
      else if is_cmd command ''listGrades''
      then if counter = 2 then LISTGRADES else COMMAND_ERR
      else if is_cmd command ''listSome''
      then if counter = 4 then LISTSOME else COMMAND_ERR
      else COMMAND_ERR)"

definition validateCommand :: "string \<Rightarrow> (terminalCommand \<times> string list) cres" where
  "validateCommand buffer =
     (if length buffer = 0 then Inr (COMMAND_ERR, [])
      else cbind (parse_command buffer) (\<lambda>command.
           cbind (word_count command) (\<lambda>counter. Inr (classify command counter, command))))"

section \<open>The words of a command\<close>

fun words_from :: "string \<Rightarrow> string \<Rightarrow> string list" where
  "words_from w [] = (if w = [] then [] else [w])"
| "words_from w (c # s) =
     (if is_sep c then (if w = [] then [] else [w]) @ words_from [] s else words_from (w @ [c]) s)"

text \<open>The input without its last character (the newline of the terminal), cut at separators.\<close>

definition command_words :: "string \<Rightarrow> string list" where
  "command_words input = words_from [] (butlast input)"

lemma words_from_length:
  "w \<noteq> [] \<Longrightarrow> \<exists>u us. words_from w s = u # us \<and> length w \<le> length u"
proof (induction s arbitrary: w)
  case (Cons c s)
  show ?case
  proof (cases "is_sep c")
    case False
    then show ?thesis using Cons.IH [of "w @ [c]"] by fastforce
  qed (use Cons.prems in simp)
qed simp

lemma parse_loop_words:
  assumes "s \<noteq> []" and "length parsed + length (words_from temp (butlast s)) \<le> MAX_WORDS"
    and "\<forall>w\<in>set (words_from temp (butlast s)). length w < TOKEN_LEN"
  shows "parse_loop s temp parsed = Inr (parsed @ words_from temp (butlast s))"
  using assms
proof (induction s arbitrary: temp parsed)
  case Nil
  then show ?case by simp
next
  case (Cons c s)
  show ?case
  proof (cases "s = []")
    case True
    then show ?thesis using Cons.prems by (auto split: if_splits)
  next
    case False
    show ?thesis
    proof (cases "is_sep c")
      case True
      with False Cons.prems have b: "length parsed + (if temp = [] then 0 else 1) + length (words_from [] (butlast s)) \<le> MAX_WORDS"
          "\<forall>w\<in>set (words_from [] (butlast s)). length w < TOKEN_LEN"
          "temp \<noteq> [] \<longrightarrow> length temp < TOKEN_LEN \<and> length parsed < MAX_WORDS"
        by (auto split: if_splits)
      then show ?thesis using True False Cons.IH [OF False, of "parsed @ [temp]" "[]"] Cons.IH [OF False, of parsed "[]"]
        by (auto split: if_splits)
    next
      case sep: False
      with False Cons.prems have b: "length parsed + length (words_from (temp @ [c]) (butlast s)) \<le> MAX_WORDS"
          "\<forall>w\<in>set (words_from (temp @ [c]) (butlast s)). length w < TOKEN_LEN"
        by simp_all
      obtain u us where "words_from (temp @ [c]) (butlast s) = u # us" "length (temp @ [c]) \<le> length u"
        using words_from_length [of "temp @ [c]"] by blast
      with b(2) have "length temp < TOKEN_LEN" by auto
      then show ?thesis using sep False Cons.IH [OF False b] by simp
    qed
  qed
qed

text \<open>Every word is non-empty and free of separators.\<close>

lemma words_from_sep:
  "\<forall>c\<in>set w. \<not> is_sep c \<Longrightarrow> u \<in> set (words_from w s) \<Longrightarrow> u \<noteq> [] \<and> (\<forall>c\<in>set u. \<not> is_sep c)"
proof (induction s arbitrary: w)
  case (Cons c s)
  show ?case
  proof (cases "is_sep c")
    case True
    then consider "u = w" "w \<noteq> []" | "u \<in> set (words_from [] s)"
      using Cons.prems(2) by (auto split: if_splits)
    then show ?thesis using Cons.prems(1) Cons.IH [of "[]"] by cases simp_all
  next
    case False
    then have "\<forall>c\<in>set (w @ [c]). \<not> is_sep c" "u \<in> set (words_from (w @ [c]) s)"
      using Cons.prems by simp_all
    then show ?thesis by (rule Cons.IH)
  qed
qed (auto split: if_splits)

text \<open>Words separated by one separator each are found again.\<close>

lemma words_from_word:
  "\<forall>c\<in>set u. \<not> is_sep c \<Longrightarrow> words_from w (u @ s) = words_from (w @ u) s"
  by (induction u arbitrary: w) auto

fun join_with :: "char \<Rightarrow> string list \<Rightarrow> string" where
  "join_with d [] = []"
| "join_with d [w] = w"
| "join_with d (w # v # ws) = w @ [d] @ join_with d (v # ws)"

lemma words_join:
  assumes "\<forall>w\<in>set ws. w \<noteq> [] \<and> (\<forall>c\<in>set w. \<not> is_sep c)" "is_sep d"
  shows "words_from [] (join_with d ws) = ws"
  using assms(1)
proof (induction ws rule: induct_list012)
  case 1
  then show ?case by simp
next
  case (2 w)
  then show ?case using words_from_word [of w "[]" "[]"] by simp
next
  case (3 w v ws)
  then have "words_from [] (w @ d # join_with d (v # ws)) = words_from w (d # join_with d (v # ws))"
    using words_from_word [of w "[]"] by simp
  then show ?case using 3 assms(2) by simp
qed

lemma validate_join:
  assumes "\<forall>w\<in>set ws. w \<noteq> [] \<and> length w < TOKEN_LEN \<and> (\<forall>c\<in>set w. \<not> is_sep c)"
    and "length ws < MAX_WORDS" and "is_sep d"
  shows "validateCommand (join_with d ws @ [newline]) = Inr (classify ws (length ws), ws)"
proof -
  have w: "words_from [] (join_with d ws) = ws" using assms(1,3) by (intro words_join) auto
  have "parse_command (join_with d ws @ [newline]) = Inr ws"
    unfolding parse_command_def using assms(1,2) parse_loop_words [of "join_with d ws @ [newline]" "[]" "[]"]
    by (simp add: w)
  then show ?thesis using assms(2) by (simp add: validateCommand_def word_count_def)
qed

section \<open>The property\<close>

text \<open>
  C29. The command line is read back word by word. For any at most seven words of 1 to 23
  characters without blanks and quotes, separated by a blank and ended by a newline, the
  parser yields exactly these words, nothing is written out of bounds, and the command is
  classified by its first word and by how many words there are.
\<close>

theorem grade_command_roundtrip:
  assumes "\<forall>w\<in>set ws. w \<noteq> [] \<and> length w < TOKEN_LEN \<and> (\<forall>c\<in>set w. \<not> is_sep c)"
    and "length ws < MAX_WORDS" and "is_sep d"
  shows "validateCommand (join_with d ws @ [newline]) = Inr (classify ws (length ws), ws)"
  by (rule validate_join [OF assms])

theorem grade_command_roundtrip_witness:
  "validateCommand (''sortAll g notes.txt'' @ [newline])
     = Inr (SORTALL_1, [''sortAll'', ''g'', ''notes.txt''])"
proof -
  have "validateCommand (join_with (CHR '' '') [''sortAll'', ''g'', ''notes.txt''] @ [newline])
      = Inr (classify [''sortAll'', ''g'', ''notes.txt''] 3, [''sortAll'', ''g'', ''notes.txt''])"
    using grade_command_roundtrip [of "[''sortAll'', ''g'', ''notes.txt'']" "CHR '' ''"]
    by (simp add: TOKEN_LEN_def MAX_WORDS_def is_sep_def quote_def numeral_eq_Suc)
  moreover have "classify [''sortAll'', ''g'', ''notes.txt''] 3 = SORTALL_1"
    by (simp add: classify_def is_cmd_def c_strncmp0_def)
  ultimately show ?thesis by simp
qed

end
