(* ===== verification/GradeBook.thy ===== *)
theory GradeBook
  imports GradeParse "HOL-Library.Sublist"
begin

text \<open>
  The operations of the grade book \<^verbatim>\<open>hw1_2024/management_system.c\<close> on its text files: one
  student per line, name and grade separated by a comma. The state is the file system (a
  map from names to contents, the log file \<^verbatim>\<open>log.txt\<close> among them) and what was written to
  the terminal. A file is read byte by byte; at the end of the file \<open>read\<close> leaves the last
  character in \<open>c\<close> and the loops process it once more, so the model carries \<open>c\<close> along
  (its first value is whatever the stack held, an argument). The fixed arrays of the C code
  are bounds whose violation is the fault \<open>OutOfBounds\<close>; a loop that waits for a newline
  at the end of the file is \<open>NeverReturns\<close>. A descriptor is the contents to read, \<open>None\<close>
  after a failed \<open>open\<close>. \<open>qsort\<close> is an argument.
\<close>

section \<open>State and log\<close>

type_synonym student_rec = "string \<times> string"

record gm =
  gm_files :: "string \<Rightarrow> string option"
  gm_out :: "string list"

record genv =
  may_open :: "string \<Rightarrow> bool"
  fork_ok :: bool
  stack_char :: char
  lib_qsort :: "(student_rec \<Rightarrow> student_rec \<Rightarrow> int) \<Rightarrow> student_rec list \<Rightarrow> student_rec list"

definition gm_append :: "string \<Rightarrow> string \<Rightarrow> gm \<Rightarrow> gm" where
  "gm_append f msg w = w\<lparr>gm_files := (gm_files w)(f \<mapsto>
     (case gm_files w f of None \<Rightarrow> msg | Some s \<Rightarrow> s @ msg))\<rparr>"

definition write_to_log :: "string \<Rightarrow> gm \<Rightarrow> gm" where
  "write_to_log msg w = gm_append ''log.txt'' msg w"

definition gm_print :: "string \<Rightarrow> gm \<Rightarrow> gm" where
  "gm_print s w = w\<lparr>gm_out := gm_out w @ [s]\<rparr>"

text \<open>\<open>open\<close> with \<^verbatim>\<open>O_CREAT\<close>, without and with \<^verbatim>\<open>O_TRUNC\<close>.\<close>

definition gm_open :: "genv \<Rightarrow> string \<Rightarrow> gm \<Rightarrow> string option \<times> gm" where
  "gm_open e f w =
     (if \<not> may_open e f then (None, w)
      else case gm_files w f of
        None \<Rightarrow> (Some [], w\<lparr>gm_files := (gm_files w)(f \<mapsto> [])\<rparr>)
      | Some s \<Rightarrow> (Some s, w))"

definition fits :: "nat \<Rightarrow> string \<Rightarrow> string cres" where
  "fits n s = (if length s < n then Inr s else Inl OutOfBounds)"

lemma fits_simps [simp]: "length s < n \<Longrightarrow> fits n s = Inr s" "n \<le> length s \<Longrightarrow> fits n s = Inl OutOfBounds"
  by (simp_all add: fits_def)

section \<open>Searching\<close>

definition ROW_LEN :: nat where "ROW_LEN = 256"

fun skip_line :: "string \<Rightarrow> string cres" where
  "skip_line [] = Inl NeverReturns"
| "skip_line (c # s) = (if c = newline then Inr s else skip_line s)"

fun copy_line :: "string \<Rightarrow> string \<Rightarrow> string cres" where
  "copy_line row [] = Inl OutOfBounds"
| "copy_line row (c # s) =
     (if ROW_LEN \<le> length row then Inl OutOfBounds
      else if c = newline then fits ROW_LEN (row @ [c])
      else copy_line (row @ [c]) s)"

lemma skip_line_length: "skip_line s = Inr s' \<Longrightarrow> length s' < length s"
  by (induction s) (auto split: if_splits)

text \<open>
  The loop of \<open>searchStudent\<close>: \<open>row\<close> holds the line so far, \<open>c\<close> the last character read.
  The result is the line that was found (\<open>True\<close>) or what is left in \<open>row\<close>.
\<close>

function search_loop :: "string \<Rightarrow> string \<Rightarrow> char \<Rightarrow> string \<Rightarrow> (bool \<times> string) cres" where
  "search_loop name row c [] =
     (if c \<noteq> CHR '','' then if ROW_LEN \<le> length row then Inl OutOfBounds else Inr (False, row @ [c])
      else if ROW_LEN \<le> length row then Inl OutOfBounds
      else if c_strncmp0 row name (length row) then cbind (copy_line (row @ [c]) []) (\<lambda>r. Inr (True, r))
      else Inl NeverReturns)"
| "search_loop name row c (d # rest) =
     (if ROW_LEN \<le> length row then Inl OutOfBounds
      else if d \<noteq> CHR '','' then search_loop name (row @ [d]) d rest
      else if c_strncmp0 row name (length row) then cbind (copy_line (row @ [d]) rest) (\<lambda>r. Inr (True, r))
      else case skip_line rest of Inl e \<Rightarrow> Inl e | Inr rest' \<Rightarrow> search_loop name [] newline rest')"
  by pat_completeness auto


termination
  by (relation "measure (\<lambda>(name, row, c, s). length s)") (auto dest: skip_line_length)

definition searchStudent :: "string \<Rightarrow> string option \<Rightarrow> char \<Rightarrow> gm \<Rightarrow> (string option \<times> gm) cres" where
  "searchStudent name fd c0 w =
     (case fd of
        None \<Rightarrow> Inl OutOfBounds
      | Some input \<Rightarrow> cbind (search_loop name [] c0 input) (\<lambda>(found, row).
          if found
          then let msg = ln (''Entered student name found in the file: '' @ row)
               in Inr (Some row, write_to_log msg (gm_print msg w))
          else cbind (fits ROW_LEN row) (\<lambda>row.
               let msg = ln (''Student is not found in the file: '' @ row)
               in Inr (None, write_to_log msg (gm_print msg w)))))"

section \<open>Adding\<close>

definition NAME_LEN :: nat where "NAME_LEN = 24"
definition GRADE_LEN :: nat where "GRADE_LEN = 4"

definition need :: "'a option \<Rightarrow> 'a cres" where
  "need x = (case x of None \<Rightarrow> Inl Uninitialised | Some y \<Rightarrow> Inr y)"

lemma need_simps [simp]: "need (Some x) = Inr x" "need None = Inl Uninitialised"
  by (simp_all add: need_def)

fun add_words ::
    "string list \<Rightarrow> nat \<Rightarrow> nat list \<Rightarrow> string option \<times> string option \<Rightarrow> (string option \<times> string option) cres" where
  "add_words command counter [] st = Inr st"
| "add_words command counter (i # is) (name, grade) =
     (if i = 1 then cbind (fits NAME_LEN (command ! i)) (\<lambda>n. add_words command counter is (Some n, grade))
      else if i \<noteq> counter - 2 then
        cbind (need name) (\<lambda>n. cbind (fits NAME_LEN (n @ '' '' @ command ! i))
          (\<lambda>n. add_words command counter is (Some n, grade)))
      else
        cbind (need name) (\<lambda>n. cbind (fits NAME_LEN (n @ '','')) (\<lambda>n.
          cbind (fits GRADE_LEN (ln (command ! i))) (\<lambda>g. add_words command counter is (Some n, Some g)))))"

definition addingStudent :: "genv \<Rightarrow> string list \<Rightarrow> nat \<Rightarrow> gm \<Rightarrow> gm cres" where
  "addingStudent e command counter w =
     (let f = command ! (counter - 1);
          (fd, w1) = gm_open e f w;
          w2 = (if fd = None then write_to_log (ln ''File Open failed in child...exiting'') w1 else w1)
      in cbind (add_words command counter [1..<counter - 1] (None, None)) (\<lambda>(name, grade).
         cbind (need name) (\<lambda>name.
         cbind (searchStudent name fd (stack_char e) w2) (\<lambda>(st, w3).
           if st \<noteq> None then Inr (write_to_log (ln ''Entered student name was found '') w3)
           else cbind (need grade) (\<lambda>grade.
             cbind (fits NAME_LEN (name @ grade)) (\<lambda>entry.
             Inr (write_to_log (''Student '' @ entry @ ln '' succesfully added'') (gm_append f entry w3))))))))"

section \<open>Displaying\<close>

text \<open>Every \<open>write\<close> of a line puts out the whole array of 256 bytes.\<close>

definition LINE_LEN :: nat where "LINE_LEN = 256"

definition out_block :: "string \<Rightarrow> string" where
  "out_block s = s @ replicate (LINE_LEN - length s) (CHR 0x00)"

text \<open>The loop of \<open>display\<close>: the blocks written, and whether the end of the file was met.\<close>

fun display_loop :: "int \<Rightarrow> string \<Rightarrow> char \<Rightarrow> string \<Rightarrow> (string list \<times> bool) cres" where
  "display_loop flag student c [] =
     (if flag = 0 then Inr ([], False)
      else if c \<noteq> newline then if LINE_LEN \<le> length student then Inl OutOfBounds else Inr ([], True)
      else if LINE_LEN \<le> length student + 1 then Inl OutOfBounds
      else Inr ([out_block (ln student)], True))"
| "display_loop flag student c (d # rest) =
     (if flag = 0 then Inr ([], False)
      else if d \<noteq> newline then if LINE_LEN \<le> length student then Inl OutOfBounds
        else display_loop flag (student @ [d]) d rest
      else if LINE_LEN \<le> length student + 1 then Inl OutOfBounds
      else cbind (display_loop (if flag > 0 then flag - 1 else flag) [] d rest) (\<lambda>(out, eof).
             Inr (out_block (ln student) # out, eof)))"

definition display :: "genv \<Rightarrow> string list \<Rightarrow> nat \<Rightarrow> int \<Rightarrow> gm \<Rightarrow> gm cres" where
  "display e command counter display_flag w =
     (let title = newline # ln ''Showing student in terminal'' @ ln ''----------'';
          (fd, w1) = gm_open e (command ! (counter - 1)) (gm_print title (write_to_log title w));
          open_failed = ln ''File Open failed in child...exiting'';
          done_msg = ln ''Display operation is successfull... Check Terminal screen''
      in case fd of
        None \<Rightarrow>
          (let w2 = write_to_log open_failed w1;
               w3 = (if display_flag = 0 then w2
                     else let w' = write_to_log open_failed w2
                          in if stack_char e = newline then gm_print (out_block [newline]) w' else w')
           in Inr (write_to_log done_msg
                (write_to_log (ln ''Close syscall error when searching from to file'') w3)))
      | Some input \<Rightarrow> cbind (display_loop display_flag [] (stack_char e) input) (\<lambda>(blocks, eof).
          let w2 = w1\<lparr>gm_out := gm_out w1 @ blocks\<rparr>;
              w3 = (if eof then write_to_log (ln ''Readed bytes is 0...exiting from child process'') w2 else w2)
          in Inr (write_to_log done_msg w3)))"

text \<open>The value of a \<^verbatim>\<open>char\<close> (signed, as on the platforms of the Makefile).\<close>

definition c_char :: "char \<Rightarrow> int" where
  "c_char c = (if (of_char c :: int) < 128 then of_char c else of_char c - 256)"

text \<open>The loop of \<open>display_some\<close>: \<open>n\<close> lines are still to show, after \<open>temp_index\<close> more.\<close>

fun some_loop :: "int \<Rightarrow> int \<Rightarrow> string \<Rightarrow> char \<Rightarrow> string \<Rightarrow> (string list \<times> bool) cres" where
  "some_loop n temp_index student c [] =
     (if n \<le> 0 then Inr ([], False)
      else if c \<noteq> newline then if LINE_LEN \<le> length student then Inl OutOfBounds else Inr ([], True)
      else if LINE_LEN \<le> length student + 1 then Inl OutOfBounds
      else Inr (if temp_index \<noteq> 0 then [] else [out_block (ln student)], True))"
| "some_loop n temp_index student c (d # rest) =
     (if n \<le> 0 then Inr ([], False)
      else if d \<noteq> newline then if LINE_LEN \<le> length student then Inl OutOfBounds
        else some_loop n temp_index (student @ [d]) d rest
      else if LINE_LEN \<le> length student + 1 then Inl OutOfBounds
      else if temp_index \<noteq> 0 then some_loop n (temp_index - 1) [] d rest
      else cbind (some_loop (n - 1) temp_index [] d rest) (\<lambda>(out, eof).
             Inr (out_block (ln student) # out, eof)))"

definition display_some :: "genv \<Rightarrow> string list \<Rightarrow> nat \<Rightarrow> gm \<Rightarrow> gm cres" where
  "display_some e command counter w =
     (let listSome_1 = c_char (hd (command ! 1)) - 48;
          listSome_2 = c_char (hd (command ! 2)) - 48;
          w0 = write_to_log (''students count: '' @ dec listSome_1 @ '' - page num: '' @ dec listSome_2
                 @ ln '' '') w;
          (fd, w1) = gm_open e (command ! (counter - 1)) w0;
          w2 = (if fd = None then write_to_log (ln ''File Open failed in child...exiting'') w1 else w1)
      in if listSome_1 < 0 \<or> listSome_2 < 0
         then Inr (write_to_log (ln ''Page number and student count is not lower than 0...Invalid command exiting....'') w2)
         else
           let w3 = write_to_log (ln ''The students in the page number showing in Terminal Screen'') w2;
               temp_index = listSome_1 * (listSome_2 - 1);
               done_msg = ln ''Display operation is successfull''
           in case fd of
             None \<Rightarrow>
               (let w4 = (if listSome_1 = 0 then w3
                     else let w' = write_to_log (ln ''Read file syscall error in child...exiting'') w3
                          in if stack_char e = newline \<and> temp_index = 0
                             then gm_print (out_block [newline]) w' else w')
                in Inr (write_to_log done_msg
                     (write_to_log (ln ''Close syscall error when searching from to file'') w4)))
           | Some input \<Rightarrow> cbind (some_loop listSome_1 temp_index [] (stack_char e) input) (\<lambda>(blocks, eof).
               let w4 = w3\<lparr>gm_out := gm_out w3 @ blocks\<rparr>;
                   w5 = (if eof then write_to_log (ln ''Readed bytes is 0...exiting from child process'') w4 else w4)
               in Inr (write_to_log done_msg w5)))"


section \<open>Sorting\<close>

definition SORT_ROW_LEN :: nat where "SORT_ROW_LEN = 32"
definition SORT_GRADE_LEN :: nat where "SORT_GRADE_LEN = 3"

definition compareNamesA :: "student_rec \<Rightarrow> student_rec \<Rightarrow> int" where
  "compareNamesA a b = c_strcmp (fst a) (fst b)"

definition compareGradesA :: "student_rec \<Rightarrow> student_rec \<Rightarrow> int" where
  "compareGradesA a b = c_strcmp (snd a) (snd b)"

definition compareNamesD :: "student_rec \<Rightarrow> student_rec \<Rightarrow> int" where
  "compareNamesD a b = c_strcmp (fst b) (fst a)"

definition compareGradesD :: "student_rec \<Rightarrow> student_rec \<Rightarrow> int" where
  "compareGradesD a b = c_strcmp (snd b) (snd a)"

text \<open>
  The grade is read into \<^verbatim>\<open>char not[3]\<close> up to and including the newline, then a NUL is
  stored behind it.
\<close>

fun read_grade :: "string \<Rightarrow> string \<Rightarrow> (string \<times> string) cres" where
  "read_grade g [] = Inl OutOfBounds"
| "read_grade g (c # s) =
     (if SORT_GRADE_LEN \<le> length g then Inl OutOfBounds
      else if c = newline then cbind (fits SORT_GRADE_LEN (g @ [c])) (\<lambda>g. Inr (g, s))
      else read_grade (g @ [c]) s)"

lemma read_grade_length: "read_grade g s = Inr (g', s') \<Longrightarrow> length s' < length s"
  by (induction s arbitrary: g) (force split: if_splits)+

text \<open>
  The reading loop of \<open>sortAll_f\<close>: \<open>cap\<close> elements are allocated, \<open>sz\<close> is the variable
  \<open>size\<close>. The block starts with 50 elements and is cut to 20 by the first \<open>realloc\<close>.
\<close>

function sort_loop ::
    "nat \<Rightarrow> nat \<Rightarrow> student_rec list \<Rightarrow> string \<Rightarrow> char \<Rightarrow> string \<Rightarrow> student_rec list cres" where
  "sort_loop cap sz recs row c [] =
     (if c \<noteq> CHR '','' then if SORT_ROW_LEN \<le> length row then Inl OutOfBounds else Inr recs
      else Inl OutOfBounds)"
| "sort_loop cap sz recs row c (d # rest) =
     (if SORT_ROW_LEN \<le> length row then Inl OutOfBounds
      else if d \<noteq> CHR '','' then sort_loop cap sz recs (row @ [d]) d rest
      else if cap \<le> length recs then Inl OutOfBounds
      else case read_grade [] rest of
        Inl e \<Rightarrow> Inl e
      | Inr (g, rest') \<Rightarrow>
          (if length recs + 1 = sz
           then sort_loop (2 * sz) (2 * sz) (recs @ [(row, g)]) [] newline rest'
           else sort_loop cap sz (recs @ [(row, g)]) [] newline rest'))"
  by pat_completeness auto

termination
  by (relation "measure (\<lambda>(cap, sz, recs, row, c, s). length s)") (auto dest: read_grade_length)

definition sort_choice :: "char \<Rightarrow> string \<times> bool \<times> (student_rec \<Rightarrow> student_rec \<Rightarrow> int)" where
  "sort_choice flag =
     (if flag = CHR ''n'' then (ln ''Sorting names with ascending order'', False, compareNamesA)
      else if flag = CHR ''g'' then (ln ''Sorting grades with ascending order'', True, compareGradesA)
      else if flag = CHR ''d'' then (ln ''Sorting names with descenging order'', True, compareNamesD)
      else if flag = CHR ''c'' then (ln ''Sorting grades with descenging order'', True, compareGradesD)
      else (ln ''Sorting names with ascending order'', True, compareNamesA))"

definition report_rec :: "student_rec \<Rightarrow> gm \<Rightarrow> gm" where
  "report_rec r w = write_to_log (ln (snd r)) (gm_print (fst r @ ''-'' @ ln (snd r)) w)"

definition sortAll_f :: "genv \<Rightarrow> string option \<Rightarrow> char \<Rightarrow> gm \<Rightarrow> gm cres" where
  "sortAll_f e fd flag w =
     (case fd of
        None \<Rightarrow> Inl OutOfBounds
      | Some input \<Rightarrow> cbind (sort_loop 50 10 [] [] (stack_char e) input) (\<lambda>students.
          let w1 = write_to_log (''Total Student Number: '' @ dec (int (length students)) @ [newline]) w;
              (title, logged, cmp) = sort_choice flag;
              w2 = gm_print title w1;
              w3 = (if logged then write_to_log title w2 else w2)
          in Inr (fold report_rec (lib_qsort e cmp students) w3)))"

section \<open>The main loop\<close>

definition help_lines :: "string list" where
  "help_lines =
     [ln ''------------'' @ ln (''gtuStudentsGrade '' @ [quote] @ ''[filename.txt]'' @ [quote]
        @ ''-> create file if not exist, otherwise truncate'') @ ln ''------------'',
      ln ''------------'' @ ln (''addStudentsGrade '' @ [quote] @ ''[Name Surname]'' @ [quote] @ '' ''
        @ [quote] @ ''[grade]'' @ [quote, quote] @ ''[filename.txt]'' @ [quote]
        @ ''->adding student end of file'') @ ln ''------------'',
      ln ''------------'' @ ln (''searchStudent '' @ [quote] @ ''[Name Surname]'' @ [quote] @ '' ''
        @ [quote] @ ''[filename.txt]'' @ [quote] @ ''-> searching student'') @ ln ''------------'',
      ln ''------------'' @ ln (''sortAll '' @ [quote] @ ''[filename.txt]'' @ [quote]
        @ ''->(default)sort names with ascending default''),
      ln (''sortAll '' @ [quote] @ ''[n-g-d-c]'' @ [quote] @ '' '' @ [quote] @ ''[filename.txt]'' @ [quote]
        @ ''-> has different options explained below''),
      ln (''sortAll '' @ [quote] @ ''[n]'' @ [quote] @ '' '' @ [quote]
        @ ''[filename.txt] -> sort names with ascending'' @ [quote]),
      ln (''sortAll '' @ [quote] @ ''[g]'' @ [quote] @ '' '' @ [quote]
        @ ''[filename.txt] -> sort grades with ascending'' @ [quote]),
      ln (''sortAll '' @ [quote] @ ''[n]'' @ [quote] @ '' '' @ [quote]
        @ ''[filename.txt] -> sort names with descending'' @ [quote]),
      ln (''sortAll '' @ [quote] @ ''[n]'' @ [quote] @ '' '' @ [quote]
        @ ''[filename.txt] -> sort grades with descending'' @ [quote]) @ ln ''------------'',
      ln ''------------'' @ ln (''showAll '' @ [quote] @ ''[filename.txt]'' @ [quote]
        @ ''->shows all student in the file'') @ ln ''------------'',
      ln ''------------'' @ ln (''listGrades '' @ [quote] @ ''[filename.txt]'' @ [quote]
        @ ''-> shows first 5 entries in the file'') @ ln ''------------'',
      ln ''------------'' @ ln (''listSome '' @ [quote] @ ''[count]'' @ [quote] @ '' '' @ [quote]
        @ ''[page_num]'' @ [quote] @ '' '' @ [quote] @ ''[filename.txt]'' @ [quote]
        @ ''-> shows student in the specified page '') @ ln ''------------'']"

definition HELP_BUF :: nat where "HELP_BUF = 150"

definition help_command :: "gm \<Rightarrow> gm cres" where
  "help_command w = (if \<forall>l\<in>set help_lines. length l < HELP_BUF
     then Inr (w\<lparr>gm_out := gm_out w @ help_lines\<rparr>) else Inl OutOfBounds)"

text \<open>The child process of each command.\<close>

definition search_child :: "genv \<Rightarrow> string list \<Rightarrow> nat \<Rightarrow> gm \<Rightarrow> gm cres" where
  "search_child e command counter w =
     (let (fd, w1) = gm_open e (command ! (counter - 1)) w;
          w2 = (if fd = None then write_to_log (ln ''File Open failed in child...exiting'') w1 else w1)
      in cbind (fits ROW_LEN (command ! 1 @ '' '' @ command ! 2)) (\<lambda>studentName.
         cbind (searchStudent studentName fd (stack_char e) w2) (\<lambda>(st, w3).
           let row = (case st of None \<Rightarrow> [] | Some r \<Rightarrow> r)
           in Inr (write_to_log (ln ''Searching Student operation is Successfull...exiting child process'')
                (gm_print (ln (''name, grade: '' @ row)) w3)))))"

definition sort_child :: "genv \<Rightarrow> string list \<Rightarrow> nat \<Rightarrow> string \<Rightarrow> gm \<Rightarrow> gm cres" where
  "sort_child e command counter done_msg w =
     (let (fd, w1) = gm_open e (command ! (counter - 1)) w;
          w2 = (if fd = None then write_to_log (ln ''File Open failed in child...exiting'') w1 else w1)
      in cbind (sortAll_f e fd (hd (command ! 1)) w2) (\<lambda>w3. Inr (write_to_log done_msg w3)))"

definition create_child :: "genv \<Rightarrow> string list \<Rightarrow> gm \<Rightarrow> gm" where
  "create_child e command w =
     (let f = command ! 1;
          w1 = (if may_open e f then w\<lparr>gm_files := (gm_files w)(f \<mapsto> [])\<rparr>
                else write_to_log (f @ ln '' File Close syscall failed in child...exiting'')
                  (write_to_log (f @ ln '' File Open syscall failed in child...exiting'') w))
      in write_to_log (f @ ln '' File Creation operation is Successfull...exiting child process'') w1)"

definition run_child :: "genv \<Rightarrow> terminalCommand \<Rightarrow> string list \<Rightarrow> nat \<Rightarrow> gm \<Rightarrow> gm cres" where
  "run_child e t command counter w = (case t of
      GTUSTUDENTGRADE \<Rightarrow> cbind (help_command w) (\<lambda>w.
        Inr (write_to_log (ln ''Displaying all available commands in terminal...'') w))
    | GTUSTUDENTGRADE_CREATE \<Rightarrow> Inr (create_child e command w)
    | ADDSTUDENT \<Rightarrow> cbind (addingStudent e command counter w) (\<lambda>w.
        Inr (write_to_log (ln ''Adding Student operation is Successfull...exiting child process'') w))
    | SEARCHSTUDENT \<Rightarrow> search_child e command counter w
    | SORTALL_0 \<Rightarrow> sort_child e command counter
        (ln ''Searching text file operation is Successfull...exiting child process'') w
    | SORTALL_1 \<Rightarrow> sort_child e command counter
        (ln ''Searching text file operaion is Successfull...exiting child process'') w
    | SHOWALL \<Rightarrow> cbind (display e command counter (-1) w) (\<lambda>w.
        Inr (write_to_log (ln ''Searching text file operaion is Successfull...exiting child'') w))
    | LISTGRADES \<Rightarrow> cbind (display e command counter 5 w) (\<lambda>w.
        Inr (write_to_log (ln ''Searching text file operaion is Successfull...exiting child '') w))
    | LISTSOME \<Rightarrow> cbind (display_some e command counter w) (\<lambda>w.
        Inr (write_to_log (ln ''Searching text file operaion is Successfull'') w))
    | COMMAND_ERR \<Rightarrow> Inr w)"

definition fork_error :: "terminalCommand \<Rightarrow> string list \<Rightarrow> string" where
  "fork_error t command = (case t of
      GTUSTUDENTGRADE \<Rightarrow> ''Fork error when displaying commands... '' @ ln (command ! 0)
    | GTUSTUDENTGRADE_CREATE \<Rightarrow> ''Fork error when creating file '' @ ln (command ! 1)
    | ADDSTUDENT \<Rightarrow> ''Fork error when creating file '' @ ln (command ! 1)
    | SEARCHSTUDENT \<Rightarrow> ''Fork error when searching file '' @ ln (command ! 1)
    | SORTALL_0 \<Rightarrow> ''Fork error when displaying all '' @ ln (command ! 0)
    | SORTALL_1 \<Rightarrow> ''Fork error when displaying all '' @ ln (command ! 0)
    | SHOWALL \<Rightarrow> ''Fork error when displaying all '' @ ln (command ! 0)
    | LISTGRADES \<Rightarrow> ''Fork error when displaying grades '' @ ln (command ! 0)
    | LISTSOME \<Rightarrow> ln ''Fork error when listing some grades.''
    | COMMAND_ERR \<Rightarrow> [])"

definition MSG_BUF :: nat where "MSG_BUF = 512"
definition INPUT_LEN :: nat where "INPUT_LEN = 1024"

text \<open>
  One round of the loop of \<open>main\<close>, on the bytes \<open>read\<close> delivers: \<open>True\<close> when \<open>main\<close>
  returns. The text is copied into a message of 512 bytes, so it must be shorter than that.
\<close>

definition grade_round :: "genv \<Rightarrow> string \<Rightarrow> gm \<Rightarrow> (bool \<times> gm) cres" where
  "grade_round e buffer w =
     (let w1 = gm_print (ln (''press '' @ [CHR 0x27] @ ''q'' @ [CHR 0x27] @ '' to exit'')) w in
      if buffer \<noteq> [] \<and> hd buffer = CHR ''q''
      then Inr (True, write_to_log (ln ''exiting!!'') (gm_print (ln ''Exiting...bye '') w1))
      else if INPUT_LEN \<le> length buffer then Inl OutOfBounds
      else cbind (fits MSG_BUF (''read from command line successfull. Command: '' @ buffer @ ln '' '')) (\<lambda>msg.
        let w2 = write_to_log msg w1 in
        cbind (validateCommand buffer) (\<lambda>(t, command).
          if t = COMMAND_ERR
          then Inr (True, write_to_log (ln ''Invalid command entered Check argument helper for entered command... failed...exiting!!'') w2)
          else let counter = length command;
                   w3 = write_to_log (''Valid command entered, executing... command >> ''
                          @ command ! 0 @ ln '', '') w2
               in cbind (if fork_ok e then run_child e t command counter w3
                         else Inr (write_to_log (fork_error t command) w3)) (\<lambda>w4.
                  Inr (False, write_to_log (ln ''Waiting child processes successfull...Continue executing'') w4)))))"

text \<open>The program on a sequence of inputs; the log file is emptied first.\<close>

fun grade_rounds :: "genv \<Rightarrow> string list \<Rightarrow> gm \<Rightarrow> gm cres" where
  "grade_rounds e [] w = Inr w"
| "grade_rounds e (b # bs) w =
     cbind (grade_round e b w) (\<lambda>(stop, w). if stop then Inr w else grade_rounds e bs w)"

definition grade_main :: "genv \<Rightarrow> string list \<Rightarrow> gm \<Rightarrow> gm cres" where
  "grade_main e inputs w =
     grade_rounds e inputs (w\<lparr>gm_files := (gm_files w)(''log.txt'' \<mapsto> [])\<rparr>)"

end
