(* ===== verification/GradeProps.thy ===== *)
theory GradeProps
  imports GradeBook "HOL-Library.Multiset"
begin

text \<open>
  What the operations of the grade book do to a well-formed file: \<open>render rs\<close> is the file
  of the records \<open>rs\<close>. Searching is a search for the first record whose name is a prefix of
  the name asked for, adding appends a record unless that search succeeds, displaying cuts
  the list of lines, sorting orders the records.
\<close>

section \<open>Files\<close>

definition render_rec :: "student_rec \<Rightarrow> string" where
  "render_rec r = fst r @ CHR '','' # ln (snd r)"

definition render :: "student_rec list \<Rightarrow> string" where
  "render rs = concat (map render_rec rs)"

definition rec_ok :: "student_rec \<Rightarrow> bool" where
  "rec_ok r \<longleftrightarrow> CHR '','' \<notin> set (fst r) \<and> newline \<notin> set (fst r) \<and> newline \<notin> set (snd r)
     \<and> length (render_rec r) < ROW_LEN"

definition matches :: "string \<Rightarrow> student_rec \<Rightarrow> bool" where
  "matches name r \<longleftrightarrow> prefix (fst r) name"

lemma render_simps [simp]:
  "render [] = []" "render (r # rs) = render_rec r @ render rs" "render (rs @ qs) = render rs @ render qs"
  by (simp_all add: render_def)

lemma newline_comma [simp]: "newline \<noteq> CHR '',''" "CHR '','' \<noteq> newline"
  by (simp_all add: newline_def)

lemma strncmp_prefix: "c_strncmp0 n name (length n) \<longleftrightarrow> prefix n name"
  by (auto simp: c_strncmp0_def prefix_def) (metis append_take_drop_id)

section \<open>Searching\<close>

lemma skip_line_render: "newline \<notin> set g \<Longrightarrow> skip_line (g @ newline # s) = Inr s"
  by (induction g) auto

lemma copy_line_render:
  "newline \<notin> set g \<Longrightarrow> length (row @ ln g) < ROW_LEN \<Longrightarrow> copy_line row (g @ newline # s) = Inr (row @ ln g)"
  by (induction g arbitrary: row) (auto simp: ln_def)

lemma search_loop_name:
  "CHR '','' \<notin> set n \<Longrightarrow> length row + length n \<le> ROW_LEN \<Longrightarrow>
   search_loop name row c (n @ s) = search_loop name (row @ n) (last (c # n)) s"
  by (induction n arbitrary: row c) auto

lemma search_loop_rec:
  assumes "rec_ok r"
  shows "search_loop name [] c (render_rec r @ s) =
    (if matches name r then Inr (True, render_rec r) else search_loop name [] newline s)"
proof -
  have l: "length (fst r) < ROW_LEN" and g: "newline \<notin> set (snd r)"
    using assms by (simp_all add: rec_ok_def render_rec_def)
  have "search_loop name [] c (render_rec r @ s)
      = search_loop name (fst r) (last (c # fst r)) (CHR '','' # snd r @ newline # s)"
    using search_loop_name [of "fst r" "[]" name c] assms l by (simp add: rec_ok_def render_rec_def ln_def)
  also have "\<dots> = (if matches name r then Inr (True, render_rec r) else search_loop name [] newline s)"
    using l g assms copy_line_render [of "snd r" "fst r @ [CHR '','']" s] skip_line_render [OF g, of s]
    by (simp add: strncmp_prefix matches_def rec_ok_def render_rec_def)
  finally show ?thesis .
qed

lemma search_loop_render:
  assumes "\<forall>r\<in>set rs. rec_ok r" "c \<noteq> CHR '',''"
  shows "search_loop name [] c (render rs) = (case find (matches name) rs of
      Some r \<Rightarrow> Inr (True, render_rec r) | None \<Rightarrow> Inr (False, [if rs = [] then c else newline]))"
  using assms
proof (induction rs arbitrary: c)
  case Nil
  then show ?case by (simp add: ROW_LEN_def)
next
  case (Cons r rs)
  then show ?case using Cons.IH [of newline] by (simp add: search_loop_rec split: option.split)
qed

lemma write_to_log_other: "f \<noteq> ''log.txt'' \<Longrightarrow> gm_files (write_to_log m w) f = gm_files w f"
  by (simp add: write_to_log_def gm_append_def)

lemma gm_print_files [simp]: "gm_files (gm_print m w) = gm_files w"
  by (simp add: gm_print_def)

lemma searchStudent_render:
  assumes "\<forall>r\<in>set rs. rec_ok r" "c0 \<noteq> CHR '',''"
  shows "\<exists>w'. searchStudent name (Some (render rs)) c0 w
      = Inr (map_option render_rec (find (matches name) rs), w')
    \<and> (\<forall>f. f \<noteq> ''log.txt'' \<longrightarrow> gm_files w' f = gm_files w f)"
  using assms
  by (cases "find (matches name) rs")
     (auto simp: searchStudent_def search_loop_render Let_def write_to_log_other ROW_LEN_def)

text \<open>
  Searching is correct on every well-formed file: the search returns the line of the
  first record whose name is a prefix of the name asked for, and nothing when there is
  none; it stays within its array, ends, and changes no file but the log.
\<close>

theorem grade_search_first_match:
  assumes "\<forall>r\<in>set rs. rec_ok r" and "c0 \<noteq> CHR '',''"
  shows "\<exists>w'. searchStudent name (Some (render rs)) c0 w
      = Inr (map_option render_rec (find (\<lambda>r. prefix (fst r) name) rs), w')
    \<and> (\<forall>f. f \<noteq> ''log.txt'' \<longrightarrow> gm_files w' f = gm_files w f)"
proof -
  have "matches name = (\<lambda>r. prefix (fst r) name)" by (rule ext) (simp add: matches_def)
  with searchStudent_render [OF assms, of name w] show ?thesis by simp
qed

definition no_files :: gm where
  "no_files = \<lparr>gm_files = (\<lambda>_. None), gm_out = []\<rparr>"

theorem grade_search_first_match_witness:
  "\<exists>w'. searchStudent ''Ali Veli'' (Some (render [(''Can'', ''AA''), (''Ali'', ''B'')])) (CHR ''x'') no_files
     = Inr (Some (''Ali,B'' @ [newline]), w')"
proof -
  have ok: "\<forall>r\<in>set [(''Can'', ''AA''), (''Ali'', ''B'')]. rec_ok r"
    by (simp add: rec_ok_def render_rec_def ln_def newline_def ROW_LEN_def)
  from grade_search_first_match [OF ok, of "CHR ''x''" "''Ali Veli''" no_files]
  show ?thesis by (auto simp: render_rec_def ln_def)
qed


section \<open>Adding\<close>

lemma gm_append_files:
  "gm_files (gm_append f s w) = (gm_files w)(f \<mapsto> (case gm_files w f of None \<Rightarrow> s | Some t \<Rightarrow> t @ s))"
  by (simp add: gm_append_def)

lemma prefix_snoc_comma:
  assumes "CHR '','' \<notin> set n"
  shows "prefix n (name @ '','') \<longleftrightarrow> prefix n name"
  using assms by (auto simp: prefix_snoc)

lemma find_comma:
  "\<forall>r\<in>set rs. rec_ok r \<Longrightarrow> find (matches (name @ '','')) rs = find (matches name) rs"
proof (induction rs)
  case (Cons r rs)
  then have "matches (name @ '','') r = matches name r"
    using prefix_snoc_comma [of "fst r" name] by (simp add: matches_def rec_ok_def)
  then show ?case using Cons by simp
qed simp

definition add_record :: "student_rec list \<Rightarrow> student_rec \<Rightarrow> student_rec list" where
  "add_record rs r = (if \<exists>q\<in>set rs. prefix (fst q) (fst r) then rs else rs @ [r])"

lemma find_matches_iff: "find (matches n) rs = None \<longleftrightarrow> \<not> (\<exists>q\<in>set rs. prefix (fst q) n)"
  by (auto simp: find_None_iff matches_def)

lemma addingStudent_render:
  assumes ok: "\<forall>r\<in>set rs. rec_ok r" and f: "f \<noteq> ''log.txt''" "may_open e f" "gm_files w f = Some (render rs)"
    and c0: "stack_char e \<noteq> CHR '',''"
    and words: "add_words command counter [1..<counter - 1] (None, None) = Inr (Some (n @ '',''), Some (ln g))"
    and last: "command ! (counter - 1) = f"
    and len: "length (render_rec (n, g)) < NAME_LEN"
  shows "\<exists>w'. addingStudent e command counter w = Inr w'
    \<and> gm_files w' f = Some (render (add_record rs (n, g)))
    \<and> (\<forall>f'. f' \<noteq> f \<longrightarrow> f' \<noteq> ''log.txt'' \<longrightarrow> gm_files w' f' = gm_files w f')"
proof -
  have o: "gm_open e f w = (Some (render rs), w)" using f by (simp add: gm_open_def)
  obtain w1 where w1: "searchStudent (n @ '','') (Some (render rs)) (stack_char e) w
      = Inr (map_option render_rec (find (matches n) rs), w1)"
      "\<forall>f. f \<noteq> ''log.txt'' \<longrightarrow> gm_files w1 f = gm_files w f"
    using searchStudent_render [OF ok c0, of "n @ '',''" w] find_comma [OF ok] by auto
  have r: "(n @ '','') @ ln g = render_rec (n, g)" by (simp add: render_rec_def)
  show ?thesis
  proof (cases "find (matches n) rs")
    case None
    then have "add_record rs (n, g) = rs @ [(n, g)]"
      using find_matches_iff [of n rs] by (simp add: add_record_def)
    then show ?thesis
      using None w1 f o words last len r
      by (auto simp: addingStudent_def Let_def gm_append_files write_to_log_other)
  next
    case (Some q)
    then have "add_record rs (n, g) = rs"
      using find_matches_iff [of n rs] by (auto simp: add_record_def)
    then show ?thesis
      using Some w1 f o words last by (auto simp: addingStudent_def Let_def write_to_log_other)
  qed
qed

lemma add_words_5:
  assumes "length (render_rec (n1 @ '' '' @ n2, g)) < NAME_LEN" "length (ln g) < GRADE_LEN"
  shows "add_words [c, n1, n2, g, f] 5 [1..<5 - 1] (None, None) = Inr (Some ((n1 @ '' '' @ n2) @ '',''), Some (ln g))"
proof -
  have "[1..<5 - 1] = [1, 2, 3::nat]" by (simp add: upt_rec)
  then show ?thesis using assms by (simp add: render_rec_def)
qed

lemma add_record_ok: "\<forall>r\<in>set rs. rec_ok r \<Longrightarrow> rec_ok r \<Longrightarrow> \<forall>q\<in>set (add_record rs r). rec_ok q"
  by (auto simp: add_record_def)

lemma add_record_distinct: "distinct (map fst rs) \<Longrightarrow> distinct (map fst (add_record rs r))"
  by (auto simp: add_record_def)

lemma find_add_record:
  "\<exists>q. find (matches (fst r)) (add_record rs r) = Some q \<and> prefix (fst q) (fst r)"
proof -
  have "\<exists>q\<in>set (add_record rs r). prefix (fst q) (fst r)"
  proof (cases "\<exists>q\<in>set rs. prefix (fst q) (fst r)")
    case False
    then have "r \<in> set (add_record rs r)" by (simp add: add_record_def)
    then show ?thesis by (rule bexI [rotated]) simp
  qed (simp add: add_record_def)
  then have "find (matches (fst r)) (add_record rs r) \<noteq> None"
    using find_matches_iff by blast
  then obtain q where "find (matches (fst r)) (add_record rs r) = Some q" by blast
  moreover from this have "matches (fst r) q" by (auto simp: find_Some_iff)
  ultimately show ?thesis by (auto simp: matches_def)
qed

text \<open>
  C16. Adding a student with first name, surname and grade to a well-formed file: when the
  entry fits the arrays of the program, the file afterwards holds the old records and, at
  its end, the new one, unless a record whose name is a prefix of the new name is there,
  in which case the file is unchanged. The file stays well-formed, names stay distinct, a
  search for the name then succeeds, and no other file but the log changes.
\<close>

theorem grade_add_then_search:
  assumes "\<forall>r\<in>set rs. rec_ok r" and "distinct (map fst rs)"
    and "f \<noteq> ''log.txt''" "may_open e f" "gm_files w f = Some (render rs)"
    and "stack_char e \<noteq> CHR '',''"
    and "r = (n1 @ '' '' @ n2, g)" "rec_ok r" "length (render_rec r) < NAME_LEN" "length (ln g) < GRADE_LEN"
  shows "\<exists>w' rs'. addingStudent e [c, n1, n2, g, f] 5 w = Inr w' \<and> gm_files w' f = Some (render rs')
    \<and> rs' = (if \<exists>q\<in>set rs. prefix (fst q) (fst r) then rs else rs @ [r])
    \<and> (\<forall>q\<in>set rs'. rec_ok q) \<and> distinct (map fst rs')
    \<and> (\<forall>f'. f' \<noteq> f \<longrightarrow> f' \<noteq> ''log.txt'' \<longrightarrow> gm_files w' f' = gm_files w f')
    \<and> (\<exists>q w''. q \<in> set rs' \<and> prefix (fst q) (fst r)
         \<and> searchStudent (fst r) (gm_files w' f) (stack_char e) w' = Inr (Some (render_rec q), w''))"
proof -
  have w: "add_words [c, n1, n2, g, f] 5 [1..<5 - 1] (None, None)
      = Inr (Some ((n1 @ '' '' @ n2) @ '',''), Some (ln g))"
    using assms(7,9,10) by (intro add_words_5) auto
  from addingStudent_render [OF assms(1,3,4,5,6) w] assms(7,9) obtain w' where w':
      "addingStudent e [c, n1, n2, g, f] 5 w = Inr w'" "gm_files w' f = Some (render (add_record rs r))"
      "\<forall>f'. f' \<noteq> f \<longrightarrow> f' \<noteq> ''log.txt'' \<longrightarrow> gm_files w' f' = gm_files w f'"
    by auto
  have ok: "\<forall>q\<in>set (add_record rs r). rec_ok q" by (rule add_record_ok [OF assms(1,8)])
  obtain q where q: "find (matches (fst r)) (add_record rs r) = Some q" "prefix (fst q) (fst r)"
    using find_add_record by blast
  then have "q \<in> set (add_record rs r)" by (auto simp: find_Some_iff)
  moreover obtain w'' where "searchStudent (fst r) (gm_files w' f) (stack_char e) w' = Inr (Some (render_rec q), w'')"
    using searchStudent_render [OF ok assms(6), of "fst r" w'] q(1) w'(2) by auto
  ultimately show ?thesis
    using w' ok q(2) add_record_distinct [OF assms(2), of r] unfolding add_record_def by blast
qed

text \<open>Arguments for the examples.\<close>

definition demo_env :: genv where
  "demo_env = \<lparr>may_open = (\<lambda>_. True), fork_ok = True, stack_char = CHR 0x00, lib_qsort = (\<lambda>cmp xs. xs)\<rparr>"

definition one_file :: gm where
  "one_file = \<lparr>gm_files = [''g'' \<mapsto> render [(''Ali'', ''A'')]], gm_out = []\<rparr>"

theorem grade_add_then_search_witness:
  "\<exists>w'. addingStudent demo_env [''addStudentGrade'', ''Ali'', ''Veli'', ''B'', ''g''] 5 one_file = Inr w'
     \<and> gm_files w' ''g'' = gm_files one_file ''g''"
proof -
  have "rec_ok (''Ali'', ''A'')" "rec_ok (''Ali'' @ '' '' @ ''Veli'', ''B'')"
      "length (render_rec (''Ali'' @ '' '' @ ''Veli'', ''B'')) < NAME_LEN" "length (ln ''B'') < GRADE_LEN"
    by (simp_all add: rec_ok_def render_rec_def ln_def newline_def ROW_LEN_def NAME_LEN_def GRADE_LEN_def)
  then show ?thesis
    using grade_add_then_search [of "[(''Ali'', ''A'')]" "''g''" demo_env one_file
        "(''Ali'' @ '' '' @ ''Veli'', ''B'')" "''Ali''" "''Veli''" "''B''" "''addStudentGrade''"]
    by (auto simp: demo_env_def one_file_def)
qed


section \<open>Displaying\<close>

definition line_ok :: "string \<Rightarrow> bool" where
  "line_ok l \<longleftrightarrow> newline \<notin> set l \<and> length l + 1 < LINE_LEN"

lemma display_loop_line:
  "newline \<notin> set l \<Longrightarrow> length student + length l \<le> LINE_LEN \<Longrightarrow> flag \<noteq> 0 \<Longrightarrow>
   display_loop flag student c (l @ s) = display_loop flag (student @ l) (last (c # l)) s"
  by (induction l arbitrary: student c) auto

definition shown :: "int \<Rightarrow> 'a list \<Rightarrow> 'a list" where
  "shown flag xs = (if flag < 0 then xs else take (nat flag) xs)"

lemma shown_Cons: "flag \<noteq> 0 \<Longrightarrow> shown flag (x # xs) = x # shown (if flag > 0 then flag - 1 else flag) xs"
proof -
  assume "flag \<noteq> 0"
  then consider "flag < 0" | k where "nat flag = Suc k" "flag > 0"
    by (metis linorder_neqE_linordered_idom not0_implies_Suc zero_less_nat_eq less_numeral_extra(3))
  then show ?thesis by cases (simp_all add: shown_def nat_diff_distrib)
qed

lemma display_loop_text:
  assumes "\<forall>l\<in>set ls. line_ok l" "ls \<noteq> [] \<or> c = newline"
  shows "\<exists>eof. display_loop flag [] c (text_of ls)
    = Inr (map (\<lambda>l. out_block (ln l)) (shown flag (ls @ [[]])), eof)"
  using assms
proof (induction ls arbitrary: flag c)
  case Nil
  then show ?case by (cases "flag > 0") (auto simp: shown_def LINE_LEN_def)
next
  case (Cons l ls)
  show ?case
  proof (cases "flag = 0")
    case True
    then show ?thesis by (cases "l = []") (simp_all add: shown_def ln_def neq_Nil_conv, auto)
  next
    case False
    let ?flag = "if flag > 0 then flag - 1 else flag"
    obtain eof where IH: "display_loop ?flag [] newline (text_of ls)
        = Inr (map (\<lambda>l. out_block (ln l)) (shown ?flag (ls @ [[]])), eof)"
      using Cons.IH [of newline ?flag] Cons.prems by auto
    have l: "newline \<notin> set l" "length l + 1 < LINE_LEN" using Cons.prems by (simp_all add: line_ok_def)
    have "display_loop flag [] c (text_of (l # ls))
        = display_loop flag l (last (c # l)) (newline # text_of ls)"
      using display_loop_line [OF l(1), of "[]" flag c] l(2) False by (simp add: ln_def)
    also have "\<dots> = Inr (out_block (ln l) # map (\<lambda>l. out_block (ln l)) (shown ?flag (ls @ [[]])), eof)"
      using l False IH by simp
    finally show ?thesis using False by (simp add: shown_Cons)
  qed
qed

lemma some_loop_line:
  "newline \<notin> set l \<Longrightarrow> length student + length l \<le> LINE_LEN \<Longrightarrow> 0 < n \<Longrightarrow>
   some_loop n t student c (l @ s) = some_loop n t (student @ l) (last (c # l)) s"
  by (induction l arbitrary: student c) auto

lemma some_loop_text:
  assumes "\<forall>l\<in>set ls. line_ok l" "ls \<noteq> [] \<or> c = newline" "0 \<le> n" "0 \<le> t"
  shows "\<exists>eof. some_loop n t [] c (text_of ls)
    = Inr (map (\<lambda>l. out_block (ln l)) (take (nat n) (drop (nat t) (ls @ [[]]))), eof)"
  using assms
proof (induction ls arbitrary: n t c)
  case Nil
  then show ?case
    by (cases "n = 0"; cases "t = 0") (auto simp: LINE_LEN_def take_Cons' drop_Cons')
next
  case (Cons l ls)
  show ?case
  proof (cases "n = 0")
    case True
    then show ?thesis by (cases "l = []") (simp_all add: ln_def neq_Nil_conv, auto)
  next
    case False
    then have n: "0 < n" using Cons.prems by simp
    have l: "newline \<notin> set l" "length l + 1 < LINE_LEN" using Cons.prems by (simp_all add: line_ok_def)
    have e: "some_loop n t [] c (text_of (l # ls)) = some_loop n t l (last (c # l)) (newline # text_of ls)"
      using some_loop_line [OF l(1), of "[]" n t c] l(2) n by (simp add: ln_def)
    show ?thesis
    proof (cases "t = 0")
      case True
      obtain eof where "some_loop (n - 1) 0 [] newline (text_of ls)
          = Inr (map (\<lambda>l. out_block (ln l)) (take (nat (n - 1)) (ls @ [[]])), eof)"
        using Cons.IH [of newline "n - 1" 0] Cons.prems n by auto
      moreover have "nat n = Suc (nat (n - 1))" using n by simp
      ultimately show ?thesis unfolding e using True l n by simp
    next
      case t: False
      obtain eof where "some_loop n (t - 1) [] newline (text_of ls)
          = Inr (map (\<lambda>l. out_block (ln l)) (take (nat n) (drop (nat (t - 1)) (ls @ [[]]))), eof)"
        using Cons.IH [of newline n "t - 1"] Cons.prems t by auto
      moreover have "nat t = Suc (nat (t - 1))" using t Cons.prems by simp
      ultimately show ?thesis unfolding e using t l n by simp
    qed
  qed
qed

lemma write_to_log_out [simp]: "gm_out (write_to_log m w) = gm_out w"
  by (simp add: write_to_log_def gm_append_def)

lemma gm_print_out [simp]: "gm_out (gm_print m w) = gm_out w @ [m]"
  by (simp add: gm_print_def)

lemma c_char_digit: "d < 10 \<Longrightarrow> c_char (digit_char d) - 48 = int d"
proof -
  assume d: "d < 10"
  have "(of_char (digit_char d) :: int) = int (of_char (digit_char d))" by (rule of_nat_of_char [symmetric])
  then have "(of_char (digit_char d) :: int) = 48 + int d" using d by (simp only: digit_char_code) simp
  then show ?thesis using d by (simp add: c_char_def)
qed

text \<open>
  Displaying a file prints its lines in order, each in a block of 256 bytes: all of
  them for \<open>showAll\<close>, the first five for \<open>listGrades\<close>, followed by one empty line when
  the end of the file is met (the last character is processed twice). Page \<open>p\<close> of
  \<open>listSome\<close> with \<open>n\<close> per page prints the lines from number n(p-1) on.
\<close>

theorem grade_display_pages:
  assumes "\<forall>l\<in>set ls. line_ok l" and "ls \<noteq> []" and "f \<noteq> ''log.txt''"
    and "may_open e f" "gm_files w f = Some (text_of ls)"
    and "p \<in> {1..9}" "n \<in> {0..9}"
  shows "(\<exists>w' title. display e [c, f] 2 flag w = Inr w'
      \<and> gm_out w' = gm_out w @ [title] @ map (\<lambda>l. out_block (ln l)) (shown flag (ls @ [[]])))
    \<and> (\<exists>w'. display_some e [c, [digit_char n], [digit_char p], f] 4 w = Inr w'
      \<and> gm_out w' = gm_out w @ map (\<lambda>l. out_block (ln l)) (take n (drop (n * (p - 1)) (ls @ [[]]))))"
proof
  let ?title = "newline # ln ''Showing student in terminal'' @ ln ''----------''"
  obtain eof where d: "display_loop flag [] (stack_char e) (text_of ls)
      = Inr (map (\<lambda>l. out_block (ln l)) (shown flag (ls @ [[]])), eof)"
    using display_loop_text [OF assms(1), of "stack_char e" flag] assms(2) by auto
  have o: "gm_open e f w1 = (Some (text_of ls), w1)" if "gm_files w1 f = gm_files w f" for w1
    using that assms(4,5) by (simp add: gm_open_def)
  have "display e [c, f] 2 flag w = Inr (let w2 = (gm_print ?title (write_to_log ?title w))
        \<lparr>gm_out := gm_out (gm_print ?title (write_to_log ?title w))
            @ map (\<lambda>l. out_block (ln l)) (shown flag (ls @ [[]]))\<rparr>;
      w3 = (if eof then write_to_log (ln ''Readed bytes is 0...exiting from child process'') w2 else w2)
      in write_to_log (ln ''Display operation is successfull... Check Terminal screen'') w3)"
    using d o [of "gm_print ?title (write_to_log ?title w)"] assms(3)
    by (simp add: display_def Let_def write_to_log_other)
  then show "\<exists>w' title. display e [c, f] 2 flag w = Inr w'
      \<and> gm_out w' = gm_out w @ [title] @ map (\<lambda>l. out_block (ln l)) (shown flag (ls @ [[]]))"
    by (auto simp: Let_def)
next
  have o: "gm_open e f (write_to_log m w) = (Some (text_of ls), write_to_log m w)" for m
    using assms(3,4,5) by (simp add: gm_open_def write_to_log_other)
  have digits: "c_char (digit_char n) - 48 = int n" "c_char (digit_char p) - 48 = int p"
    using assms(6,7) by (simp_all add: c_char_digit)
  have "nat (int n * (int p - 1)) = n * (p - 1)"
    using assms(6) by (simp add: nat_mult_distrib nat_diff_distrib)
  then obtain eof where d: "some_loop (int n) (int n * (int p - 1)) [] (stack_char e) (text_of ls)
      = Inr (map (\<lambda>l. out_block (ln l)) (take n (drop (n * (p - 1)) (ls @ [[]]))), eof)"
    using some_loop_text [OF assms(1), of "stack_char e" "int n" "int n * (int p - 1)"] assms(2,6) by auto
  show "\<exists>w'. display_some e [c, [digit_char n], [digit_char p], f] 4 w = Inr w'
      \<and> gm_out w' = gm_out w @ map (\<lambda>l. out_block (ln l)) (take n (drop (n * (p - 1)) (ls @ [[]])))"
    using d o digits by (auto simp: display_some_def Let_def)
qed

theorem grade_display_pages_witness:
  "\<exists>w'. display_some demo_env [''listSome'', [digit_char 1], [digit_char 2], ''g''] 4
      \<lparr>gm_files = [''g'' \<mapsto> text_of [''Ali,A'', ''Can,B'']], gm_out = []\<rparr> = Inr w'
    \<and> gm_out w' = [out_block (''Can,B'' @ [newline])]"
proof -
  have ok: "\<forall>l\<in>set [''Ali,A'', ''Can,B'']. line_ok l"
    by (simp add: line_ok_def newline_def LINE_LEN_def)
  show ?thesis
    using grade_display_pages [OF ok, of "''g''" demo_env
        "\<lparr>gm_files = [''g'' \<mapsto> text_of [''Ali,A'', ''Can,B'']], gm_out = []\<rparr>" 2 1 "''listSome''"]
    by (auto simp: demo_env_def ln_def)
qed


section \<open>Sorting\<close>

definition name_fits :: "student_rec \<Rightarrow> bool" where
  "name_fits r \<longleftrightarrow> CHR '','' \<notin> set (fst r) \<and> newline \<notin> set (snd r) \<and> length (fst r) < SORT_ROW_LEN"

definition grade_fits :: "student_rec \<Rightarrow> bool" where
  "grade_fits r \<longleftrightarrow> length (snd r) \<le> 1"

definition with_newline :: "student_rec \<Rightarrow> student_rec" where
  "with_newline r = (fst r, ln (snd r))"

lemma sort_loop_name:
  "CHR '','' \<notin> set n \<Longrightarrow> length row + length n \<le> SORT_ROW_LEN \<Longrightarrow>
   sort_loop cap sz recs row c (n @ s) = sort_loop cap sz recs (row @ n) (last (c # n)) s"
  by (induction n arbitrary: row c) auto

lemma read_grade_render:
  "newline \<notin> set g \<Longrightarrow> length g' + length g \<le> 1 \<Longrightarrow>
   read_grade g' (g @ newline # s) = Inr (g' @ ln g, s)"
  by (induction g arbitrary: g') (auto simp: SORT_GRADE_LEN_def ln_def)

lemma read_grade_long:
  "newline \<notin> set g \<Longrightarrow> 2 \<le> length g' + length g \<Longrightarrow> read_grade g' (g @ newline # s) = Inl OutOfBounds"
  by (induction g arbitrary: g') (auto simp: SORT_GRADE_LEN_def fits_def)

lemma sort_loop_rec:
  assumes "name_fits r" "length recs < cap"
  shows "sort_loop cap sz recs [] c (render_rec r @ s) =
    (if grade_fits r then
       (if length recs + 1 = sz then sort_loop (2 * sz) (2 * sz) (recs @ [with_newline r]) [] newline s
        else sort_loop cap sz (recs @ [with_newline r]) [] newline s)
     else Inl OutOfBounds)"
proof -
  have "sort_loop cap sz recs [] c (render_rec r @ s)
      = sort_loop cap sz recs (fst r) (last (c # fst r)) (CHR '','' # snd r @ newline # s)"
    using sort_loop_name [of "fst r" "[]" cap sz recs c] assms(1)
    by (simp add: name_fits_def render_rec_def ln_def)
  then show ?thesis
    using assms read_grade_render [of "snd r" "[]" s] read_grade_long [of "snd r" "[]" s]
    by (simp add: name_fits_def grade_fits_def with_newline_def not_le)
qed

lemma sort_loop_render:
  assumes "\<forall>r\<in>set rs. name_fits r" "length recs < sz" "sz \<le> cap" "c \<noteq> CHR '',''"
  shows "sort_loop cap sz recs [] c (render rs) =
    (if \<forall>r\<in>set rs. grade_fits r then Inr (recs @ map with_newline rs) else Inl OutOfBounds)"
  using assms
proof (induction rs arbitrary: recs cap sz c)
  case Nil
  then show ?case by (simp add: SORT_ROW_LEN_def)
next
  case (Cons r rs)
  have r: "name_fits r" "length recs < cap" using Cons.prems by auto
  show ?case
  proof (cases "grade_fits r")
    case False
    then show ?thesis using sort_loop_rec [OF r, of sz c] by simp
  next
    case True
    show ?thesis
    proof (cases "length recs + 1 = sz")
      case sz: True
      then have "length (recs @ [with_newline r]) < 2 * sz" by simp
      then show ?thesis
        using sort_loop_rec [OF r, of sz c] True sz Cons.prems
          Cons.IH [of "recs @ [with_newline r]" "2 * sz" "2 * sz" newline] by simp
    next
      case sz: False
      then have "length (recs @ [with_newline r]) < sz" using Cons.prems(2) by simp
      then show ?thesis
        using sort_loop_rec [OF r, of sz c] True sz Cons.prems
          Cons.IH [of "recs @ [with_newline r]" sz cap newline] by simp
    qed
  qed
qed

lemma report_out: "gm_out (fold report_rec xs w) = gm_out w @ map (\<lambda>r. fst r @ ''-'' @ ln (snd r)) xs"
  by (induction xs arbitrary: w) (simp_all add: report_rec_def)

text \<open>What the C standard promises of \<open>qsort\<close>, for a comparison that is a total preorder.\<close>

definition orders :: "('a \<Rightarrow> 'a \<Rightarrow> int) \<Rightarrow> 'a set \<Rightarrow> bool" where
  "orders cmp X \<longleftrightarrow> (\<forall>a\<in>X. \<forall>b\<in>X. cmp a b \<le> 0 \<or> cmp b a \<le> 0)
     \<and> (\<forall>a\<in>X. \<forall>b\<in>X. \<forall>c\<in>X. cmp a b \<le> 0 \<longrightarrow> cmp b c \<le> 0 \<longrightarrow> cmp a c \<le> 0)"

definition qsort_contract :: "(('a \<Rightarrow> 'a \<Rightarrow> int) \<Rightarrow> 'a list \<Rightarrow> 'a list) \<Rightarrow> bool" where
  "qsort_contract q \<longleftrightarrow> (\<forall>cmp xs. orders cmp (set xs) \<longrightarrow>
     mset (q cmp xs) = mset xs \<and> sorted_wrt (\<lambda>a b. cmp a b \<le> 0) (q cmp xs))"

lemma ordersI:
  assumes "\<And>a b. a \<in> X \<Longrightarrow> b \<in> X \<Longrightarrow> cmp a b \<le> 0 \<or> cmp b a \<le> 0"
    and "\<And>a b c. a \<in> X \<Longrightarrow> b \<in> X \<Longrightarrow> c \<in> X \<Longrightarrow> cmp a b \<le> 0 \<Longrightarrow> cmp b c \<le> 0 \<Longrightarrow> cmp a c \<le> 0"
  shows "orders cmp X"
  using assms unfolding orders_def by blast

lemma orders_total: "orders cmp X \<Longrightarrow> a \<in> X \<Longrightarrow> b \<in> X \<Longrightarrow> \<not> cmp a b \<le> 0 \<Longrightarrow> cmp b a \<le> 0"
  unfolding orders_def by blast

lemma orders_trans:
  "orders cmp X \<Longrightarrow> a \<in> X \<Longrightarrow> b \<in> X \<Longrightarrow> c \<in> X \<Longrightarrow> cmp a b \<le> 0 \<Longrightarrow> cmp b c \<le> 0 \<Longrightarrow> cmp a c \<le> 0"
  unfolding orders_def by blast

lemma orders_subset: "orders cmp X \<Longrightarrow> Y \<subseteq> X \<Longrightarrow> orders cmp Y"
  unfolding orders_def by blast

definition rec_text :: "student_rec \<Rightarrow> bool" where
  "rec_text r \<longleftrightarrow> c_text (fst r) \<and> c_text (snd r)"

lemma strcmp_orders:
  assumes "\<forall>a\<in>X. c_text (f a)"
  shows "orders (\<lambda>a b. c_strcmp (f a) (f b)) X" "orders (\<lambda>a b. c_strcmp (f b) (f a)) X"
proof -
  show "orders (\<lambda>a b. c_strcmp (f a) (f b)) X"
  proof (rule ordersI)
    fix a b c assume "a \<in> X" "b \<in> X" "c \<in> X" "c_strcmp (f a) (f b) \<le> 0" "c_strcmp (f b) (f c) \<le> 0"
    then show "c_strcmp (f a) (f c) \<le> 0" using assms c_strcmp_trans [of "f a" "f b" "f c"] by blast
  qed (rule c_strcmp_total)
  show "orders (\<lambda>a b. c_strcmp (f b) (f a)) X"
  proof (rule ordersI)
    fix a b c assume "a \<in> X" "b \<in> X" "c \<in> X" "c_strcmp (f b) (f a) \<le> 0" "c_strcmp (f c) (f b) \<le> 0"
    then show "c_strcmp (f c) (f a) \<le> 0" using assms c_strcmp_trans [of "f c" "f b" "f a"] by blast
  qed (rule c_strcmp_total)
qed

lemma compare_funs:
  "compareNamesA = (\<lambda>a b. c_strcmp (fst a) (fst b))" "compareGradesA = (\<lambda>a b. c_strcmp (snd a) (snd b))"
  "compareNamesD = (\<lambda>a b. c_strcmp (fst b) (fst a))" "compareGradesD = (\<lambda>a b. c_strcmp (snd b) (snd a))"
  by (intro ext, simp add: compareNamesA_def compareGradesA_def compareNamesD_def compareGradesD_def)+

lemma compare_orders:
  assumes "\<forall>r\<in>X. rec_text r"
  shows "orders compareNamesA X" "orders compareGradesA X" "orders compareNamesD X" "orders compareGradesD X"
  unfolding compare_funs using assms by (auto intro: strcmp_orders simp: rec_text_def)

lemma sort_choice_orders:
  assumes "(title, logged, cmp) = sort_choice flag" "\<forall>r\<in>X. rec_text r"
  shows "orders cmp X"
proof -
  have "cmp = compareNamesA \<or> cmp = compareGradesA \<or> cmp = compareNamesD \<or> cmp = compareGradesD"
    using assms(1) by (auto simp: sort_choice_def split: if_splits)
  then show ?thesis using compare_orders [OF assms(2)] by (elim disjE) simp_all
qed

lemma with_newline_text: "rec_text r \<Longrightarrow> rec_text (with_newline r)"
  by (simp add: rec_text_def with_newline_def c_text_def ln_def newline_def)

text \<open>
  The orders that the user can ask for, stated without the program's comparisons: the
  dictionary order of texts by the codes of their characters, upwards or downwards, on the
  names or on the grades.
\<close>

definition dict_le :: "string \<Rightarrow> string \<Rightarrow> bool" where
  "dict_le a b \<longleftrightarrow> a = b \<or> (a, b) \<in> lexord {(x, y). (of_char x :: int) < of_char y}"

definition in_order :: "char \<Rightarrow> student_rec list \<Rightarrow> bool" where
  "in_order flag rs \<longleftrightarrow>
     (if flag = CHR ''g'' then sorted_wrt dict_le (map snd rs)
      else if flag = CHR ''c'' then sorted_wrt dict_le (map snd (rev rs))
      else if flag = CHR ''d'' then sorted_wrt dict_le (map fst (rev rs))
      else sorted_wrt dict_le (map fst rs))"

definition order_title :: "char \<Rightarrow> string" where
  "order_title flag =
     (if flag = CHR ''g'' then ln ''Sorting grades with ascending order''
      else if flag = CHR ''c'' then ln ''Sorting grades with descenging order''
      else if flag = CHR ''d'' then ln ''Sorting names with descenging order''
      else ln ''Sorting names with ascending order'')"

lemma strcmp_dict: "c_text a \<Longrightarrow> c_text b \<Longrightarrow> c_strcmp a b \<le> 0 \<longleftrightarrow> dict_le a b"
proof (induction a b rule: c_strcmp.induct)
  case (4 x as y bs)
  then show ?case by (auto simp: dict_le_def)
qed (auto simp: dict_le_def of_char_0)

lemma sorted_wrt_text:
  "\<forall>r\<in>set rs. c_text (f r) \<Longrightarrow> sorted_wrt (\<lambda>a b. c_strcmp (f a) (f b) \<le> 0) rs \<longleftrightarrow> sorted_wrt dict_le (map f rs)"
  by (induction rs) (auto simp: strcmp_dict)

lemma sorted_wrt_text_down:
  "\<forall>r\<in>set rs. c_text (f r) \<Longrightarrow> sorted_wrt (\<lambda>a b. c_strcmp (f b) (f a) \<le> 0) rs \<longleftrightarrow> sorted_wrt dict_le (map f (rev rs))"
  by (induction rs) (auto simp: strcmp_dict sorted_wrt_append)

lemma choice_order:
  assumes "(title, logged, cmp) = sort_choice flag" "\<forall>r\<in>set rs. rec_text r"
  shows "sorted_wrt (\<lambda>a b. cmp a b \<le> 0) rs \<longleftrightarrow> in_order flag rs"
proof -
  have t: "\<forall>r\<in>set rs. c_text (fst r)" "\<forall>r\<in>set rs. c_text (snd r)" using assms(2) by (simp_all add: rec_text_def)
  note e = sorted_wrt_text [OF t(1)] sorted_wrt_text [OF t(2)] sorted_wrt_text_down [OF t(1)] sorted_wrt_text_down [OF t(2)]
  show ?thesis using assms(1) e
    by (simp add: sort_choice_def in_order_def compare_funs split: if_splits)
qed

text \<open>
  C26. Sorting a file whose grades have one letter prints the title of the order asked for and
  then every record of the file exactly once, in that order: by grade for \<open>g\<close> and \<open>c\<close>, by
  name for every other flag, downwards for \<open>c\<close> and \<open>d\<close>, each in the dictionary order of the
  characters' codes. Assumed of \<open>qsort\<close> is what the C standard promises for a consistent
  comparison; that the four comparisons are consistent and are those of the four orders
  is part of the proof. The growing array is never overrun.
\<close>

theorem grade_sort_correct:
  assumes "\<forall>r\<in>set rs. name_fits r \<and> rec_text r" and "\<forall>r\<in>set rs. grade_fits r"
    and "stack_char e \<noteq> CHR '',''" and "qsort_contract (lib_qsort e)"
  shows "\<exists>w' out. sortAll_f e (Some (render rs)) flag w = Inr w'
    \<and> gm_out w' = gm_out w @ [order_title flag] @ map (\<lambda>r. fst r @ ''-'' @ ln (snd r)) out
    \<and> mset out = mset (map with_newline rs) \<and> in_order flag out"
proof -
  obtain title logged cmp where c: "(title, logged, cmp) = sort_choice flag" by (metis prod_cases3)
  let ?xs = "map with_newline rs"
  let ?out = "lib_qsort e cmp ?xs"
  have "title = order_title flag" using c by (auto simp: sort_choice_def order_title_def split: if_splits)
  moreover have "sort_loop 50 10 [] [] (stack_char e) (render rs) = Inr ?xs"
    using sort_loop_render [of rs "[]" 10 50 "stack_char e"] assms(1-3) by simp
  ultimately have "\<exists>w'. sortAll_f e (Some (render rs)) flag w = Inr w'
      \<and> gm_out w' = gm_out w @ [order_title flag] @ map (\<lambda>r. fst r @ ''-'' @ ln (snd r)) ?out"
    using c [symmetric] by (auto simp: sortAll_f_def Let_def report_out)
  moreover have t: "\<forall>a\<in>set ?xs. rec_text a" using assms(1) with_newline_text by auto
  have q: "mset ?out = mset ?xs \<and> sorted_wrt (\<lambda>a b. cmp a b \<le> 0) ?out"
    using assms(4) sort_choice_orders [OF c t] unfolding qsort_contract_def by blast
  moreover have "\<forall>a\<in>set ?out. rec_text a" using q t mset_eq_setD by blast
  then have "in_order flag ?out" using choice_order [OF c] q by blast
  ultimately show ?thesis by blast
qed

text \<open>Insertion sort meets the contract; it stands for the library in the example.\<close>

fun insert_by :: "('a \<Rightarrow> 'a \<Rightarrow> int) \<Rightarrow> 'a \<Rightarrow> 'a list \<Rightarrow> 'a list" where
  "insert_by cmp x [] = [x]"
| "insert_by cmp x (y # ys) = (if cmp x y \<le> 0 then x # y # ys else y # insert_by cmp x ys)"

definition sort_by :: "('a \<Rightarrow> 'a \<Rightarrow> int) \<Rightarrow> 'a list \<Rightarrow> 'a list" where
  "sort_by cmp xs = foldr (insert_by cmp) xs []"

lemma insert_by_mset [simp]: "mset (insert_by cmp x ys) = add_mset x (mset ys)"
  by (induction ys) auto

lemma sort_by_mset: "mset (sort_by cmp xs) = mset xs"
  by (induction xs) (simp_all add: sort_by_def)

lemma insert_by_set: "set (insert_by cmp x ys) = insert x (set ys)"
  by (induction ys) auto

lemma insert_by_sorted:
  assumes "sorted_wrt (\<lambda>a b. cmp a b \<le> 0) ys" and "orders cmp (insert x (set ys))"
  shows "sorted_wrt (\<lambda>a b. cmp a b \<le> 0) (insert_by cmp x ys)"
  using assms
proof (induction ys)
  case (Cons y ys)
  show ?case
  proof (cases "cmp x y \<le> 0")
    case True
    have "cmp x z \<le> 0" if "z \<in> set ys" for z
      by (rule orders_trans [OF Cons.prems(2), of x y z]) (use True that Cons.prems(1) in auto)
    then show ?thesis using True Cons.prems(1) by simp
  next
    case False
    have "cmp y x \<le> 0" by (rule orders_total [OF Cons.prems(2) _ _ False]) simp_all
    moreover have "sorted_wrt (\<lambda>a b. cmp a b \<le> 0) (insert_by cmp x ys)"
    proof (rule Cons.IH)
      show "orders cmp (insert x (set ys))" by (rule orders_subset [OF Cons.prems(2)]) auto
    qed (use Cons.prems(1) in simp)
    ultimately show ?thesis using False Cons.prems(1) by (auto simp: insert_by_set)
  qed
qed simp

lemma sort_by_sorted: "orders cmp (set xs) \<Longrightarrow> sorted_wrt (\<lambda>a b. cmp a b \<le> 0) (sort_by cmp xs)"
proof (induction xs)
  case (Cons x xs)
  have s: "set (sort_by cmp xs) = set xs" by (metis set_mset_mset sort_by_mset)
  have "orders cmp (set xs)" by (rule orders_subset [OF Cons.prems]) auto
  then have "sorted_wrt (\<lambda>a b. cmp a b \<le> 0) (insert_by cmp x (sort_by cmp xs))"
    using insert_by_sorted [OF Cons.IH] Cons.prems s by simp
  then show ?case by (simp add: sort_by_def)
qed (simp add: sort_by_def)

lemma sort_by_contract: "qsort_contract sort_by"
  by (simp add: qsort_contract_def sort_by_mset sort_by_sorted)

theorem grade_sort_correct_witness:
  "\<exists>w' out. sortAll_f (demo_env\<lparr>lib_qsort := sort_by\<rparr>) (Some (render [(''Can'', ''A''), (''Ali'', ''B'')]))
      (CHR ''c'') no_files = Inr w'
    \<and> mset out = {#(''Can'', ln ''A''), (''Ali'', ln ''B'')#} \<and> in_order (CHR ''c'') out"
proof -
  have "\<forall>r\<in>set [(''Can'', ''A''), (''Ali'', ''B'')]. name_fits r \<and> rec_text r"
      "\<forall>r\<in>set [(''Can'', ''A''), (''Ali'', ''B'')]. grade_fits r"
    by (simp_all add: name_fits_def rec_text_def grade_fits_def newline_def SORT_ROW_LEN_def)
  from grade_sort_correct [OF this, of "demo_env\<lparr>lib_qsort := sort_by\<rparr>" "CHR ''c''" no_files]
  show ?thesis
    by (auto simp: demo_env_def sort_by_contract with_newline_def)
qed

text \<open>
  Sorting overruns its arrays on ordinary files: whenever some grade has two letters
  or more, reading the file writes behind the end of \<open>not\<close> (its three bytes hold the grade
  and the newline, but not the NUL), whatever the sort order.
\<close>

theorem grade_sort_two_letter_overflow:
  assumes "\<forall>r\<in>set rs. name_fits r" and "stack_char e \<noteq> CHR '',''" and "\<exists>r\<in>set rs. 2 \<le> length (snd r)"
  shows "sortAll_f e (Some (render rs)) flag w = Inl OutOfBounds"
proof -
  obtain r where "r \<in> set rs" "\<not> grade_fits r" using assms(3) by (force simp: grade_fits_def)
  then have "\<not> (\<forall>r\<in>set rs. grade_fits r)" by blast
  then have "sort_loop 50 10 [] [] (stack_char e) (render rs) = Inl OutOfBounds"
    using sort_loop_render [of rs "[]" 10 50 "stack_char e"] assms(1,2) by simp
  then show ?thesis by (simp add: sortAll_f_def)
qed

theorem grade_sort_two_letter_overflow_witness:
  "sortAll_f demo_env (Some (render [(''Ali'', ''AA'')])) (CHR ''n'') no_files = Inl OutOfBounds"
  by (rule grade_sort_two_letter_overflow)
     (simp_all add: name_fits_def newline_def SORT_ROW_LEN_def demo_env_def)


section \<open>Whole commands\<close>

lemma classify_add: "classify [''addStudentGrade'', n1, n2, g, f] 5 = ADDSTUDENT"
  by (simp add: classify_def is_cmd_def c_strncmp0_def)

lemma newline_not_q: "newline \<noteq> CHR ''q''"
  by (simp add: newline_def)

text \<open>The state in which \<open>main\<close> forks.\<close>

definition fork_state :: "string \<Rightarrow> string list \<Rightarrow> gm \<Rightarrow> gm" where
  "fork_state b ws w = write_to_log (''Valid command entered, executing... command >> '' @ ws ! 0 @ ln '', '')
     (write_to_log (''read from command line successfull. Command: '' @ b @ ln '' '')
       (gm_print (ln (''press '' @ [CHR 0x27] @ ''q'' @ [CHR 0x27] @ '' to exit'')) w))"

lemma fork_state_files: "f \<noteq> ''log.txt'' \<Longrightarrow> gm_files (fork_state b ws w) f = gm_files w f"
  by (simp add: fork_state_def write_to_log_other)

lemma grade_round_run:
  assumes "validateCommand b = Inr (t, ws)" "t \<noteq> COMMAND_ERR" "b \<noteq> []" "hd b \<noteq> CHR ''q''" "length b < 465"
    and "fork_ok e" "run_child e t ws (length ws) (fork_state b ws w) = Inr w'"
  shows "grade_round e b w
    = Inr (False, write_to_log (ln ''Waiting child processes successfull...Continue executing'') w')"
proof -
  have "fits MSG_BUF (''read from command line successfull. Command: '' @ b @ ln '' '')
      = Inr (''read from command line successfull. Command: '' @ b @ ln '' '')"
    using assms(5) by (intro fits_simps) (simp add: MSG_BUF_def ln_def)
  then show ?thesis
    using assms unfolding grade_round_def fork_state_def
    by (simp add: Let_def INPUT_LEN_def del: append.simps append_assoc)
qed

text \<open>
  A typed command does what it says: the input line
  \<open>addStudentGrade name surname grade file\<close> leaves the program running and the file with
  the new record at its end (or unchanged when a prefix of the name is there), all other
  files but the log untouched, from the keyboard to the file system.
\<close>

theorem grade_add_command:
  assumes "\<forall>r\<in>set rs. rec_ok r" and "f \<noteq> ''log.txt''" "may_open e f" "gm_files w f = Some (render rs)"
    and "stack_char e \<noteq> CHR '',''" "fork_ok e"
    and "r = (n1 @ '' '' @ n2, g)" "length (render_rec r) < NAME_LEN" "length (ln g) < GRADE_LEN"
    and "\<forall>u\<in>{n1, n2, g, f}. u \<noteq> [] \<and> (\<forall>c\<in>set u. \<not> is_sep c)" "length f < TOKEN_LEN"
  shows "\<exists>w'. grade_round e (join_with (CHR '' '') [''addStudentGrade'', n1, n2, g, f] @ [newline]) w
      = Inr (False, w')
    \<and> gm_files w' f = Some (render (if \<exists>q\<in>set rs. prefix (fst q) (fst r) then rs else rs @ [r]))
    \<and> (\<forall>f'. f' \<noteq> f \<longrightarrow> f' \<noteq> ''log.txt'' \<longrightarrow> gm_files w' f' = gm_files w f')"
proof -
  let ?ws = "[''addStudentGrade'', n1, n2, g, f]"
  let ?b = "join_with (CHR '' '') ?ws @ [newline]"
  have len: "length n1 + length n2 + length g < 21" "length g < 3"
    using assms(7,8,9) by (simp_all add: render_rec_def ln_def NAME_LEN_def GRADE_LEN_def)
  have sep: "is_sep (CHR '' '')" by (simp add: is_sep_def)
  have v: "validateCommand ?b = Inr (ADDSTUDENT, ?ws)"
  proof -
    have "\<forall>u\<in>set ?ws. u \<noteq> [] \<and> length u < TOKEN_LEN \<and> (\<forall>c\<in>set u. \<not> is_sep c)"
      using assms(10,11) len by (auto simp: TOKEN_LEN_def is_sep_def quote_def)
    from validate_join [OF this _ sep] show ?thesis
      using classify_add [of n1 n2 g f] by (simp add: MAX_WORDS_def numeral_eq_Suc)
  qed
  have b: "length ?b < 465" "hd ?b \<noteq> CHR ''q''" "?b \<noteq> []"
    using len assms(11) by (simp_all add: TOKEN_LEN_def)
  have words: "add_words ?ws 5 [1..<5 - 1] (None, None) = Inr (Some ((n1 @ '' '' @ n2) @ '',''), Some (ln g))"
    using assms(7,8,9) by (intro add_words_5) auto
  let ?w3 = "fork_state ?b ?ws w"
  have f3: "\<forall>f'. f' \<noteq> ''log.txt'' \<longrightarrow> gm_files ?w3 f' = gm_files w f'"
    by (simp add: fork_state_files)
  have "gm_files ?w3 f = Some (render rs)" using f3 assms(2,4) by simp
  from addingStudent_render [OF assms(1,2,3) this assms(5) words] assms(7,8) obtain w' where w':
      "addingStudent e ?ws 5 ?w3 = Inr w'" "gm_files w' f = Some (render (add_record rs r))"
      "\<forall>f'. f' \<noteq> f \<longrightarrow> f' \<noteq> ''log.txt'' \<longrightarrow> gm_files w' f' = gm_files ?w3 f'"
    by auto
  let ?w4 = "write_to_log (ln ''Adding Student operation is Successfull...exiting child process'') w'"
  let ?w = "write_to_log (ln ''Waiting child processes successfull...Continue executing'') ?w4"
  have "run_child e ADDSTUDENT ?ws (length ?ws) ?w3 = Inr ?w4"
    using w'(1) by (simp add: run_child_def numeral_eq_Suc)
  from grade_round_run [OF v _ b(3,2,1) assms(6) this]
  have "grade_round e ?b w = Inr (False, ?w)" by simp
  moreover have "gm_files ?w f' = gm_files w' f'" if "f' \<noteq> ''log.txt''" for f'
    using that by (simp add: write_to_log_other)
  ultimately show ?thesis using w'(2,3) f3 assms(2) unfolding add_record_def by auto
qed

theorem grade_add_command_witness:
  "\<exists>w'. grade_round demo_env (''addStudentGrade Can Ok B g'' @ [newline]) one_file = Inr (False, w')
     \<and> gm_files w' ''g'' = Some (render [(''Ali'', ''A''), (''Can Ok'', ''B'')])"
proof -
  have "\<forall>r\<in>set [(''Ali'', ''A'')]. rec_ok r"
      "length (render_rec (''Can'' @ '' '' @ ''Ok'', ''B'')) < NAME_LEN" "length (ln ''B'') < GRADE_LEN"
    by (simp_all add: rec_ok_def render_rec_def ln_def newline_def ROW_LEN_def NAME_LEN_def GRADE_LEN_def)
  moreover have "\<forall>u\<in>{''Can'', ''Ok'', ''B'', ''g''}. u \<noteq> [] \<and> (\<forall>c\<in>set u. \<not> is_sep c)"
    by (simp add: is_sep_def quote_def)
  ultimately show ?thesis
    using grade_add_command [of "[(''Ali'', ''A'')]" "''g''" demo_env one_file
        "(''Can'' @ '' '' @ ''Ok'', ''B'')" "''Can''" "''Ok''" "''B''"]
    by (auto simp: demo_env_def one_file_def TOKEN_LEN_def)
qed

text \<open>
  A long line overflows the message buffer of \<open>main\<close>: any input of 465 to 1023 bytes
  that does not start with q is printed with \<open>sprintf\<close> into an array of 512 bytes together
  with 47 bytes of text.
\<close>

theorem grade_long_input_overflow:
  assumes "465 \<le> length buffer" "length buffer < INPUT_LEN" "hd buffer \<noteq> CHR ''q''"
  shows "grade_round e buffer w = Inl OutOfBounds"
proof -
  have "buffer \<noteq> []" using assms(1) by auto
  moreover have "fits MSG_BUF (''read from command line successfull. Command: '' @ buffer @ ln '' '') = Inl OutOfBounds"
    using assms(1) by (intro fits_simps) (simp add: MSG_BUF_def ln_def)
  ultimately show ?thesis using assms(2,3) by (simp add: grade_round_def Let_def)
qed

theorem grade_long_input_overflow_witness:
  "grade_round demo_env (replicate 500 (CHR ''a'')) no_files = Inl OutOfBounds"
  by (rule grade_long_input_overflow) (simp_all add: INPUT_LEN_def)

end
