(* ===== verification/FifoCalc.thy ===== *)
theory FifoCalc
  imports CText
begin

text \<open>
  The two-process calculator of \<^verbatim>\<open>hw2_2024\<close>: the parent prints random digits into a FIFO,
  child 1 adds them up and passes \<open>sum!\<close> on through a second FIFO, into which the parent
  also writes the digits and the word \<open>multiply\<close>; child 2 multiplies and adds. This theory
  has the functions of \<^verbatim>\<open>common.c\<close> and \<^verbatim>\<open>hw2.c\<close>.

  Several functions write a byte or more behind the block they allocated. What that does
  depends on the allocator, so the model has one: \<open>usable n\<close> is the number of bytes that a
  block of \<open>n\<close> bytes really has (at least \<open>n\<close>; \<^verbatim>\<open>malloc_usable_size\<close> of glibc); a write
  behind it is \<open>OutOfBounds\<close>. \<open>alloc_ok\<close> says whether the allocations that the code checks
  succeed.
\<close>

section \<open>Numbers\<close>

record heap_env =
  usable :: "nat \<Rightarrow> nat"
  alloc_ok :: bool

definition to_int32 :: "int \<Rightarrow> int" where
  "to_int32 x = (x + 2 ^ 31) mod 2 ^ 32 - 2 ^ 31"

definition in_int32 :: "int \<Rightarrow> bool" where
  "in_int32 x \<longleftrightarrow> - (2 ^ 31) \<le> x \<and> x < 2 ^ 31"

definition in_int64 :: "int \<Rightarrow> bool" where
  "in_int64 x \<longleftrightarrow> - (2 ^ 63) \<le> x \<and> x < 2 ^ 63"

text \<open>\<^verbatim>\<open>strtol(s, &end, 10)\<close>: the value, and whether any digit was there.\<close>

fun strip_sign :: "string \<Rightarrow> string" where
  "strip_sign (c # s) = (if c = CHR ''-'' \<or> c = CHR ''+'' then s else c # s)"
| "strip_sign [] = []"

definition strtol_any :: "string \<Rightarrow> bool" where
  "strtol_any s \<longleftrightarrow> takeWhile c_isdigit (strip_sign (dropWhile c_isspace s)) \<noteq> []"

definition c_strtol :: "string \<Rightarrow> int" where
  "c_strtol s = max (- (2 ^ 63)) (min (2 ^ 63 - 1) (c_atoi s))"

definition convertSingleStringToInteger :: "string \<Rightarrow> int" where
  "convertSingleStringToInteger s = (if strtol_any s then to_int32 (c_strtol s) else 1)"

lemma to_int32_id [simp]: "in_int32 x \<Longrightarrow> to_int32 x = x"
  by (simp add: to_int32_def in_int32_def)

lemma strip_sign_digit: "strip_sign (digit_char d # s) = digit_char d # s"
  by simp

lemma strtol_any_dec [simp]: "strtol_any (dec i)"
proof -
  obtain d s where "dec_nat (nat i) = digit_char d # s" using dec_nat_head by blast
  moreover obtain d' s' where "dec_nat (nat (- i)) = digit_char d' # s'" using dec_nat_head by blast
  ultimately have "takeWhile c_isdigit (strip_sign (dec i)) \<noteq> []"
    by (cases "i < 0") (simp_all add: dec_def)
  then show ?thesis by (simp add: strtol_any_def dropWhile_dec)
qed

lemma convertSingle_dec [simp]: "in_int32 i \<Longrightarrow> convertSingleStringToInteger (dec i) = i"
  by (simp add: convertSingleStringToInteger_def c_strtol_def atoi_dec) (simp add: in_int32_def to_int32_def)

section \<open>Printing an array\<close>

text \<open>\<open>Inr None\<close> is the \<open>exit\<close> of a failed \<^verbatim>\<open>snprintf\<close>.\<close>

fun conv_loop :: "nat \<Rightarrow> char \<Rightarrow> int list \<Rightarrow> string \<Rightarrow> string option cres" where
  "conv_loop total_len delim [] str =
     (if total_len \<le> length str + 1 then Inl OutOfBounds else Inr (Some (str @ [delim])))"
| "conv_loop total_len delim (x # xs) str =
     (let n = length (dec x) in
      if total_len - length str < n then Inr None
      else if total_len - length str = n then Inl OutOfBounds
      else if xs = [] then conv_loop total_len delim xs (str @ dec x)
      else if total_len \<le> length str + n then Inl OutOfBounds
      else conv_loop total_len delim xs (str @ dec x @ [delim]))"

definition convertIntegerToString :: "int list \<Rightarrow> char \<Rightarrow> string option cres" where
  "convertIntegerToString arr delim =
     conv_loop (sum_list (map (\<lambda>x. length (dec x) + 1) arr) + 2) delim arr []"

definition digits_text :: "char \<Rightarrow> int list \<Rightarrow> string" where
  "digits_text delim arr = concat (map (\<lambda>x. dec x @ [delim]) arr)"

lemma digits_text_simps [simp]:
  "digits_text d [] = []" "digits_text d (x # xs) = dec x @ d # digits_text d xs"
  by (simp_all add: digits_text_def)

lemma conv_loop_text:
  "xs \<noteq> [] \<Longrightarrow> length str + sum_list (map (\<lambda>x. length (dec x) + 1) xs) + 2 \<le> total_len \<Longrightarrow>
   conv_loop total_len d xs str = Inr (Some (str @ digits_text d xs))"
proof (induction xs arbitrary: str)
  case (Cons x xs)
  show ?case
  proof (cases "xs = []")
    case True
    moreover from this have "\<not> total_len - length str < length (dec x)" "total_len - length str \<noteq> length (dec x)"
      using Cons.prems by simp_all
    ultimately show ?thesis using Cons.prems by (simp add: Let_def)
  next
    case False
    moreover have "\<not> total_len - length str < length (dec x)" "total_len - length str \<noteq> length (dec x)"
        "\<not> total_len \<le> length str + length (dec x)"
      using Cons.prems by simp_all
    ultimately show ?thesis using Cons.prems Cons.IH [OF False, of "str @ dec x @ [d]"] by (simp add: Let_def)
  qed
qed simp

lemma convertIntegerToString_text:
  "arr \<noteq> [] \<Longrightarrow> convertIntegerToString arr d = Inr (Some (digits_text d arr))"
  by (simp add: convertIntegerToString_def conv_loop_text)

section \<open>Splitting\<close>

definition TEMP_LEN :: nat where "TEMP_LEN = 32"

definition countHowManyElementsWillExtract :: "string \<Rightarrow> char \<Rightarrow> nat" where
  "countHowManyElementsWillExtract str delim = length (filter (\<lambda>c. c = delim) str)"

text \<open>\<open>calloc\<close> of as many bytes as the word has characters, then \<open>strcpy\<close> with its NUL.\<close>

fun split_loop ::
    "heap_env \<Rightarrow> char \<Rightarrow> nat \<Rightarrow> string \<Rightarrow> string list \<Rightarrow> string \<Rightarrow> string list cres" where
  "split_loop h delim slots temp splitted [] = Inr splitted"
| "split_loop h delim slots temp splitted (c # s) =
     (if TEMP_LEN \<le> length temp then Inl OutOfBounds
      else if c = delim then
        (if slots \<le> length splitted \<or> usable h (length temp) < length temp + 1 then Inl OutOfBounds
         else split_loop h delim slots [] (splitted @ [temp]) s)
      else split_loop h delim slots (temp @ [c]) splitted s)"

definition splitStringIntoArray_I ::
    "heap_env \<Rightarrow> string \<Rightarrow> char \<Rightarrow> nat \<Rightarrow> nat \<Rightarrow> (nat \<times> string list) cres" where
  "splitStringIntoArray_I h str delim slots cnt =
     cbind (split_loop h delim slots [] [] str) (\<lambda>parts. Inr (cnt, parts))"

definition splitStringIntoArray_S :: "heap_env \<Rightarrow> string \<Rightarrow> char \<Rightarrow> nat \<Rightarrow> (nat \<times> string list) cres" where
  "splitStringIntoArray_S h str delim slots =
     splitStringIntoArray_I h str delim slots (countHowManyElementsWillExtract str delim)"

text \<open>The split of the second FIFO: words end with a comma, the sum with an exclamation mark.\<close>

fun custom_loop ::
    "heap_env \<Rightarrow> nat \<Rightarrow> string \<Rightarrow> string list \<Rightarrow> string \<Rightarrow> string \<Rightarrow> (string list \<times> string) cres" where
  "custom_loop h slots temp splitted compared [] = Inr (splitted, compared)"
| "custom_loop h slots temp splitted compared (c # s) =
     (if TEMP_LEN \<le> length temp then Inl OutOfBounds
      else if c = CHR ''!'' then
        (if usable h 7 < length temp + 1 then Inl OutOfBounds
         else custom_loop h slots [] splitted temp s)
      else if c = CHR '','' then
        (if slots \<le> length splitted \<or> usable h (length temp + 1) < length temp + 1 then Inl OutOfBounds
         else custom_loop h slots [] (splitted @ [temp]) compared s)
      else custom_loop h slots (temp @ [c]) splitted compared s)"

definition splitStringIntoArray_Custom :: "heap_env \<Rightarrow> string \<Rightarrow> nat \<Rightarrow> (string list \<times> string) cres" where
  "splitStringIntoArray_Custom h str slots = custom_loop h slots [] [] [] str"

definition check_command :: "string list \<Rightarrow> string \<Rightarrow> nat \<Rightarrow> int cres" where
  "check_command splitted command cnt =
     (if length splitted < cnt then Inl OutOfBounds
      else Inr (if \<exists>w\<in>set (take cnt splitted). c_strncmp0 w command (length command) then 1 else 0))"

section \<open>Reading a FIFO\<close>

text \<open>
  The bytes up to the end of the file. The condition meant to enlarge the buffer,
  \<^verbatim>\<open>counter+1 % 6 == 0\<close>, is \<open>counter + (1 % 6) == 0\<close> and never holds.
\<close>

fun read_loop :: "nat \<Rightarrow> string \<Rightarrow> string \<Rightarrow> string cres" where
  "read_loop cap buffer [] = (if cap \<le> length buffer then Inl OutOfBounds else Inr buffer)"
| "read_loop cap buffer (c # s) =
     (if cap \<le> length buffer then Inl OutOfBounds else read_loop cap (buffer @ [c]) s)"


definition readOneByOne :: "heap_env \<Rightarrow> string \<Rightarrow> string cres" where
  "readOneByOne h bytes = cbind (read_loop (usable h 32) [] bytes) (\<lambda>b. Inr (c_string b))"

fun custom_read_loop :: "nat \<Rightarrow> char \<Rightarrow> char \<Rightarrow> bool \<Rightarrow> bool \<Rightarrow> string \<Rightarrow> string \<Rightarrow> string cres" where
  "custom_read_loop cap d1 d2 f1 f2 buffer [] =
     (if \<not> (f1 \<and> f2) then Inl NeverReturns
      else if cap \<le> length buffer then Inl OutOfBounds else Inr buffer)"
| "custom_read_loop cap d1 d2 f1 f2 buffer (c # s) =
     (let f1 = (f1 \<or> c = d1); f2 = (f2 \<or> c = d2) in
      if cap \<le> length buffer then Inl OutOfBounds
      else if c = CHR 0x00 \<and> f1 \<and> f2 then Inr (buffer @ [c])
      else custom_read_loop cap d1 d2 f1 f2 (buffer @ [c]) s)"

definition readOneByOne_Custom :: "heap_env \<Rightarrow> char \<Rightarrow> char \<Rightarrow> string \<Rightarrow> string cres" where
  "readOneByOne_Custom h d1 d2 bytes =
     cbind (custom_read_loop (usable h 12) d1 d2 False False [] bytes) (\<lambda>b. Inr (c_string b))"

section \<open>The calculation\<close>

fun addValues_loop :: "int \<Rightarrow> int list \<Rightarrow> int cres" where
  "addValues_loop acc [] = Inr acc"
| "addValues_loop acc (x # xs) =
     (if in_int32 (acc + x) then addValues_loop (acc + x) xs else Inl IntOverflow)"

definition addValuesInInteger :: "int list \<Rightarrow> int cres" where
  "addValuesInInteger xs = addValues_loop 0 xs"

fun multiply_loop :: "int \<Rightarrow> int list \<Rightarrow> int cres" where
  "multiply_loop result [] = Inr result"
| "multiply_loop result (x # xs) =
     (if in_int64 (result * x) then multiply_loop (result * x) xs else Inl IntOverflow)"

definition multiplyValuesInInteger :: "int list \<Rightarrow> int cres" where
  "multiplyValuesInInteger xs = multiply_loop 1 xs"

definition multiplyOperation :: "int list \<Rightarrow> int cres" where
  "multiplyOperation xs = cbind (multiplyValuesInInteger xs) (\<lambda>r. Inr (to_int32 r))"

definition intoStringWithDelim :: "int \<Rightarrow> nat \<Rightarrow> char \<Rightarrow> string cres" where
  "intoStringWithDelim total_sum cap delim =
     (if cap < length (dec total_sum) + 2 then Inl OutOfBounds else Inr (dec total_sum @ [delim]))"

text \<open>The values stop at the first negative one; the rest of the array stays zero.\<close>

fun convert_all :: "string list \<Rightarrow> int list" where
  "convert_all [] = []"
| "convert_all (s # ss) =
     (let val = convertSingleStringToInteger s
      in if val < 0 then replicate (Suc (length ss)) 0 else val # convert_all ss)"

definition convertStringArrayToInteger :: "string list \<Rightarrow> nat \<Rightarrow> int list cres" where
  "convertStringArrayToInteger strs cnt =
     (if length strs < cnt then Inl NullDeref else Inr (convert_all (take cnt strs)))"

definition parseFifo :: "heap_env \<Rightarrow> string \<Rightarrow> char \<Rightarrow> int cres" where
  "parseFifo h buffer delim =
     (if \<not> alloc_ok h then Inr (-1)
      else let count = countHowManyElementsWillExtract buffer delim in
        cbind (splitStringIntoArray_I h buffer delim count count) (\<lambda>(n, splitted).
        cbind (convertStringArrayToInteger splitted count) (\<lambda>values. addValuesInInteger values)))"

definition MAX_FACTORS :: nat where "MAX_FACTORS = 32"

definition is_multiply :: "string \<Rightarrow> bool" where
  "is_multiply w = c_strncmp0 w ''multiply'' 8"

text \<open>What \<open>convertSingleStringToInteger\<close> prints for the words without a digit.\<close>

definition no_digits_lines :: "string list \<Rightarrow> string list" where
  "no_digits_lines ws = map (\<lambda>_. ''No digits were found'' @ [newline]) (filter (\<lambda>w. \<not> strtol_any w) ws)"

text \<open>The result, and the lines printed.\<close>

definition parseSecondfifo :: "heap_env \<Rightarrow> string \<Rightarrow> char \<Rightarrow> (int \<times> string list) cres" where
  "parseSecondfifo h buffer delim =
     (if \<not> alloc_ok h then Inr (-1, [''Memory allocation failed!'' @ [newline]])
      else let count = countHowManyElementsWillExtract buffer delim in
        cbind (splitStringIntoArray_Custom h buffer count) (\<lambda>(splitted, compared).
          if count = 0 then Inl OutOfBounds
          else if length splitted < count then Inl NullDeref
          else if MAX_FACTORS < count - 1 then Inl OutOfBounds
          else if \<not> (\<exists>w\<in>set (take count splitted). is_multiply w)
          then Inr (-1, no_digits_lines (take (count - 1) splitted))
          else cbind (multiplyValuesInInteger (map convertSingleStringToInteger (take (count - 1) splitted)))
            (\<lambda>res. let addRes = to_int32 (c_strtol compared) in
              if \<not> in_int64 (res + addRes) then Inl IntOverflow
              else Inr (to_int32 (res + addRes),
                   no_digits_lines (take (count - 1) splitted) @
                   [''Multiplication result: '' @ dec res @ [newline],
                    ''Addition result: '' @ dec addRes @ [newline],
                    ''Total result: '' @ dec (res + addRes) @ [newline]]))))"

text \<open>What the processes do with the FIFOs: the bytes child 1 and the parent write.\<close>

definition first_fifo :: "string \<Rightarrow> string" where
  "first_fifo str = str @ [CHR 0x00]"

definition child1 :: "heap_env \<Rightarrow> string \<Rightarrow> string cres" where
  "child1 h bytes = cbind (readOneByOne h bytes) (\<lambda>childBuf.
     cbind (parseFifo h childBuf (CHR '','')) (\<lambda>s.
     intoStringWithDelim s (usable h 32) (CHR ''!'')))"

definition parent_second :: "string \<Rightarrow> string" where
  "parent_second str = str @ ''multiply,''"

definition child2 :: "heap_env \<Rightarrow> string \<Rightarrow> (int \<times> string list) cres" where
  "child2 h bytes = cbind (readOneByOne_Custom h (CHR '','') (CHR ''!'') bytes)
     (\<lambda>childBuff. parseSecondfifo h childBuff (CHR '',''))"

end
