(* ===== verification/FifoProps.thy ===== *)
theory FifoProps
  imports FifoCalc
begin

text \<open>
  The correctness of the calculator of \<^verbatim>\<open>hw2_2024\<close> from the array to the printed result,
  in both orders in which the two writers of the second FIFO can go; where its buffers
  give out; and the loop in which the parent waits for its children.
\<close>

section \<open>Text and numbers\<close>

lemma dec_nat_length: "n < 10 ^ Suc k \<Longrightarrow> length (dec_nat n) \<le> Suc k"
proof (induction k arbitrary: n)
  case 0
  then show ?case by (subst dec_nat.simps) simp
next
  case (Suc k)
  then have "n div 10 < 10 ^ Suc k" by (simp add: less_mult_imp_div_less)
  from Suc.IH [OF this] show ?case by (subst dec_nat.simps) simp
qed

lemma dec_length: "0 \<le> x \<Longrightarrow> in_int32 x \<Longrightarrow> length (dec x) \<le> 10"
  using dec_nat_length [of "nat x" 9] by (simp add: dec_def in_int32_def nat_less_iff)

lemma dec_free [simp]: "CHR '','' \<notin> set (dec x)" "CHR ''!'' \<notin> set (dec x)" "CHR 0x00 \<notin> set (dec x)"
  using dec_chars [of "CHR '',''" x] dec_chars [of "CHR ''!''" x] dec_chars [of "CHR 0x00" x]
  by (auto simp: c_isdigit_def)

lemma count_app [simp]:
  "countHowManyElementsWillExtract (a @ b) d
     = countHowManyElementsWillExtract a d + countHowManyElementsWillExtract b d"
  "countHowManyElementsWillExtract [] d = 0"
  "countHowManyElementsWillExtract (c # a) d = (if c = d then 1 else 0) + countHowManyElementsWillExtract a d"
  by (simp_all add: countHowManyElementsWillExtract_def)

lemma count_free: "d \<notin> set a \<Longrightarrow> countHowManyElementsWillExtract a d = 0"
  by (induction a) auto

lemma count_digits_text: "countHowManyElementsWillExtract (digits_text (CHR '','') arr) (CHR '','') = length arr"
  by (induction arr) (simp_all add: count_free)

lemma digits_text_nul: "CHR 0x00 \<notin> set (digits_text (CHR '','') arr)"
  by (induction arr) auto

definition word_ok :: "heap_env \<Rightarrow> string \<Rightarrow> bool" where
  "word_ok h w \<longleftrightarrow> length w < TEMP_LEN \<and> length w + 1 \<le> usable h (length w)"

lemma split_loop_word:
  "d \<notin> set w \<Longrightarrow> length temp + length w \<le> TEMP_LEN \<Longrightarrow>
   split_loop h d slots temp ps (w @ s) = split_loop h d slots (temp @ w) ps s"
  by (induction w arbitrary: temp) auto

lemma split_loop_text:
  assumes "\<forall>x\<in>set arr. word_ok h (dec x)" "length ps + length arr \<le> slots"
  shows "split_loop h (CHR '','') slots [] ps (digits_text (CHR '','') arr) = Inr (ps @ map dec arr)"
  using assms
proof (induction arr arbitrary: ps)
  case (Cons x arr)
  then have "word_ok h (dec x)" by simp
  then show ?case using Cons split_loop_word [of "CHR '',''" "dec x" "[]"]
    by (simp add: word_ok_def)
qed simp

lemma convert_all_dec: "\<forall>x\<in>set arr. 0 \<le> x \<and> in_int32 x \<Longrightarrow> convert_all (map dec arr) = arr"
  by (induction arr) (auto simp: Let_def)

lemma addValues_loop_sum:
  assumes "\<forall>x\<in>set arr. 0 \<le> x" "0 \<le> acc" "in_int32 (acc + sum_list arr)"
  shows "addValues_loop acc arr = Inr (acc + sum_list arr)"
  using assms
proof (induction arr arbitrary: acc)
  case (Cons x arr)
  then have "0 \<le> sum_list arr" by (simp add: sum_list_nonneg)
  with Cons.prems have "in_int32 (acc + x)" by (simp add: in_int32_def)
  then show ?case using Cons.prems Cons.IH [of "acc + x"] by (simp add: add.assoc)
qed simp

lemma parseFifo_sum:
  assumes "alloc_ok h" "\<forall>x\<in>set arr. 0 \<le> x \<and> in_int32 x" "\<forall>x\<in>set arr. word_ok h (dec x)"
    and "in_int32 (sum_list arr)"
  shows "parseFifo h (digits_text (CHR '','') arr) (CHR '','') = Inr (sum_list arr)"
proof -
  have "addValuesInInteger arr = Inr (sum_list arr)"
    using addValues_loop_sum [of arr 0] assms by (simp add: addValuesInInteger_def)
  then show ?thesis using assms split_loop_text [OF assms(3), of "[]" "length arr"]
    by (simp add: parseFifo_def Let_def count_digits_text splitStringIntoArray_I_def
        convertStringArrayToInteger_def convert_all_dec)
qed

section \<open>Reading\<close>

lemma read_loop_all:
  "read_loop cap b s = (if length b + length s < cap then Inr (b @ s) else Inl OutOfBounds)"
  by (induction s arbitrary: b) auto

lemma c_string_snoc: "CHR 0x00 \<notin> set s \<Longrightarrow> c_string (s @ [CHR 0x00]) = s"
  unfolding c_string_def by (induction s) auto

lemma c_string_id: "CHR 0x00 \<notin> set s \<Longrightarrow> c_string s = s"
  unfolding c_string_def by (induction s) auto

lemma custom_read_all:
  assumes "CHR 0x00 \<notin> set s" "length b + length s < cap" "f1 \<or> d1 \<in> set s" "f2 \<or> d2 \<in> set s"
  shows "custom_read_loop cap d1 d2 f1 f2 b s = Inr (b @ s)"
  using assms
proof (induction s arbitrary: b f1 f2)
  case (Cons c s)
  then have "custom_read_loop cap d1 d2 (f1 \<or> c = d1) (f2 \<or> c = d2) (b @ [c]) s = Inr ((b @ [c]) @ s)"
    by (intro Cons.IH) auto
  moreover have "c \<noteq> CHR 0x00" using Cons.prems(1) by auto
  ultimately show ?case using Cons.prems(2) by (simp add: Let_def)
qed simp

lemma custom_read_overflow:
  assumes "CHR 0x00 \<notin> set s" "cap \<le> length b + length s" "s \<noteq> []"
    and "(f1 \<or> d1 \<in> set s) \<and> (f2 \<or> d2 \<in> set s)"
  shows "custom_read_loop cap d1 d2 f1 f2 b s = Inl OutOfBounds"
  using assms
proof (induction s arbitrary: b f1 f2)
  case (Cons c s)
  show ?case
  proof (cases "s = []")
    case True
    then show ?thesis using Cons.prems by (auto simp: Let_def)
  next
    case False
    then show ?thesis
      using Cons.prems Cons.IH [of "b @ [c]" "f1 \<or> c = d1" "f2 \<or> c = d2"] by (auto simp: Let_def)
  qed
qed simp

section \<open>Child 2\<close>

lemma custom_loop_word:
  "CHR '','' \<notin> set w \<Longrightarrow> CHR ''!'' \<notin> set w \<Longrightarrow> length temp + length w \<le> TEMP_LEN \<Longrightarrow>
   custom_loop h slots temp ps cmp (w @ s) = custom_loop h slots (temp @ w) ps cmp s"
  by (induction w arbitrary: temp) auto

lemma custom_loop_text:
  assumes "\<forall>n. n \<le> usable h n" "\<forall>x\<in>set arr. length (dec x) < TEMP_LEN" "length ps + length arr \<le> slots"
  shows "custom_loop h slots [] ps cmp (digits_text (CHR '','') arr @ s) = custom_loop h slots [] (ps @ map dec arr) cmp s"
  using assms(2,3)
proof (induction arr arbitrary: ps)
  case (Cons x arr)
  have u: "\<not> usable h (length (dec x) + 1) < length (dec x) + 1" using assms(1) by (meson not_less)
  show ?case using Cons u custom_loop_word [of "dec x" "[]"] by simp
qed simp

lemma custom_loop_sum:
  assumes "length (dec t) < TEMP_LEN" "length (dec t) + 1 \<le> usable h 7"
  shows "custom_loop h slots [] ps cmp (dec t @ CHR ''!'' # s) = custom_loop h slots [] ps (dec t) s"
  using assms custom_loop_word [of "dec t" "[]"] by simp

lemma custom_loop_mult:
  assumes "\<forall>n. n \<le> usable h n" "length ps < slots"
  shows "custom_loop h slots [] ps cmp (''multiply,'' @ s) = custom_loop h slots [] (ps @ [''multiply'']) cmp s"
proof -
  have "\<not> usable h (length ''multiply'' + 1) < length ''multiply'' + 1" using assms(1) by (meson not_less)
  then show ?thesis using assms(2) custom_loop_word [of "''multiply''" "[]" h slots ps cmp "'','' @ s"]
    by (simp add: TEMP_LEN_def)
qed

lemma multiply_loop_digits:
  assumes "\<forall>x\<in>set arr. 0 \<le> x \<and> x \<le> 9" "0 \<le> acc" "acc \<le> 9 ^ k" "k + length arr \<le> 19"
  shows "multiply_loop acc arr = Inr (acc * prod_list arr)"
  using assms
proof (induction arr arbitrary: acc k)
  case (Cons x arr)
  have x: "0 \<le> x" "x \<le> 9" using Cons.prems by simp_all
  have b: "acc * x \<le> 9 ^ Suc k" using mult_mono [of acc "9 ^ k" x 9] x Cons.prems by (simp add: mult.commute)
  moreover have "(9::int) ^ Suc k \<le> 9 ^ 19" by (rule power_increasing) (use Cons.prems in simp_all)
  moreover have "0 \<le> acc * x" using x Cons.prems by simp
  ultimately have "in_int64 (acc * x)" unfolding in_int64_def by simp
  then show ?case using Cons.IH [of "acc * x" "Suc k"] Cons.prems x b by (simp add: mult.assoc)
qed simp

lemma prod_digits: "\<forall>x\<in>set arr. 0 \<le> x \<and> x \<le> 9 \<Longrightarrow> 0 \<le> prod_list arr \<and> prod_list arr \<le> (9::int) ^ length arr"
proof (induction arr)
  case (Cons x arr)
  then have "x * prod_list arr \<le> 9 * 9 ^ length arr" by (intro mult_mono) auto
  then show ?case using Cons by simp
qed simp

lemma sum_digits: "\<forall>x\<in>set arr. 0 \<le> x \<and> x \<le> 9 \<Longrightarrow> 0 \<le> sum_list arr \<and> sum_list arr \<le> (9::int) * int (length arr)"
  by (induction arr) auto


section \<open>The whole calculation\<close>

definition is_digit_list :: "int list \<Rightarrow> bool" where
  "is_digit_list arr \<longleftrightarrow> (\<forall>x\<in>set arr. 0 \<le> x \<and> x \<le> 9)"

lemma digit_length: "0 \<le> x \<Longrightarrow> x \<le> 9 \<Longrightarrow> length (dec x) = 1"
  using dec_nat_length [of "nat x" 0] dec_nonempty [of x] by (cases "dec x") (auto simp: dec_def nat_less_iff)

lemma digits_text_length: "is_digit_list arr \<Longrightarrow> length (digits_text d arr) = 2 * length arr"
  by (induction arr) (simp_all add: is_digit_list_def digit_length)

lemma digit_sum_length: "is_digit_list arr \<Longrightarrow> length arr \<le> 19 \<Longrightarrow> length (dec (sum_list arr)) \<le> 3"
  using sum_digits [of arr] dec_nat_length [of "nat (sum_list arr)" 2]
  by (simp add: is_digit_list_def dec_def nat_less_iff)

definition heap_ok :: "heap_env \<Rightarrow> bool" where
  "heap_ok h \<longleftrightarrow> (\<forall>n. n \<le> usable h n) \<and> alloc_ok h"

lemma heap_ok_usable: "heap_ok h \<Longrightarrow> n \<le> usable h n"
  by (simp add: heap_ok_def)

lemma child1_sum:
  assumes h: "heap_ok h" "2 \<le> usable h 1" and d: "is_digit_list arr" "length arr \<le> 19"
    and fit: "2 * length arr + 1 < usable h 32"
  shows "child1 h (first_fifo (digits_text (CHR '','') arr)) = Inr (dec (sum_list arr) @ ''!'')"
proof -
  let ?t = "digits_text (CHR '','') arr"
  have "length (first_fifo ?t) < usable h 32" using d(1) fit by (simp add: first_fifo_def digits_text_length)
  then have r: "readOneByOne h (first_fifo ?t) = Inr ?t"
    by (simp add: readOneByOne_def read_loop_all first_fifo_def c_string_snoc digits_text_nul)
  have w: "\<forall>x\<in>set arr. word_ok h (dec x)"
    using d(1) h(2) by (simp add: is_digit_list_def word_ok_def digit_length TEMP_LEN_def numeral_2_eq_2)
  have i: "\<forall>x\<in>set arr. 0 \<le> x \<and> in_int32 x" "in_int32 (sum_list arr)"
    using d sum_digits [of arr] by (auto simp: is_digit_list_def in_int32_def)
  have p: "parseFifo h ?t (CHR '','') = Inr (sum_list arr)"
    using h(1) by (intro parseFifo_sum [OF _ i(1) w i(2)]) (simp add: heap_ok_def)
  have "length (dec (sum_list arr)) + 2 \<le> usable h 32"
    using digit_sum_length [OF d] heap_ok_usable [OF h(1), of 32] by linarith
  then show ?thesis by (simp add: child1_def r p intoStringWithDelim_def)
qed

lemma is_multiply_word: "is_multiply ''multiply''"
  by (simp add: is_multiply_def c_strncmp0_def)

lemma custom_both:
  assumes h: "heap_ok h" and d: "is_digit_list arr" "length arr \<le> 19"
  shows "splitStringIntoArray_Custom h (dec (sum_list arr) @ CHR ''!'' # digits_text (CHR '','') arr @ ''multiply,'') (length arr + 1)
      = Inr (map dec arr @ [''multiply''], dec (sum_list arr))"
    and "splitStringIntoArray_Custom h (digits_text (CHR '','') arr @ ''multiply,'' @ dec (sum_list arr) @ ''!'') (length arr + 1)
      = Inr (map dec arr @ [''multiply''], dec (sum_list arr))"
proof -
  let ?n = "length arr + 1"
  have u: "\<forall>n. n \<le> usable h n" using h by (simp add: heap_ok_def)
  have w: "\<forall>x\<in>set arr. length (dec x) < TEMP_LEN"
    using d(1) by (simp add: is_digit_list_def digit_length TEMP_LEN_def)
  have s: "length (dec (sum_list arr)) < TEMP_LEN" "length (dec (sum_list arr)) + 1 \<le> usable h 7"
    using digit_sum_length [OF d] heap_ok_usable [OF h, of 7] by (simp_all add: TEMP_LEN_def)
  have t: "custom_loop h ?n [] [] c (digits_text (CHR '','') arr @ z) = custom_loop h ?n [] (map dec arr) c z" for c z
    using custom_loop_text [OF u w, of "[]" ?n c z] by simp
  have m: "custom_loop h ?n [] (map dec arr) c (''multiply,'' @ z)
      = custom_loop h ?n [] (map dec arr @ [''multiply'']) c z" for c z
    by (rule custom_loop_mult [OF u]) simp
  show "splitStringIntoArray_Custom h (dec (sum_list arr) @ CHR ''!'' # digits_text (CHR '','') arr @ ''multiply,'') ?n
      = Inr (map dec arr @ [''multiply''], dec (sum_list arr))"
    using m [of _ "[]"] unfolding splitStringIntoArray_Custom_def custom_loop_sum [OF s] t by simp
  show "splitStringIntoArray_Custom h (digits_text (CHR '','') arr @ ''multiply,'' @ dec (sum_list arr) @ ''!'') ?n
      = Inr (map dec arr @ [''multiply''], dec (sum_list arr))"
    unfolding splitStringIntoArray_Custom_def t m custom_loop_sum [OF s] by simp
qed

lemma read_custom_ok:
  assumes "CHR 0x00 \<notin> set s" "length s < usable h 12" "d1 \<in> set s" "d2 \<in> set s"
  shows "readOneByOne_Custom h d1 d2 s = Inr s"
  using custom_read_all [OF assms(1), of "[]" "usable h 12" False d1 False d2] assms
  by (simp add: readOneByOne_Custom_def c_string_id)

definition total_lines :: "int list \<Rightarrow> string list" where
  "total_lines arr = [''Multiplication result: '' @ dec (prod_list arr) @ [newline],
     ''Addition result: '' @ dec (sum_list arr) @ [newline],
     ''Total result: '' @ dec (prod_list arr + sum_list arr) @ [newline]]"

lemma parseSecond_total:
  assumes d: "is_digit_list arr" "length arr \<le> 19" and a: "alloc_ok h"
    and c: "countHowManyElementsWillExtract b (CHR '','') = length arr + 1"
    and s: "splitStringIntoArray_Custom h b (length arr + 1) = Inr (map dec arr @ [''multiply''], dec (sum_list arr))"
  shows "parseSecondfifo h b (CHR '','') = Inr (to_int32 (prod_list arr + sum_list arr), total_lines arr)"
proof -
  have i: "\<forall>x\<in>set arr. in_int32 x" using d(1) by (auto simp: is_digit_list_def in_int32_def)
  have m: "map convertSingleStringToInteger (map dec arr) = arr" using i by (induction arr) simp_all
  have p: "multiplyValuesInInteger arr = Inr (prod_list arr)"
    using multiply_loop_digits [of arr 1 0] d by (simp add: multiplyValuesInInteger_def is_digit_list_def)
  have sm: "0 \<le> sum_list arr" "sum_list arr \<le> 171"
    using sum_digits [of arr] d by (auto simp: is_digit_list_def)
  then have sum32: "to_int32 (c_strtol (dec (sum_list arr))) = sum_list arr"
    by (simp add: c_strtol_def atoi_dec in_int32_def)
  have "(9::int) ^ length arr \<le> 9 ^ 19" by (rule power_increasing) (use d in simp_all)
  then have r: "in_int64 (prod_list arr + sum_list arr)"
    using prod_digits [of arr] d sm by (simp add: in_int64_def is_digit_list_def)
  have ex: "\<exists>w\<in>set (take (length arr + 1) (map dec arr @ [''multiply''])). is_multiply w"
    using is_multiply_word by simp
  have z: "no_digits_lines (map dec arr) = []" by (induction arr) (simp_all add: no_digits_lines_def)
  show ?thesis
    using a c s ex m p sum32 r z d(2)
    by (simp add: parseSecondfifo_def Let_def MAX_FACTORS_def total_lines_def)
qed

text \<open>
  Child 1 on the text of an array of digits: the sum, or a write behind a block, which is
  that of a word (\<^verbatim>\<open>calloc(1)\<close> for a digit and its NUL) or that of the reader. Documented is
  only that a block has the size asked for, so that for digits the first is left to the
  allocator's rounding.
\<close>

lemma child1_exact:
  assumes h: "heap_ok h" and d: "is_digit_list arr" "length arr \<le> 19" "arr \<noteq> []"
  shows "child1 h (first_fifo (digits_text (CHR '','') arr)) =
    (if 2 \<le> usable h 1 \<and> 2 * length arr + 1 < usable h 32 then Inr (dec (sum_list arr) @ ''!'') else Inl OutOfBounds)"
proof (cases "2 * length arr + 1 < usable h 32")
  case False
  then show ?thesis
    by (simp add: child1_def readOneByOne_def read_loop_all first_fifo_def digits_text_length [OF d(1)])
next
  case fit: True
  show ?thesis
  proof (cases "2 \<le> usable h 1")
    case True
    then show ?thesis using child1_sum [OF h True d(1,2) fit] fit by simp
  next
    case False
    obtain x r where arr: "arr = x # r" using d(3) by (cases arr) auto
    let ?t = "digits_text (CHR '','') arr"
    have "length (first_fifo ?t) < usable h 32" using d(1) fit by (simp add: first_fifo_def digits_text_length)
    then have r: "readOneByOne h (first_fifo ?t) = Inr ?t"
      by (simp add: readOneByOne_def read_loop_all first_fifo_def c_string_snoc digits_text_nul)
    have l: "length (dec x) = 1" using d(1) by (simp add: arr is_digit_list_def digit_length)
    then have "split_loop h (CHR '','') slots [] [] ?t = Inl OutOfBounds" for slots
      using split_loop_word [of "CHR '',''" "dec x" "[]" h slots "[]"] False by (simp add: arr TEMP_LEN_def)
    then have "parseFifo h ?t (CHR '','') = Inl OutOfBounds"
      using h by (simp add: parseFifo_def heap_ok_def Let_def splitStringIntoArray_I_def)
    then show ?thesis using False by (simp add: child1_def r)
  qed
qed

text \<open>
  Child 2 on the text of the parent and the sum, whichever of its two writers comes first:
  the exact product, sum and total, or a write behind the block of the reader.
\<close>

lemma child2_exact:
  assumes d: "is_digit_list arr" "length arr \<le> 19" and h: "heap_ok h"
    and b: "b = (dec (sum_list arr) @ ''!'') @ parent_second (digits_text (CHR '','') arr)
      \<or> b = parent_second (digits_text (CHR '','') arr) @ dec (sum_list arr) @ ''!''"
  shows "child2 h b = (if length b < usable h 12 then Inr (to_int32 (prod_list arr + sum_list arr), total_lines arr)
    else Inl OutOfBounds)"
proof -
  let ?t = "digits_text (CHR '','') arr"
  let ?s = "dec (sum_list arr) @ ''!''"
  have nul: "CHR 0x00 \<notin> set b" using b digits_text_nul by (auto simp: parent_second_def)
  have seen: "CHR '','' \<in> set b" "CHR ''!'' \<in> set b" "b \<noteq> []" using b by (auto simp: parent_second_def)
  show ?thesis
  proof (cases "length b < usable h 12")
    case False
    then show ?thesis
      using custom_read_overflow [OF nul, of "usable h 12" "[]" False "CHR '',''" False "CHR ''!''"] seen
      by (simp add: child2_def readOneByOne_Custom_def)
  next
    case True
    have r: "readOneByOne_Custom h (CHR '','') (CHR ''!'') b = Inr b" by (rule read_custom_ok [OF nul True seen(1,2)])
    have c: "countHowManyElementsWillExtract b (CHR '','') = length arr + 1"
      using b by (auto simp: parent_second_def count_digits_text count_free)
    have "splitStringIntoArray_Custom h b (length arr + 1) = Inr (map dec arr @ [''multiply''], dec (sum_list arr))"
      using b custom_both [OF h d] by (auto simp: parent_second_def)
    then have "parseSecondfifo h b (CHR '','') = Inr (to_int32 (prod_list arr + sum_list arr), total_lines arr)"
      using h by (intro parseSecond_total [OF d _ c]) (simp_all add: heap_ok_def)
    then show ?thesis using True by (simp add: child2_def r)
  qed
qed

text \<open>The block sizes of glibc on 64 bits.\<close>

definition glibc_usable :: "nat \<Rightarrow> nat" where
  "glibc_usable n = max 24 ((n + 23) div 16 * 16 - 8)"

definition glibc_heap :: heap_env where
  "glibc_heap = \<lparr>usable = glibc_usable, alloc_ok = True\<rparr>"

lemma glibc_ok: "heap_ok glibc_heap"
proof -
  have "n \<le> glibc_usable n" for n
  proof -
    have "n + 8 \<le> (n + 23) div 16 * 16" by simp
    then show ?thesis unfolding glibc_usable_def by simp
  qed
  then show ?thesis by (simp add: heap_ok_def glibc_heap_def)
qed

text \<open>
  The readers of the FIFOs overrun their buffers: the test meant to enlarge them never
  holds, so child 1 writes behind its block as soon as the text of the array and its NUL do
  not fit, and child 2 as soon as digits, word and sum do not fit.
\<close>

theorem fifo_readers_overflow:
  assumes "is_digit_list arr" "length arr \<le> 19"
  shows "(usable h 32 \<le> 2 * length arr + 1 \<longrightarrow>
      child1 h (first_fifo (digits_text (CHR '','') arr)) = Inl OutOfBounds)
    \<and> (usable h 12 \<le> 2 * length arr + 10 \<longrightarrow>
      child2 h (parent_second (digits_text (CHR '','') arr) @ dec (sum_list arr) @ ''!'') = Inl OutOfBounds)"
proof -
  let ?t = "digits_text (CHR '','') arr"
  let ?b = "parent_second ?t @ dec (sum_list arr) @ ''!''"
  have l: "length ?t = 2 * length arr" by (rule digits_text_length [OF assms(1)])
  have nul: "CHR 0x00 \<notin> set ?b" using digits_text_nul by (simp add: parent_second_def)
  have "Suc 0 \<le> length (dec (sum_list arr))"
    using dec_nonempty [of "sum_list arr"] by (cases "dec (sum_list arr)") auto
  then have "2 * length arr + 11 \<le> length ?b" by (simp add: parent_second_def l)
  then have "usable h 12 \<le> 2 * length arr + 10 \<longrightarrow> usable h 12 \<le> length ?b" by simp
  then show ?thesis
    using custom_read_overflow [OF nul, of "usable h 12" "[]" False "CHR '',''" False "CHR ''!''"]
    by (simp add: child1_def readOneByOne_def read_loop_all first_fifo_def l child2_def readOneByOne_Custom_def parent_second_def)
qed

theorem fifo_readers_overflow_witness:
  "child1 \<lparr>usable = (\<lambda>n. n), alloc_ok = True\<rparr> (first_fifo (digits_text (CHR '','') (replicate 16 7)))
     = Inl OutOfBounds"
proof -
  have "is_digit_list (replicate 16 7)" by (simp add: is_digit_list_def)
  then show ?thesis
    using fifo_readers_overflow [of "replicate 16 7" "\<lparr>usable = (\<lambda>n. n), alloc_ok = True\<rparr>"] by simp
qed


section \<open>Waiting for the children\<close>

text \<open>
  The loop at the end of \<open>main\<close> and the handler of \<^verbatim>\<open>SIGCHLD\<close>. \<open>Die k\<close>: \<open>k\<close> children end and
  one run of the handler reaps them. \<open>PGoing\<close> is the moment between the test of
  \<open>spawnedProcess\<close> and the suspension, \<^verbatim>\<open>SIGCHLD\<close> is not blocked there.
\<close>

datatype parent_pc = PSay | PGoing | PSuspend | PSleep | PCheck | PBye

record parent_state =
  spawnedProcess :: int
  signalCnt :: int
  parent_at :: parent_pc
  living :: nat

datatype parent_event = ParentRuns | Die nat

definition sigchldHandler :: "nat \<Rightarrow> parent_state \<Rightarrow> parent_state" where
  "sigchldHandler k s = s\<lparr>signalCnt := signalCnt s + int k, spawnedProcess := spawnedProcess s - int k,
     living := living s - k\<rparr>"

definition parent_step :: "parent_event \<Rightarrow> parent_state \<Rightarrow> parent_state option" where
  "parent_step ev s = (case ev of
      ParentRuns \<Rightarrow> (case parent_at s of
          PSay \<Rightarrow> Some (s\<lparr>parent_at := (if spawnedProcess s = 0 then PBye else PGoing)\<rparr>)
        | PGoing \<Rightarrow> Some (s\<lparr>parent_at := PSuspend\<rparr>)
        | PSuspend \<Rightarrow> None
        | PSleep \<Rightarrow> Some (s\<lparr>parent_at := PCheck\<rparr>)
        | PCheck \<Rightarrow> Some (s\<lparr>parent_at := (if spawnedProcess s = signalCnt s then PBye else PSay)\<rparr>)
        | PBye \<Rightarrow> None)
    | Die k \<Rightarrow>
        if k = 0 \<or> living s < k then None
        else let s' = sigchldHandler k s
             in Some (if parent_at s = PSuspend then s'\<lparr>parent_at := PSleep\<rparr> else s'))"

definition parent_start :: parent_state where
  "parent_start = \<lparr>spawnedProcess = 2, signalCnt = 0, parent_at = PSay, living = 2\<rparr>"

lemma parent_inv:
  "signalCnt (sched_run parent_step evs parent_start) + spawnedProcess (sched_run parent_step evs parent_start) = 2
   \<and> spawnedProcess (sched_run parent_step evs parent_start) = int (living (sched_run parent_step evs parent_start))
   \<and> (parent_at (sched_run parent_step evs parent_start) = PBye
        \<longrightarrow> living (sched_run parent_step evs parent_start) \<le> 1)"
proof (rule sched_run_invariant [where I = "\<lambda>s. signalCnt s + spawnedProcess s = 2
    \<and> spawnedProcess s = int (living s) \<and> (parent_at s = PBye \<longrightarrow> living s \<le> 1)"])
  fix ev s s'
  assume "signalCnt s + spawnedProcess s = 2 \<and> spawnedProcess s = int (living s)
      \<and> (parent_at s = PBye \<longrightarrow> living s \<le> 1)" "parent_step ev s = Some s'"
  then show "signalCnt s' + spawnedProcess s' = 2 \<and> spawnedProcess s' = int (living s')
      \<and> (parent_at s' = PBye \<longrightarrow> living s' \<le> 1)"
    by (auto simp: parent_step_def sigchldHandler_def Let_def split: parent_event.splits parent_pc.splits if_splits)
qed (simp add: parent_start_def)

text \<open>
  The wait of the parent is not a wait for both children. It never leaves with two
  children alive, but a schedule exists in which it announces that all are dead and
  removes the FIFOs while one child lives; and another in which it sleeps for ever
  because both children ended between its test and its suspension.
\<close>

theorem fifo_parent_wait:
  "(parent_at (sched_run parent_step evs parent_start) = PBye
      \<longrightarrow> living (sched_run parent_step evs parent_start) \<le> 1)
   \<and> (\<exists>es s. s = sched_run parent_step es parent_start \<and> parent_at s = PBye \<and> living s = 1)
   \<and> (\<exists>es. \<forall>es'. parent_at (sched_run parent_step (es @ es') parent_start) = PSuspend)"
proof (intro conjI)
  show "parent_at (sched_run parent_step evs parent_start) = PBye
      \<longrightarrow> living (sched_run parent_step evs parent_start) \<le> 1"
    using parent_inv [of evs] by blast
  have "parent_at (sched_run parent_step [ParentRuns, ParentRuns, Die 1, ParentRuns, ParentRuns] parent_start) = PBye
      \<and> living (sched_run parent_step [ParentRuns, ParentRuns, Die 1, ParentRuns, ParentRuns] parent_start) = 1"
    by code_simp
  then show "\<exists>es s. s = sched_run parent_step es parent_start \<and> parent_at s = PBye \<and> living s = 1" by blast
  let ?es = "[ParentRuns, Die 2, ParentRuns]"
  let ?I = "\<lambda>s. parent_at s = PSuspend \<and> living s = 0"
  have "?I (sched_run parent_step (?es @ es') parent_start)" for es'
    unfolding sched_run_append
  proof (rule sched_run_invariant [where I = ?I])
    show "?I (sched_run parent_step ?es parent_start)" by code_simp
  qed (auto simp: parent_step_def split: parent_event.splits if_splits)
  then have "\<forall>es'. parent_at (sched_run parent_step (?es @ es') parent_start) = PSuspend" by blast
  then show "\<exists>es. \<forall>es'. parent_at (sched_run parent_step (es @ es') parent_start) = PSuspend" by (rule exI)
qed

theorem fifo_parent_wait_witness:
  "living (sched_run parent_step [ParentRuns, ParentRuns, Die 2, ParentRuns, ParentRuns, ParentRuns] parent_start) \<le> 1"
proof -
  have "parent_at (sched_run parent_step [ParentRuns, ParentRuns, Die 2, ParentRuns, ParentRuns, ParentRuns] parent_start) = PBye"
    by code_simp
  then show ?thesis
    using fifo_parent_wait [of "[ParentRuns, ParentRuns, Die 2, ParentRuns, ParentRuns, ParentRuns]"] by blast
qed

end
