(* ===== verification/FifoSystem.thy ===== *)
theory FifoSystem
  imports FifoProps
begin

text \<open>
  The processes of \<^verbatim>\<open>hw2_2024/hw2.c\<close> together: \<open>main\<close> with its two children, the two FIFOs and
  \<^verbatim>\<open>SIGCHLD\<close>, one step per system call. Opening a FIFO waits for the other end: a reader
  announces itself (\<open>C1_open\<close>, \<open>C2_open\<close>) and goes on when a writer has opened, a writer opens
  when a reader has announced itself. \<^verbatim>\<open>read\<close> takes one byte, waits while the FIFO is empty
  and has writers, and gives 0 when it has none; child 2 then reads again for as long as it
  has not seen both delimiters. What a child computes from the bytes it has read is
  \<open>child1\<close> and \<open>child2\<close> of \<^verbatim>\<open>FifoCalc\<close>. A pipe takes the short texts as a whole.
\<close>

section \<open>State\<close>

text \<open>The environment: the allocator, \<^verbatim>\<open>rand\<close>, the results of the two \<^verbatim>\<open>fork\<close>s.\<close>

record calc_env =
  env_heap :: heap_env
  env_rand :: "nat \<Rightarrow> int"
  fork1_ok :: bool
  fork2_ok :: bool
  pid1 :: int
  pid2 :: int

datatype calc_pc = M_fork1 | M_print | M_open1 string | M_write1 string | M_close1 string | M_fork2 string
  | M_open2 string | M_write2 string | M_close2 | M_wait | M_end int | M_killed | M_fault cfault

datatype child1_pc = C1_none | C1_start | C1_open | C1_read string | C1_open2 string | C1_write string | C1_close
  | C1_end | C1_fault cfault

datatype child2_pc = C2_none | C2_start | C2_open | C2_read string | C2_end | C2_fault cfault

datatype calc_proc = Parent | Child1 | Child2 | Reap

text \<open>
  \<open>writing1\<close>: the parent has the first FIFO open; \<open>writing2p\<close>, \<open>writing2c\<close>: the parent, child 1
  have the second one open; \<open>opened1\<close>, \<open>opened2\<close>: a writer has opened it since it was made.
\<close>

record calc_state =
  argument :: nat
  main_at :: calc_pc
  c1 :: child1_pc
  c2 :: child2_pc
  fifo1 :: string
  fifo2 :: string
  writing1 :: bool
  writing2p :: bool
  writing2c :: bool
  opened1 :: bool
  opened2 :: bool
  name1 :: bool
  name2 :: bool
  str_freed :: bool
  waiting :: parent_state
  zombies :: "int list"
  calc_out :: "(calc_proc \<times> string) list"

definition say :: "calc_proc \<Rightarrow> string list \<Rightarrow> calc_state \<Rightarrow> calc_state" where
  "say p ls s = s\<lparr>calc_out := calc_out s @ map (Pair p) ls\<rparr>"

section \<open>Start\<close>

definition EXIT_FAILURE :: int where "EXIT_FAILURE = 1"

text \<open>
  The flags say whether \<^verbatim>\<open>mkfifo\<close> works on a free name; \<open>n1\<close>, \<open>n2\<close> say which names exist.
  The result is the state in which \<open>main\<close> forks, or the exit code with what was printed, and
  the names that exist then.
\<close>

definition calc_setup :: "bool \<Rightarrow> bool \<Rightarrow> string list \<Rightarrow> bool \<Rightarrow> bool \<Rightarrow> (int \<times> string + calc_state) \<times> bool \<times> bool" where
  "calc_setup mk1_ok mk2_ok argv n1 n2 =
     (if length argv \<noteq> 2 then (Inl (EXIT_FAILURE, ''Invalid argument number, must be 2.'' @ [newline]), n1, n2)
      else let a = c_atoi (argv ! 1) in
      if a \<le> 0 then (Inl (EXIT_FAILURE, ''Argument must be greater than 0.'' @ [newline]), n1, n2)
      else if n1 \<or> \<not> mk1_ok then (Inl (-1, ''''), False, n2)
      else if n2 \<or> \<not> mk2_ok then (Inl (-1, ''''), False, False)
      else (Inr \<lparr>argument = nat a, main_at = M_fork1, c1 = C1_none, c2 = C2_none, fifo1 = [], fifo2 = [],
             writing1 = False, writing2p = False, writing2c = False, opened1 = False, opened2 = False,
             name1 = True, name2 = True, str_freed = False, waiting = parent_start\<lparr>living := 0\<rparr>, zombies = [], calc_out = []\<rparr>, True, True))"

section \<open>The parent\<close>

definition random_array :: "calc_env \<Rightarrow> nat \<Rightarrow> int list" where
  "random_array e n = map (\<lambda>i. c_mod (env_rand e i) 10) [0..<n]"

definition BUFFER_LEN :: nat where "BUFFER_LEN = 256"

definition random_text :: "string \<Rightarrow> string" where
  "random_text str = ''Random values generated (ends with comma): '' @ str @ [newline]"

text \<open>The readers as the writers see them.\<close>

definition reader1 :: "calc_state \<Rightarrow> bool" where
  "reader1 s = (case c1 s of C1_open \<Rightarrow> True | C1_read b \<Rightarrow> True | _ \<Rightarrow> False)"

definition reader2 :: "calc_state \<Rightarrow> bool" where
  "reader2 s = (case c2 s of C2_open \<Rightarrow> True | C2_read b \<Rightarrow> True | _ \<Rightarrow> False)"

definition one_more :: "calc_state \<Rightarrow> calc_state" where
  "one_more s = s\<lparr>waiting := (waiting s)\<lparr>living := living (waiting s) + 1\<rparr>\<rparr>"

text \<open>The end of \<open>main\<close>: both names are removed.\<close>

definition main_ends :: "calc_state \<Rightarrow> calc_state" where
  "main_ends s = s\<lparr>main_at := M_end 0, name1 := False, name2 := False\<rparr>"

text \<open>
  The loop at the end of the parent is \<open>parent_step\<close>; \<open>PSay\<close> prints, \<open>PBye\<close> leaves, and frees
  the text, for the second time if the second FIFO could not be opened.
\<close>

definition main_waits :: "calc_state \<Rightarrow> calc_state option" where
  "main_waits s =
     (if parent_at (waiting s) = PBye
      then Some (if str_freed s then s\<lparr>main_at := M_fault UseAfterFree\<rparr>
        else main_ends (say Parent [''All childs are dead... Terminating...Bye'' @ [newline]] s))
      else case parent_step ParentRuns (waiting s) of
        None \<Rightarrow> None
      | Some w \<Rightarrow> Some ((if parent_at (waiting s) = PSay then say Parent [''Proceeding...'' @ [newline]] s else s)\<lparr>waiting := w\<rparr>))"

definition main_step :: "calc_env \<Rightarrow> calc_state \<Rightarrow> calc_state option" where
  "main_step e s = (case main_at s of
      M_fork1 \<Rightarrow> Some (if fork1_ok e then (one_more s)\<lparr>main_at := M_print, c1 := C1_start\<rparr> else main_ends s)
    | M_print \<Rightarrow> Some (case convertIntegerToString (random_array e (argument s)) (CHR '','') of
          Inl f \<Rightarrow> s\<lparr>main_at := M_fault f\<rparr>
        | Inr None \<Rightarrow> s\<lparr>main_at := M_end EXIT_FAILURE\<rparr>
        | Inr (Some str) \<Rightarrow>
            if BUFFER_LEN < length (random_text str) + 1 then s\<lparr>main_at := M_fault OutOfBounds\<rparr>
            else (say Parent [random_text str] s)\<lparr>main_at := M_open1 str\<rparr>)
    | M_open1 str \<Rightarrow>
        if \<not> name1 s then Some (main_ends s)
        else if reader1 s then Some (s\<lparr>main_at := M_write1 str, writing1 := True, opened1 := True\<rparr>) else None
    | M_write1 str \<Rightarrow> Some (if \<not> reader1 s then s\<lparr>main_at := M_killed\<rparr>
        else (say Parent [''Array successfully written to first fifo ''] s)\<lparr>main_at := M_close1 str, fifo1 := fifo1 s @ first_fifo str\<rparr>)
    | M_close1 str \<Rightarrow> Some (s\<lparr>main_at := M_fork2 str, writing1 := False\<rparr>)
    | M_fork2 str \<Rightarrow> Some (if fork2_ok e then (one_more s)\<lparr>main_at := M_open2 (parent_second str), c2 := C2_start\<rparr>
        else s\<lparr>main_at := M_wait\<rparr>)
    | M_open2 str \<Rightarrow>
        if \<not> name2 s then Some (s\<lparr>main_at := M_wait, str_freed := True\<rparr>)
        else if reader2 s then Some (s\<lparr>main_at := M_write2 str, writing2p := True, opened2 := True\<rparr>) else None
    | M_write2 str \<Rightarrow> Some (if \<not> reader2 s then s\<lparr>main_at := M_killed\<rparr>
        else s\<lparr>main_at := M_close2, fifo2 := fifo2 s @ str\<rparr>)
    | M_close2 \<Rightarrow> Some (s\<lparr>main_at := M_wait, writing2p := False\<rparr>)
    | M_wait \<Rightarrow> main_waits s
    | _ \<Rightarrow> None)"

text \<open>The handler, when \<^verbatim>\<open>SIGCHLD\<close> is delivered: it reaps every child that has ended.\<close>

definition main_runs :: "calc_state \<Rightarrow> bool" where
  "main_runs s = (case main_at s of M_end x \<Rightarrow> False | M_killed \<Rightarrow> False | M_fault f \<Rightarrow> False | _ \<Rightarrow> True)"

definition reap_step :: "calc_state \<Rightarrow> calc_state option" where
  "reap_step s =
     (if \<not> main_runs s then None
      else case parent_step (Die (length (zombies s))) (waiting s) of
        None \<Rightarrow> None
      | Some w \<Rightarrow> Some (say Parent (map (\<lambda>p. ''handler: Reaped child '' @ dec p @ [newline]) (zombies s))
          (s\<lparr>waiting := w, zombies := []\<rparr>)))"

section \<open>The children\<close>

definition c1_ends :: "calc_env \<Rightarrow> calc_state \<Rightarrow> calc_state" where
  "c1_ends e s = s\<lparr>c1 := C1_end, zombies := zombies s @ [pid1 e]\<rparr>"

definition c2_ends :: "calc_env \<Rightarrow> calc_state \<Rightarrow> calc_state" where
  "c2_ends e s = s\<lparr>c2 := C2_end, zombies := zombies s @ [pid2 e]\<rparr>"

definition child1_step :: "calc_env \<Rightarrow> calc_state \<Rightarrow> calc_state option" where
  "child1_step e s = (case c1 s of
      C1_start \<Rightarrow>
        let s = say Child1 [''Entered Child Process 1. (pid : '' @ dec (pid1 e) @ '')'' @ [newline]] s
        in Some (if name1 s then s\<lparr>c1 := C1_open\<rparr> else c1_ends e s)
    | C1_open \<Rightarrow> if opened1 s then Some (s\<lparr>c1 := C1_read []\<rparr>) else None
    | C1_read b \<Rightarrow> (case fifo1 s of
          c # r \<Rightarrow> Some (s\<lparr>c1 := C1_read (b @ [c]), fifo1 := r\<rparr>)
        | [] \<Rightarrow>
            if writing1 s then None
            else Some (case child1 (env_heap e) b of
                Inl f \<Rightarrow> s\<lparr>c1 := C1_fault f\<rparr>
              | Inr childBuf \<Rightarrow> (say Child1 [[newline] @ ''Sum (exlamation ended): '' @ childBuf] s)\<lparr>c1 := C1_open2 childBuf\<rparr>))
    | C1_open2 childBuf \<Rightarrow>
        if \<not> name2 s then Some (c1_ends e s)
        else if reader2 s then Some (s\<lparr>c1 := C1_write childBuf, writing2c := True, opened2 := True\<rparr>) else None
    | C1_write childBuf \<Rightarrow> Some (if \<not> reader2 s then (c1_ends e s)\<lparr>writing2c := False\<rparr>
        else (say Child1 [''Successfully write to first child to second fifo file'' @ [newline]] s)
          \<lparr>c1 := C1_close, fifo2 := fifo2 s @ childBuf\<rparr>)
    | C1_close \<Rightarrow> Some ((c1_ends e s)\<lparr>writing2c := False\<rparr>)
    | _ \<Rightarrow> None)"

definition both_seen :: "string \<Rightarrow> bool" where
  "both_seen b \<longleftrightarrow> CHR '','' \<in> set b \<and> CHR ''!'' \<in> set b"

definition c2_finish :: "calc_env \<Rightarrow> string \<Rightarrow> calc_state \<Rightarrow> calc_state" where
  "c2_finish e b s = (case child2 (env_heap e) b of
      Inl f \<Rightarrow> s\<lparr>c2 := C2_fault f\<rparr>
    | Inr (r, ls) \<Rightarrow> c2_ends e (say Child2 ls s))"

definition child2_step :: "calc_env \<Rightarrow> calc_state \<Rightarrow> calc_state option" where
  "child2_step e s = (case c2 s of
      C2_start \<Rightarrow>
        let s = say Child2 [[newline] @ ''Entered Child Process 2. (pid : '' @ dec (pid2 e) @ '')'' @ [newline]] s
        in Some (if name2 s then s\<lparr>c2 := C2_open\<rparr> else c2_ends e s)
    | C2_open \<Rightarrow> if opened2 s then Some (s\<lparr>c2 := C2_read []\<rparr>) else None
    | C2_read b \<Rightarrow> (case fifo2 s of
          c # r \<Rightarrow> Some (if c = CHR 0x00 \<and> both_seen (b @ [c]) then c2_finish e (b @ [c]) (s\<lparr>fifo2 := r\<rparr>)
            else s\<lparr>c2 := C2_read (b @ [c]), fifo2 := r\<rparr>)
        | [] \<Rightarrow> if writing2p s \<or> writing2c s then None
            else Some (if both_seen b then c2_finish e b s else s))
    | _ \<Rightarrow> None)"

fun calc_step :: "calc_env \<Rightarrow> calc_proc \<Rightarrow> calc_state \<Rightarrow> calc_state option" where
  "calc_step e Parent s = main_step e s"
| "calc_step e Child1 s = child1_step e s"
| "calc_step e Child2 s = child2_step e s"
| "calc_step e Reap s = reap_step s"

end
