(* ===== verification/FifoSystemProps.thy ===== *)
theory FifoSystemProps
  imports FifoSystem
begin

text \<open>
  The three processes of the calculator under every schedule: an invariant that says where
  each byte is, and a measure that every round of the scheduler decreases.
\<close>

section \<open>Where the bytes are\<close>

definition text1 :: "int list \<Rightarrow> string" where
  "text1 arr = digits_text (CHR '','') arr"

definition sum_text :: "int list \<Rightarrow> string" where
  "sum_text arr = dec (sum_list arr) @ ''!''"

definition late1 :: "int list \<Rightarrow> calc_state \<Rightarrow> bool" where
  "late1 arr s = (opened1 s \<and> \<not> writing1 s \<and> (case c1 s of
      C1_open \<Rightarrow> fifo1 s = first_fifo (text1 arr)
    | C1_read b \<Rightarrow> b @ fifo1 s = first_fifo (text1 arr)
    | C1_open2 b \<Rightarrow> b = sum_text arr
    | C1_write b \<Rightarrow> b = sum_text arr
    | C1_close \<Rightarrow> True
    | C1_end \<Rightarrow> True
    | _ \<Rightarrow> False))"

definition waits1 :: "calc_state \<Rightarrow> bool" where
  "waits1 s \<longleftrightarrow> c1 s \<in> {C1_start, C1_open} \<and> fifo1 s = [] \<and> \<not> writing1 s \<and> \<not> opened1 s"

definition first_inv :: "int list \<Rightarrow> calc_state \<Rightarrow> bool" where
  "first_inv arr s = (case main_at s of
      M_fork1 \<Rightarrow> c1 s = C1_none \<and> fifo1 s = [] \<and> \<not> writing1 s \<and> \<not> opened1 s
    | M_print \<Rightarrow> waits1 s
    | M_open1 t \<Rightarrow> t = text1 arr \<and> waits1 s
    | M_write1 t \<Rightarrow> t = text1 arr \<and> c1 s \<in> {C1_open, C1_read []} \<and> fifo1 s = [] \<and> writing1 s \<and> opened1 s
    | M_close1 t \<Rightarrow> t = text1 arr \<and> writing1 s \<and> late1 arr (s\<lparr>writing1 := False\<rparr>) \<and> reader1 s
    | M_fork2 t \<Rightarrow> t = text1 arr \<and> late1 arr s
    | M_open2 t \<Rightarrow> t = parent_second (text1 arr) \<and> late1 arr s
    | M_write2 t \<Rightarrow> t = parent_second (text1 arr) \<and> late1 arr s
    | M_close2 \<Rightarrow> late1 arr s
    | M_wait \<Rightarrow> late1 arr s
    | M_end x \<Rightarrow> late1 arr s
    | _ \<Rightarrow> False)"

text \<open>Who has opened and who has written the second FIFO.\<close>

definition p_open :: "calc_state \<Rightarrow> bool" where
  "p_open s = (case main_at s of M_write2 t \<Rightarrow> True | M_close2 \<Rightarrow> True | _ \<Rightarrow> False)"

definition p_wrote :: "calc_state \<Rightarrow> bool" where
  "p_wrote s = (case main_at s of M_close2 \<Rightarrow> True | M_wait \<Rightarrow> True | M_end x \<Rightarrow> True | _ \<Rightarrow> False)"

definition c_open :: "calc_state \<Rightarrow> bool" where
  "c_open s = (case c1 s of C1_write t \<Rightarrow> True | C1_close \<Rightarrow> True | _ \<Rightarrow> False)"

definition c_wrote :: "calc_state \<Rightarrow> bool" where
  "c_wrote s = (case c1 s of C1_close \<Rightarrow> True | C1_end \<Rightarrow> True | _ \<Rightarrow> False)"

definition before_fork2 :: "calc_state \<Rightarrow> bool" where
  "before_fork2 s = (case main_at s of M_fork1 \<Rightarrow> True | M_print \<Rightarrow> True | M_open1 t \<Rightarrow> True | M_write1 t \<Rightarrow> True
     | M_close1 t \<Rightarrow> True | M_fork2 t \<Rightarrow> True | _ \<Rightarrow> False)"

text \<open>The bytes that child 2 gets, for the writers that have written.\<close>

definition texts2 :: "int list \<Rightarrow> bool \<Rightarrow> bool \<Rightarrow> string set" where
  "texts2 arr p c =
     (let t = parent_second (text1 arr); u = sum_text arr in
      if p \<and> c then {t @ u, u @ t} else if p then {t} else if c then {u} else {[]})"

definition second_inv :: "int list \<Rightarrow> calc_state \<Rightarrow> bool" where
  "second_inv arr s \<longleftrightarrow> writing2p s = p_open s \<and> writing2c s = c_open s
     \<and> opened2 s = (p_open s \<or> p_wrote s \<or> c_open s \<or> c_wrote s)
     \<and> (case c2 s of
         C2_none \<Rightarrow> before_fork2 s \<and> \<not> opened2 s \<and> fifo2 s = []
       | C2_start \<Rightarrow> \<not> before_fork2 s \<and> \<not> opened2 s \<and> fifo2 s = []
       | C2_open \<Rightarrow> \<not> before_fork2 s \<and> fifo2 s \<in> texts2 arr (p_wrote s) (c_wrote s)
       | C2_read b \<Rightarrow> \<not> before_fork2 s \<and> b @ fifo2 s \<in> texts2 arr (p_wrote s) (c_wrote s)
       | C2_end \<Rightarrow> p_wrote s \<and> c_wrote s
       | C2_fault f \<Rightarrow> False)"

definition ended1 :: "calc_state \<Rightarrow> nat" where "ended1 s = (if c1 s = C1_end then 1 else 0)"
definition ended2 :: "calc_state \<Rightarrow> nat" where "ended2 s = (if c2 s = C2_end then 1 else 0)"
definition forked1 :: "calc_state \<Rightarrow> nat" where "forked1 s = (if main_at s = M_fork1 then 0 else 1)"
definition forked2 :: "calc_state \<Rightarrow> nat" where "forked2 s = (if before_fork2 s then 0 else 1)"

text \<open>What the parent counts, and when its loop may end.\<close>

definition wait_inv :: "calc_state \<Rightarrow> bool" where
  "wait_inv s \<longleftrightarrow> (let w = waiting s in
     spawnedProcess w + signalCnt w = 2 \<and> signalCnt w \<ge> 0
     \<and> signalCnt w + int (length (zombies s)) = int (ended1 s + ended2 s)
     \<and> int (living w) + signalCnt w = int (forked1 s + forked2 s)
     \<and> (parent_at w = PBye \<longrightarrow> 1 \<le> signalCnt w))"

definition names_inv :: "calc_state \<Rightarrow> bool" where
  "names_inv s \<longleftrightarrow> \<not> str_freed s \<and> (case main_at s of
      M_end x \<Rightarrow> c1 s = C1_end \<or> c2 s = C2_end
    | _ \<Rightarrow> name1 s \<and> name2 s)"

definition out_of :: "calc_proc \<Rightarrow> calc_state \<Rightarrow> string list" where
  "out_of p s = map snd (filter (\<lambda>(q, l). q = p) (calc_out s))"

definition entered2 :: "int \<Rightarrow> string" where
  "entered2 pid = [newline] @ ''Entered Child Process 2. (pid : '' @ dec pid @ '')'' @ [newline]"

definition out_inv :: "int \<Rightarrow> int list \<Rightarrow> calc_state \<Rightarrow> bool" where
  "out_inv pid arr s \<longleftrightarrow> out_of Child2 s = (case c2 s of
      C2_none \<Rightarrow> [] | C2_start \<Rightarrow> [] | C2_end \<Rightarrow> entered2 pid # total_lines arr | _ \<Rightarrow> [entered2 pid])"

definition calc_inv :: "calc_env \<Rightarrow> int list \<Rightarrow> calc_state \<Rightarrow> bool" where
  "calc_inv e arr s \<longleftrightarrow> first_inv arr s \<and> second_inv arr s \<and> wait_inv s \<and> names_inv s \<and> out_inv (pid2 e) arr s
     \<and> random_array e (argument s) = arr"

section \<open>The steps keep it\<close>

definition good_run :: "calc_env \<Rightarrow> int list \<Rightarrow> bool" where
  "good_run e arr \<longleftrightarrow> fork1_ok e \<and> fork2_ok e
     \<and> convertIntegerToString arr (CHR '','') = Inr (Some (text1 arr))
     \<and> length (random_text (text1 arr)) < BUFFER_LEN
     \<and> child1 (env_heap e) (first_fifo (text1 arr)) = Inr (sum_text arr)
     \<and> (\<forall>b\<in>texts2 arr True True. child2 (env_heap e) b = Inr (to_int32 (prod_list arr + sum_list arr), total_lines arr))"

lemma say_simps [simp]:
  "main_at (say p ls s) = main_at s" "c1 (say p ls s) = c1 s" "c2 (say p ls s) = c2 s" "fifo1 (say p ls s) = fifo1 s"
  "fifo2 (say p ls s) = fifo2 s" "writing1 (say p ls s) = writing1 s" "writing2p (say p ls s) = writing2p s"
  "writing2c (say p ls s) = writing2c s" "opened1 (say p ls s) = opened1 s" "opened2 (say p ls s) = opened2 s"
  "name1 (say p ls s) = name1 s" "name2 (say p ls s) = name2 s" "waiting (say p ls s) = waiting s"
  "zombies (say p ls s) = zombies s" "argument (say p ls s) = argument s" "str_freed (say p ls s) = str_freed s"
  by (simp_all add: say_def)

lemma out_of_say [simp]: "out_of p (say q ls s) = out_of p s @ (if p = q then ls else [])"
  by (auto simp: out_of_def say_def comp_def filter_map)

lemma out_of_fields [simp]:
  "out_of p (s\<lparr>main_at := m\<rparr>) = out_of p s" "out_of p (s\<lparr>c1 := x\<rparr>) = out_of p s" "out_of p (s\<lparr>c2 := y\<rparr>) = out_of p s"
  "out_of p (s\<lparr>fifo1 := f\<rparr>) = out_of p s" "out_of p (s\<lparr>fifo2 := f\<rparr>) = out_of p s" "out_of p (s\<lparr>writing1 := b\<rparr>) = out_of p s"
  "out_of p (s\<lparr>writing2p := b\<rparr>) = out_of p s" "out_of p (s\<lparr>writing2c := b\<rparr>) = out_of p s" "out_of p (s\<lparr>opened1 := b\<rparr>) = out_of p s"
  "out_of p (s\<lparr>opened2 := b\<rparr>) = out_of p s" "out_of p (s\<lparr>name1 := b\<rparr>) = out_of p s" "out_of p (s\<lparr>name2 := b\<rparr>) = out_of p s"
  "out_of p (s\<lparr>waiting := w\<rparr>) = out_of p s" "out_of p (s\<lparr>zombies := z\<rparr>) = out_of p s"
  by (simp_all add: out_of_def)

lemmas first_defs = first_inv_def late1_def waits1_def reader1_def
lemmas second_defs = second_inv_def p_open_def p_wrote_def c_open_def c_wrote_def before_fork2_def reader2_def
lemmas wait_defs = wait_inv_def ended1_def ended2_def forked1_def forked2_def before_fork2_def Let_def
lemmas move_defs = main_step_def one_more_def main_ends_def main_waits_def
lemmas calc_splits = calc_pc.splits child1_pc.splits child2_pc.splits

lemma parent_runs:
  assumes "parent_step ParentRuns w = Some w'" "spawnedProcess w + signalCnt w = 2"
  shows "spawnedProcess w' = spawnedProcess w \<and> signalCnt w' = signalCnt w \<and> living w' = living w
    \<and> (parent_at w' = PBye \<longrightarrow> 1 \<le> signalCnt w)"
  using assms by (auto simp: parent_step_def split: parent_pc.splits if_splits)

lemma parent_reaps:
  assumes "parent_step (Die k) w = Some w'"
  shows "0 < k \<and> k \<le> living w \<and> spawnedProcess w' = spawnedProcess w - int k \<and> signalCnt w' = signalCnt w + int k
    \<and> living w' = living w - k \<and> (parent_at w' = PBye \<longrightarrow> parent_at w = PBye)"
  using assms by (auto simp: parent_step_def sigchldHandler_def Let_def split: if_splits)

text \<open>A writer that has the second FIFO open has its reader.\<close>

lemma writer2_reads:
  assumes "second_inv arr s" "main_at s = M_write2 t \<or> c1 s = C1_write u"
  shows "reader2 s"
  using assms by (auto simp: second_defs split: child2_pc.splits)

text \<open>What a step of the parent does in a run without failures.\<close>

lemma main_effect:
  assumes "good_run e arr" "calc_inv e arr s" "main_step e s = Some s'"
  obtains (fork1) "main_at s = M_fork1" "s' = (one_more s)\<lparr>main_at := M_print, c1 := C1_start\<rparr>"
  | (print) "main_at s = M_print" "s' = (say Parent [random_text (text1 arr)] s)\<lparr>main_at := M_open1 (text1 arr)\<rparr>"
  | (open1) t where "main_at s = M_open1 t" "reader1 s" "s' = s\<lparr>main_at := M_write1 t, writing1 := True, opened1 := True\<rparr>"
  | (write1) t where "main_at s = M_write1 t" "s' = (say Parent [''Array successfully written to first fifo ''] s)\<lparr>main_at := M_close1 t, fifo1 := fifo1 s @ first_fifo t\<rparr>"
  | (close1) t where "main_at s = M_close1 t" "s' = s\<lparr>main_at := M_fork2 t, writing1 := False\<rparr>"
  | (fork2) t where "main_at s = M_fork2 t" "s' = (one_more s)\<lparr>main_at := M_open2 (parent_second t), c2 := C2_start\<rparr>"
  | (open2) t where "main_at s = M_open2 t" "reader2 s" "s' = s\<lparr>main_at := M_write2 t, writing2p := True, opened2 := True\<rparr>"
  | (write2) t where "main_at s = M_write2 t" "reader2 s" "s' = s\<lparr>main_at := M_close2, fifo2 := fifo2 s @ t\<rparr>"
  | (close2) "main_at s = M_close2" "s' = s\<lparr>main_at := M_wait, writing2p := False\<rparr>"
  | (bye) l where "main_at s = M_wait" "parent_at (waiting s) = PBye" "s' = main_ends (say Parent [l] s)"
  | (loop) w ls where "main_at s = M_wait" "parent_step ParentRuns (waiting s) = Some w" "s' = (say Parent ls s)\<lparr>waiting := w\<rparr>"
proof -
  have inv: "first_inv arr s" "second_inv arr s" "names_inv s" "random_array e (argument s) = arr"
    using assms(2) by (simp_all add: calc_inv_def)
  have g: "fork1_ok e" "fork2_ok e" "convertIntegerToString arr (CHR '','') = Inr (Some (text1 arr))"
      "\<not> BUFFER_LEN < length (random_text (text1 arr)) + 1"
    using assms(1) by (simp_all add: good_run_def)
  show thesis
  proof (cases "main_at s")
    case M_fork1
    then show thesis using fork1 assms(3) g(1) by (simp add: main_step_def)
  next
    case M_print
    then show thesis using print assms(3) g(3,4) inv(4) by (simp add: main_step_def)
  next
    case (M_open1 t)
    then have "reader1 s \<and> s' = s\<lparr>main_at := M_write1 t, writing1 := True, opened1 := True\<rparr>"
      using assms(3) inv(3) by (simp add: main_step_def names_inv_def split: if_splits)
    then show thesis using open1 M_open1 by blast
  next
    case (M_close1 t)
    then show thesis using close1 assms(3) by (simp add: main_step_def)
  next
    case (M_fork2 t)
    then show thesis using fork2 assms(3) g(2) by (simp add: main_step_def)
  next
    case (M_open2 t)
    then have "reader2 s \<and> s' = s\<lparr>main_at := M_write2 t, writing2p := True, opened2 := True\<rparr>"
      using assms(3) inv(3) by (simp add: main_step_def names_inv_def split: if_splits)
    then show thesis using open2 M_open2 by blast
  next
    case M_close2
    then show thesis using close2 assms(3) by (simp add: main_step_def)
  next
    case (M_write1 t)
    then have "reader1 s" using inv(1) by (auto simp: first_defs)
    then show thesis using write1 [OF M_write1] assms(3) M_write1 by (simp add: main_step_def)
  next
    case (M_write2 t)
    then have "reader2 s" using writer2_reads inv(2) by blast
    then show thesis using write2 [OF M_write2] assms(3) M_write2 by (simp add: main_step_def)
  next
    case M_wait
    then have "main_waits s = Some s'" "\<not> str_freed s" using assms(3) inv(3) by (simp_all add: main_step_def names_inv_def)
    then consider "parent_at (waiting s) = PBye" "s' = main_ends (say Parent [''All childs are dead... Terminating...Bye'' @ [newline]] s)"
      | w where "parent_step ParentRuns (waiting s) = Some w"
          "s' = (say Parent (if parent_at (waiting s) = PSay then [''Proceeding...'' @ [newline]] else []) s)\<lparr>waiting := w\<rparr>"
      by (fastforce simp: main_waits_def say_def split: if_splits option.splits)
    then show thesis using bye [OF M_wait] loop [OF M_wait] by cases
  qed (use assms(3) in \<open>simp_all add: main_step_def\<close>)
qed

lemma main_first:
  assumes "good_run e arr" "calc_inv e arr s" "main_step e s = Some s'"
  shows "first_inv arr s'"
proof -
  have "first_inv arr s" using assms(2) by (simp add: calc_inv_def)
  then show ?thesis
    by (cases rule: main_effect [OF assms]) (auto simp: one_more_def main_ends_def first_defs split: child1_pc.splits)
qed

lemma main_second:
  assumes "good_run e arr" "calc_inv e arr s" "main_step e s = Some s'"
  shows "second_inv arr s'"
proof -
  have "first_inv arr s" "second_inv arr s" using assms(2) by (simp_all add: calc_inv_def)
  then show ?thesis
    by (cases rule: main_effect [OF assms])
       (auto simp: one_more_def main_ends_def second_defs first_inv_def texts2_def Let_def split: child2_pc.splits if_splits)
qed

lemma main_wait:
  assumes "good_run e arr" "calc_inv e arr s" "main_step e s = Some s'"
  shows "wait_inv s'"
proof -
  have inv: "first_inv arr s" "second_inv arr s" "wait_inv s" using assms(2) by (simp_all add: calc_inv_def)
  from assms show ?thesis
  proof (cases rule: main_effect [consumes 3])
    case (loop w ls)
    then show ?thesis using inv(3) parent_runs [of "waiting s" w] by (simp add: wait_defs)
  qed (use inv in \<open>simp_all add: one_more_def main_ends_def wait_defs first_inv_def second_inv_def p_wrote_def split: child2_pc.splits\<close>)
qed

lemma main_names:
  assumes "good_run e arr" "calc_inv e arr s" "main_step e s = Some s'"
  shows "names_inv s'"
proof -
  have "names_inv s" "wait_inv s" using assms(2) by (simp_all add: calc_inv_def)
  then show ?thesis
    by (cases rule: main_effect [OF assms])
       (auto simp: one_more_def main_ends_def names_inv_def wait_defs split: if_splits)
qed

lemma main_out:
  assumes "good_run e arr" "calc_inv e arr s" "main_step e s = Some s'"
  shows "out_inv (pid2 e) arr s' \<and> argument s' = argument s"
proof -
  have "out_inv (pid2 e) arr s" "second_inv arr s" using assms(2) by (simp_all add: calc_inv_def)
  then show ?thesis
    by (cases rule: main_effect [OF assms])
       (auto simp: one_more_def main_ends_def out_inv_def second_defs split: child2_pc.splits)
qed

lemma main_inv:
  assumes "good_run e arr" "calc_inv e arr s" "main_step e s = Some s'"
  shows "calc_inv e arr s'"
  using main_first [OF assms] main_second [OF assms] main_wait [OF assms] main_names [OF assms] main_out [OF assms] assms(2)
  unfolding calc_inv_def by metis

lemma reap_inv:
  assumes "calc_inv e arr s" "reap_step s = Some s'"
  shows "calc_inv e arr s'"
proof -
  obtain w ls where w: "main_runs s" "parent_step (Die (length (zombies s))) (waiting s) = Some w"
      "s' = say Parent ls (s\<lparr>waiting := w, zombies := []\<rparr>)"
    using assms(2) by (auto simp: reap_step_def split: if_splits option.splits)
  have "wait_inv s'"
    using assms(1) parent_reaps [OF w(2)] by (auto simp: w(3) calc_inv_def wait_defs)
  moreover have "first_inv arr s' = first_inv arr s" "second_inv arr s' = second_inv arr s" "names_inv s' = names_inv s"
      "out_inv (pid2 e) arr s' = out_inv (pid2 e) arr s" "argument s' = argument s"
    by (auto simp: w(3) first_defs second_defs names_inv_def out_inv_def split: calc_pc.split child1_pc.split child2_pc.split)
  ultimately show ?thesis using assms(1) by (simp add: calc_inv_def)
qed

text \<open>What a step of child 1 does.\<close>

lemma child1_effect:
  assumes "good_run e arr" "calc_inv e arr s" "child1_step e s = Some s'"
  obtains (start) l where "c1 s = C1_start" "s' = (say Child1 [l] s)\<lparr>c1 := C1_open\<rparr>"
  | (opens) "c1 s = C1_open" "opened1 s" "s' = s\<lparr>c1 := C1_read []\<rparr>"
  | (reads) b c r where "c1 s = C1_read b" "fifo1 s = c # r" "s' = s\<lparr>c1 := C1_read (b @ [c]), fifo1 := r\<rparr>"
  | (sums) b l where "c1 s = C1_read b" "fifo1 s = []" "\<not> writing1 s" "s' = (say Child1 [l] s)\<lparr>c1 := C1_open2 (sum_text arr)\<rparr>"
  | (open2) b where "c1 s = C1_open2 b" "reader2 s" "s' = s\<lparr>c1 := C1_write b, writing2c := True, opened2 := True\<rparr>"
  | (write2) b l where "c1 s = C1_write b" "reader2 s" "s' = (say Child1 [l] s)\<lparr>c1 := C1_close, fifo2 := fifo2 s @ b\<rparr>"
  | (close2) "c1 s = C1_close" "s' = (c1_ends e s)\<lparr>writing2c := False\<rparr>"
proof -
  have inv: "first_inv arr s" "second_inv arr s" "names_inv s" "wait_inv s" using assms(2) by (simp_all add: calc_inv_def)
  have step: "child1_step e s = Some s'" by (rule assms(3))
  show thesis
  proof (cases "c1 s")
    case C1_start
    then have "name1 s" using inv by (auto simp: first_defs names_inv_def split: calc_pc.splits)
    then show thesis using start [OF C1_start] C1_start step by (auto simp: child1_step_def Let_def)
  next
    case C1_open
    then show thesis using opens step by (simp add: child1_step_def split: if_splits)
  next
    case (C1_read b)
    show thesis
    proof (cases "fifo1 s")
      case (Cons c r)
      then show thesis using reads C1_read step by (simp add: child1_step_def)
    next
      case Nil
      then have w: "\<not> writing1 s" using C1_read step by (simp add: child1_step_def split: if_splits)
      then have "b = first_fifo (text1 arr)"
        using inv(1) C1_read Nil by (auto simp: first_defs split: calc_pc.splits)
      then have "child1 (env_heap e) b = Inr (sum_text arr)" using assms(1) by (simp add: good_run_def)
      then show thesis using sums [OF C1_read Nil w] C1_read Nil w step by (auto simp: child1_step_def)
    qed
  next
    case (C1_open2 b)
    have "name2 s"
    proof (rule ccontr)
      assume n: "\<not> name2 s"
      then have "c2 s = C2_end" using inv(3) C1_open2 by (auto simp: names_inv_def split: calc_pc.splits)
      then show False using inv(2) C1_open2 by (simp add: second_defs)
    qed
    then show thesis using open2 C1_open2 step by (simp add: child1_step_def split: if_splits)
  next
    case (C1_write b)
    then have "reader2 s" using writer2_reads inv(2) by blast
    then show thesis using write2 C1_write step by (auto simp: child1_step_def)
  next
    case C1_close
    then show thesis using close2 step by (simp add: child1_step_def)
  qed (use step in \<open>simp_all add: child1_step_def\<close>)
qed

lemma child1_first:
  assumes "good_run e arr" "calc_inv e arr s" "child1_step e s = Some s'"
  shows "first_inv arr s'"
proof -
  have "first_inv arr s" using assms(2) by (simp add: calc_inv_def)
  then show ?thesis
    by (cases rule: child1_effect [OF assms]) (auto simp: c1_ends_def first_defs split: calc_pc.splits)
qed

lemma child1_second:
  assumes "good_run e arr" "calc_inv e arr s" "child1_step e s = Some s'"
  shows "second_inv arr s'"
proof -
  have "first_inv arr s" "second_inv arr s" using assms(2) by (simp_all add: calc_inv_def)
  then show ?thesis
    by (cases rule: child1_effect [OF assms])
       (auto simp: c1_ends_def second_defs first_inv_def late1_def texts2_def Let_def split: child2_pc.splits calc_pc.splits if_splits)
qed

lemma child1_inv:
  assumes "good_run e arr" "calc_inv e arr s" "child1_step e s = Some s'"
  shows "calc_inv e arr s'"
proof -
  have inv: "wait_inv s" "names_inv s" "out_inv (pid2 e) arr s" "random_array e (argument s) = arr"
    using assms(2) by (simp_all add: calc_inv_def)
  have "wait_inv s'" "names_inv s'" "out_inv (pid2 e) arr s'" "argument s' = argument s"
    using inv by (cases rule: child1_effect [OF assms];
      auto simp: c1_ends_def wait_defs names_inv_def out_inv_def split: calc_pc.splits if_splits)+
  then show ?thesis using child1_first [OF assms] child1_second [OF assms] inv(4) by (simp add: calc_inv_def)
qed

text \<open>The bytes of the second FIFO: no NUL, and both delimiters only when both have written.\<close>

lemma digits_text_free: "CHR ''!'' \<notin> set (digits_text (CHR '','') arr)"
  by (induction arr) simp_all

lemma texts2_facts:
  assumes "b \<in> texts2 arr p c"
  shows "CHR 0x00 \<notin> set b" and "both_seen b = (p \<and> c)"
proof -
  have t: "CHR 0x00 \<notin> set (text1 arr)" "CHR ''!'' \<notin> set (text1 arr)"
    by (simp_all add: text1_def digits_text_nul digits_text_free)
  show "CHR 0x00 \<notin> set b" "both_seen b = (p \<and> c)"
    using assms t by (auto simp: texts2_def parent_second_def sum_text_def both_seen_def Let_def split: if_splits)
qed

lemma texts2_none [simp]: "texts2 arr False False = {[]}"
  by (simp add: texts2_def Let_def)

text \<open>What a step of child 2 does; \<open>spins\<close>: it reads the end of the FIFO once more.\<close>

lemma child2_effect:
  assumes "good_run e arr" "calc_inv e arr s" "child2_step e s = Some s'"
  obtains (start) "c2 s = C2_start" "s' = (say Child2 [entered2 (pid2 e)] s)\<lparr>c2 := C2_open\<rparr>"
  | (opens) "c2 s = C2_open" "opened2 s" "s' = s\<lparr>c2 := C2_read []\<rparr>"
  | (reads) b c r where "c2 s = C2_read b" "fifo2 s = c # r" "s' = s\<lparr>c2 := C2_read (b @ [c]), fifo2 := r\<rparr>"
  | (spins) b where "c2 s = C2_read b" "fifo2 s = []" "\<not> (p_wrote s \<and> c_wrote s)" "s' = s"
  | (finish) b where "c2 s = C2_read b" "fifo2 s = []" "p_wrote s" "c_wrote s" "s' = c2_ends e (say Child2 (total_lines arr) s)"
proof -
  have inv: "second_inv arr s" "names_inv s" using assms(2) by (simp_all add: calc_inv_def)
  have step: "child2_step e s = Some s'" by (rule assms(3))
  show thesis
  proof (cases "c2 s")
    case C2_start
    have "name2 s"
    proof (rule ccontr)
      assume n: "\<not> name2 s"
      then have "c1 s = C1_end" using inv(2) C2_start by (auto simp: names_inv_def split: calc_pc.splits)
      then show False using inv(1) C2_start by (auto simp: second_defs)
    qed
    then show thesis using start [OF C2_start] C2_start step by (auto simp: child2_step_def Let_def entered2_def)
  next
    case C2_open
    then show thesis using opens step by (simp add: child2_step_def split: if_splits)
  next
    case (C2_read b)
    then have t: "b @ fifo2 s \<in> texts2 arr (p_wrote s) (c_wrote s)" using inv(1) by (simp add: second_inv_def)
    show thesis
    proof (cases "fifo2 s")
      case (Cons c r)
      then have "c \<noteq> CHR 0x00" using texts2_facts(1) [OF t] by auto
      then show thesis using reads [OF C2_read Cons] C2_read Cons step by (auto simp: child2_step_def)
    next
      case Nil
      have seen: "both_seen b = (p_wrote s \<and> c_wrote s)" using texts2_facts(2) [OF t] Nil by simp
      show thesis
      proof (cases "both_seen b")
        case True
        then have w: "p_wrote s" "c_wrote s" using seen by simp_all
        then have "child2 (env_heap e) b = Inr (to_int32 (prod_list arr + sum_list arr), total_lines arr)"
          using t Nil assms(1) by (simp add: good_run_def)
        then have "s' = c2_ends e (say Child2 (total_lines arr) s)"
          using step C2_read Nil True by (auto simp: child2_step_def c2_finish_def split: if_splits)
        then show thesis using finish [OF C2_read Nil w] by blast
      next
        case False
        then have "s' = s" using step C2_read Nil by (auto simp: child2_step_def split: if_splits)
        then show thesis using spins [OF C2_read Nil] False seen by blast
      qed
    qed
  qed (use step in \<open>simp_all add: child2_step_def\<close>)
qed

lemma child2_first:
  assumes "good_run e arr" "calc_inv e arr s" "child2_step e s = Some s'"
  shows "first_inv arr s'"
proof -
  have "first_inv arr s" using assms(2) by (simp add: calc_inv_def)
  then show ?thesis
    by (cases rule: child2_effect [OF assms]) (auto simp: c2_ends_def first_defs split: calc_pc.splits child1_pc.splits)
qed

lemma child2_inv:
  assumes "good_run e arr" "calc_inv e arr s" "child2_step e s = Some s'"
  shows "calc_inv e arr s'"
proof -
  have inv: "second_inv arr s" "wait_inv s" "names_inv s" "out_inv (pid2 e) arr s" "random_array e (argument s) = arr"
    using assms(2) by (simp_all add: calc_inv_def)
  have "second_inv arr s'"
    using inv(1) by (cases rule: child2_effect [OF assms])
      (auto simp: c2_ends_def second_inv_def p_wrote_def c_wrote_def p_open_def c_open_def before_fork2_def)
  moreover have "wait_inv s'" "names_inv s'" "argument s' = argument s"
    using inv(2,3) by (cases rule: child2_effect [OF assms]; auto simp: c2_ends_def wait_defs names_inv_def split: calc_pc.splits if_splits)+
  moreover have "out_inv (pid2 e) arr s'"
    using inv(4) by (cases rule: child2_effect [OF assms]) (auto simp: c2_ends_def out_inv_def)
  ultimately show ?thesis using child2_first [OF assms] inv(5) by (simp add: calc_inv_def)
qed

lemma calc_step_inv:
  assumes "good_run e arr" "calc_inv e arr s" "calc_step e p s = Some s'"
  shows "calc_inv e arr s'"
  using main_inv [OF assms(1,2)] child1_inv [OF assms(1,2)] child2_inv [OF assms(1,2)] reap_inv [OF assms(2)] assms(3)
  by (cases p) simp_all

lemma calc_run_inv:
  assumes "good_run e arr" "calc_inv e arr s"
  shows "calc_inv e arr (sched_run (calc_step e) es s)"
  by (rule sched_run_invariant [where I = "calc_inv e arr"]) (use assms calc_step_inv in blast)+

section \<open>Progress\<close>

definition main_rank :: "calc_pc \<Rightarrow> nat" where
  "main_rank m = (case m of M_fork1 \<Rightarrow> 10 | M_print \<Rightarrow> 9 | M_open1 t \<Rightarrow> 8 | M_write1 t \<Rightarrow> 7 | M_close1 t \<Rightarrow> 6
     | M_fork2 t \<Rightarrow> 5 | M_open2 t \<Rightarrow> 4 | M_write2 t \<Rightarrow> 3 | M_close2 \<Rightarrow> 2 | M_wait \<Rightarrow> 1 | _ \<Rightarrow> 0)"

definition c1_rank :: "nat \<Rightarrow> child1_pc \<Rightarrow> nat" where
  "c1_rank n c = (case c of C1_none \<Rightarrow> n + 7 | C1_start \<Rightarrow> n + 6 | C1_open \<Rightarrow> n + 5 | C1_read b \<Rightarrow> n - length b + 4
     | C1_open2 b \<Rightarrow> 3 | C1_write b \<Rightarrow> 2 | C1_close \<Rightarrow> 1 | _ \<Rightarrow> 0)"

definition c2_rank :: "nat \<Rightarrow> child2_pc \<Rightarrow> nat" where
  "c2_rank n c = (case c of C2_none \<Rightarrow> n + 4 | C2_start \<Rightarrow> n + 3 | C2_open \<Rightarrow> n + 2 | C2_read b \<Rightarrow> n - length b + 1 | _ \<Rightarrow> 0)"

definition calc_rank :: "int list \<Rightarrow> calc_state \<Rightarrow> nat" where
  "calc_rank arr s = main_rank (main_at s) + c1_rank (length (first_fifo (text1 arr))) (c1 s)
     + c2_rank (length (parent_second (text1 arr)) + length (sum_text arr)) (c2 s)"

fun calc_ready :: "calc_proc \<Rightarrow> calc_state \<Rightarrow> bool" where
  "calc_ready Parent s = (case main_at s of M_fork1 \<Rightarrow> True | M_print \<Rightarrow> True | M_open1 t \<Rightarrow> reader1 s | M_write1 t \<Rightarrow> True
     | M_close1 t \<Rightarrow> True | M_fork2 t \<Rightarrow> True | M_open2 t \<Rightarrow> reader2 s | M_write2 t \<Rightarrow> True | M_close2 \<Rightarrow> True | _ \<Rightarrow> False)"
| "calc_ready Child1 s = (case c1 s of C1_start \<Rightarrow> True | C1_open \<Rightarrow> opened1 s | C1_read b \<Rightarrow> fifo1 s \<noteq> [] \<or> \<not> writing1 s
     | C1_open2 b \<Rightarrow> reader2 s | C1_write b \<Rightarrow> True | C1_close \<Rightarrow> True | _ \<Rightarrow> False)"
| "calc_ready Child2 s = (case c2 s of C2_start \<Rightarrow> True | C2_open \<Rightarrow> opened2 s
     | C2_read b \<Rightarrow> fifo2 s \<noteq> [] \<or> p_wrote s \<and> c_wrote s \<and> \<not> writing2p s \<and> \<not> writing2c s | _ \<Rightarrow> False)"
| "calc_ready Reap s = False"

lemma texts2_length:
  "b \<in> texts2 arr p c \<Longrightarrow> length b \<le> length (parent_second (text1 arr)) + length (sum_text arr)"
  by (auto simp: texts2_def Let_def split: if_splits)

lemma ready_fields:
  assumes "main_at s' = main_at s" "c1 s' = c1 s" "c2 s' = c2 s" "fifo1 s' = fifo1 s" "fifo2 s' = fifo2 s"
    "writing1 s' = writing1 s" "writing2p s' = writing2p s" "writing2c s' = writing2c s" "opened1 s' = opened1 s" "opened2 s' = opened2 s"
  shows "calc_ready q s' = calc_ready q s"
  using assms by (cases q) (simp_all add: reader1_def reader2_def p_wrote_def c_wrote_def split: calc_pc.split child1_pc.split child2_pc.split)

lemma calc_keeps:
  assumes "good_run e arr" "calc_inv e arr s" "calc_step e p s = Some s'"
  shows "calc_rank arr s' < calc_rank arr s \<or> calc_rank arr s' = calc_rank arr s \<and> \<not> calc_ready p s \<and> (\<forall>q. calc_ready q s' = calc_ready q s)"
proof (cases p)
  case Parent
  then have step: "main_step e s = Some s'" using assms(3) by simp
  have inv: "first_inv arr s" "second_inv arr s" using assms(2) by (simp_all add: calc_inv_def)
  from assms(1,2) step show ?thesis
  proof (cases rule: main_effect [consumes 3])
    case fork1
    then show ?thesis using inv by (simp add: calc_rank_def main_rank_def c1_rank_def one_more_def first_inv_def)
  next
    case (fork2 t)
    then have "c2 s = C2_none" using inv(2) by (auto simp: second_defs split: child2_pc.splits)
    then show ?thesis using fork2 by (simp add: calc_rank_def main_rank_def c2_rank_def one_more_def)
  next
    case (loop w ls)
    then have "calc_ready q s' = calc_ready q s" for q by (intro ready_fields) simp_all
    then show ?thesis using loop Parent by (simp add: calc_rank_def)
  qed (simp_all add: calc_rank_def main_rank_def main_ends_def)
next
  case Child1
  then have step: "child1_step e s = Some s'" using assms(3) by simp
  have inv: "first_inv arr s" using assms(2) by (simp add: calc_inv_def)
  from assms(1,2) step show ?thesis
  proof (cases rule: child1_effect [consumes 3])
    case (reads b c r)
    then have "b @ c # r = first_fifo (text1 arr)" using inv by (auto simp: first_defs split: calc_pc.splits)
    then have "length b + 1 \<le> length (first_fifo (text1 arr))" by (metis length_append length_Cons add_le_mono le_refl Suc_eq_plus1 le_add2)
    then have "c1_rank (length (first_fifo (text1 arr))) (C1_read (b @ [c])) < c1_rank (length (first_fifo (text1 arr))) (C1_read b)"
      by (simp add: c1_rank_def)
    then show ?thesis using reads by (simp add: calc_rank_def)
  qed (simp_all add: calc_rank_def c1_rank_def c1_ends_def)
next
  case Child2
  then have step: "child2_step e s = Some s'" using assms(3) by simp
  have inv: "second_inv arr s" using assms(2) by (simp add: calc_inv_def)
  from assms(1,2) step show ?thesis
  proof (cases rule: child2_effect [consumes 3])
    case (reads b c r)
    then have "b @ c # r \<in> texts2 arr (p_wrote s) (c_wrote s)" using inv by (simp add: second_inv_def)
    then have "length b + 1 \<le> length (parent_second (text1 arr)) + length (sum_text arr)" using texts2_length by fastforce
    then have "c2_rank (length (parent_second (text1 arr)) + length (sum_text arr)) (C2_read (b @ [c]))
        < c2_rank (length (parent_second (text1 arr)) + length (sum_text arr)) (C2_read b)"
      by (simp add: c2_rank_def)
    then show ?thesis using reads by (simp add: calc_rank_def)
  next
    case (spins b)
    then show ?thesis using Child2 by auto
  qed (simp_all add: calc_rank_def c2_rank_def c2_ends_def)
next
  case Reap
  then obtain w ls where "s' = say Parent ls (s\<lparr>waiting := w, zombies := []\<rparr>)"
    using assms(3) by (auto simp: reap_step_def split: if_splits option.splits)
  moreover from this have "calc_ready q s' = calc_ready q s" for q by (intro ready_fields) simp_all
  ultimately show ?thesis using Reap by (simp add: calc_rank_def)
qed

lemma ready_enabled: "calc_ready p s \<Longrightarrow> \<exists>s'. calc_step e p s = Some s'"
  by (cases p) (auto simp: main_step_def child1_step_def child2_step_def Let_def c2_finish_def split: calc_splits list.split)

lemma calc_moves:
  assumes "good_run e arr" "calc_inv e arr s" "calc_ready p s"
  shows "\<exists>s'. calc_step e p s = Some s' \<and> calc_rank arr s' < calc_rank arr s"
  using ready_enabled [OF assms(3), of e] calc_keeps [OF assms(1,2)] assms(3) by blast

lemma someone_ready:
  assumes "calc_inv e arr s" "c2 s \<noteq> C2_end"
  shows "\<exists>p\<in>{Parent, Child1, Child2}. calc_ready p s"
proof -
  have inv: "first_inv arr s" "second_inv arr s" using assms(1) by (simp_all add: calc_inv_def)
  show ?thesis
  proof (cases "p_wrote s \<and> \<not> p_open s")
    case False
    then show ?thesis using inv
      by (auto simp: first_defs second_inv_def p_open_def p_wrote_def before_fork2_def reader2_def split: calc_splits)
  next
    case True
    then have m: "late1 arr s" "\<not> writing2p s" "opened2 s" "\<not> before_fork2 s" using inv
      by (auto simp: first_inv_def second_inv_def p_open_def p_wrote_def before_fork2_def split: calc_pc.splits)
    show ?thesis
    proof (cases "c1 s = C1_end")
      case True
      then show ?thesis using inv(2) m assms(2) \<open>p_wrote s \<and> \<not> p_open s\<close>
        by (auto simp: second_inv_def c_wrote_def c_open_def split: child2_pc.splits)
    next
      case False
      then show ?thesis using inv(2) m(1,3) assms(2)
        by (auto simp: late1_def second_inv_def c_wrote_def c_open_def reader2_def split: child2_pc.splits child1_pc.splits)
    qed
  qed
qed

lemma calc_end_stays:
  assumes "good_run e arr" "calc_inv e arr s" "c2 s = C2_end" "calc_step e p s = Some s'"
  shows "c2 s' = C2_end"
proof -
  have "calc_inv e arr s'" by (rule calc_step_inv [OF assms(1,2,4)])
  have inv: "second_inv arr s" using assms(2) by (simp add: calc_inv_def)
  show ?thesis
  proof (cases p)
    case Parent
    then have step: "main_step e s = Some s'" using assms(4) by simp
    show ?thesis using inv assms(3)
      by (cases rule: main_effect [OF assms(1,2) step]) (simp_all add: one_more_def main_ends_def second_defs)
  next
    case Child1
    then have step: "child1_step e s = Some s'" using assms(4) by simp
    show ?thesis using assms(3)
      by (cases rule: child1_effect [OF assms(1,2) step]) (simp_all add: c1_ends_def)
  next
    case Child2
    then show ?thesis using assms(3,4) by (simp add: child2_step_def)
  next
    case Reap
    then show ?thesis using assms(3,4) by (auto simp: reap_step_def split: if_splits option.splits)
  qed
qed

interpretation calc_rounds: round_progress "calc_step e" "\<lambda>s. good_run e arr \<and> calc_inv e arr s" "calc_rank arr" calc_ready
    "\<lambda>s. c2 s = C2_end" "{Parent, Child1, Child2}" for e arr
proof
  fix s p s'
  assume "good_run e arr \<and> calc_inv e arr s" "calc_step e p s = Some s'"
  then show "good_run e arr \<and> calc_inv e arr s'" "calc_rank arr s' \<le> calc_rank arr s"
      "calc_rank arr s' = calc_rank arr s \<Longrightarrow> calc_ready q s' = calc_ready q s"
      "c2 s = C2_end \<Longrightarrow> c2 s' = C2_end" for q
    using calc_step_inv [of e arr s p s'] calc_keeps [of e arr s p s'] calc_end_stays [of e arr s p s'] by auto
qed (use calc_moves someone_ready in blast)+

section \<open>The whole program\<close>

lemma random_digits: "\<forall>i. 0 \<le> env_rand e i \<Longrightarrow> is_digit_list (random_array e n) \<and> length (random_array e n) = n"
  by (auto simp: is_digit_list_def random_array_def c_mod_nonneg)

text \<open>The same run with an allocator that leaves room behind every block.\<close>

definition roomy :: "calc_env \<Rightarrow> calc_env" where
  "roomy e = e\<lparr>env_heap := (env_heap e)\<lparr>usable := \<lambda>n. usable (env_heap e) n + 64\<rparr>\<rparr>"

lemma roomy_same [simp]: "random_array (roomy e) n = random_array e n" "pid2 (roomy e) = pid2 e" "fork1_ok (roomy e) = fork1_ok e"
  "fork2_ok (roomy e) = fork2_ok e" "calc_inv (roomy e) = calc_inv e"
  by (simp_all add: roomy_def random_array_def calc_inv_def fun_eq_iff)

lemma texts2_both:
  "b \<in> texts2 arr True True \<longleftrightarrow> b = (dec (sum_list arr) @ ''!'') @ parent_second (digits_text (CHR '','') arr)
      \<or> b = parent_second (digits_text (CHR '','') arr) @ dec (sum_list arr) @ ''!''"
  by (auto simp: texts2_def Let_def text1_def sum_text_def)

lemma texts2_size:
  assumes "is_digit_list arr" "b \<in> texts2 arr True True"
  shows "length b = 2 * length arr + 10 + length (dec (sum_list arr))"
  using assms(2) unfolding texts2_both by (auto simp: parent_second_def digits_text_length [OF assms(1)])

lemma good_roomy:
  assumes "1 \<le> n" "n \<le> 19" "\<forall>i. 0 \<le> env_rand e i" "fork1_ok e" "fork2_ok e" "heap_ok (env_heap e)"
  shows "good_run (roomy e) (random_array e n)"
proof -
  let ?a = "random_array e n" and ?h = "env_heap (roomy e)"
  have d: "is_digit_list ?a" "length ?a = n" using random_digits [OF assms(3)] by simp_all
  have ne: "?a \<noteq> []" using d(2) assms(1) by auto
  have h: "heap_ok ?h" "64 + k \<le> usable ?h k" for k
    using assms(6) heap_ok_usable [OF assms(6)] by (simp_all add: roomy_def heap_ok_def trans_le_add1 add.commute)
  have l: "length (text1 ?a) = 2 * n" by (simp add: text1_def digits_text_length [OF d(1)] d(2))
  have c: "convertIntegerToString ?a (CHR '','') = Inr (Some (text1 ?a))"
    unfolding text1_def by (rule convertIntegerToString_text [OF ne])
  have "2 \<le> usable ?h 1 \<and> 2 * length ?a + 1 < usable ?h 32" using h(2) [of 1] h(2) [of 32] d(2) assms(2) by simp
  then have c1: "child1 ?h (first_fifo (text1 ?a)) = Inr (sum_text ?a)"
    using child1_exact [OF h(1) d(1) _ ne] d(2) assms(2) by (simp add: text1_def sum_text_def)
  have "length b < usable ?h 12" if "b \<in> texts2 ?a True True" for b
    using texts2_size [OF d(1) that] digit_sum_length [OF d(1)] d(2) assms(2) h(2) [of 12] by simp
  then have "\<forall>b\<in>texts2 ?a True True. child2 ?h b = Inr (to_int32 (prod_list ?a + sum_list ?a), total_lines ?a)"
    using child2_exact [OF d(1) _ h(1)] d(2) assms(2) by (simp add: texts2_both)
  moreover have "length (random_text (text1 ?a)) < BUFFER_LEN"
    using l assms(2) by (simp add: random_text_def BUFFER_LEN_def)
  ultimately show ?thesis using assms(4,5) c c1 by (simp add: good_run_def)
qed

section \<open>Runs with any allocator\<close>

text \<open>A child has written behind one of its blocks.\<close>

definition overflowed :: "calc_state \<Rightarrow> bool" where
  "overflowed s \<longleftrightarrow> c1 s = C1_fault OutOfBounds \<or> c2 s = C2_fault OutOfBounds"

definition hit :: "calc_state \<Rightarrow> bool" where
  "hit s \<longleftrightarrow> c1 s = C1_fault OutOfBounds \<and> main_at s \<noteq> M_fork1 \<or> c2 s = C2_fault OutOfBounds \<and> \<not> before_fork2 s"

lemma hit_overflowed: "hit s \<Longrightarrow> overflowed s"
  by (auto simp: hit_def overflowed_def)

lemma main_no_fork1: "main_step e s = Some s' \<Longrightarrow> main_at s' \<noteq> M_fork1"
  by (auto simp: main_step_def main_waits_def one_more_def main_ends_def split: calc_pc.splits if_splits sum.splits option.splits)

lemma main_after_fork2: "main_step e s = Some s' \<Longrightarrow> \<not> before_fork2 s \<Longrightarrow> \<not> before_fork2 s' \<and> c2 s' = c2 s"
  by (auto simp: main_step_def main_waits_def one_more_def main_ends_def before_fork2_def
      split: calc_pc.splits if_splits sum.splits option.splits)

lemma main_after_fork1: "main_step e s = Some s' \<Longrightarrow> main_at s \<noteq> M_fork1 \<Longrightarrow> c1 s' = c1 s"
  by (auto simp: main_step_def main_waits_def one_more_def main_ends_def split: calc_pc.splits if_splits sum.splits option.splits)

lemma child1_frame: "child1_step e s = Some s' \<Longrightarrow> main_at s' = main_at s \<and> c2 s' = c2 s"
  by (auto simp: child1_step_def c1_ends_def Let_def split: child1_pc.splits if_splits sum.splits list.splits)

lemma child2_frame: "child2_step e s = Some s' \<Longrightarrow> main_at s' = main_at s \<and> c1 s' = c1 s"
  by (auto simp: child2_step_def c2_ends_def c2_finish_def Let_def split: child2_pc.splits if_splits sum.splits list.splits)

lemma reap_frame: "reap_step s = Some s' \<Longrightarrow> main_at s' = main_at s \<and> c1 s' = c1 s \<and> c2 s' = c2 s"
  by (auto simp: reap_step_def split: if_splits option.splits)

lemma hit_step:
  assumes "hit s" "calc_step e p s = Some s'"
  shows "hit s'"
proof (cases p)
  case Parent
  then show ?thesis using assms main_no_fork1 main_after_fork1 main_after_fork2 by (fastforce simp: hit_def)
next
  case Child1
  then show ?thesis using assms child1_frame [of e s s'] by (auto simp: hit_def before_fork2_def child1_step_def)
next
  case Child2
  then show ?thesis using assms child2_frame [of e s s'] by (auto simp: hit_def before_fork2_def child2_step_def)
next
  case Reap
  then show ?thesis using assms reap_frame [of s s'] by (auto simp: hit_def before_fork2_def)
qed

text \<open>What the two children compute: the right text or a write behind a block.\<close>

definition child_results :: "calc_env \<Rightarrow> int list \<Rightarrow> bool" where
  "child_results e arr \<longleftrightarrow> child1 (env_heap e) (first_fifo (text1 arr)) \<in> {Inr (sum_text arr), Inl OutOfBounds}
     \<and> (\<forall>b\<in>texts2 arr True True. child2 (env_heap e) b \<in> {Inr (to_int32 (prod_list arr + sum_list arr), total_lines arr), Inl OutOfBounds})"

lemma calc_step_roomy:
  assumes "good_run (roomy e) arr" "child_results e arr" "calc_inv e arr s"
  shows "calc_step e p s = calc_step (roomy e) p s \<or> (\<exists>s'. calc_step e p s = Some s' \<and> hit s')"
proof -
  have inv: "first_inv arr s" "second_inv arr s" using assms(3) by (simp_all add: calc_inv_def)
  show ?thesis
  proof (cases p)
    case Parent
    have "main_step (roomy e) s = main_step e s" by (cases "main_at s") (simp_all add: main_step_def)
    then show ?thesis using Parent by simp
  next
    case Reap
    then show ?thesis by simp
  next
    case Child1
    show ?thesis
    proof (cases "\<exists>b. c1 s = C1_read b \<and> fifo1 s = [] \<and> \<not> writing1 s")
      case False
      then have "child1_step e s = child1_step (roomy e) s"
        by (auto simp: child1_step_def c1_ends_def roomy_def Let_def split: child1_pc.split list.split)
      then show ?thesis using Child1 by simp
    next
      case True
      then obtain b where b: "c1 s = C1_read b" "fifo1 s = []" "\<not> writing1 s" by blast
      then have "b = first_fifo (text1 arr)" "main_at s \<noteq> M_fork1" using inv(1) by (auto simp: first_defs split: calc_pc.splits)
      then have r: "child1 (env_heap (roomy e)) b = Inr (sum_text arr)" and m: "main_at s \<noteq> M_fork1"
        and c: "child1 (env_heap e) b = Inr (sum_text arr) \<or> child1 (env_heap e) b = Inl OutOfBounds"
        using assms(1,2) by (simp_all add: good_run_def child_results_def)
      from c show ?thesis
      proof
        assume "child1 (env_heap e) b = Inr (sum_text arr)"
        then show ?thesis using Child1 b r by (simp add: child1_step_def)
      next
        assume "child1 (env_heap e) b = Inl OutOfBounds"
        then have "calc_step e p s = Some (s\<lparr>c1 := C1_fault OutOfBounds\<rparr>)" using Child1 b by (simp add: child1_step_def)
        then show ?thesis using m by (simp add: hit_def)
      qed
    qed
  next
    case Child2
    show ?thesis
    proof (cases "\<exists>b. c2 s = C2_read b \<and> fifo2 s = [] \<and> both_seen b")
      case False
      have "c \<noteq> CHR 0x00" if "c2 s = C2_read b" "fifo2 s = c # r" for b c r
        using texts2_facts(1) [of "b @ fifo2 s" arr] inv(2) that by (auto simp: second_inv_def)
      then have "child2_step e s = child2_step (roomy e) s" using False
        by (auto simp: child2_step_def c2_ends_def roomy_def Let_def split: child2_pc.split list.split)
      then show ?thesis using Child2 by simp
    next
      case True
      then obtain b where b: "c2 s = C2_read b" "fifo2 s = []" "both_seen b" by blast
      then have t: "b \<in> texts2 arr (p_wrote s) (c_wrote s)" and m: "\<not> before_fork2 s" using inv(2) by (simp_all add: second_inv_def)
      then have "b \<in> texts2 arr True True" using texts2_facts(2) [OF t] b(3) by simp
      then have r: "child2 (env_heap (roomy e)) b = Inr (to_int32 (prod_list arr + sum_list arr), total_lines arr)"
        and c: "child2 (env_heap e) b = Inr (to_int32 (prod_list arr + sum_list arr), total_lines arr) \<or> child2 (env_heap e) b = Inl OutOfBounds"
        using assms(1,2) by (simp_all add: good_run_def child_results_def)
      from c show ?thesis
      proof
        assume "child2 (env_heap e) b = Inr (to_int32 (prod_list arr + sum_list arr), total_lines arr)"
        then show ?thesis using Child2 b r by (simp add: child2_step_def c2_finish_def c2_ends_def)
      next
        assume o: "child2 (env_heap e) b = Inl OutOfBounds"
        show ?thesis
        proof (cases "writing2p s \<or> writing2c s")
          case True
          then show ?thesis using Child2 b by (simp add: child2_step_def)
        next
          case False
          then have "calc_step e p s = Some (s\<lparr>c2 := C2_fault OutOfBounds\<rparr>)" using Child2 b o by (simp add: child2_step_def c2_finish_def)
          then show ?thesis using m by (simp add: hit_def before_fork2_def)
        qed
      qed
    qed
  qed
qed

lemma calc_run_roomy:
  assumes "good_run (roomy e) arr" "child_results e arr" "calc_inv e arr s"
  shows "sched_run (calc_step e) es s = sched_run (calc_step (roomy e)) es s \<or> hit (sched_run (calc_step e) es s)"
  using assms(3)
proof (induction es arbitrary: s)
  case (Cons p es)
  from calc_step_roomy [OF assms(1,2) Cons.prems, of p] show ?case
  proof
    assume eq: "calc_step e p s = calc_step (roomy e) p s"
    show ?thesis
    proof (cases "calc_step (roomy e) p s")
      case None
      then show ?thesis using eq Cons by simp
    next
      case (Some s')
      then have "calc_inv e arr s'" using calc_step_inv [OF assms(1), of s p s'] Cons.prems by simp
      then show ?thesis using Cons.IH [of s'] eq Some by simp
    qed
  next
    assume "\<exists>s'. calc_step e p s = Some s' \<and> hit s'"
    then obtain s' where s': "calc_step e p s = Some s'" "hit s'" by blast
    have "hit (sched_run (calc_step e) es s')"
      by (rule sched_run_invariant [where I = hit and step = "calc_step e"]) (use s'(2) hit_step in blast)+
    then show ?thesis using s'(1) by simp
  qed
qed simp

text \<open>
  When child 1 runs behind a block, it never gets to the second FIFO; when child 2 does, it
  never ends. Either way child 2 does not end.
\<close>

definition no_result :: "calc_env \<Rightarrow> int list \<Rightarrow> calc_state \<Rightarrow> bool" where
  "no_result e arr s \<longleftrightarrow> c2 s \<noteq> C2_end \<and> (child1 (env_heap e) (first_fifo (text1 arr)) = Inl OutOfBounds \<longrightarrow>
     (case c1 s of C1_none \<Rightarrow> True | C1_start \<Rightarrow> True | C1_open \<Rightarrow> True | C1_read b \<Rightarrow> True | _ \<Rightarrow> False))"

lemma no_result_step:
  assumes "good_run (roomy e) arr" "calc_inv e arr s" "no_result e arr s"
    and bad: "child1 (env_heap e) (first_fifo (text1 arr)) = Inl OutOfBounds \<or> (\<forall>b\<in>texts2 arr True True. child2 (env_heap e) b = Inl OutOfBounds)"
    and step: "calc_step e p s = Some s'" "calc_step (roomy e) p s = Some s'"
  shows "no_result e arr s'"
proof -
  have r: "calc_inv (roomy e) arr s" using assms(2) by simp
  have inv: "first_inv arr s" "second_inv arr s" using assms(2) by (simp_all add: calc_inv_def)
  show ?thesis
  proof (cases p)
    case Parent
    then have m: "main_step (roomy e) s = Some s'" using step(2) by simp
    show ?thesis using assms(3)
      by (cases rule: main_effect [OF assms(1) r m]; hypsubst) (simp_all add: no_result_def one_more_def main_ends_def)
  next
    case Child1
    then have s: "child1_step (roomy e) s = Some s'" "child1_step e s = Some s'" using step by simp_all
    show ?thesis
    proof (cases rule: child1_effect [OF assms(1) r s(1)])
      case (4 b l)
      then have "b = first_fifo (text1 arr)" using inv(1) by (auto simp: first_defs split: calc_pc.splits)
      then have "c1 s' = C1_fault OutOfBounds" if "child1 (env_heap e) (first_fifo (text1 arr)) = Inl OutOfBounds"
        using 4(1-3) s(2) that by (auto simp: child1_step_def)
      moreover have "c1 s' = C1_open2 (sum_text arr)" using 4(4) by simp
      ultimately have "child1 (env_heap e) (first_fifo (text1 arr)) \<noteq> Inl OutOfBounds" by auto
      then show ?thesis using assms(3) 4 by (simp add: no_result_def)
    qed (use assms(3) in \<open>auto simp: no_result_def c1_ends_def split: child1_pc.splits\<close>)
  next
    case Child2
    then have s: "child2_step (roomy e) s = Some s'" "child2_step e s = Some s'" using step by simp_all
    show ?thesis
    proof (cases rule: child2_effect [OF assms(1) r s(1)])
      case (5 b)
      then have b: "b \<in> texts2 arr True True" using inv(2) by (simp add: second_inv_def)
      have "child1 (env_heap e) (first_fifo (text1 arr)) \<noteq> Inl OutOfBounds"
        using assms(3) 5(4) by (auto simp: no_result_def c_wrote_def split: child1_pc.splits)
      then have "child2 (env_heap e) b = Inl OutOfBounds" using bad b by blast
      moreover have "both_seen b" using texts2_facts(2) [OF b] by simp
      ultimately have "c2 s' = C2_fault OutOfBounds" using s(2) 5(1,2) by (auto simp: child2_step_def c2_finish_def split: if_splits)
      then show ?thesis using 5(5) by (simp add: c2_ends_def)
    qed (use assms(3) in \<open>auto simp: no_result_def\<close>)
  next
    case Reap
    then show ?thesis using assms(3) reap_frame [of s s'] step(1) by (simp add: no_result_def)
  qed
qed

lemma no_result_run:
  assumes "good_run (roomy e) arr" "child_results e arr" "calc_inv e arr s" "no_result e arr s"
    and bad: "child1 (env_heap e) (first_fifo (text1 arr)) = Inl OutOfBounds \<or> (\<forall>b\<in>texts2 arr True True. child2 (env_heap e) b = Inl OutOfBounds)"
  shows "hit (sched_run (calc_step e) es s) \<or> c2 (sched_run (calc_step e) es s) \<noteq> C2_end"
proof -
  have "hit t \<or> calc_inv e arr t \<and> no_result e arr t" if "t = sched_run (calc_step e) es s" for t
    unfolding that
  proof (rule sched_run_invariant [where I = "\<lambda>t. hit t \<or> calc_inv e arr t \<and> no_result e arr t"])
    fix p t t'
    assume t: "hit t \<or> calc_inv e arr t \<and> no_result e arr t" and step: "calc_step e p t = Some t'"
    show "hit t' \<or> calc_inv e arr t' \<and> no_result e arr t'"
    proof (cases "hit t \<or> hit t'")
      case True
      then show ?thesis using hit_step step by blast
    next
      case False
      then have i: "calc_inv e arr t" "no_result e arr t" and r: "calc_step (roomy e) p t = Some t'"
        using t calc_step_roomy [OF assms(1,2), of t p] step by auto
      then show ?thesis
        using no_result_step [OF assms(1) i bad step r] calc_step_inv [OF assms(1), of t p t'] by simp
    qed
  qed (use assms(3,4) in simp)
  then show ?thesis by (auto simp: no_result_def)
qed

definition calc_start :: "nat \<Rightarrow> calc_state" where
  "calc_start n = \<lparr>argument = n, main_at = M_fork1, c1 = C1_none, c2 = C2_none, fifo1 = [], fifo2 = [],
     writing1 = False, writing2p = False, writing2c = False, opened1 = False, opened2 = False,
     name1 = True, name2 = True, str_freed = False, waiting = parent_start\<lparr>living := 0\<rparr>, zombies = [], calc_out = []\<rparr>"

lemma calc_start_inv: "calc_inv e (random_array e n) (calc_start n)"
  by (simp add: calc_inv_def calc_start_def first_inv_def second_defs wait_defs names_inv_def out_inv_def out_of_def parent_start_def)

lemma calc_start_rank:
  assumes "is_digit_list arr" "length arr = n" "n \<le> 19"
  shows "calc_rank arr (calc_start n) \<le> 4 * n + 36"
  using assms digit_sum_length [OF assms(1)]
  by (simp add: calc_rank_def calc_start_def main_rank_def c1_rank_def c2_rank_def first_fifo_def parent_second_def sum_text_def
      text1_def digits_text_length)

lemma calc_setup_ok: "0 < n \<Longrightarrow> calc_setup True True [prog, dec (int n)] False False = (Inr (calc_start n), True, True)"
  by (simp add: calc_setup_def calc_start_def atoi_dec Let_def)

text \<open>A process that has left the bounds of C, or was killed by a pipe without a reader.\<close>

definition calc_failed :: "calc_state \<Rightarrow> bool" where
  "calc_failed s \<longleftrightarrow> (case main_at s of M_fault f \<Rightarrow> True | M_killed \<Rightarrow> True | _ \<Rightarrow> False)
     \<or> (case c1 s of C1_fault f \<Rightarrow> True | _ \<Rightarrow> False) \<or> (case c2 s of C2_fault f \<Rightarrow> True | _ \<Rightarrow> False)"

lemma calc_inv_sound: "calc_inv e arr s \<Longrightarrow> \<not> calc_failed s"
  by (auto simp: calc_inv_def calc_failed_def first_defs second_inv_def split: calc_splits)

text \<open>What has to fit: a digit and its NUL in a block of 1, the texts in the blocks of the readers.\<close>

definition calc_fits :: "calc_env \<Rightarrow> nat \<Rightarrow> bool" where
  "calc_fits e n \<longleftrightarrow> 2 \<le> usable (env_heap e) 1 \<and> 2 * n + 1 < usable (env_heap e) 32
     \<and> 2 * n + 10 + length (dec (sum_list (random_array e n))) < usable (env_heap e) 12"

text \<open>
  C19. The calculator prints the right total or runs over the heap, and which of the two depends
  only on the allocator. Assumed of it is what is documented: a block has at least the size
  asked for. For every argument from 1 to 19, started with both FIFO names free: if the
  blocks have room for what the children write (\<open>calc_fits\<close>; they need more than the program
  asks for), then after any schedule of the parent, its children and the signal no process
  has failed and child 2 has printed nothing wrong, and after 4 n + 36 rounds in which each of the
  three processes runs at least once, in any order, child 2 has ended and printed the
  product, the sum and the total of the digits. If they have not, then in every schedule
  child 2 prints no result before a child has written behind its block, and after the same
  number of rounds one of them has. An allocator that gives exactly what is asked for has
  never room enough.
\<close>

theorem fifo_system_total:
  assumes "1 \<le> n" "n \<le> 19" "\<forall>i. 0 \<le> env_rand e i" "fork1_ok e" "fork2_ok e" "heap_ok (env_heap e)"
  shows "\<exists>s0. calc_setup True True [prog, dec (int n)] False False = (Inr s0, True, True)
    \<and> (if calc_fits e n
       then (\<forall>es. \<not> calc_failed (sched_run (calc_step e) es s0) \<and> out_of Child2 (sched_run (calc_step e) es s0)
              \<in> {[], [entered2 (pid2 e)], entered2 (pid2 e) # total_lines (random_array e n)})
         \<and> (\<forall>rs. 4 * n + 36 \<le> length rs \<and> (\<forall>r\<in>set rs. {Parent, Child1, Child2} \<subseteq> set r)
            \<longrightarrow> c2 (sched_run (calc_step e) (concat rs) s0) = C2_end
              \<and> out_of Child2 (sched_run (calc_step e) (concat rs) s0) = entered2 (pid2 e) # total_lines (random_array e n))
       else (\<forall>es. overflowed (sched_run (calc_step e) es s0) \<or> \<not> calc_failed (sched_run (calc_step e) es s0)
              \<and> out_of Child2 (sched_run (calc_step e) es s0) \<in> {[], [entered2 (pid2 e)]})
         \<and> (\<forall>rs. 4 * n + 36 \<le> length rs \<and> (\<forall>r\<in>set rs. {Parent, Child1, Child2} \<subseteq> set r)
            \<longrightarrow> overflowed (sched_run (calc_step e) (concat rs) s0)))
    \<and> ((\<forall>k. usable (env_heap e) k = k) \<longrightarrow> \<not> calc_fits e n)"
proof -
  let ?a = "random_array e n" and ?s = "calc_start n"
  have d: "is_digit_list ?a" "length ?a = n" "length ?a \<le> 19" "?a \<noteq> []"
    using random_digits [OF assms(3), of n] assms(1,2) by auto
  note good = good_roomy [OF assms]
  have c1: "child1 (env_heap e) (first_fifo (text1 ?a)) = (if 2 \<le> usable (env_heap e) 1 \<and> 2 * n + 1 < usable (env_heap e) 32
      then Inr (sum_text ?a) else Inl OutOfBounds)"
    using child1_exact [OF assms(6) d(1,3,4)] d(2) by (simp add: text1_def sum_text_def)
  have c2: "child2 (env_heap e) b = (if 2 * n + 10 + length (dec (sum_list ?a)) < usable (env_heap e) 12
      then Inr (to_int32 (prod_list ?a + sum_list ?a), total_lines ?a) else Inl OutOfBounds)" if "b \<in> texts2 ?a True True" for b
    using child2_exact [OF d(1,3) assms(6)] that texts2_size [OF d(1) that] d(2) by (simp add: texts2_both)
  have res: "child_results e ?a" using c1 c2 by (simp add: child_results_def)
  note inv0 = calc_start_inv [of e n]
  have same: "sched_run (calc_step e) es ?s = sched_run (calc_step (roomy e)) es ?s \<or> hit (sched_run (calc_step e) es ?s)" for es
    by (rule calc_run_roomy [OF good res inv0])
  have inv: "calc_inv e ?a (sched_run (calc_step (roomy e)) es ?s)" for es
    using calc_run_inv [OF good, of ?s es] inv0 by simp
  then have out: "out_inv (pid2 e) ?a (sched_run (calc_step (roomy e)) es ?s)" for es by (simp add: calc_inv_def)
  have safe: "\<not> calc_failed (sched_run (calc_step (roomy e)) es ?s)
      \<and> out_of Child2 (sched_run (calc_step (roomy e)) es ?s) \<in> {[], [entered2 (pid2 e)], entered2 (pid2 e) # total_lines ?a}
      \<and> (c2 (sched_run (calc_step (roomy e)) es ?s) \<noteq> C2_end \<longrightarrow>
          out_of Child2 (sched_run (calc_step (roomy e)) es ?s) \<in> {[], [entered2 (pid2 e)]})" for es
    using out [of es] calc_inv_sound [OF inv] by (auto simp: out_inv_def split: child2_pc.splits)
  have rank: "calc_rank ?a ?s \<le> 4 * n + 36" using calc_start_rank d(1,2) assms(2) by blast
  have done2: "c2 (sched_run (calc_step (roomy e)) (concat rs) ?s) = C2_end"
    if "4 * n + 36 \<le> length rs" "\<forall>r\<in>set rs. {Parent, Child1, Child2} \<subseteq> set r" for rs
  proof (rule calc_rounds.rounds_reach)
    show "good_run (roomy e) ?a \<and> calc_inv (roomy e) ?a ?s" using good inv0 by simp
    show "calc_rank ?a ?s \<le> length rs" using rank that(1) by simp
  qed (use that(2) in blast)
  have "if calc_fits e n
       then (\<forall>es. \<not> calc_failed (sched_run (calc_step e) es ?s) \<and> out_of Child2 (sched_run (calc_step e) es ?s)
              \<in> {[], [entered2 (pid2 e)], entered2 (pid2 e) # total_lines ?a})
         \<and> (\<forall>rs. 4 * n + 36 \<le> length rs \<and> (\<forall>r\<in>set rs. {Parent, Child1, Child2} \<subseteq> set r)
            \<longrightarrow> c2 (sched_run (calc_step e) (concat rs) ?s) = C2_end
              \<and> out_of Child2 (sched_run (calc_step e) (concat rs) ?s) = entered2 (pid2 e) # total_lines ?a)
       else (\<forall>es. overflowed (sched_run (calc_step e) es ?s) \<or> \<not> calc_failed (sched_run (calc_step e) es ?s)
              \<and> out_of Child2 (sched_run (calc_step e) es ?s) \<in> {[], [entered2 (pid2 e)]})
         \<and> (\<forall>rs. 4 * n + 36 \<le> length rs \<and> (\<forall>r\<in>set rs. {Parent, Child1, Child2} \<subseteq> set r)
            \<longrightarrow> overflowed (sched_run (calc_step e) (concat rs) ?s))"
  proof (cases "calc_fits e n")
    case True
    then have "good_run e ?a" using good c1 c2 by (simp add: good_run_def calc_fits_def)
    then have i: "calc_inv e ?a (sched_run (calc_step e) es ?s)" for es by (rule calc_run_inv [OF _ inv0])
    have "\<not> hit (sched_run (calc_step e) es ?s)" for es
      using calc_inv_sound [OF i [of es]] by (auto simp: hit_def calc_failed_def)
    then have eq: "sched_run (calc_step e) es ?s = sched_run (calc_step (roomy e)) es ?s" for es using same by blast
    show ?thesis using True safe done2 out unfolding eq by (simp add: out_inv_def)
  next
    case False
    then have bad: "child1 (env_heap e) (first_fifo (text1 ?a)) = Inl OutOfBounds \<or> (\<forall>b\<in>texts2 ?a True True. child2 (env_heap e) b = Inl OutOfBounds)"
      using c1 c2 by (auto simp: calc_fits_def)
    have none: "no_result e ?a ?s" by (simp add: no_result_def calc_start_def)
    have n: "hit (sched_run (calc_step e) es ?s) \<or> c2 (sched_run (calc_step e) es ?s) \<noteq> C2_end" for es
      by (rule no_result_run [OF good res inv0 none bad])
    have "overflowed (sched_run (calc_step e) es ?s) \<or> \<not> calc_failed (sched_run (calc_step e) es ?s)
              \<and> out_of Child2 (sched_run (calc_step e) es ?s) \<in> {[], [entered2 (pid2 e)]}" for es
      using same [of es] n [of es] safe [of es] hit_overflowed by metis
    moreover have "overflowed (sched_run (calc_step e) (concat rs) ?s)"
      if "4 * n + 36 \<le> length rs \<and> (\<forall>r\<in>set rs. {Parent, Child1, Child2} \<subseteq> set r)" for rs
      using same [of "concat rs"] n [of "concat rs"] done2 that hit_overflowed by metis
    ultimately show ?thesis using False by simp
  qed
  moreover have "\<not> calc_fits e n" if "\<forall>k. usable (env_heap e) k = k" using that by (simp add: calc_fits_def)
  moreover have "calc_setup True True [prog, dec (int n)] False False = (Inr ?s, True, True)"
    using assms(1) by (intro calc_setup_ok) simp
  ultimately show ?thesis by (intro exI [of _ ?s]) blast
qed

theorem fifo_system_total_witness:
  "\<exists>s0. calc_setup True True [''hw2'', dec 3] False False = (Inr s0, True, True)
    \<and> out_of Child2 (sched_run (calc_step \<lparr>env_heap = glibc_heap, env_rand = (\<lambda>i. 12 + int i), fork1_ok = True, fork2_ok = True,
          pid1 = 7, pid2 = 8\<rparr>) (concat (replicate 48 [Parent, Reap, Child2, Child1])) s0) = entered2 8 # total_lines [2, 3, 4]"
proof -
  let ?e = "\<lparr>env_heap = glibc_heap, env_rand = (\<lambda>i. 12 + int i), fork1_ok = True, fork2_ok = True, pid1 = 7, pid2 = 8\<rparr>"
  have "random_array ?e 3 = [2, 3, 4]" by code_simp
  moreover have "heap_ok (env_heap ?e)" using glibc_ok by simp
  moreover have "calc_fits ?e 3" by code_simp
  moreover have "4 * 3 + 36 \<le> length (replicate 48 [Parent, Reap, Child2, Child1])
      \<and> (\<forall>r\<in>set (replicate 48 [Parent, Reap, Child2, Child1]). {Parent, Child1, Child2} \<subseteq> set r)" by simp
  ultimately show ?thesis using fifo_system_total [of 3 ?e "''hw2''"] by force
qed

end
