(* ===== verification/MidCommand.thy ===== *)
theory MidCommand
  imports CText
begin

text \<open>
  The command language of the file server of \<^verbatim>\<open>midterm\<close>: \<open>splitStringIntoArray_S\<close> of
  \<^verbatim>\<open>common.c\<close> cuts a request at its blanks into at most four words, \<open>checkCommand\<close> and
  \<open>handle_client_request\<close> of \<^verbatim>\<open>server.c\<close> recognise it, \<open>helpHelper\<close> has the help texts.
\<close>

section \<open>Splitting a request\<close>

definition BUFF_SIZE :: nat where "BUFF_SIZE = 256"
definition MAX_ARGUMENT :: nat where "MAX_ARGUMENT = 4"
definition WORD_LEN :: nat where "WORD_LEN = 32"

definition mid_count :: "string \<Rightarrow> char \<Rightarrow> nat" where
  "mid_count str delim = length (filter (\<lambda>c. c = delim) str) + 1"

text \<open>The words stored so far, in order; the rest of the array keeps what it held.\<close>

fun mid_split_loop :: "char \<Rightarrow> string \<Rightarrow> string list \<Rightarrow> string \<Rightarrow> string list cres" where
  "mid_split_loop delim temp ws [] =
     (if WORD_LEN \<le> length temp then Inl OutOfBounds else Inr (ws @ [temp]))"
| "mid_split_loop delim temp ws (c # s) =
     (if WORD_LEN \<le> length temp then Inl OutOfBounds
      else if c = delim then mid_split_loop delim [] (ws @ [temp]) s
      else mid_split_loop delim (temp @ [c]) ws s)"

definition mid_split_I :: "string \<Rightarrow> char \<Rightarrow> string list \<Rightarrow> (string list) cres" where
  "mid_split_I str delim splitted = cbind (mid_split_loop delim [] [] str) (\<lambda>ws.
     if length splitted < length ws then Inl OutOfBounds
     else Inr (ws @ drop (length ws) splitted))"

text \<open>The size, -1 when there are more than four words, and the array.\<close>

definition mid_split_S :: "string \<Rightarrow> char \<Rightarrow> string list \<Rightarrow> (int \<times> string list) cres" where
  "mid_split_S str delim splitted =
     (let cnt = mid_count str delim in
      if cnt > 4 \<or> cnt < 1 then Inr (-1, splitted)
      else cbind (mid_split_I str delim splitted) (\<lambda>sp. Inr (int cnt, sp)))"

lemma mid_count_split: "mid_count s d = length (split_on d s)"
  by (induction s) (auto simp: mid_count_def split: list.split)

lemma mid_split_loop_words:
  assumes "\<forall>w\<in>set (split_on d s). length w < WORD_LEN" "length temp + length (hd (split_on d s)) < WORD_LEN"
  shows "mid_split_loop d temp ws s = Inr (ws @ (temp @ hd (split_on d s)) # tl (split_on d s))"
  using assms
proof (induction s arbitrary: temp ws)
  case Nil
  then show ?case by simp
next
  case (Cons c s)
  obtain u us where u: "split_on d s = u # us" by (cases "split_on d s") auto
  show ?case
  proof (cases "c = d")
    case True
    then have "length u < WORD_LEN" "\<forall>w\<in>set (split_on d s). length w < WORD_LEN" using Cons.prems u by simp_all
    then show ?thesis using True u Cons.IH [of "[]" "ws @ [temp]"] Cons.prems(2) by simp
  next
    case False
    then have "length (temp @ [c]) + length (hd (split_on d s)) < WORD_LEN" using Cons.prems u by simp
    moreover have "\<forall>w\<in>set (split_on d s). length w < WORD_LEN" using Cons.prems(1) False u by auto
    ultimately show ?thesis using False u Cons.IH [of "temp @ [c]" ws] by simp
  qed
qed

lemma mid_split_S_words:
  assumes "\<forall>w\<in>set (split_on d s). length w < WORD_LEN" "length (split_on d s) \<le> 4" "length splitted = 4"
  shows "mid_split_S s d splitted
    = Inr (int (length (split_on d s)), split_on d s @ drop (length (split_on d s)) splitted)"
proof -
  obtain u us where u: "split_on d s = u # us" by (cases "split_on d s") auto
  then have "mid_split_loop d [] [] s = Inr (split_on d s)"
    using mid_split_loop_words [of d s "[]" "[]"] assms(1) by simp
  then show ?thesis using assms(2,3) u by (simp add: mid_split_S_def mid_split_I_def mid_count_split)
qed

lemma split_on_join: "\<forall>w\<in>set ws. d \<notin> set w \<Longrightarrow> ws \<noteq> [] \<Longrightarrow> split_on d (concat (map (\<lambda>w. w @ [d]) (butlast ws)) @ last ws) = ws"
proof (induction ws)
  case (Cons w ws)
  then show ?case by (cases "ws = []") (auto simp: split_on_word split_on_app)
qed simp

section \<open>Commands\<close>

datatype command_level =
    INVALID_COMMAND | HELP | LIST | READF | WRITET | UPLOAD | DOWNLOAD | ARCHIVE | KILL | QUIT

definition checkCommand :: "string \<Rightarrow> int \<Rightarrow> command_level" where
  "checkCommand command sz =
     (if command = ''help'' then (if sz = 1 \<or> sz = 2 then HELP else INVALID_COMMAND)
      else if command = ''list'' then (if sz \<noteq> 1 then INVALID_COMMAND else LIST)
      else if command = ''readF'' then (if sz = 3 \<or> sz = 2 then READF else INVALID_COMMAND)
      else if command = ''writeT'' then (if sz = 3 \<or> sz = 4 then WRITET else INVALID_COMMAND)
      else if command = ''upload'' then (if sz \<noteq> 2 then INVALID_COMMAND else UPLOAD)
      else if command = ''download'' then (if sz \<noteq> 2 then INVALID_COMMAND else DOWNLOAD)
      else if command = ''arcServer'' then (if sz \<noteq> 2 then INVALID_COMMAND else ARCHIVE)
      else if command = ''killServer'' then (if sz \<noteq> 1 then INVALID_COMMAND else KILL)
      else if command = ''quit'' then (if sz \<noteq> 1 then INVALID_COMMAND else QUIT)
      else INVALID_COMMAND)"

definition handle_client_request :: "string \<Rightarrow> string list \<Rightarrow> (command_level \<times> string list) cres" where
  "handle_client_request command splitted =
     cbind (mid_split_S command (CHR '' '') splitted) (\<lambda>(sz, splitted).
       if sz = -1 then Inr (INVALID_COMMAND, splitted)
       else Inr (checkCommand (splitted ! 0) sz, splitted))"

section \<open>Help\<close>

definition tab :: char where "tab = CHR 0x09"

definition head_line :: "string \<Rightarrow> string \<Rightarrow> string" where
  "head_line a b = a @ [newline, tab] @ b"

text \<open>The quotation marks of the help on \<open>writeT\<close> are three bytes each in the source.\<close>

definition open_quote :: string where "open_quote = [CHR 0xE2, CHR 0x80, CHR 0x9C]"
definition close_quote :: string where "close_quote = [CHR 0xE2, CHR 0x80, CHR 0x9D]"

definition help_text :: "string \<Rightarrow> string" where
  "help_text c =
     (if c = ''readF'' then head_line ''readF <file> <line #>''
        ''display the #th line of the <file>, returns with an error if <file> does not exists''
      else if c = ''help'' then head_line ''help'' ''display the list of possible client requests''
      else if c = ''list'' then head_line ''list''
        ('' sends a request to display the list of files in Servers directory''
          @ [newline, tab] @ ''(also displays the list received from the Server)'')
      else if c = ''writeT'' then head_line ''writeT <file> <line #> <string>''
        (''request to write the content of '' @ open_quote @ ''string'' @ close_quote
          @ '' to the #th line the <file>, if the line # is not given writes to the end of file. If the file does not exists in Servers directory creates and edits the file at the same time'')
      else if c = ''upload'' then head_line ''upload <file>''
        ''uploads the file from the current working directory of client to the Servers directory''
      else if c = ''download'' then head_line ''download <file>''
        ''request to receive <file> from Servers directory to client side''
      else if c = ''archServer'' then head_line ''archServer <fileName>.tar''
        ''Using fork, exec and tar utilities create a child process that will collect all the files currently available on the the Server side and store them in the <filename>.tar archive''
      else if c = ''killServer'' then head_line ''killServer'' ''Sends a kill request to the Server''
      else if c = ''quit'' then head_line ''quit'' ''Send write request to Server side log file and quits''
      else ''Invalid command entered by user'')"

text \<open>\<^verbatim>\<open>snprintf\<close> into a buffer of \<open>BUFF_SIZE\<close>: what is stored, and the full length returned.\<close>

definition c_snprintf :: "string \<Rightarrow> string \<times> nat" where
  "c_snprintf s = (take (BUFF_SIZE - 1) s, length s)"

definition helpHelper :: "string \<Rightarrow> string \<times> nat" where
  "helpHelper secCommand = c_snprintf (help_text secCommand)"

lemma help_text_fits: "length (help_text c) < BUFF_SIZE"
  by (simp add: help_text_def head_line_def BUFF_SIZE_def open_quote_def close_quote_def)

lemma helpHelper_text: "helpHelper c = (help_text c, length (help_text c))"
  using help_text_fits [of c] by (simp add: helpHelper_def c_snprintf_def)

end
