(* ===== verification/MidFile.thy ===== *)
theory MidFile
  imports MidCommand
begin

text \<open>
  The file commands of the server of \<^verbatim>\<open>midterm/server.c\<close>. \<open>writeT\<close> inserts a line by
  cutting the file in two through a temporary file (\<open>createTempAndDelete\<close>,
  \<open>appendToFile\<close>, \<open>copyTempAndDelete\<close>, \<open>writeTMiddle\<close>), \<open>readF\<close> reads one line;
  \<open>send_response\<close> and the loop of the child process turn a request into a reply. A file is
  its contents; the state maps path names to contents. The offsets and the numbers of lines are
  \<^verbatim>\<open>int\<close>s in the program and unbounded here: files and line numbers of 2^31 and more are outside
  the model.
\<close>

section \<open>Editing a file\<close>

text \<open>The offset behind the newline number n-1; 0 when there is none.\<close>

fun line_offset :: "int \<Rightarrow> int \<Rightarrow> nat \<Rightarrow> string \<Rightarrow> nat" where
  "line_offset n newline_count offset [] = 0"
| "line_offset n newline_count offset (c # s) =
     (let nc = (if c = newline then newline_count + 1 else newline_count) in
      if c = newline \<and> nc = n - 1 then offset + 1
      else if nc = n - 1 then 0
      else line_offset n nc (offset + 1) s)"

text \<open>The temporary file receives the tail, the file keeps the head.\<close>

definition createTempAndDelete :: "int \<Rightarrow> string \<Rightarrow> string \<times> string" where
  "createTempAndDelete n src =
     (let off = line_offset n 0 0 src in (take off src, drop off src))"

definition appendToFile :: "string \<Rightarrow> string \<Rightarrow> string" where
  "appendToFile src str = src @ str"

definition copyTempAndDelete :: "string \<Rightarrow> string \<Rightarrow> string" where
  "copyTempAndDelete src temp = src @ temp"

definition edit_middle :: "int \<Rightarrow> string \<Rightarrow> string \<Rightarrow> string" where
  "edit_middle n str src =
     (let (src1, temp) = createTempAndDelete n src in copyTempAndDelete (appendToFile src1 str) temp)"

text \<open>\<open>readFHelper\<close>: \<open>line\<close> holds the characters of the current line.\<close>

fun readF_loop :: "int \<Rightarrow> int \<Rightarrow> string \<Rightarrow> string \<Rightarrow> string cres" where
  "readF_loop lineNum line_number line [] =
     (if BUFF_SIZE \<le> length line then Inl OutOfBounds else Inr line)"
| "readF_loop lineNum line_number line (c # s) =
     (if c \<noteq> newline
      then if BUFF_SIZE \<le> length line then Inl OutOfBounds
           else readF_loop lineNum line_number (line @ [c]) s
      else if line_number = lineNum
      then if BUFF_SIZE \<le> length line then Inl OutOfBounds else Inr line
      else readF_loop lineNum (line_number + 1) [] s)"

definition readFHelper :: "string option \<Rightarrow> int \<Rightarrow> string cres" where
  "readFHelper file lineNum =
     (case file of None \<Rightarrow> Inr [] | Some s \<Rightarrow> readF_loop lineNum 1 [] s)"

section \<open>The server\<close>

record mid =
  mid_files :: "string \<Rightarrow> string option"
  mid_log :: "string list"

datatype transfer = Consume string | Produce string

datatype reply = Reply string | NoReply | Bye string | KillServer

definition writeToLog :: "string \<Rightarrow> mid \<Rightarrow> mid" where
  "writeToLog msg w = w\<lparr>mid_log := mid_log w @ [msg]\<rparr>"

definition mid_fits :: "string \<Rightarrow> string cres" where
  "mid_fits s = (if length s < BUFF_SIZE then Inr s else Inl OutOfBounds)"

text \<open>A message formatted into \<open>buffR\<close>, then a NUL at the length \<^verbatim>\<open>snprintf\<close> returned.\<close>

definition format_reply :: "string \<Rightarrow> string cres" where
  "format_reply msg = (let (s, n) = c_snprintf msg in if n < BUFF_SIZE then Inr s else Inl OutOfBounds)"

lemma format_reply_fits: "format_reply msg = mid_fits msg"
  by (simp add: format_reply_def c_snprintf_def mid_fits_def)

definition writeTHelper :: "string \<Rightarrow> int \<Rightarrow> string \<Rightarrow> mid \<Rightarrow> (string \<times> mid) cres" where
  "writeTHelper filename lineNum str w =
     cbind (mid_fits (str @ [newline])) (\<lambda>line.
       let old = (case mid_files w filename of None \<Rightarrow> [] | Some s \<Rightarrow> s);
           quot = CHR 0x22
       in if lineNum = -1
          then cbind (format_reply (''String '' @ [quot] @ line @ [quot] @ '' Added at the end of file '' @ [newline]))
            (\<lambda>msg. Inr (msg, w\<lparr>mid_files := (mid_files w)(filename \<mapsto> old @ line)\<rparr>))
          else cbind (format_reply (''String '' @ [quot] @ line @ [quot] @ '' Added at the '' @ dec lineNum
                  @ '' line of file '' @ [newline]))
            (\<lambda>msg. Inr (msg, w\<lparr>mid_files := (mid_files w)(filename \<mapsto> edit_middle lineNum line old)\<rparr>)))"

definition mid_path :: "string \<Rightarrow> string \<Rightarrow> string cres" where
  "mid_path folder name = mid_fits (folder @ ''/'' @ name)"

fun list_text :: "string list \<Rightarrow> string \<Rightarrow> string cres" where
  "list_text [] temp = Inr temp"
| "list_text (n # ns) temp = cbind (mid_fits (temp @ n @ [newline])) (list_text ns)"

text \<open>The log line is cut by \<^verbatim>\<open>snprintf\<close>.\<close>

definition log_cut :: "string \<Rightarrow> mid \<Rightarrow> mid" where
  "log_cut msg w = writeToLog (fst (c_snprintf msg)) w"

definition available_text :: string where
  "available_text = ''Available comments are :'' @ [newline]
     @ ''help, list, readF, writeT, upload, download, archServer,quit, killServer'' @ [newline]"

text \<open>
  \<open>send_response\<close>; \<open>listing\<close> is what \<open>opendir\<close> and \<open>readdir\<close> deliver for the folder.
\<close>

definition send_response ::
    "string list \<Rightarrow> command_level \<Rightarrow> string \<Rightarrow> string list option \<Rightarrow> int \<Rightarrow> mid \<Rightarrow> (reply \<times> mid) cres" where
  "send_response cmd com folder listing sz w = (case com of
      HELP \<Rightarrow>
        if cmd ! 1 = [] then Inr (Reply available_text, writeToLog available_text w)
        else let (t, n) = helpHelper (cmd ! 1)
             in if n < BUFF_SIZE then Inr (Reply t, writeToLog t w) else Inl OutOfBounds
    | LIST \<Rightarrow>
        (case listing of None \<Rightarrow> Inr (NoReply, w)
         | Some names \<Rightarrow> cbind (list_text names []) (\<lambda>t. Inr (Reply t, writeToLog t w)))
    | READF \<Rightarrow> cbind (mid_path folder (cmd ! 1)) (\<lambda>path.
        let line_num = c_atoi (cmd ! 2) in
        if line_num > 0
        then cbind (readFHelper (mid_files w path) line_num) (\<lambda>line.
          Inr (Reply (c_string line), log_cut (''>> read '' @ dec line_num @ '' line of file: '' @ path @ [newline]) w))
        else Inr (NoReply, w))
    | WRITET \<Rightarrow> cbind (mid_path folder (cmd ! 1)) (\<lambda>path.
        if sz = 3
        then cbind (writeTHelper path (-1) (cmd ! 2) w) (\<lambda>(msg, w).
          Inr (Reply msg, log_cut (''>> write end of file '' @ msg @ [newline]) w))
        else if sz = 4
        then cbind (writeTHelper path (c_atoi (cmd ! 2)) (cmd ! 3) w) (\<lambda>(msg, w).
          Inr (Reply msg, log_cut (''>> write '' @ dec (c_atoi (cmd ! 2)) @ '' line of file: '' @ path
            @ '', string: '' @ msg @ [newline]) w))
        else Inr (NoReply, w))
    | UPLOAD \<Rightarrow> cbind (mid_path folder (cmd ! 1)) (\<lambda>path.
        cbind (mid_fits (''upload '' @ path)) (\<lambda>r. Inr (Reply r, w)))
    | DOWNLOAD \<Rightarrow> cbind (mid_path folder (cmd ! 1)) (\<lambda>path.
        cbind (mid_fits (''download '' @ path)) (\<lambda>r. Inr (Reply r, w)))
    | KILL \<Rightarrow> Inr (KillServer, writeToLog (''>> killing server and all clients...'' @ [newline]) w)
    | _ \<Rightarrow> Inr (NoReply, w))"

definition bye_text :: string where
  "bye_text = ''Sending write request to server log file'' @ [newline] @ ''waiting for log file'' @ [newline]
     @ ''logfile write request granted'' @ [newline] @ ''bye..'' @ [newline]"

text \<open>
  One round of the child process that serves a client: the reply, and the transfer process
  it forks, which depends on how the text in the child's own buffer begins: the request, or
  the message that has replaced an invalid one.
\<close>

definition spawned :: "string \<Rightarrow> string \<Rightarrow> string \<Rightarrow> transfer option" where
  "spawned folder name text =
     (if c_strncmp0 text ''upload'' 6 then Some (Consume (folder @ ''/'' @ name))
      else if c_strncmp0 text ''download'' 8 then Some (Produce (folder @ ''/'' @ name))
      else None)"

definition serve_round ::
    "string \<Rightarrow> string list option \<Rightarrow> string \<Rightarrow> string list \<Rightarrow> mid \<Rightarrow> (reply \<times> transfer option \<times> mid) cres" where
  "serve_round folder listing request splitted w =
     cbind (handle_client_request request splitted) (\<lambda>(lev, sp).
       if lev = INVALID_COMMAND
       then cbind (format_reply (''Invalid command number entered : '' @ request @ [newline])) (\<lambda>r.
              Inr (Reply r, spawned folder (sp ! 1) r, w))
       else if lev = QUIT then Inr (Bye bye_text, None, writeToLog bye_text w)
       else cbind (mid_split_S request (CHR '' '') sp) (\<lambda>(sz, sp).
            cbind (send_response sp lev folder listing sz w) (\<lambda>(r, w).
              Inr (r, (case r of KillServer \<Rightarrow> None | _ \<Rightarrow> spawned folder (sp ! 1) request), w))))"

section \<open>The client\<close>

text \<open>
  \<^verbatim>\<open>midterm/client.c\<close>: the command read from the terminal loses its last character, and the
  transfer that the client starts after a reply depends on how the reply begins.
\<close>

definition client_command :: "string \<Rightarrow> string cres" where
  "client_command input =
     (if BUFF_SIZE \<le> length input \<or> c_string input = [] then Inl OutOfBounds
      else Inr (butlast (c_string input)))"

definition client_transfer :: "string list \<Rightarrow> string \<Rightarrow> transfer option" where
  "client_transfer splitted reply =
     (if c_strncmp0 reply ''upload'' 6 \<and> splitted ! 0 \<noteq> ''help'' then Some (Produce (splitted ! 1))
      else if c_strncmp0 reply ''download'' 8 \<and> splitted ! 0 \<noteq> ''help'' then Some (Consume (splitted ! 1))
      else None)"

text \<open>
  One round of the two together: what the client shows, the transfer it starts and the one
  the server starts. A request without a reply leaves the client reading for ever.
\<close>

datatype shown = Shows string "transfer option" "transfer option" | ClientEnds

definition session_round ::
    "string \<Rightarrow> string list option \<Rightarrow> string \<Rightarrow> string list \<Rightarrow> string list \<Rightarrow> mid
       \<Rightarrow> (shown \<times> string list \<times> mid) cres" where
  "session_round folder listing input csp ssp w =
     cbind (client_command input) (\<lambda>req.
     cbind (mid_split_S req (CHR '' '') csp) (\<lambda>(sz, csp).
     cbind (serve_round folder listing req ssp w) (\<lambda>(r, tr, w).
       case r of
         Reply t \<Rightarrow> Inr (Shows t (client_transfer csp t) tr, csp, w)
       | NoReply \<Rightarrow> Inl NeverReturns
       | _ \<Rightarrow> Inr (ClientEnds, csp, w))))"

end
