(* ===== verification/MidProps.thy ===== *)
theory MidProps
  imports MidFile
begin

text \<open>
  What the requests of the file server do: a request of up to four short words is read back
  word by word; \<open>writeT\<close> inserts a line and \<open>readF\<close> reads it; and the requests that go
  wrong: those without any reply, the help text that starts a transfer, the ones that
  overflow a buffer, and a line number behind the end.
\<close>

section \<open>Inserting a line\<close>

lemma line_offset_line:
  "newline \<notin> set l \<Longrightarrow> nc \<noteq> n - 1 \<Longrightarrow> line_offset n nc off (l @ s) = line_offset n nc (off + length l) s"
  by (induction l arbitrary: off) (auto simp: Let_def)

lemma line_offset_beyond: "n - 1 < nc \<Longrightarrow> line_offset n nc off s = 0"
  by (induction s arbitrary: nc off) (simp_all add: Let_def)

lemma line_offset_start: "line_offset 1 0 off s = 0"
  by (cases s) (simp_all add: Let_def line_offset_beyond)

definition lines_ok :: "string list \<Rightarrow> bool" where
  "lines_ok ls \<longleftrightarrow> (\<forall>l\<in>set ls. newline \<notin> set l)"

lemma line_offset_text:
  assumes "lines_ok ls" "nc < n - 1"
  shows "line_offset n nc off (text_of ls)
    = (if n - 1 - nc \<le> int (length ls) then off + length (text_of (take (nat (n - 1 - nc)) ls)) else 0)"
  using assms
proof (induction ls arbitrary: nc off)
  case (Cons l ls)
  have l: "newline \<notin> set l" "lines_ok ls" using Cons.prems by (simp_all add: lines_ok_def)
  have e: "line_offset n nc off (text_of (l # ls)) = line_offset n nc (off + length l) (newline # text_of ls)"
    using line_offset_line [OF l(1), of nc n off] Cons.prems by (simp add: ln_def)
  show ?case
  proof (cases "nc + 1 = n - 1")
    case True
    then have n: "n = nc + 2" by simp
    show ?thesis unfolding e unfolding n by (simp add: ln_def)
  next
    case False
    then have lt: "nc + 1 < n - 1" using Cons.prems by simp
    then have s: "nat (n - 1 - nc) = Suc (nat (n - 1 - (nc + 1)))" by simp
    have "line_offset n nc (off + length l) (newline # text_of ls) = line_offset n (nc + 1) (off + length l + 1) (text_of ls)"
      using lt by (simp add: Let_def)
    then show ?thesis unfolding e using Cons.IH [OF l(2) lt, of "off + length l + 1"] lt s
      by (simp add: ln_def)
  qed
qed simp

definition insert_line :: "int \<Rightarrow> string \<Rightarrow> string list \<Rightarrow> string list" where
  "insert_line n s ls =
     (if 1 \<le> n \<and> n \<le> int (length ls) + 1
      then take (nat (n - 1)) ls @ [s] @ drop (nat (n - 1)) ls else s # ls)"

lemma text_of_drop: "drop (length (text_of (take k ls))) (text_of ls) = text_of (drop k ls)"
  by (metis append_eq_conv_conj append_take_drop_id text_of_simps(3))

lemma text_of_take: "take (length (text_of (take k ls))) (text_of ls) = text_of (take k ls)"
  by (metis append_eq_conv_conj append_take_drop_id text_of_simps(3))

lemma edit_middle_lines:
  assumes "lines_ok ls"
  shows "edit_middle n (ln s) (text_of ls) = text_of (insert_line n s ls)"
proof -
  have e: "edit_middle n (ln s) (text_of ls) = take (line_offset n 0 0 (text_of ls)) (text_of ls) @ ln s
      @ drop (line_offset n 0 0 (text_of ls)) (text_of ls)"
    by (simp add: edit_middle_def createTempAndDelete_def copyTempAndDelete_def appendToFile_def Let_def)
  consider "n < 1" | "n = 1" | "1 < n" by linarith
  then show ?thesis
  proof cases
    case 1
    then show ?thesis unfolding e by (simp add: line_offset_beyond insert_line_def)
  next
    case 2
    then show ?thesis unfolding e by (simp add: line_offset_start insert_line_def)
  next
    case 3
    then show ?thesis unfolding e using line_offset_text [OF assms, of 0 n 0]
      by (auto simp: insert_line_def text_of_drop text_of_take)
  qed
qed

section \<open>Reading a line\<close>

lemma readF_loop_line:
  "newline \<notin> set l \<Longrightarrow> length line + length l \<le> BUFF_SIZE \<Longrightarrow>
   readF_loop n k line (l @ s) = readF_loop n k (line @ l) s"
  by (induction l arbitrary: line) auto

lemma readF_loop_text:
  assumes "\<forall>l\<in>set ls. newline \<notin> set l \<and> length l < BUFF_SIZE"
  shows "readF_loop n k [] (text_of ls)
    = Inr (if k \<le> n \<and> n < k + int (length ls) then ls ! nat (n - k) else [])"
  using assms
proof (induction ls arbitrary: k)
  case Nil
  then show ?case by (auto simp: BUFF_SIZE_def)
next
  case (Cons l ls)
  have l: "newline \<notin> set l" "length l < BUFF_SIZE" using Cons.prems by simp_all
  have e: "readF_loop n k [] (text_of (l # ls)) = (if k = n then Inr l else readF_loop n (k + 1) [] (text_of ls))"
    using readF_loop_line [OF l(1), of "[]" n k "newline # text_of ls"] l(2) by (simp add: ln_def)
  show ?case
  proof (cases "k = n")
    case True
    then show ?thesis unfolding e by simp
  next
    case False
    have s: "k < n \<Longrightarrow> nat (n - k) = Suc (nat (n - (k + 1)))" by simp
    show ?thesis unfolding e using False Cons.IH [of "k + 1"] Cons.prems s by auto
  qed
qed

section \<open>Requests\<close>

definition blank_join :: "string list \<Rightarrow> string" where
  "blank_join ws = concat (map (\<lambda>w. w @ '' '') (butlast ws)) @ last ws"

definition request_ok :: "string list \<Rightarrow> bool" where
  "request_ok ws \<longleftrightarrow> ws \<noteq> [] \<and> length ws \<le> 4
     \<and> (\<forall>w\<in>set ws. w \<noteq> [] \<and> CHR '' '' \<notin> set w \<and> length w < WORD_LEN)"

definition word_array :: "string list \<Rightarrow> string list" where
  "word_array ws = ws @ replicate (4 - length ws) []"

lemma split_S_request:
  assumes "request_ok ws" "length sp = 4"
  shows "mid_split_S (blank_join ws) (CHR '' '') sp = Inr (int (length ws), ws @ drop (length ws) sp)"
proof -
  have "split_on (CHR '' '') (blank_join ws) = ws"
    using split_on_join [of ws "CHR '' ''"] assms(1) by (simp add: request_ok_def blank_join_def)
  then show ?thesis using mid_split_S_words [of "CHR '' ''" "blank_join ws" sp] assms
    by (simp add: request_ok_def)
qed

lemma handle_request:
  assumes "request_ok ws" "length sp = 4"
  shows "handle_client_request (blank_join ws) sp
    = Inr (checkCommand (ws ! 0) (int (length ws)), ws @ drop (length ws) sp)"
proof -
  have "ws \<noteq> []" using assms(1) by (simp add: request_ok_def)
  then show ?thesis using split_S_request [OF assms] by (simp add: handle_client_request_def nth_append)
qed

text \<open>
  A request is understood word by word: for one to four words of 1 to 31 characters
  without blanks, joined by blanks, the server sees exactly these words in its array (the
  rest of the array as before) and the command that \<open>checkCommand\<close> gives for the first word
  and their number.
\<close>

theorem mid_request_words:
  assumes "request_ok ws" "length sp = 4"
  shows "handle_client_request (blank_join ws) sp
    = Inr (checkCommand (hd ws) (int (length ws)), ws @ drop (length ws) sp)"
proof -
  have "ws ! 0 = hd ws" using assms(1) by (simp add: request_ok_def hd_conv_nth)
  then show ?thesis using handle_request [OF assms] by simp
qed

theorem mid_request_words_witness:
  "handle_client_request ''readF notes 3'' [[], [], [], []] = Inr (READF, [''readF'', ''notes'', ''3'', []])"
  using mid_request_words [of "[''readF'', ''notes'', ''3'']" "[[], [], [], []]"]
  by (simp add: request_ok_def blank_join_def WORD_LEN_def checkCommand_def)

lemma serve_round_command:
  assumes "request_ok ws" "length sp = 4"
    and "checkCommand (ws ! 0) (int (length ws)) = lev" "lev \<noteq> INVALID_COMMAND" "lev \<noteq> QUIT"
  shows "serve_round folder listing (blank_join ws) sp w =
    cbind (send_response (ws @ drop (length ws) sp) lev folder listing (int (length ws)) w) (\<lambda>(r, w).
      Inr (r, (case r of KillServer \<Rightarrow> None
               | _ \<Rightarrow> spawned folder ((ws @ drop (length ws) sp) ! 1) (blank_join ws)), w))"
proof -
  let ?sp = "ws @ drop (length ws) sp"
  have "length ws \<le> 4" using assms(1) by (simp add: request_ok_def)
  then have l: "length ?sp = 4" using assms(2) by simp
  have "ws @ drop (length ws) ?sp = ?sp" by simp
  then show ?thesis
    using handle_request [OF assms(1,2)] split_S_request [OF assms(1) l] assms(3-5)
    by (simp add: serve_round_def)
qed

lemma dec_word: "CHR '' '' \<notin> set (dec n)"
  using dec_chars [of "CHR '' ''" n] by (auto simp: c_isdigit_def)

lemma mid_fits_ok: "length s < BUFF_SIZE \<Longrightarrow> mid_fits s = Inr s"
  by (simp add: mid_fits_def)

lemma writeT_middle:
  assumes "lines_ok ls" "mid_files w path = (if ls = [] then x else Some (text_of ls))" "x = None \<or> x = Some []"
    and "n \<noteq> -1" "length s < WORD_LEN" "length (dec n) < WORD_LEN"
  shows "\<exists>msg. writeTHelper path n s w
      = Inr (msg, w\<lparr>mid_files := (mid_files w)(path \<mapsto> text_of (insert_line n s ls))\<rparr>)
    \<and> take 6 msg = ''String''"
proof -
  have old: "(case mid_files w path of None \<Rightarrow> [] | Some c \<Rightarrow> c) = text_of ls" using assms(2,3) by auto
  have m: "mid_fits (s @ [newline]) = Inr (ln s)" using assms(5) by (simp add: mid_fits_def ln_def WORD_LEN_def BUFF_SIZE_def)
  let ?msg = "''String '' @ [CHR 0x22] @ ln s @ [CHR 0x22] @ '' Added at the '' @ dec n @ '' line of file '' @ [newline]"
  have "format_reply ?msg = Inr ?msg"
    using assms(5,6) by (simp add: format_reply_fits mid_fits_def ln_def WORD_LEN_def BUFF_SIZE_def)
  then show ?thesis unfolding writeTHelper_def m cbind_Inr Let_def old edit_middle_lines [OF assms(1)]
    using assms(4) by simp
qed


definition path_of :: "string \<Rightarrow> string \<Rightarrow> string" where
  "path_of folder name = folder @ ''/'' @ name"

lemma insert_line_nth:
  "1 \<le> n \<Longrightarrow> n \<le> int (length ls) + 1 \<Longrightarrow> insert_line n s ls ! nat (n - 1) = s \<and> n \<le> int (length (insert_line n s ls))"
  by (simp add: insert_line_def nth_append)

lemma insert_line_all: "\<forall>l\<in>set ls. P l \<Longrightarrow> P s \<Longrightarrow> \<forall>l\<in>set (insert_line n s ls). P l"
  by (auto simp: insert_line_def dest: in_set_takeD in_set_dropD)

lemma writeT_request:
  assumes r: "request_ok [''writeT'', f, dec n, s]" "length sp = 4"
    and ls: "lines_ok ls" "ls \<noteq> []" "mid_files w (path_of folder f) = Some (text_of ls)"
    and n: "n \<noteq> -1" and p: "length (path_of folder f) < BUFF_SIZE"
  shows "\<exists>msg w'. serve_round folder listing (blank_join [''writeT'', f, dec n, s]) sp w = Inr (Reply msg, None, w')
    \<and> mid_files w' = (mid_files w)(path_of folder f \<mapsto> text_of (insert_line n s ls))"
proof -
  let ?ws = "[''writeT'', f, dec n, s]"
  have path: "mid_path folder f = Inr (path_of folder f)"
    using p by (simp add: mid_path_def path_of_def mid_fits_def)
  have len: "length s < WORD_LEN" "length (dec n) < WORD_LEN" using r by (simp_all add: request_ok_def)
  obtain msg where m: "writeTHelper (path_of folder f) n s w
      = Inr (msg, w\<lparr>mid_files := (mid_files w)(path_of folder f \<mapsto> text_of (insert_line n s ls))\<rparr>)"
      "take 6 msg = ''String''"
    using writeT_middle [OF ls(1) _ _ n len, of w "path_of folder f" None] ls(2,3) by auto
  have s: "spawned folder f (blank_join ?ws) = None"
    by (simp add: blank_join_def spawned_def c_strncmp0_def)
  have c: "checkCommand (?ws ! 0) (int (length ?ws)) = WRITET" by (simp add: checkCommand_def)
  show ?thesis
    unfolding serve_round_command [OF r c] using path m(1) s
    by (simp add: serve_round_command [OF r c] send_response_def atoi_dec log_cut_def writeToLog_def c_snprintf_def)
qed

text \<open>
  C33. A written line is read back. After the request \<open>writeT f n s\<close> on a file of lines with
  1 <= n <= number of lines + 1, the file is the old one with \<open>s\<close> inserted as line \<open>n\<close> (all
  other lines kept, in order), no other file changes, and the request \<open>readF f n\<close> then gets
  exactly \<open>s\<close> as its reply. (The file is smaller than 2 GiB, so that the \<^verbatim>\<open>int\<close> offset and the
  \<^verbatim>\<open>int\<close> counters of the program do not overflow.)
\<close>

theorem mid_write_then_read:
  assumes "request_ok [''writeT'', f, dec n, s]" "length sp = 4" "length sp' = 4"
    and "\<forall>l\<in>set ls. newline \<notin> set l \<and> length l < BUFF_SIZE" "ls \<noteq> []"
    and "mid_files w (path_of folder f) = Some (text_of ls)"
    and "1 \<le> n" "n \<le> int (length ls) + 1" "newline \<notin> set s" "length (path_of folder f) < BUFF_SIZE" "c_text s"
  shows "\<exists>msg w' w'' tr.
      serve_round folder listing (blank_join [''writeT'', f, dec n, s]) sp w = Inr (Reply msg, None, w')
    \<and> mid_files w' = (mid_files w)(path_of folder f \<mapsto>
        text_of (take (nat (n - 1)) ls @ [s] @ drop (nat (n - 1)) ls))
    \<and> serve_round folder listing (blank_join [''readF'', f, dec n]) sp' w' = Inr (Reply s, tr, w'')"
proof -
  have lok: "lines_ok ls" using assms(4) by (simp add: lines_ok_def)
  have ne: "n \<noteq> -1" using assms(7) by simp
  obtain msg w' where w': "serve_round folder listing (blank_join [''writeT'', f, dec n, s]) sp w = Inr (Reply msg, None, w')"
      "mid_files w' = (mid_files w)(path_of folder f \<mapsto> text_of (insert_line n s ls))"
    using writeT_request [OF assms(1,2) lok assms(5,6) ne assms(10), of listing] by blast
  let ?ws = "[''readF'', f, dec n]"
  have r: "request_ok ?ws" using assms(1) by (simp add: request_ok_def WORD_LEN_def)
  have c: "checkCommand (?ws ! 0) (int (length ?ws)) = READF" by (simp add: checkCommand_def)
  have path: "mid_path folder f = Inr (path_of folder f)"
    using assms(10) by (simp add: mid_path_def path_of_def mid_fits_def)
  have "length s < BUFF_SIZE" using assms(1) by (simp add: request_ok_def WORD_LEN_def BUFF_SIZE_def)
  then have "\<forall>l\<in>set (insert_line n s ls). newline \<notin> set l \<and> length l < BUFF_SIZE"
    using assms(9) by (intro insert_line_all [OF assms(4)]) simp
  then have "readFHelper (mid_files w' (path_of folder f)) n = Inr s"
    using readF_loop_text [of "insert_line n s ls" n 1] w'(2) insert_line_nth [OF assms(7,8), of s] assms(7)
    by (simp add: readFHelper_def)
  then have "\<exists>tr w''. serve_round folder listing (blank_join ?ws) sp' w' = Inr (Reply s, tr, w'')"
    using assms(7) path c_string_text [OF assms(11)]
    by (simp add: serve_round_command [OF r assms(3) c] send_response_def atoi_dec)
  moreover have "insert_line n s ls = take (nat (n - 1)) ls @ [s] @ drop (nat (n - 1)) ls"
    using assms(7,8) by (simp add: insert_line_def)
  ultimately show ?thesis using w' by auto
qed

definition demo_mid :: mid where
  "demo_mid = \<lparr>mid_files = [''here/f'' \<mapsto> text_of [''one'', ''two'']], mid_log = []\<rparr>"

theorem mid_write_then_read_witness:
  "\<exists>msg w'. serve_round ''here'' None (blank_join [''writeT'', ''f'', dec 2, ''new'']) [[], [], [], []] demo_mid
      = Inr (Reply msg, None, w')
    \<and> mid_files w' ''here/f'' = Some (text_of [''one'', ''new'', ''two''])"
proof -
  have d: "dec 2 = ''2''" by code_simp
  have "request_ok [''writeT'', ''f'', dec 2, ''new'']" unfolding d by (simp add: request_ok_def WORD_LEN_def)
  moreover have "\<forall>l\<in>set [''one'', ''two'']. newline \<notin> set l \<and> length l < BUFF_SIZE"
    by (simp add: newline_def BUFF_SIZE_def)
  moreover have "newline \<notin> set ''new''" "length (path_of ''here'' ''f'') < BUFF_SIZE"
    by (simp_all add: newline_def path_of_def BUFF_SIZE_def)
  ultimately show ?thesis
    using mid_write_then_read [of "''f''" 2 "''new''" "[[], [], [], []]" "[[], [], [], []]" "[''one'', ''two'']" demo_mid "''here''" None]
    by (auto simp: demo_mid_def path_of_def)
qed

text \<open>
  A line number behind the end of the file goes to the wrong place: \<open>writeT f n s\<close> with
  n greater than the number of lines + 1 puts \<open>s\<close> in front of the whole file.
\<close>

theorem mid_write_beyond_end:
  assumes "request_ok [''writeT'', f, dec n, s]" "length sp = 4"
    and "\<forall>l\<in>set ls. newline \<notin> set l" "ls \<noteq> []" "mid_files w (path_of folder f) = Some (text_of ls)"
    and "int (length ls) + 1 < n" "length (path_of folder f) < BUFF_SIZE"
  shows "\<exists>msg w'. serve_round folder listing (blank_join [''writeT'', f, dec n, s]) sp w = Inr (Reply msg, None, w')
    \<and> mid_files w' (path_of folder f) = Some (text_of (s # ls))"
proof -
  have lok: "lines_ok ls" using assms(3) by (simp add: lines_ok_def)
  have "insert_line n s ls = s # ls" "n \<noteq> -1" using assms(6) by (simp_all add: insert_line_def)
  then show ?thesis
    using writeT_request [OF assms(1,2) lok assms(4,5) _ assms(7), of listing] by fastforce
qed

theorem mid_write_beyond_end_witness:
  "\<exists>msg w'. serve_round ''here'' None (blank_join [''writeT'', ''f'', dec 9, ''new'']) [[], [], [], []] demo_mid
      = Inr (Reply msg, None, w')
    \<and> mid_files w' (path_of ''here'' ''f'') = Some (text_of [''new'', ''one'', ''two''])"
proof -
  have d: "dec 9 = ''9''" by code_simp
  show ?thesis
    by (rule mid_write_beyond_end)
       (simp_all add: d request_ok_def WORD_LEN_def newline_def demo_mid_def path_of_def BUFF_SIZE_def)
qed


section \<open>Requests that go wrong\<close>

lemma send_response_silent:
  assumes "send_response cmd lev folder (Some names) sz w = Inr (NoReply, w')"
  shows "lev \<in> {INVALID_COMMAND, ARCHIVE, QUIT} \<or> (lev = READF \<and> c_atoi (cmd ! 2) \<le> 0)
    \<or> (lev = WRITET \<and> sz \<notin> {3, 4})"
  using assms by (cases lev) (auto simp: send_response_def Let_def split: if_splits prod.splits)

lemma handle_request_size:
  assumes "handle_client_request req sp = Inr (lev, sp')" "length sp = 4"
  shows "lev = INVALID_COMMAND \<or> (mid_split_S req (CHR '' '') sp' = Inr (int (mid_count req (CHR '' '')), sp')
    \<and> lev = checkCommand (sp' ! 0) (int (mid_count req (CHR '' ''))))"
proof (cases "mid_count req (CHR '' '') > 4")
  case True
  then show ?thesis using assms by (auto simp: handle_client_request_def mid_split_S_def Let_def)
next
  case False
  then obtain ws where ws: "mid_split_loop (CHR '' '') [] [] req = Inr ws" "length ws \<le> 4" "sp' = ws @ drop (length ws) sp"
      "lev = checkCommand (sp' ! 0) (int (mid_count req (CHR '' '')))"
    using assms by (auto simp: handle_client_request_def mid_split_S_def mid_split_I_def Let_def mid_count_def split: if_splits)
  then have "ws @ drop (length ws) sp' = sp'" "length ws \<le> length sp'" using assms(2) by simp_all
  then have "mid_split_S req (CHR '' '') sp' = Inr (int (mid_count req (CHR '' '')), sp')"
    using False ws(1) by (simp add: mid_split_S_def mid_split_I_def Let_def mid_count_def)
  then show ?thesis using ws(4) by simp
qed

lemma check_write_size: "checkCommand c sz = WRITET \<Longrightarrow> sz \<in> {3, 4}"
  by (auto simp: checkCommand_def split: if_splits)

text \<open>
  The requests without a reply are exactly known: when the server's directory can be
  listed, a request is left unanswered (and the client, which then reads from the FIFO,
  waits for ever) only if it is \<open>arcServer\<close>, which is recognised but not implemented, or a
  \<open>readF\<close> whose line number is missing or not positive.
\<close>

theorem mid_unanswered_requests:
  assumes "length sp = 4" "serve_round folder (Some names) req sp w = Inr (NoReply, tr, w')"
  shows "\<exists>lev sp'. handle_client_request req sp = Inr (lev, sp')
    \<and> (lev = ARCHIVE \<or> (lev = READF \<and> c_atoi (sp' ! 2) \<le> 0))"
proof -
  obtain lev sp' where h: "handle_client_request req sp = Inr (lev, sp')"
    using assms(2) by (auto simp: serve_round_def)
  have ni: "lev \<noteq> INVALID_COMMAND" using assms(2) h by (auto simp: serve_round_def)
  then have nq: "lev \<noteq> QUIT" using assms(2) h by (auto simp: serve_round_def)
  have s: "mid_split_S req (CHR '' '') sp' = Inr (int (mid_count req (CHR '' '')), sp')"
      "lev = checkCommand (sp' ! 0) (int (mid_count req (CHR '' '')))"
    using handle_request_size [OF h assms(1)] ni by simp_all
  let ?sz = "int (mid_count req (CHR '' ''))"
  obtain w1 where r: "send_response sp' lev folder (Some names) ?sz w = Inr (NoReply, w1)"
    using assms(2) h s(1) ni nq by (auto simp: serve_round_def)
  have "lev = ARCHIVE \<or> (lev = READF \<and> c_atoi (sp' ! 2) \<le> 0)"
    using send_response_silent [OF r] ni nq check_write_size [of "sp' ! 0" ?sz] s(2) by auto
  then show ?thesis using h by blast
qed

theorem mid_unanswered_requests_witness:
  "\<exists>lev sp'. serve_round ''here'' (Some []) ''arcServer x.tar'' [[], [], [], []] demo_mid = Inr (NoReply, None, demo_mid)
    \<and> handle_client_request ''arcServer x.tar'' [[], [], [], []] = Inr (lev, sp')
    \<and> (lev = ARCHIVE \<or> (lev = READF \<and> c_atoi (sp' ! 2) \<le> 0))"
proof -
  have ok: "request_ok [''arcServer'', ''x.tar'']" by (simp add: request_ok_def WORD_LEN_def)
  have "checkCommand ([''arcServer'', ''x.tar''] ! 0) (int (length [''arcServer'', ''x.tar''])) = ARCHIVE"
    by (simp add: checkCommand_def)
  from serve_round_command [OF ok _ this, of "[[], [], [], []]" "''here''" "Some []" demo_mid]
  have "serve_round ''here'' (Some []) ''arcServer x.tar'' [[], [], [], []] demo_mid = Inr (NoReply, None, demo_mid)"
    by (simp add: blank_join_def send_response_def spawned_def c_strncmp0_def)
  then show ?thesis
    using mid_unanswered_requests [of "[[], [], [], []]" "''here''" "[]" "''arcServer x.tar''" demo_mid None demo_mid]
    by simp
qed

lemma split_on_first: "\<exists>rest. s = hd (split_on d s) @ rest \<and> (rest = [] \<or> (\<exists>u. rest = d # u))"
proof (induction s)
  case (Cons c s)
  show ?case
  proof (cases "c = d")
    case False
    obtain u us where u: "split_on d s = u # us" by (cases "split_on d s") auto
    then show ?thesis using Cons.IH False by auto
  qed simp
qed simp

lemma mid_split_loop_result:
  "mid_split_loop d temp ws s = Inr r \<Longrightarrow> r = ws @ (temp @ hd (split_on d s)) # tl (split_on d s)"
proof (induction s arbitrary: temp ws)
  case (Cons c s)
  obtain u us where u: "split_on d s = u # us" by (cases "split_on d s") auto
  show ?case
  proof (cases "c = d")
    case True
    then have "mid_split_loop d [] (ws @ [temp]) s = Inr r" using Cons.prems by (simp split: if_splits)
    from Cons.IH [OF this] show ?thesis using True u by simp
  next
    case False
    then have "mid_split_loop d (temp @ [c]) ws s = Inr r" using Cons.prems by (simp split: if_splits)
    from Cons.IH [OF this] show ?thesis using False u by simp
  qed
qed (simp split: if_splits)

lemma mid_split_S_result:
  assumes "mid_split_S s d sp = Inr (n, sp')" "n \<noteq> -1"
  shows "sp' = split_on d s @ drop (length (split_on d s)) sp \<and> n = int (length (split_on d s))"
proof -
  have ne: "hd (split_on d s) # tl (split_on d s) = split_on d s" by (cases "split_on d s") auto
  obtain ws where ws: "mid_split_loop d [] [] s = Inr ws" "sp' = ws @ drop (length ws) sp" "n = int (mid_count s d)"
    using assms by (auto simp: mid_split_S_def mid_split_I_def Let_def cbind_def split: if_splits sum.splits)
  then have "ws = split_on d s" using mid_split_loop_result [OF ws(1)] ne by simp
  then show ?thesis using ws mid_count_split [of s d] by simp
qed

text \<open>Among the valid commands, the texts beginning with the six or eight letters are the transfers.\<close>

lemma spawned_command:
  assumes "checkCommand (hd (split_on (CHR '' '') req)) n = lev" "lev \<noteq> INVALID_COMMAND"
  shows "spawned folder name req = (if lev = UPLOAD then Some (Consume (path_of folder name))
      else if lev = DOWNLOAD then Some (Produce (path_of folder name)) else None)"
proof -
  obtain rest where r: "req = hd (split_on (CHR '' '') req) @ rest" "rest = [] \<or> (\<exists>u. rest = CHR '' '' # u)"
    using split_on_first by blast
  have "hd (split_on (CHR '' '') req) \<in> {''help'', ''list'', ''readF'', ''writeT'', ''upload'', ''download'', ''arcServer'',
      ''killServer'', ''quit''}" using assms by (auto simp: checkCommand_def split: if_splits)
  then show ?thesis
    using assms r(2) by (subst r(1), elim insertE)
      (auto simp: checkCommand_def spawned_def c_strncmp0_def path_of_def split: if_splits)
qed

lemma send_response_transfer:
  "send_response sp UPLOAD folder listing sz w = Inr (r, w1) \<Longrightarrow> \<exists>path. r = Reply (''upload '' @ path)"
  "send_response sp DOWNLOAD folder listing sz w = Inr (r, w1) \<Longrightarrow> \<exists>path. r = Reply (''download '' @ path)"
  by (auto simp: send_response_def mid_fits_def split: if_splits)

text \<open>
  A transfer always has two ends: the server starts one exactly for the commands
  \<open>upload\<close> (it consumes into the named file of its folder) and \<open>download\<close> (it produces from
  it), and its reply to them makes the client start the opposite end on the same name.
\<close>

theorem mid_transfer_pairs:
  assumes "length sp = 4" "serve_round folder listing req sp w = Inr (r, tr, w')"
  shows "\<exists>lev sp'. handle_client_request req sp = Inr (lev, sp')
    \<and> tr = (if lev = UPLOAD then Some (Consume (path_of folder (sp' ! 1)))
           else if lev = DOWNLOAD then Some (Produce (path_of folder (sp' ! 1))) else None)
    \<and> (lev \<in> {UPLOAD, DOWNLOAD} \<longrightarrow> (\<exists>t. r = Reply t
         \<and> client_transfer sp' t = Some (if lev = UPLOAD then Produce (sp' ! 1) else Consume (sp' ! 1))))"
proof -
  obtain lev sp' where h: "handle_client_request req sp = Inr (lev, sp')"
    using assms(2) by (auto simp: serve_round_def)
  consider "lev = INVALID_COMMAND" | "lev = QUIT" | "lev \<noteq> INVALID_COMMAND" "lev \<noteq> QUIT" by blast
  then show ?thesis
  proof cases
    case 1
    then have "tr = None"
      using assms(2) h
      by (auto simp: serve_round_def format_reply_fits mid_fits_def spawned_def c_strncmp0_def split: if_splits)
    then show ?thesis using h 1 by auto
  next
    case 2
    then show ?thesis using assms(2) h by (auto simp: serve_round_def)
  next
    case 3
    have s: "mid_split_S req (CHR '' '') sp' = Inr (int (mid_count req (CHR '' '')), sp')"
        "lev = checkCommand (sp' ! 0) (int (mid_count req (CHR '' '')))"
      using handle_request_size [OF h assms(1)] 3 by simp_all
    obtain u us where u: "split_on (CHR '' '') req = u # us" by (cases "split_on (CHR '' '') req") auto
    have "sp' = split_on (CHR '' '') req @ drop (length (split_on (CHR '' '') req)) sp'"
      using mid_split_S_result [OF s(1)] by simp
    then have hd: "sp' ! 0 = hd (split_on (CHR '' '') req)" unfolding u by (metis append_Cons list.sel(1) nth_Cons_0)
    let ?sz = "int (mid_count req (CHR '' ''))"
    obtain w1 where r: "send_response sp' lev folder listing ?sz w = Inr (r, w1)"
        "tr = (case r of KillServer \<Rightarrow> None | _ \<Rightarrow> spawned folder (sp' ! 1) req)"
      using assms(2) h s(1) 3 by (auto simp: serve_round_def)
    have sp: "spawned folder (sp' ! 1) req = (if lev = UPLOAD then Some (Consume (path_of folder (sp' ! 1)))
        else if lev = DOWNLOAD then Some (Produce (path_of folder (sp' ! 1))) else None)"
      using spawned_command [of req ?sz lev folder "sp' ! 1"] s(2) hd 3(1) by simp
    have c: "lev = UPLOAD \<Longrightarrow> sp' ! 0 = ''upload''" "lev = DOWNLOAD \<Longrightarrow> sp' ! 0 = ''download''"
      using s(2) by (auto simp: checkCommand_def split: if_splits)
    have "r = KillServer \<Longrightarrow> lev \<notin> {UPLOAD, DOWNLOAD}"
      using r(1) by (auto simp: send_response_def)
    then have "tr = spawned folder (sp' ! 1) req" using r(2) sp by (cases r) auto
    moreover have "lev \<in> {UPLOAD, DOWNLOAD} \<Longrightarrow> \<exists>t. r = Reply t
         \<and> client_transfer sp' t = Some (if lev = UPLOAD then Produce (sp' ! 1) else Consume (sp' ! 1))"
    proof -
      assume "lev \<in> {UPLOAD, DOWNLOAD}"
      then obtain path where "(lev = UPLOAD \<and> r = Reply (''upload '' @ path)) \<or> (lev = DOWNLOAD \<and> r = Reply (''download '' @ path))"
        using r(1) send_response_transfer by blast
      then show ?thesis
        by (elim disjE; intro exI [of _ "case r of Reply t \<Rightarrow> t"]) (simp_all add: c client_transfer_def c_strncmp0_def)
    qed
    ultimately show ?thesis using h sp by auto
  qed
qed

theorem mid_transfer_pairs_witness:
  "\<exists>t w'. serve_round ''here'' None ''upload f'' [[], [], [], []] demo_mid = Inr (Reply t, Some (Consume ''here/f''), w')
     \<and> client_transfer [''upload'', ''f'', [], []] t = Some (Produce ''f'')"
proof -
  have ok: "request_ok [''upload'', ''f'']" by (simp add: request_ok_def WORD_LEN_def)
  have c: "checkCommand ([''upload'', ''f''] ! 0) (int (length [''upload'', ''f''])) = UPLOAD"
    by (simp add: checkCommand_def)
  have l: "length [[], [], [], [] :: string] = 4" by simp
  have h: "handle_client_request ''upload f'' [[], [], [], []] = Inr (UPLOAD, [''upload'', ''f'', [], []])"
    using handle_request [OF ok l] c by (simp add: blank_join_def)
  obtain t tr w' where r: "serve_round ''here'' None ''upload f'' [[], [], [], []] demo_mid = Inr (Reply t, tr, w')"
    using serve_round_command [OF ok l c, of "''here''" None demo_mid]
    by (simp add: blank_join_def send_response_def mid_path_def mid_fits_def BUFF_SIZE_def)
  show ?thesis using mid_transfer_pairs [OF l r] r h by (auto simp: path_of_def)
qed

lemma client_command_line:
  assumes "c_text s" "length s + 1 < BUFF_SIZE"
  shows "client_command (s @ [newline]) = Inr s"
proof -
  have "c_text (s @ [newline])" using assms(1) by (simp add: c_text_def newline_def)
  then show ?thesis using assms(2) by (simp add: client_command_def c_string_text)
qed

text \<open>
  The client can start a transfer that has no other end: it decides by the first
  letters of any reply, so when line n of a file begins with "upload", the request
  \<open>readF f n\<close> makes the client produce the file \<open>f\<close> into the shared memory although the
  server starts nothing.
\<close>

theorem mid_false_transfer:
  assumes "request_ok [''readF'', f, dec n]" "c_text f" "length csp = 4" "length ssp = 4"
    and "\<forall>l\<in>set ls. newline \<notin> set l \<and> length l < BUFF_SIZE" "mid_files w (path_of folder f) = Some (text_of ls)"
    and "1 \<le> n" "n \<le> int (length ls)" "ls ! nat (n - 1) = ''upload'' @ s" "c_text s" "length (path_of folder f) < BUFF_SIZE"
  shows "\<exists>csp' w'. session_round folder listing (blank_join [''readF'', f, dec n] @ [newline]) csp ssp w
    = Inr (Shows (''upload'' @ s) (Some (Produce f)) None, csp', w')"
proof -
  let ?ws = "[''readF'', f, dec n]"
  have c: "checkCommand (?ws ! 0) (int (length ?ws)) = READF" by (simp add: checkCommand_def)
  have path: "mid_path folder f = Inr (path_of folder f)"
    using assms(11) by (simp add: mid_path_def path_of_def mid_fits_def)
  have "c_text (dec n)" using dec_chars [of "CHR 0x00" n] by (auto simp: c_text_def c_isdigit_def)
  then have "c_text (blank_join ?ws)" using assms(2) by (simp add: blank_join_def c_text_def)
  moreover have "length (blank_join ?ws) + 1 < BUFF_SIZE"
    using assms(1) by (simp add: request_ok_def blank_join_def WORD_LEN_def BUFF_SIZE_def)
  ultimately have cc: "client_command (blank_join ?ws @ [newline]) = Inr (blank_join ?ws)"
    by (rule client_command_line)
  have "readFHelper (mid_files w (path_of folder f)) n = Inr (''upload'' @ s)"
    using readF_loop_text [OF assms(5), of n 1] assms(6-9) by (simp add: readFHelper_def)
  moreover have "c_string (''upload'' @ s) = ''upload'' @ s" using assms(10) by (simp add: c_string_text)
  ultimately obtain w' where r: "serve_round folder listing (blank_join ?ws) ssp w = Inr (Reply (''upload'' @ s), None, w')"
    using assms(7) path by (auto simp: serve_round_command [OF assms(1,4) c] send_response_def atoi_dec)
      (simp add: blank_join_def spawned_def c_strncmp0_def)
  show ?thesis unfolding session_round_def cc cbind_Inr split_S_request [OF assms(1,3)] case_prod_conv r
    by (simp add: client_transfer_def c_strncmp0_def)
qed

theorem mid_false_transfer_witness:
  "\<exists>csp' w'. session_round ''here'' None (blank_join [''readF'', ''f'', dec 1] @ [newline]) [[], [], [], []] [[], [], [], []]
      \<lparr>mid_files = [''here/f'' \<mapsto> text_of [''upload it'']], mid_log = []\<rparr>
    = Inr (Shows ''upload it'' (Some (Produce ''f'')) None, csp', w')"
proof -
  have d: "dec 1 = ''1''" by code_simp
  show ?thesis
    using mid_false_transfer [of "''f''" 1 "[[], [], [], []]" "[[], [], [], []]" "[''upload it'']"
        "\<lparr>mid_files = [''here/f'' \<mapsto> text_of [''upload it'']], mid_log = []\<rparr>" "''here''" "'' it''" None]
    by (simp add: d request_ok_def WORD_LEN_def newline_def path_of_def BUFF_SIZE_def)
qed

lemma mid_split_loop_long:
  assumes "WORD_LEN \<le> length temp + length (hd (split_on d s)) \<or> (\<exists>w\<in>set (tl (split_on d s)). WORD_LEN \<le> length w)"
  shows "mid_split_loop d temp ws s = Inl OutOfBounds"
  using assms
proof (induction s arbitrary: temp ws)
  case (Cons c s)
  obtain u us where u: "split_on d s = u # us" by (cases "split_on d s") auto
  show ?case
  proof (cases "c = d")
    case True
    then show ?thesis using Cons.prems u Cons.IH [of "[]" "ws @ [temp]"] by auto
  next
    case False
    then show ?thesis using Cons.prems u Cons.IH [of "temp @ [c]" ws] by auto
  qed
qed simp

text \<open>
  Two kinds of requests overrun buffers of the server: one to four words of which one
  has 32 characters or more (the word is collected in an array of 32), and any rejected
  request of five or more words and at least 222 characters (the reply is cut to 255
  characters, but its NUL is stored at the uncut length).
\<close>

theorem mid_request_overflow:
  "(length (split_on (CHR '' '') req) \<le> 4 \<and> (\<exists>u\<in>set (split_on (CHR '' '') req). WORD_LEN \<le> length u)
      \<longrightarrow> serve_round folder listing req sp w = Inl OutOfBounds)
   \<and> (4 < length (split_on (CHR '' '') req) \<and> 222 \<le> length req
      \<longrightarrow> serve_round folder listing req sp w = Inl OutOfBounds)"
proof (intro conjI impI)
  assume a: "length (split_on (CHR '' '') req) \<le> 4 \<and> (\<exists>u\<in>set (split_on (CHR '' '') req). WORD_LEN \<le> length u)"
  obtain u us where u: "split_on (CHR '' '') req = u # us" by (cases "split_on (CHR '' '') req") auto
  then have "mid_split_loop (CHR '' '') [] [] req = Inl OutOfBounds"
    using a by (intro mid_split_loop_long) auto
  then show "serve_round folder listing req sp w = Inl OutOfBounds"
    using a by (simp add: serve_round_def handle_client_request_def mid_split_S_def mid_split_I_def Let_def
        mid_count_split u [symmetric])
next
  assume "4 < length (split_on (CHR '' '') req) \<and> 222 \<le> length req"
  then show "serve_round folder listing req sp w = Inl OutOfBounds"
    by (simp add: serve_round_def handle_client_request_def mid_split_S_def Let_def mid_count_split
        format_reply_fits mid_fits_def BUFF_SIZE_def)
qed

theorem mid_request_overflow_witness:
  "serve_round ''here'' None (''readF '' @ replicate 32 (CHR ''a'')) [[], [], [], []] demo_mid = Inl OutOfBounds
   \<and> serve_round ''here'' None (concat (replicate 120 ''a '')) [[], [], [], []] demo_mid = Inl OutOfBounds"
proof -
  have "split_on (CHR '' '') (''readF '' @ replicate 32 (CHR ''a'')) = [''readF'', replicate 32 (CHR ''a'')]"
    using split_on_app [of "CHR '' ''" "''readF''" "replicate 32 (CHR ''a'')"]
    by (simp add: split_on_word)
  moreover have "4 < length (split_on (CHR '' '') (concat (replicate 120 ''a '')))"
    by (simp add: numeral_eq_Suc split: list.split)
  moreover have "length (concat (replicate 120 ''a '')) = 240"
    by (simp add: numeral_eq_Suc)
  ultimately show ?thesis
    using mid_request_overflow [of "''readF '' @ replicate 32 (CHR ''a'')" "''here''" None "[[], [], [], []]" demo_mid]
      mid_request_overflow [of "concat (replicate 120 ''a '')" "''here''" None "[[], [], [], []]" demo_mid]
    by (simp add: WORD_LEN_def)
qed

end
