(* ===== verification/MidTable.thy ===== *)
theory MidTable
  imports CText
begin

text \<open>
  The accept loop of \<^verbatim>\<open>midterm/server.c\<close>: the tables \<open>clients\<close> and \<open>child\<close>, the counter of
  connected clients, the decision about a request, and the handlers of \<^verbatim>\<open>SIGCHLD\<close> and
  \<^verbatim>\<open>SIGINT\<close>. A step is one request read from the FIFO (with the pid that \<open>fork\<close> returns in
  the parent, \<open>None\<close> for a failure) or one child that ended.
\<close>

definition MAX_CLIENT :: nat where "MAX_CLIENT = 100"
definition MAX_CHILD :: nat where "MAX_CHILD = 100"

record server =
  clients :: "int list"
  child :: "int list"
  clientCounter :: int
  numClients :: int
  fork_count :: nat
  server_pid :: int
  killed :: "int list"          \<comment> \<open>history: the processes sent \<open>SIGTERM\<close>\<close>
  server_log :: "string list"
  fifo_open :: bool

datatype server_event =
    Request int int string "int option"    \<comment> \<open>pid, serverPid, connect, result of \<open>fork\<close>\<close>
  | ChildEnds int bool                      \<comment> \<open>pid, whether it exited by itself\<close>

fun first_index :: "int \<Rightarrow> int list \<Rightarrow> nat option" where
  "first_index p [] = None"
| "first_index p (x # xs) = (if x = p then Some 0 else map_option Suc (first_index p xs))"

definition find_process_and_kill :: "int \<Rightarrow> server \<Rightarrow> int \<times> server" where
  "find_process_and_kill clpid s =
     (if clpid \<noteq> -1
      then case first_index clpid (clients s) of
          Some i \<Rightarrow> (1, s\<lparr>clients := (clients s)[i := -1]\<rparr>)
        | None \<Rightarrow> (-1, s)
      else (-1, s))"

definition kill_fork :: "int \<Rightarrow> server \<Rightarrow> int \<times> server" where
  "kill_fork clpid s =
     (if clpid \<noteq> -1
      then case first_index clpid (child s) of
          Some i \<Rightarrow> (1, s\<lparr>clients := (clients s)[i := -1]\<rparr>)
        | None \<Rightarrow> (-1, s)
      else (-1, s))"

text \<open>There is no break in the loop: every free place is taken.\<close>

definition find_proper_location :: "int \<Rightarrow> server \<Rightarrow> server" where
  "find_proper_location clpid s =
     s\<lparr>clients := map (\<lambda>x. if x = -1 then clpid else x) (clients s)\<rparr>"

definition sigchldhndlr :: "int \<Rightarrow> bool \<Rightarrow> server \<Rightarrow> server" where
  "sigchldhndlr pid exited s =
     (let s = s\<lparr>clientCounter := clientCounter s - 1\<rparr> in
      if \<not> exited then s
      else let (r, s1) = find_process_and_kill pid s in
        if r \<noteq> 1 then snd (kill_fork pid s1)
        else s1\<lparr>clientCounter := clientCounter s1 - 1\<rparr>)"

text \<open>The processes that the handler of \<^verbatim>\<open>SIGINT\<close> signals before it exits.\<close>

definition sigint_kills :: "server \<Rightarrow> int list" where
  "sigint_kills s =
     (if clientCounter s > 0
      then concat (map (\<lambda>(c, d). (if c \<noteq> -1 then [c] else []) @ (if d \<noteq> -1 then [d] else []))
                    (zip (clients s) (child s)))
      else [])"

definition mid_log_line :: "string \<Rightarrow> server \<Rightarrow> server" where
  "mid_log_line msg s = s\<lparr>server_log := server_log s @ [msg]\<rparr>"

text \<open>When \<open>fork\<close> fails the FIFO is closed: the next round's \<open>read\<close> fails and \<open>main\<close> returns.\<close>

definition accept_client :: "int \<Rightarrow> int option \<Rightarrow> server \<Rightarrow> server cres" where
  "accept_client pid fork_result s =
     (let s1 = find_proper_location pid s;
          s2 = s1\<lparr>clientCounter := clientCounter s1 + 1\<rparr>;
          s3 = mid_log_line (''>>Client PID '' @ dec pid @ '' connected as client''
                 @ (if length (dec (clientCounter s2)) < 2 then '' '' else []) @ dec (clientCounter s2)
                 @ '' '' @ [newline]) s2
      in case fork_result of
          None \<Rightarrow> Inr ((mid_log_line (''>> server fifo listening...'' @ [newline]) s3)\<lparr>fifo_open := False\<rparr>)
        | Some f \<Rightarrow>
            if MAX_CHILD \<le> fork_count s3 then Inl OutOfBounds
            else Inr (s3\<lparr>child := (child s3)[fork_count s3 := f], fork_count := fork_count s3 + 1\<rparr>))"

definition server_step :: "server_event \<Rightarrow> server \<Rightarrow> server cres" where
  "server_step ev s = (case ev of
      Request pid srv connect fork_result \<Rightarrow>
        if \<not> fifo_open s then Inr s
        else (let s = mid_log_line (''>> server fifo listening...'' @ [newline]) s in
         if srv \<noteq> server_pid s
         then Inr ((mid_log_line (''Wrong server pid '' @ dec srv @ [newline]) s)\<lparr>killed := killed s @ [pid]\<rparr>)
         else if clientCounter s > numClients s \<and> connect = ''tryConnect''
         then Inr ((mid_log_line (''>> Queue is full...Terminating the client '' @ [newline]) s)
                \<lparr>killed := killed s @ [pid]\<rparr>)
         else accept_client pid fork_result s)
    | ChildEnds pid exited \<Rightarrow> Inr (sigchldhndlr pid exited s))"

fun server_run :: "server_event list \<Rightarrow> server \<Rightarrow> server cres" where
  "server_run [] s = Inr s"
| "server_run (e # es) s = cbind (server_step e s) (server_run es)"

definition server_start :: "int \<Rightarrow> int \<Rightarrow> server" where
  "server_start pid n =
     \<lparr>clients = replicate MAX_CLIENT (-1), child = replicate MAX_CHILD (-1), clientCounter = 0,
      numClients = n, fork_count = 0, server_pid = pid, killed = [], server_log = [], fifo_open = True\<rparr>"

section \<open>Admission\<close>

definition try_connects :: "int \<Rightarrow> (int \<times> int) list \<Rightarrow> server_event list" where
  "try_connects srv ps = map (\<lambda>(p, f). Request p srv ''tryConnect'' (Some f)) ps"

lemma mid_log_line_sel [simp]:
  "clients (mid_log_line m s) = clients s" "child (mid_log_line m s) = child s"
  "clientCounter (mid_log_line m s) = clientCounter s" "numClients (mid_log_line m s) = numClients s"
  "fork_count (mid_log_line m s) = fork_count s" "server_pid (mid_log_line m s) = server_pid s"
  "killed (mid_log_line m s) = killed s" "fifo_open (mid_log_line m s) = fifo_open s"
  by (simp_all add: mid_log_line_def)

lemma accept_client_some:
  assumes "fork_count s < MAX_CHILD"
  shows "\<exists>s'. accept_client p (Some f) s = Inr s' \<and> clientCounter s' = clientCounter s + 1
    \<and> fork_count s' = fork_count s + 1 \<and> numClients s' = numClients s \<and> server_pid s' = server_pid s
    \<and> killed s' = killed s \<and> fifo_open s' = fifo_open s
    \<and> clients s' = map (\<lambda>x. if x = -1 then p else x) (clients s)
    \<and> child s' = (child s)[fork_count s := f]"
  using assms by (simp add: accept_client_def find_proper_location_def Let_def)

lemma try_connects_run:
  assumes "fifo_open s" "fork_count s + length ps \<le> MAX_CHILD" "clientCounter s \<le> numClients s + 1"
  shows "\<exists>s'. server_run (try_connects (server_pid s) ps) s = Inr s'
    \<and> clientCounter s' = min (clientCounter s + int (length ps)) (numClients s + 1)
    \<and> killed s' = killed s @ map fst (drop (nat (numClients s + 1 - clientCounter s)) ps)"
  using assms
proof (induction ps arbitrary: s)
  case Nil
  then show ?case by (simp add: try_connects_def)
next
  case (Cons pf ps)
  obtain p f where pf: "pf = (p, f)" by (cases pf)
  show ?case
  proof (cases "clientCounter s > numClients s")
    case True
    then have c: "clientCounter s = numClients s + 1" using Cons.prems by simp
    let ?s = "(mid_log_line (''>> Queue is full...Terminating the client '' @ [newline])
        (mid_log_line (''>> server fifo listening...'' @ [newline]) s))\<lparr>killed := killed s @ [p]\<rparr>"
    have st: "server_step (Request p (server_pid s) ''tryConnect'' (Some f)) s = Inr ?s"
      using True Cons.prems by (simp add: server_step_def Let_def)
    show ?thesis using Cons.IH [of ?s] Cons.prems st c pf by (simp add: try_connects_def)
  next
    case False
    let ?s0 = "mid_log_line (''>> server fifo listening...'' @ [newline]) s"
    have "fork_count ?s0 < MAX_CHILD" using Cons.prems by simp
    from accept_client_some [OF this, of p f] obtain s1 where s1: "accept_client p (Some f) ?s0 = Inr s1"
        "clientCounter s1 = clientCounter s + 1" "fork_count s1 = fork_count s + 1" "numClients s1 = numClients s"
        "server_pid s1 = server_pid s" "killed s1 = killed s" "fifo_open s1 = fifo_open s" by auto
    have st: "server_step (Request p (server_pid s) ''tryConnect'' (Some f)) s = Inr s1"
      using False Cons.prems s1(1) by (simp add: server_step_def Let_def)
    have d: "nat (numClients s + 1 - clientCounter s) = Suc (nat (numClients s - clientCounter s))"
      using False by simp
    have ih: "\<exists>s'. server_run (try_connects (server_pid s1) ps) s1 = Inr s'
        \<and> clientCounter s' = min (clientCounter s1 + int (length ps)) (numClients s1 + 1)
        \<and> killed s' = killed s1 @ map fst (drop (nat (numClients s1 + 1 - clientCounter s1)) ps)"
      using Cons.prems s1 False by (intro Cons.IH) simp_all
    then show ?thesis using st s1 pf d by (simp add: try_connects_def add.assoc)
  qed
qed

text \<open>
  The limit on clients is off by one: when clients only ask with \<open>tryConnect\<close> and none
  leaves, the server admits the first n + 1 of them, one more than its argument allows,
  and terminates exactly the others.
\<close>

theorem mid_admission_limit:
  assumes "0 \<le> n" "length ps \<le> MAX_CHILD"
  shows "\<exists>s. server_run (try_connects srv ps) (server_start srv n) = Inr s
    \<and> clientCounter s = min (int (length ps)) (n + 1) \<and> killed s = map fst (drop (nat (n + 1)) ps)"
  using try_connects_run [of "server_start srv n" ps] assms by (simp add: server_start_def)

theorem mid_admission_limit_witness:
  "\<exists>s. server_run (try_connects 9 [(11, 21), (12, 22), (13, 23)]) (server_start 9 1) = Inr s
     \<and> clientCounter s = 2 \<and> killed s = [13]"
  using mid_admission_limit [of 1 "[(11, 21), (12, 22), (13, 23)]" 9] by (simp add: MAX_CHILD_def)

section \<open>The tables\<close>

text \<open>
  The first client takes all the places of the table: the second of two clients is
  served but recorded nowhere, so an interrupt signals the first a hundred times and the
  second never.
\<close>

theorem mid_second_client_unrecorded:
  assumes "0 < n" "p1 \<noteq> -1" "p1 \<noteq> p2" "f1 \<noteq> p2" "f2 \<noteq> p2" "p2 \<noteq> -1"
  shows "\<exists>s. server_run [Request p1 srv c1 (Some f1), Request p2 srv c2 (Some f2)] (server_start srv n) = Inr s
    \<and> clientCounter s = 2 \<and> clients s = replicate MAX_CLIENT p1 \<and> p2 \<notin> set (sigint_kills s)"
proof -
  let ?s0 = "mid_log_line (''>> server fifo listening...'' @ [newline]) (server_start srv n)"
  have "fork_count ?s0 < MAX_CHILD" by (simp add: server_start_def MAX_CHILD_def)
  from accept_client_some [OF this, of p1 f1] obtain s1 where s1: "accept_client p1 (Some f1) ?s0 = Inr s1"
      "clientCounter s1 = 1" "fork_count s1 = 1" "numClients s1 = n" "server_pid s1 = srv" "fifo_open s1"
      "clients s1 = replicate MAX_CLIENT p1" "child s1 = (replicate MAX_CHILD (-1))[0 := f1]"
    by (auto simp: server_start_def)
  have r1: "server_step (Request p1 srv c1 (Some f1)) (server_start srv n) = Inr s1"
    using assms(1) s1(1) by (simp add: server_step_def Let_def server_start_def)
  let ?s2 = "mid_log_line (''>> server fifo listening...'' @ [newline]) s1"
  have "fork_count ?s2 < MAX_CHILD" using s1 by (simp add: MAX_CHILD_def)
  from accept_client_some [OF this, of p2 f2] obtain s where s: "accept_client p2 (Some f2) ?s2 = Inr s"
      "clientCounter s = 2" "clients s = replicate MAX_CLIENT p1"
      "child s = (replicate MAX_CHILD (-1))[0 := f1, 1 := f2]"
    using s1 assms(2) by auto
  have r2: "server_step (Request p2 srv c2 (Some f2)) s1 = Inr s"
    using assms(1) s(1) s1 by (simp add: server_step_def Let_def)
  have "set (sigint_kills s) \<subseteq> {p1, f1, f2}"
  proof
    fix x assume "x \<in> set (sigint_kills s)"
    then obtain c d where cd: "(c, d) \<in> set (zip (clients s) (child s))" "x = c \<or> x = d \<and> d \<noteq> -1"
      by (auto simp: sigint_kills_def split: if_splits)
    have "c = p1" using set_zip_leftD [OF cd(1)] s(3) by simp
    moreover have "d \<in> insert f1 (insert f2 {-1})"
      using set_zip_rightD [OF cd(1)] s(4)
        set_update_subset_insert [of "(replicate MAX_CHILD (-1))[0 := f1]" 1 f2]
        set_update_subset_insert [of "replicate MAX_CHILD (-1)" 0 f1] by auto
    ultimately show "x \<in> {p1, f1, f2}" using cd(2) by auto
  qed
  then have "p2 \<notin> set (sigint_kills s)" using assms(3-5) by auto
  then show ?thesis using r1 r2 s by simp
qed

theorem mid_second_client_unrecorded_witness:
  "\<exists>s. server_run [Request 11 9 ''connect'' (Some 21), Request 12 9 ''connect'' (Some 22)] (server_start 9 5) = Inr s
     \<and> 12 \<notin> set (sigint_kills s)"
  using mid_second_client_unrecorded [of 5 11 12 21 22 9 "''connect''" "''connect''"] by auto

definition visits :: "int \<Rightarrow> nat \<Rightarrow> server_event list" where
  "visits srv k = concat (replicate k [Request 11 srv ''connect'' (Some 21), ChildEnds 21 True])"

lemma visit_run:
  assumes "fifo_open s" "fork_count s < MAX_CHILD"
  shows "\<exists>s'. server_run [Request 11 (server_pid s) ''connect'' (Some 21), ChildEnds 21 True] s = Inr s'
    \<and> fifo_open s' \<and> fork_count s' = fork_count s + 1 \<and> server_pid s' = server_pid s"
proof -
  let ?s0 = "mid_log_line (''>> server fifo listening...'' @ [newline]) s"
  have "fork_count ?s0 < MAX_CHILD" using assms(2) by simp
  from accept_client_some [OF this, of 11 21] obtain s1 where s1: "accept_client 11 (Some 21) ?s0 = Inr s1"
      "fork_count s1 = fork_count s + 1" "server_pid s1 = server_pid s" "fifo_open s1"
    using assms(1) by auto
  have r1: "server_step (Request 11 (server_pid s) ''connect'' (Some 21)) s = Inr s1"
    using assms(1) s1(1) by (simp add: server_step_def Let_def)
  have k: "fork_count (sigchldhndlr 21 True s1) = fork_count s1 \<and> server_pid (sigchldhndlr 21 True s1) = server_pid s1
      \<and> fifo_open (sigchldhndlr 21 True s1) = fifo_open s1"
    by (auto simp: sigchldhndlr_def find_process_and_kill_def kill_fork_def Let_def split: option.split)
  then show ?thesis using r1 s1 by (simp add: server_step_def)
qed

lemma server_run_append: "server_run (es @ fs) s = cbind (server_run es s) (server_run fs)"
  by (induction es arbitrary: s) (simp_all add: cbind_def split: sum.split)

lemma visits_run:
  "fifo_open s \<Longrightarrow> fork_count s + k \<le> MAX_CHILD \<Longrightarrow>
   \<exists>s'. server_run (visits (server_pid s) k) s = Inr s' \<and> fifo_open s'
     \<and> fork_count s' = fork_count s + k \<and> server_pid s' = server_pid s"
proof (induction k arbitrary: s)
  case (Suc k)
  then obtain s1 where s1: "server_run [Request 11 (server_pid s) ''connect'' (Some 21), ChildEnds 21 True] s = Inr s1"
      "fifo_open s1" "fork_count s1 = fork_count s + 1" "server_pid s1 = server_pid s"
    using visit_run [of s] by auto
  have e: "visits (server_pid s) (Suc k) = [Request 11 (server_pid s) ''connect'' (Some 21), ChildEnds 21 True]
      @ visits (server_pid s) k" by (simp add: visits_def)
  have ih: "\<exists>s'. server_run (visits (server_pid s1) k) s1 = Inr s' \<and> fifo_open s'
      \<and> fork_count s' = fork_count s1 + k \<and> server_pid s' = server_pid s1"
    using Suc.prems s1 by (intro Suc.IH) simp_all
  then show ?case unfolding e server_run_append s1(1) using s1(2-4) by simp
qed (simp add: visits_def)

text \<open>
  The table of children overflows: the index \<open>fork_count\<close> only grows, so the 101st
  accepted connection of the server's life writes behind \<open>child\<close>, even when all the
  earlier clients have left.
\<close>

theorem mid_child_table_overflow:
  "server_run (visits srv 100 @ [Request 12 srv ''connect'' (Some 22)]) (server_start srv n) = Inl OutOfBounds"
proof -
  obtain s where s: "server_run (visits srv 100) (server_start srv n) = Inr s" "fifo_open s"
      "fork_count s = 100" "server_pid s = srv"
    using visits_run [of "server_start srv n" 100] by (auto simp: server_start_def MAX_CHILD_def)
  have "server_step (Request 12 srv ''connect'' (Some 22)) s = Inl OutOfBounds"
    using s(2-4) by (simp add: server_step_def accept_client_def find_proper_location_def Let_def MAX_CHILD_def)
  then show ?thesis using s(1) by (simp add: server_run_append)
qed

end
