(* ===== verification/MidTransfer.thy ===== *)
theory MidTransfer
  imports CText
begin

text \<open>
  The file transfer of \<^verbatim>\<open>midterm/common.c\<close>: \<open>producerr\<close> and \<open>consumerrr\<close> of one transfer,
  in the processes of the client and of the server, with the shared memory segment and the
  two named semaphores, which outlive the processes. A step is one system call or one copy
  of the segment (a new segment has no byte until \<^verbatim>\<open>ftruncate\<close>); the relation \<open>transfer_step\<close> interleaves the two processes arbitrarily.
\<close>

section \<open>The two processes\<close>

definition BUFFER_SIZE :: nat where "BUFFER_SIZE = 4096"

record shared =
  segment :: "string option"
  producer_sem :: "nat option"
  consumer_sem :: "nat option"
  tfiles :: "string \<Rightarrow> string option"

datatype prod_pc = P_open | P_trunc | P_clear | P_sem1 | P_sem2 | P_read | P_wait string | P_copy string | P_post
  | P_count | P_done nat | P_exit | P_fault

text \<open>The flag: whether \<^verbatim>\<open>SEM_FULL\<close> was found. If not, the consumer prints an error and goes on.\<close>

datatype cons_pc = C_open | C_sem1 | C_sem2 | C_fopen bool | C_wait bool | C_write | C_post | C_count
  | C_done nat | C_exit | C_fault

definition zeros :: string where "zeros = replicate BUFFER_SIZE (CHR 0x00)"

text \<open>The string at the start of the segment; without a NUL the read leaves the mapping.\<close>

definition shm_string :: "string option \<Rightarrow> string option" where
  "shm_string seg = (case seg of None \<Rightarrow> None
     | Some m \<Rightarrow> if CHR 0x00 \<in> set m then Some (c_string m) else None)"

definition sem_create :: "nat \<Rightarrow> nat option \<Rightarrow> nat option" where
  "sem_create v sem = (case sem of None \<Rightarrow> Some v | Some n \<Rightarrow> Some n)"

text \<open>\<open>None\<close>: the process is blocked or has ended.\<close>

fun producerr :: "string \<Rightarrow> prod_pc \<Rightarrow> shared \<Rightarrow> (prod_pc \<times> shared) option" where
  "producerr filename P_open s =
     Some (P_trunc, s\<lparr>segment := Some (case segment s of None \<Rightarrow> [] | Some m \<Rightarrow> m)\<rparr>)"
| "producerr filename P_trunc s =
     Some (P_clear, s\<lparr>segment := map_option (\<lambda>m. m @ drop (length m) zeros) (segment s)\<rparr>)"
| "producerr filename P_clear s = Some (P_sem1, s\<lparr>segment := Some zeros\<rparr>)"
| "producerr filename P_sem1 s = Some (P_sem2, s\<lparr>producer_sem := sem_create 1 (producer_sem s)\<rparr>)"
| "producerr filename P_sem2 s = Some (P_read, s\<lparr>consumer_sem := sem_create 0 (consumer_sem s)\<rparr>)"
| "producerr filename P_read s = (case tfiles s filename of
       None \<Rightarrow> Some (P_exit, s)
     | Some bytes \<Rightarrow> Some (P_wait (take BUFFER_SIZE bytes), s))"
| "producerr filename (P_wait buffer) s = (case producer_sem s of
       Some (Suc n) \<Rightarrow> Some (P_copy buffer, s\<lparr>producer_sem := Some n\<rparr>)
     | _ \<Rightarrow> None)"
| "producerr filename (P_copy buffer) s =
     Some (P_post, s\<lparr>segment := map_option (\<lambda>m. buffer @ drop (length buffer) m) (segment s)\<rparr>)"
| "producerr filename P_post s = Some (P_count, s\<lparr>consumer_sem := map_option Suc (consumer_sem s)\<rparr>)"
| "producerr filename P_count s = (case shm_string (segment s) of
       None \<Rightarrow> Some (P_fault, s) | Some t \<Rightarrow> Some (P_done (length t), s))"
| "producerr filename (P_done n) s = None"
| "producerr filename P_exit s = None"
| "producerr filename P_fault s = None"

fun consumerrr :: "string \<Rightarrow> cons_pc \<Rightarrow> shared \<Rightarrow> (cons_pc \<times> shared) option" where
  "consumerrr filename C_open s = Some (if segment s = None then C_exit else C_sem1, s)"
| "consumerrr filename C_sem1 s = Some (if producer_sem s = None then C_exit else C_sem2, s)"
| "consumerrr filename C_sem2 s = Some (C_fopen (consumer_sem s \<noteq> None), s)"
| "consumerrr filename (C_fopen found) s = Some (C_wait found, s\<lparr>tfiles := (tfiles s)(filename \<mapsto> [])\<rparr>)"
| "consumerrr filename (C_wait found) s =
     (if \<not> found then Some (C_fault, s)
      else case consumer_sem s of
        Some (Suc n) \<Rightarrow> Some (C_write, s\<lparr>consumer_sem := Some n\<rparr>)
      | _ \<Rightarrow> None)"
| "consumerrr filename C_write s = (case shm_string (segment s) of
       None \<Rightarrow> Some (C_fault, s)
     | Some t \<Rightarrow> Some (C_post, s\<lparr>tfiles := (tfiles s)(filename \<mapsto> t)\<rparr>))"
| "consumerrr filename C_post s = Some (C_count, s\<lparr>producer_sem := map_option Suc (producer_sem s)\<rparr>)"
| "consumerrr filename C_count s = (case shm_string (segment s) of
       None \<Rightarrow> Some (C_fault, s) | Some t \<Rightarrow> Some (C_done (length t), s))"
| "consumerrr filename (C_done n) s = None"
| "consumerrr filename C_exit s = None"
| "consumerrr filename C_fault s = None"

type_synonym transfer_state = "prod_pc \<times> cons_pc \<times> shared"

inductive transfer_step :: "string \<Rightarrow> string \<Rightarrow> transfer_state \<Rightarrow> transfer_state \<Rightarrow> bool"
  for p q :: string where
  producer: "producerr p P s = Some (P', s') \<Longrightarrow> transfer_step p q (P, C, s) (P', C, s')"
| consumer: "consumerrr q C s = Some (C', s') \<Longrightarrow> transfer_step p q (P, C, s) (P, C', s')"

inductive_cases transfer_stepE: "transfer_step p q (P, C, s) t"

abbreviation transfer_run :: "string \<Rightarrow> string \<Rightarrow> transfer_state \<Rightarrow> transfer_state \<Rightarrow> bool" where
  "transfer_run p q \<equiv> (transfer_step p q)\<^sup>*\<^sup>*"

text \<open>An invariant of single steps holds in every state of a run.\<close>

lemma transfer_run_inv:
  assumes "transfer_run p q t t'" "I t"
    and "\<And>P C s P' s'. I (P, C, s) \<Longrightarrow> producerr p P s = Some (P', s') \<Longrightarrow> I (P', C, s')"
    and "\<And>P C s C' s'. I (P, C, s) \<Longrightarrow> consumerrr q C s = Some (C', s') \<Longrightarrow> I (P, C', s')"
  shows "I t'"
  using assms(1,2)
proof (induction rule: rtranclp_induct)
  case (step y z)
  then have "I y" by simp
  with step(2) show ?case by (cases rule: transfer_step.cases) (auto intro: assms(3,4))
qed

section \<open>Every run ends\<close>

fun prod_rank :: "prod_pc \<Rightarrow> nat" where
  "prod_rank P_open = 10" | "prod_rank P_trunc = 9" | "prod_rank P_clear = 8" | "prod_rank P_sem1 = 7" | "prod_rank P_sem2 = 6"
| "prod_rank P_read = 5"
| "prod_rank (P_wait d) = 4" | "prod_rank (P_copy d) = 3" | "prod_rank P_post = 2" | "prod_rank P_count = 1"
| "prod_rank (P_done n) = 0" | "prod_rank P_exit = 0" | "prod_rank P_fault = 0"

fun cons_rank :: "cons_pc \<Rightarrow> nat" where
  "cons_rank C_open = 8" | "cons_rank C_sem1 = 7" | "cons_rank C_sem2 = 6" | "cons_rank (C_fopen b) = 5" | "cons_rank (C_wait b) = 4"
| "cons_rank C_write = 3" | "cons_rank C_post = 2" | "cons_rank C_count = 1" | "cons_rank (C_done n) = 0"
| "cons_rank C_exit = 0" | "cons_rank C_fault = 0"

lemma producerr_rank: "producerr p P s = Some (P', s') \<Longrightarrow> prod_rank P' < prod_rank P"
  by (cases P) (auto split: option.splits nat.splits)

lemma consumerrr_rank: "consumerrr q C s = Some (C', s') \<Longrightarrow> cons_rank C' < cons_rank C"
  by (cases C) (auto split: option.splits nat.splits if_splits)

lemma transfer_step_rank:
  "transfer_step p q (P, C, s) (P', C', s') \<Longrightarrow> prod_rank P' + cons_rank C' < prod_rank P + cons_rank C"
  by (elim transfer_stepE) (auto dest: producerr_rank consumerrr_rank)

lemma transfer_length:
  "(transfer_step p q ^^ n) (P, C, s) (P', C', s') \<Longrightarrow> n + prod_rank P' + cons_rank C' \<le> prod_rank P + cons_rank C"
proof (induction n arbitrary: P' C' s')
  case (Suc n)
  then obtain P1 C1 s1 where s1: "(transfer_step p q ^^ n) (P, C, s) (P1, C1, s1)"
      "transfer_step p q (P1, C1, s1) (P', C', s')" by auto
  from Suc.IH [OF s1(1)] transfer_step_rank [OF s1(2)] show ?case by simp
qed simp

section \<open>One transfer\<close>

definition fresh :: "shared \<Rightarrow> bool" where
  "fresh s \<longleftrightarrow> (producer_sem s = None \<and> consumer_sem s = None) \<or> (producer_sem s = Some 1 \<and> consumer_sem s = Some 0)"

definition sems :: "nat \<Rightarrow> nat \<Rightarrow> shared \<Rightarrow> bool" where
  "sems a b s \<longleftrightarrow> producer_sem s = Some a \<and> consumer_sem s = Some b"

fun early :: "string \<Rightarrow> cons_pc \<Rightarrow> shared \<Rightarrow> bool" where
  "early q C_open s = True"
| "early q C_exit s = True"
| "early q C_sem1 s = (segment s \<noteq> None)"
| "early q C_sem2 s = (producer_sem s \<noteq> None)"
| "early q (C_fopen b) s = (producer_sem s \<noteq> None \<and> (b \<longrightarrow> consumer_sem s \<noteq> None))"
| "early q (C_wait b) s = (producer_sem s \<noteq> None \<and> (b \<longrightarrow> consumer_sem s \<noteq> None) \<and> tfiles s q = Some [])"
| "early q C_fault s = (tfiles s q = Some [])"
| "early q _ s = False"

definition filled :: "string \<Rightarrow> string" where
  "filled d = d @ drop (length d) zeros"

fun late :: "string \<Rightarrow> string \<Rightarrow> cons_pc \<Rightarrow> shared \<Rightarrow> bool" where
  "late q d C_write s = sems 0 0 s"
| "late q d C_post s = (sems 0 0 s \<and> tfiles s q = Some (c_string d))"
| "late q d C_count s = (sems 1 0 s \<and> tfiles s q = Some (c_string d))"
| "late q d (C_done n) s = (sems 1 0 s \<and> tfiles s q = Some (c_string d) \<and> n = length (c_string d))"
| "late q d C_fault s = (sems 0 1 s \<and> tfiles s q = Some [])"
| "late q d (C_wait b) s = (sems 0 1 s \<and> tfiles s q = Some [])"
| "late q d _ s = sems 0 1 s"

fun transfer_inv :: "string \<Rightarrow> string \<Rightarrow> string \<Rightarrow> transfer_state \<Rightarrow> bool" where
  "transfer_inv p q d (P, C, s) \<longleftrightarrow> map_option (take BUFFER_SIZE) (tfiles s p) = Some d
    \<and> (case P of
        P_open \<Rightarrow> early q C s \<and> fresh s
      | P_trunc \<Rightarrow> early q C s \<and> fresh s \<and> segment s \<noteq> None
      | P_clear \<Rightarrow> early q C s \<and> fresh s \<and> segment s \<noteq> None
      | P_sem1 \<Rightarrow> early q C s \<and> fresh s \<and> segment s = Some zeros
      | P_sem2 \<Rightarrow> early q C s \<and> producer_sem s = Some 1 \<and> (consumer_sem s = None \<or> consumer_sem s = Some 0) \<and> segment s = Some zeros
      | P_read \<Rightarrow> early q C s \<and> sems 1 0 s \<and> segment s = Some zeros
      | P_wait b \<Rightarrow> b = d \<and> early q C s \<and> sems 1 0 s \<and> segment s = Some zeros
      | P_copy b \<Rightarrow> b = d \<and> early q C s \<and> sems 0 0 s \<and> segment s = Some zeros
      | P_post \<Rightarrow> early q C s \<and> sems 0 0 s \<and> segment s = Some (filled d)
      | P_count \<Rightarrow> late q d C s \<and> segment s = Some (filled d)
      | P_done n \<Rightarrow> late q d C s \<and> segment s = Some (filled d) \<and> n = length (c_string d)
      | _ \<Rightarrow> False)"

definition one_page :: "string \<Rightarrow> bool" where
  "one_page d \<longleftrightarrow> length d < BUFFER_SIZE \<or> CHR 0x00 \<in> set d"

lemma shm_string_filled:
  assumes "one_page d"
  shows "shm_string (Some (filled d)) = Some (c_string d)"
proof (cases "CHR 0x00 \<in> set d")
  case True
  then show ?thesis by (simp add: shm_string_def filled_def c_string_def takeWhile_append1)
next
  case False
  then have l: "length d < BUFFER_SIZE" using assms by (simp add: one_page_def)
  then obtain k where k: "drop (length d) zeros = CHR 0x00 # k"
    by (cases "BUFFER_SIZE - length d") (auto simp: zeros_def)
  have t: "takeWhile (\<lambda>c. c \<noteq> CHR 0x00) d = d" using False by (auto simp: takeWhile_eq_all_conv)
  have "takeWhile (\<lambda>c. c \<noteq> CHR 0x00) (d @ CHR 0x00 # k) = d"
    using False by (intro trans [OF takeWhile_append2]) auto
  then show ?thesis unfolding filled_def k by (simp add: shm_string_def c_string_def t)
qed

lemma sem_create_fresh: "fresh s \<Longrightarrow> sem_create 1 (producer_sem s) = Some 1 \<and> (consumer_sem s = None \<or> consumer_sem s = Some 0)"
  by (auto simp: fresh_def sem_create_def)

lemma early_late: "early q C s \<Longrightarrow> sems 0 1 s' \<Longrightarrow> tfiles s' = tfiles s \<Longrightarrow> late q d C s'"
  by (cases C) auto

lemma early_segment: "early q C s \<Longrightarrow> early q C (s\<lparr>segment := Some m\<rparr>)"
  by (cases C) auto

lemma early_csem: "early q C s \<Longrightarrow> early q C (s\<lparr>consumer_sem := Some b\<rparr>)"
  by (cases C) auto

lemma early_psem: "early q C s \<Longrightarrow> early q C (s\<lparr>producer_sem := Some a\<rparr>)"
  by (cases C) auto

lemma fresh_segment [simp]: "fresh (s\<lparr>segment := m\<rparr>) = fresh s" "sems a b (s\<lparr>segment := m\<rparr>) = sems a b s"
  "fresh (s\<lparr>tfiles := f\<rparr>) = fresh s" "sems a b (s\<lparr>tfiles := f\<rparr>) = sems a b s"
  by (simp_all add: fresh_def sems_def)

lemma producerr_inv:
  assumes "transfer_inv p q d (P, C, s)" "producerr p P s = Some (P', s')" "one_page d"
  shows "transfer_inv p q d (P', C, s')"
proof (cases P)
  case P_trunc
  then obtain m where "segment s = Some m" using assms(1) by auto
  then show ?thesis using assms P_trunc by (auto intro: early_segment)
next
  case P_sem1
  then show ?thesis using assms sem_create_fresh [of s] by (auto intro: early_psem)
next
  case P_sem2
  then show ?thesis using assms by (auto simp: sems_def sem_create_def intro: early_csem)
next
  case (P_wait b)
  then show ?thesis using assms by (auto simp: sems_def intro: early_psem split: nat.splits)
next
  case (P_copy b)
  then show ?thesis using assms by (auto simp: filled_def intro: early_segment)
next
  case P_post
  then show ?thesis using assms by (auto simp: sems_def intro!: early_late [of q C s])
next
  case P_count
  then show ?thesis using assms by (auto simp: shm_string_filled)
qed (use assms in \<open>auto intro: early_segment split: option.splits\<close>)

lemma consumerrr_early:
  assumes "early q C s" "consumerrr q C s = Some (C', s')" "consumer_sem s = None \<or> consumer_sem s = Some 0"
  shows "early q C' s' \<and> segment s' = segment s \<and> producer_sem s' = producer_sem s
    \<and> consumer_sem s' = consumer_sem s \<and> (\<forall>p. p \<noteq> q \<longrightarrow> tfiles s' p = tfiles s p)"
  using assms by (cases C) (auto split: if_splits)

lemma consumerrr_late:
  assumes "late q d C s" "consumerrr q C s = Some (C', s')" "one_page d" "segment s = Some (filled d)"
  shows "late q d C' s' \<and> segment s' = segment s \<and> (\<forall>p. p \<noteq> q \<longrightarrow> tfiles s' p = tfiles s p)"
  using assms(1,2,4) shm_string_filled [OF assms(3)] by (cases C) (auto simp: sems_def split: if_splits)

lemma consumerrr_inv:
  assumes "transfer_inv p q d (P, C, s)" "consumerrr q C s = Some (C', s')" "one_page d" "p \<noteq> q"
  shows "transfer_inv p q d (P, C', s')"
proof (cases "P = P_count \<or> (\<exists>n. P = P_done n)")
  case True
  then have l: "late q d C s" "segment s = Some (filled d)" using assms(1) by auto
  from consumerrr_late [OF l(1) assms(2,3) l(2)] show ?thesis using assms(1,4) True by auto
next
  case False
  then have e: "early q C s" "consumer_sem s = None \<or> consumer_sem s = Some 0"
    using assms(1) by (auto simp: fresh_def sems_def split: prod_pc.splits)
  from consumerrr_early [OF e(1) assms(2) e(2)] have
    "early q C' s'" "segment s' = segment s" "producer_sem s' = producer_sem s" "consumer_sem s' = consumer_sem s" "fresh s' = fresh s" "\<And>a b. sems a b s' = sems a b s" "tfiles s' p = tfiles s p"
    using assms(4) by (auto simp: fresh_def sems_def)
  then show ?thesis using assms(1) False by (auto split: prod_pc.splits)
qed

lemma transfer_inv_stuck:
  assumes "transfer_inv p q d (P, C, s)" "one_page d" "\<not> (\<exists>t. transfer_step p q (P, C, s) t)"
  shows "P = P_done (length (c_string d)) \<and> ((C = C_done (length (c_string d)) \<and> sems 1 0 s \<and> tfiles s q = Some (c_string d))
    \<or> (C = C_exit \<and> sems 0 1 s) \<or> (C = C_fault \<and> sems 0 1 s \<and> tfiles s q = Some []))"
proof -
  have p: "producerr p P s = None" using assms(3) transfer_step.producer [of p P s _ _ q C] by (metis option.exhaust prod.exhaust)
  have c: "consumerrr q C s = None" using assms(3) transfer_step.consumer [of q C s _ _ p P] by (metis option.exhaust prod.exhaust)
  have P: "P = P_done (length (c_string d))" using assms(1) p
    by (cases P) (auto simp: sems_def split: option.splits nat.splits)
  then have l: "late q d C s" "segment s = Some (filled d)" using assms(1) by auto
  show ?thesis using P l c shm_string_filled [OF assms(2)]
    by (cases C) (auto simp: sems_def split: if_splits option.splits nat.splits)
qed

text \<open>A schedule as a list: True for a step of the producer.\<close>

fun transfer_schedule :: "string \<Rightarrow> string \<Rightarrow> bool list \<Rightarrow> transfer_state \<Rightarrow> transfer_state" where
  "transfer_schedule p q [] t = t"
| "transfer_schedule p q (b # bs) (P, C, s) = transfer_schedule p q bs
     (if b then (case producerr p P s of None \<Rightarrow> (P, C, s) | Some (P', s') \<Rightarrow> (P', C, s'))
      else (case consumerrr q C s of None \<Rightarrow> (P, C, s) | Some (C', s') \<Rightarrow> (P, C', s')))"

lemma transfer_schedule_run: "\<exists>n. (transfer_step p q ^^ n) t (transfer_schedule p q bs t)"
proof (induction bs arbitrary: t)
  case Nil
  show ?case by (intro exI [of _ 0]) simp
next
  case (Cons b bs)
  obtain P C s where t: "t = (P, C, s)" by (cases t)
  let ?u = "if b then (case producerr p P s of None \<Rightarrow> (P, C, s) | Some (P', s') \<Rightarrow> (P', C, s'))
      else (case consumerrr q C s of None \<Rightarrow> (P, C, s) | Some (C', s') \<Rightarrow> (P, C', s'))"
  obtain n where n: "(transfer_step p q ^^ n) ?u (transfer_schedule p q bs ?u)" using Cons.IH by blast
  have "?u = t \<or> transfer_step p q t ?u"
    unfolding t by (auto split: option.splits intro: transfer_step.intros)
  then show ?case
  proof
    assume "?u = t"
    then show ?thesis using n by (auto simp: t)
  next
    assume "transfer_step p q t ?u"
    then have "(transfer_step p q ^^ Suc n) t (transfer_schedule p q bs ?u)" using n by (rule relpowp_Suc_I2)
    then show ?thesis unfolding t transfer_schedule.simps by blast
  qed
qed

lemma producerr_files: "producerr p P s = Some (P', s') \<Longrightarrow> tfiles s' = tfiles s"
  by (cases P) (auto split: option.splits nat.splits)

lemma consumerrr_files: "consumerrr q C s = Some (C', s') \<Longrightarrow> p \<noteq> q \<Longrightarrow> tfiles s' p = tfiles s p"
  by (cases C) (auto split: option.splits nat.splits if_splits)

lemma transfer_keeps_source:
  assumes "transfer_run p q (P0, C0, s) (P, C, s')" "p \<noteq> q"
  shows "tfiles s' p = tfiles s p"
proof -
  have "(\<lambda>(P, C, s'). tfiles s' p = tfiles s p) (P, C, s')"
    using assms(1) by (rule transfer_run_inv) (auto dest: producerr_files consumerrr_files [OF _ assms(2)])
  then show ?thesis by simp
qed

text \<open>
  C32. One transfer, in every interleaving of the two processes and from every state in
  which the semaphores are unused or as a complete transfer leaves them: a run makes at most
  18 steps; as long as it can still go on nothing is lost, and when it has stopped, the
  producer has ended and one of three things has happened. The consumer has written exactly
  the text of the file (up to its first NUL, at most one page), both report its length and
  the semaphores are as before. Or the consumer had come before the segment or the first
  semaphore existed and given up. Or it had come between the creation of the two
  semaphores: then it has printed an error, emptied its file and crashed in \<^verbatim>\<open>sem_wait\<close> on a
  semaphore that it does not have. The last two leave the two semaphores swapped.
\<close>

theorem mid_transfer_exact:
  assumes "p \<noteq> q" "fresh s" "tfiles s p = Some bytes" "one_page (take BUFFER_SIZE bytes)"
    and "(transfer_step p q ^^ n) (P_open, C_open, s) (P, C, s')" "\<not> (\<exists>t. transfer_step p q (P, C, s') t)"
  shows "n \<le> 18 \<and> P = P_done (length (c_string (take BUFFER_SIZE bytes)))
    \<and> ((C = C_done (length (c_string (take BUFFER_SIZE bytes))) \<and> tfiles s' q = Some (c_string (take BUFFER_SIZE bytes))
          \<and> producer_sem s' = Some 1 \<and> consumer_sem s' = Some 0)
       \<or> (C = C_exit \<and> producer_sem s' = Some 0 \<and> consumer_sem s' = Some 1)
       \<or> (C = C_fault \<and> tfiles s' q = Some [] \<and> producer_sem s' = Some 0 \<and> consumer_sem s' = Some 1))
    \<and> tfiles s' p = tfiles s p"
proof -
  let ?d = "take BUFFER_SIZE bytes"
  have run: "transfer_run p q (P_open, C_open, s) (P, C, s')" using assms(5) by (rule relpowp_imp_rtranclp)
  have i: "transfer_inv p q ?d (P_open, C_open, s)" using assms(2,3) by simp
  have "transfer_inv p q ?d (P, C, s')"
    using run i by (rule transfer_run_inv) (blast intro: producerr_inv [OF _ _ assms(4)] consumerrr_inv [OF _ _ assms(4,1)])+
  moreover have "tfiles s' p = tfiles s p"
    using transfer_keeps_source [OF run assms(1)] by simp
  ultimately show ?thesis using transfer_inv_stuck [OF _ assms(4,6)] transfer_length [OF assms(5)] by (auto simp: sems_def)
qed

definition demo_shared :: shared where
  "demo_shared = \<lparr>segment = None, producer_sem = None, consumer_sem = None, tfiles = [''f'' \<mapsto> ''text'']\<rparr>"

theorem mid_transfer_exact_witness:
  "\<exists>n s'. (transfer_step ''f'' ''here/f'' ^^ n) (P_open, C_open, demo_shared) (P_done 4, C_done 4, s') \<and> n \<le> 18
    \<and> tfiles s' ''here/f'' = Some ''text'' \<and> producer_sem s' = Some 1 \<and> consumer_sem s' = Some 0"
proof -
  let ?bs = "replicate 10 True @ replicate 8 False"
  have tk: "take BUFFER_SIZE ''text'' = ''text''" "c_string ''text'' = ''text''" "one_page ''text''"
    by (simp_all add: BUFFER_SIZE_def c_string_def one_page_def)
  have m: "shm_string (Some (''text'' @ drop (length ''text'') zeros)) = Some ''text''"
    using shm_string_filled [OF tk(3)] tk(2) by (simp add: filled_def)
  obtain n where n: "(transfer_step ''f'' ''here/f'' ^^ n) (P_open, C_open, demo_shared)
      (transfer_schedule ''f'' ''here/f'' ?bs (P_open, C_open, demo_shared))"
    using transfer_schedule_run by blast
  moreover obtain s' where s': "transfer_schedule ''f'' ''here/f'' ?bs (P_open, C_open, demo_shared) = (P_done 4, C_done 4, s')"
    using m by (simp add: demo_shared_def sem_create_def tk numeral_eq_Suc)
  moreover have "\<not> (\<exists>t. transfer_step ''f'' ''here/f'' (P_done 4, C_done 4, s') t)"
    by (auto elim: transfer_stepE)
  ultimately show ?thesis
    using mid_transfer_exact [of "''f''" "''here/f''" demo_shared "''text''" n "P_done 4" "C_done 4" s'] tk
    by (auto simp: demo_shared_def fresh_def)
qed

text \<open>The third outcome exists: a consumer that finds \<^verbatim>\<open>SEM_MUTEX\<close> and not \<^verbatim>\<open>SEM_FULL\<close> crashes.\<close>

lemma mid_transfer_crash:
  "\<exists>s'. transfer_run ''f'' ''here/f'' (P_open, C_open, demo_shared) (P_sem2, C_fault, s') \<and> tfiles s' ''here/f'' = Some []"
proof -
  obtain s' where s': "transfer_schedule ''f'' ''here/f'' (replicate 4 True @ replicate 5 False) (P_open, C_open, demo_shared)
      = (P_sem2, C_fault, s')" "tfiles s' ''here/f'' = Some []"
    by (simp add: demo_shared_def sem_create_def numeral_eq_Suc)
  then show ?thesis
    using transfer_schedule_run [of "''f''" "''here/f''" "(P_open, C_open, demo_shared)" "replicate 4 True @ replicate 5 False"]
    by (auto dest: relpowp_imp_rtranclp)
qed

section \<open>After a transfer without a consumer\<close>

text \<open>The state that a producer without a consumer leaves: its text, and the semaphores swapped.\<close>

definition stray :: "string \<Rightarrow> shared \<Rightarrow> bool" where
  "stray old s \<longleftrightarrow> (\<exists>m. segment s = Some m \<and> shm_string (Some m) = Some old) \<and> sems 0 1 s"

fun before_wait :: "prod_pc \<Rightarrow> bool" where
  "before_wait P_open = True" | "before_wait P_trunc = True" | "before_wait P_clear = True" | "before_wait P_sem1 = True"
| "before_wait P_sem2 = True"
| "before_wait P_read = True" | "before_wait (P_wait b) = True" | "before_wait P_exit = True"
| "before_wait _ = False"

fun on_the_way :: "cons_pc \<Rightarrow> bool" where
  "on_the_way C_open = True" | "on_the_way C_sem1 = True" | "on_the_way C_sem2 = True" | "on_the_way (C_fopen b) = b"
| "on_the_way (C_wait b) = b" | "on_the_way _ = False"

fun stray_inv :: "string \<Rightarrow> string \<Rightarrow> transfer_state \<Rightarrow> bool" where
  "stray_inv q old (P, C, s) \<longleftrightarrow>
    (on_the_way C \<or> C = C_write \<or> C \<noteq> C_exit \<and> (tfiles s q = Some old \<or> tfiles s q = Some []))
    \<and> (on_the_way C \<longrightarrow> before_wait P \<and> sems 0 1 s)
    \<and> (C \<in> {C_write, C_post} \<longrightarrow> before_wait P \<and> sems 0 0 s)
    \<and> (on_the_way C \<or> C = C_write \<longrightarrow>
        (\<exists>m t. segment s = Some m \<and> shm_string (Some m) = Some t \<and> (t = old \<or> t = [])))
    \<and> C \<noteq> C_fopen False \<and> C \<noteq> C_wait False"

lemma shm_string_zeros: "shm_string (Some zeros) = Some []"
  using shm_string_filled [of "[]"] by (simp add: one_page_def BUFFER_SIZE_def filled_def c_string_def)

lemma shm_string_truncate: "shm_string (Some m) = Some t \<Longrightarrow> shm_string (Some (m @ z)) = Some t"
  by (auto simp: shm_string_def c_string_def split: if_splits)

text \<open>What a producer before its wait does to the segment and, if they exist, the semaphores.\<close>

lemma before_wait_step:
  assumes "before_wait P" "producer_sem s = Some 0" "consumer_sem s \<noteq> None" "producerr p P s = Some (P', s')"
  shows "before_wait P'" "producer_sem s' = producer_sem s" "consumer_sem s' = consumer_sem s"
    and "segment s = Some m \<Longrightarrow> shm_string (Some m) = Some t \<Longrightarrow>
      \<exists>m'. segment s' = Some m' \<and> (shm_string (Some m') = Some t \<or> shm_string (Some m') = Some [])"
  using assms shm_string_zeros shm_string_truncate
  by (cases P; auto simp: sem_create_def split: option.splits)+

lemma stray_producerr:
  assumes "stray_inv q old (P, C, s)" "producerr p P s = Some (P', s')"
  shows "stray_inv q old (P', C, s')"
proof -
  have f: "tfiles s' = tfiles s" by (rule producerr_files [OF assms(2)])
  show ?thesis
  proof (cases "on_the_way C \<or> C \<in> {C_write, C_post}")
    case True
    then have b: "before_wait P" "producer_sem s = Some 0" "consumer_sem s \<noteq> None"
      using assms(1) by (auto simp: sems_def)
    note st = before_wait_step [OF b assms(2)]
    have "\<exists>m t. segment s' = Some m \<and> shm_string (Some m) = Some t \<and> (t = old \<or> t = [])" if "on_the_way C \<or> C = C_write"
    proof -
      have "\<exists>m t. segment s = Some m \<and> shm_string (Some m) = Some t \<and> (t = old \<or> t = [])"
        using assms(1) that unfolding stray_inv.simps by blast
      then obtain m t where m: "segment s = Some m" "shm_string (Some m) = Some t" "t = old \<or> t = []" by blast
      show ?thesis using st(4) [OF m(1,2)] m(3) by blast
    qed
    then show ?thesis using assms(1) f st(1-3) by (simp add: sems_def)
  next
    case False
    then show ?thesis using assms(1) f by auto
  qed
qed

lemma stray_consumerrr:
  assumes "stray_inv q old (P, C, s)" "consumerrr q C s = Some (C', s')"
  shows "stray_inv q old (P, C', s')"
proof (cases C)
  case (C_wait b)
  then have "b" using assms(1) by (cases b) simp_all
  then have b: "b" "before_wait P" "sems 0 1 s" using assms(1) C_wait by auto
  then have "C' = C_write" "s' = s\<lparr>consumer_sem := Some 0\<rparr>" using assms(2) C_wait by (simp_all add: sems_def)
  moreover have "\<exists>m t. segment s = Some m \<and> shm_string (Some m) = Some t \<and> (t = old \<or> t = [])"
    using assms(1) C_wait b(1) by simp
  ultimately show ?thesis using b by (simp add: sems_def)
next
  case C_write
  then obtain m t where "segment s = Some m" "shm_string (Some m) = Some t" "t = old \<or> t = []" using assms(1) by auto
  moreover from this have "C' = C_post" "s' = s\<lparr>tfiles := (tfiles s)(q \<mapsto> t)\<rparr>" using assms(2) C_write by simp_all
  ultimately show ?thesis using assms(1) C_write by auto
next
  case C_open
  then obtain m where "segment s = Some m" using assms(1) by auto
  then have "C' = C_sem1" "s' = s" using assms(2) C_open by simp_all
  then show ?thesis using assms(1) C_open by simp
next
  case C_sem1
  then have "C' = C_sem2" "s' = s" using assms by (simp_all add: sems_def)
  then show ?thesis using assms(1) C_sem1 by simp
next
  case C_sem2
  then have "C' = C_fopen True" "s' = s" using assms by (simp_all add: sems_def)
  then show ?thesis using assms(1) C_sem2 by simp
next
  case (C_fopen b)
  then have "b" using assms(1) by (cases b) simp_all
  moreover have "C' = C_wait b" "s' = s\<lparr>tfiles := (tfiles s)(q \<mapsto> [])\<rparr>" using assms(2) C_fopen by simp_all
  ultimately show ?thesis using assms(1) C_fopen by simp
next
  case C_post
  then have "C' = C_count" "s' = s\<lparr>producer_sem := map_option Suc (producer_sem s)\<rparr>" using assms(2) by simp_all
  then show ?thesis using assms(1) C_post by simp
next
  case C_count
  then have "s' = s" "C' = C_fault \<or> (\<exists>n. C' = C_done n)" using assms(2) by (auto split: option.splits)
  then show ?thesis using assms(1) C_count by auto
qed (use assms in simp_all)

text \<open>
  A transfer without a consumer spoils the next one: when a producer alone has left
  \<open>old\<close> behind, the next pair, in every interleaving, ends with a consumer's file that
  has \<open>old\<close> or nothing in it, whatever the file to be transferred contains.
\<close>

theorem mid_stray_transfer:
  assumes "p \<noteq> q" "stray old s" "transfer_run p q (P_open, C_open, s) (P, C_done n, s')"
  shows "tfiles s' q = Some old \<or> tfiles s' q = Some []"
proof -
  have "stray_inv q old (P_open, C_open, s)" using assms(2) by (auto simp: stray_def)
  with assms(3) have "stray_inv q old (P, C_done n, s')"
    by (rule transfer_run_inv) (blast intro: stray_producerr stray_consumerrr)+
  then show ?thesis by simp
qed

definition demo_stray :: shared where
  "demo_stray = \<lparr>segment = Some (filled ''old''), producer_sem = Some 0, consumer_sem = Some 1,
     tfiles = [''f'' \<mapsto> ''new'']\<rparr>"

theorem mid_stray_transfer_witness:
  "\<exists>P n s'. transfer_run ''f'' ''here/f'' (P_open, C_open, demo_stray) (P, C_done n, s')
    \<and> (tfiles s' ''here/f'' = Some ''old'' \<or> tfiles s' ''here/f'' = Some [])"
proof -
  have o: "shm_string (Some (filled ''old'')) = Some ''old''"
    using shm_string_filled [of "''old''"] by (simp add: one_page_def BUFFER_SIZE_def c_string_def)
  obtain s' where s': "transfer_schedule ''f'' ''here/f'' (replicate 8 False) (P_open, C_open, demo_stray)
      = (P_open, C_done 3, s')"
    using o by (simp add: demo_stray_def numeral_eq_Suc)
  obtain k where "(transfer_step ''f'' ''here/f'' ^^ k) (P_open, C_open, demo_stray) (P_open, C_done 3, s')"
    using transfer_schedule_run [of "''f''" "''here/f''" "(P_open, C_open, demo_stray)" "replicate 8 False"] s' by auto
  then have r: "transfer_run ''f'' ''here/f'' (P_open, C_open, demo_stray) (P_open, C_done 3, s')"
    by (rule relpowp_imp_rtranclp)
  have "stray ''old'' demo_stray" using o by (simp add: stray_def demo_stray_def sems_def)
  from mid_stray_transfer [OF _ this r] r show ?thesis by blast
qed

end
