(* ===== verification/ShopModel.thy ===== *)
theory ShopModel
  imports PideQueue
begin

text \<open>
  The pide shop of \<^verbatim>\<open>final/server.c\<close>: the main thread accepts a client and queues its
  orders (\<open>handleClient\<close>), cooks prepare them and place them in the oven
  (\<open>pideShopAsci\<close>), a timer per pide starts a thread that takes one out again
  (\<open>timerHandler\<close>), couriers deliver (\<open>pideShopMoto\<close>, \<open>delivery\<close>).

  One step per critical section that neither blocks nor takes another mutex inside; a
  thread that takes a mutex inside the sections of \<open>ovenMutex\<close> (cooks) or of
  \<open>preparedMutex\<close> (couriers) holds it explicitly across several steps. A thread in
  \<^verbatim>\<open>pthread_cond_wait\<close> is woken by signals and broadcasts of its condition (a signal wakes at
  least one waiter, here all of them, which re-check) and by the event \<open>Wakeup\<close>, a
  spurious wake-up. The history variables \<open>sent\<close>, \<open>delivered\<close>, \<open>best\<close> and \<open>ordered\<close> record
  the messages to the client, the pides handed over, the announced best couriers and the
  accepted orders. The log
  file and the travelling times, which have no influence on the state, are left out.
\<close>

section \<open>State\<close>

datatype cook_pc =
    C_Order | C_OrderWait | C_OrderWoke
  | C_Prep pide
  | C_App pide int | C_AppWait pide int | C_AppWoke pide int
  | C_Oven pide int bool | C_OvenTest pide int bool | C_OvenTake pide int bool
  | C_OvenWait pide int bool | C_OvenWoke pide int bool
  | C_Return pide int bool | C_Start pide int | C_CancelReturn | C_Exit | C_Fault cfault

datatype timer_pc =
    T_Armed nat | T_App nat | T_AppWait nat | T_AppWoke nat
  | T_Oven nat | T_OvenWait nat | T_OvenWoke nat
  | T_Send nat pide | T_Release nat pide | T_Prep pide | T_PrepWait pide | T_PrepWoke pide
  | T_Exit | T_Fault cfault

datatype moto_pc =
    M_Lock | M_Loop | M_Empty | M_Wait | M_Woke | M_Take | M_Unlock
  | M_Count nat | M_Go nat | M_Arrive nat | M_Back | M_Check | M_Returned | M_Exit | M_Fault cfault

datatype main_pc = G_Accept
  | G_New "(int \<times> int) list" | G_Hello "(int \<times> int) list" | G_Size "(int \<times> int) list"
  | G_Reset "(int \<times> int) list" | G_Read "(int \<times> int) list"
  | G_Put "pide list" | G_PutWait "pide list" | G_PutWoke "pide list"
  | G_Inc "pide list" | G_Serve | G_Join | G_Exit | G_Fault cfault

record courrier =
  m_pc :: moto_pc
  received :: int
  bag :: "pide list"
  m_flag :: bool

datatype orderStatus = BURNED | CANCELLED | REQUESTED | PREPARED | ON_DELIVERY | DELIVERED

datatype shop_tid = Main | Cook nat | Timer nat | Moto nat

datatype shop_cond = OrderFull | OrderEmpty | AppCond | OvenCondEmpty | OvenCondFull
  | PreparedFull | PreparedEmpty

record shop =
  orderQueue :: pide_queue
  ovenQueue :: pide_queue
  preparedQueue :: pide_queue
  ovenMutex :: "shop_tid option"
  preparedMutex :: "shop_tid option"
  aparatus :: int
  totalOrder :: int
  totalReceived :: int
  totalOrderSize :: int
  onlysendFlag :: bool
  siparisIptal :: bool
  cancelled :: bool
  connected :: bool
  main_thread :: main_pc
  cooks :: "cook_pc list"
  timers :: "timer_pc list"
  motos :: "courrier list"
  sent :: "(orderStatus \<times> int) list"
  delivered :: "pide list"
  best :: "(nat option \<times> int) list"
  ordered :: "pide list"

section \<open>Waking\<close>

fun wake_cook :: "shop_cond \<Rightarrow> cook_pc \<Rightarrow> cook_pc" where
  "wake_cook c C_OrderWait = (if c = OrderFull then C_OrderWoke else C_OrderWait)"
| "wake_cook c (C_AppWait p t) = (if c = AppCond then C_AppWoke p t else C_AppWait p t)"
| "wake_cook c (C_OvenWait p t a) = (if c = OvenCondEmpty then C_OvenWoke p t a else C_OvenWait p t a)"
| "wake_cook c pc = pc"

fun wake_timer :: "shop_cond \<Rightarrow> timer_pc \<Rightarrow> timer_pc" where
  "wake_timer c (T_AppWait i) = (if c = AppCond then T_AppWoke i else T_AppWait i)"
| "wake_timer c (T_OvenWait i) = (if c = OvenCondFull then T_OvenWoke i else T_OvenWait i)"
| "wake_timer c (T_PrepWait p) = (if c = PreparedEmpty then T_PrepWoke p else T_PrepWait p)"
| "wake_timer c pc = pc"

fun wake_moto :: "shop_cond \<Rightarrow> moto_pc \<Rightarrow> moto_pc" where
  "wake_moto c M_Wait = (if c = PreparedFull then M_Woke else M_Wait)"
| "wake_moto c pc = pc"

fun wake_main :: "shop_cond \<Rightarrow> main_pc \<Rightarrow> main_pc" where
  "wake_main c (G_PutWait os) = (if c = OrderEmpty then G_PutWoke os else G_PutWait os)"
| "wake_main c pc = pc"

definition broadcast :: "shop_cond \<Rightarrow> shop \<Rightarrow> shop" where
  "broadcast c s = s\<lparr>cooks := map (wake_cook c) (cooks s), timers := map (wake_timer c) (timers s),
     motos := map (\<lambda>m. m\<lparr>m_pc := wake_moto c (m_pc m)\<rparr>) (motos s),
     main_thread := wake_main c (main_thread s)\<rparr>"

section \<open>Cooks\<close>

definition cook_goto :: "nat \<Rightarrow> cook_pc \<Rightarrow> shop \<Rightarrow> shop" where
  "cook_goto i pc s = s\<lparr>cooks := (cooks s)[i := pc]\<rparr>"

definition cook_order :: "nat \<Rightarrow> shop \<Rightarrow> shop" where
  "cook_order i s =
     (if pq_isEmpty (orderQueue s) then cook_goto i C_OrderWait s
      else case pq_dequeue (orderQueue s) of
        Inl e \<Rightarrow> cook_goto i (C_Fault e) s
      | Inr (p, q) \<Rightarrow> cook_goto i (C_Prep p) (broadcast OrderFull (s\<lparr>orderQueue := q\<rparr>)))"

definition cook_take :: "nat \<Rightarrow> pide \<Rightarrow> int \<Rightarrow> shop \<Rightarrow> shop" where
  "cook_take i p t s =
     (if cancelled s then cook_goto i C_Exit (broadcast AppCond s)
      else if \<not> siparisIptal s
      then cook_goto i (C_Oven p t True) (broadcast AppCond (s\<lparr>aparatus := aparatus s - 1\<rparr>))
      else cook_goto i (C_Oven p t False) (broadcast AppCond s))"

definition cook_app :: "nat \<Rightarrow> pide \<Rightarrow> int \<Rightarrow> shop \<Rightarrow> shop" where
  "cook_app i p t s = (if aparatus s = 0 then cook_goto i (C_AppWait p t) s else cook_take i p t s)"

definition cook_put :: "nat \<Rightarrow> pide \<Rightarrow> int \<Rightarrow> bool \<Rightarrow> shop \<Rightarrow> shop" where
  "cook_put i p t a s =
     (case (if siparisIptal s then Inr (ovenQueue s) else pq_enqueue (ovenQueue s) p) of
        Inl e \<Rightarrow> cook_goto i (C_Fault e) s
      | Inr q \<Rightarrow> cook_goto i (if cancelled s then C_Exit else C_Return p t a)
          ((broadcast OvenCondFull (s\<lparr>ovenQueue := q\<rparr>))\<lparr>ovenMutex := None\<rparr>))"

definition cook_oven_test :: "nat \<Rightarrow> pide \<Rightarrow> int \<Rightarrow> bool \<Rightarrow> shop \<Rightarrow> shop" where
  "cook_oven_test i p t a s =
     (if pq_isFull (ovenQueue s)
      then cook_goto i (C_OvenTake p t a) (broadcast AppCond (s\<lparr>aparatus := aparatus s + 1\<rparr>))
      else cook_put i p t a s)"

text \<open>\<open>sleep_time/sleep_time\<close> is the number of seconds of the timer.\<close>

definition cook_start :: "nat \<Rightarrow> pide \<Rightarrow> int \<Rightarrow> shop \<Rightarrow> shop" where
  "cook_start i p t s =
     (if siparisIptal s then cook_goto i C_Order s
      else if cancelled s then cook_goto i C_Exit (broadcast OrderFull s)
      else if t = 0 then cook_goto i (C_Fault DivByZero) s
      else cook_goto i C_Order (s\<lparr>timers := timers s @ [T_Armed (i + 1)]\<rparr>))"

definition pideShopAsci :: "nat \<Rightarrow> shop \<Rightarrow> shop option" where
  "pideShopAsci i s =
     (if length (cooks s) \<le> i then None
      else case cooks s ! i of
        C_Order \<Rightarrow> Some (cook_order i s)
      | C_OrderWait \<Rightarrow> None
      | C_OrderWoke \<Rightarrow> Some (if cancelled s then cook_goto i C_Exit (broadcast OrderFull s) else cook_order i s)
      | C_Prep p \<Rightarrow> None
      | C_App p t \<Rightarrow> Some (cook_app i p t s)
      | C_AppWait p t \<Rightarrow> None
      | C_AppWoke p t \<Rightarrow> Some (if siparisIptal s then cook_take i p t s
                           else if cancelled s then cook_goto i C_Exit (broadcast AppCond s)
                           else cook_app i p t s)
      | C_Oven p t a \<Rightarrow> if ovenMutex s = None
          then Some (cook_goto i (C_OvenTest p t a) (s\<lparr>ovenMutex := Some (Cook i)\<rparr>)) else None
      | C_OvenTest p t a \<Rightarrow> Some (cook_oven_test i p t a s)
      | C_OvenTake p t a \<Rightarrow> Some (cook_goto i (C_OvenWait p t a)
          ((broadcast AppCond (s\<lparr>aparatus := aparatus s - 1\<rparr>))\<lparr>ovenMutex := None\<rparr>))
      | C_OvenWait p t a \<Rightarrow> None
      | C_OvenWoke p t a \<Rightarrow> if ovenMutex s \<noteq> None then None
          else if siparisIptal s then Some (cook_put i p t a s)
          else if cancelled s then Some (cook_goto i C_CancelReturn (broadcast OvenCondFull s))
          else Some (cook_goto i (C_OvenTest p t a) (s\<lparr>ovenMutex := Some (Cook i)\<rparr>))
      | C_Return p t a \<Rightarrow> Some (cook_goto i (C_Start p t)
          (if a \<or> \<not> siparisIptal s then broadcast AppCond (s\<lparr>aparatus := aparatus s + 1\<rparr>) else s))
      | C_Start p t \<Rightarrow> Some (cook_start i p t s)
      | C_CancelReturn \<Rightarrow> Some (cook_goto i C_Exit (broadcast AppCond (s\<lparr>aparatus := aparatus s + 1\<rparr>)))
      | C_Exit \<Rightarrow> None
      | C_Fault e \<Rightarrow> None)"

text \<open>The preparation, which took \<open>t\<close> milliseconds.\<close>

definition prepare :: "nat \<Rightarrow> int \<Rightarrow> shop \<Rightarrow> shop option" where
  "prepare i t s =
     (if length (cooks s) \<le> i then None
      else case cooks s ! i of C_Prep p \<Rightarrow> Some (cook_goto i (C_App p t) s) | _ \<Rightarrow> None)"

section \<open>Oven timers\<close>

definition timer_goto :: "nat \<Rightarrow> timer_pc \<Rightarrow> shop \<Rightarrow> shop" where
  "timer_goto k pc s = s\<lparr>timers := (timers s)[k := pc]\<rparr>"

definition timer_take :: "nat \<Rightarrow> nat \<Rightarrow> shop \<Rightarrow> shop" where
  "timer_take k i s = timer_goto k (T_Oven i) (broadcast AppCond (s\<lparr>aparatus := aparatus s - 1\<rparr>))"

definition timer_app :: "nat \<Rightarrow> nat \<Rightarrow> shop \<Rightarrow> shop" where
  "timer_app k i s = (if aparatus s = 0 then timer_goto k (T_AppWait i) s else timer_take k i s)"

definition timer_dequeue :: "nat \<Rightarrow> nat \<Rightarrow> shop \<Rightarrow> shop" where
  "timer_dequeue k i s = (case pq_dequeue (ovenQueue s) of
       Inl e \<Rightarrow> timer_goto k (T_Fault e) s
     | Inr (p, q) \<Rightarrow> timer_goto k (T_Send i p) (broadcast OvenCondEmpty (s\<lparr>ovenQueue := q\<rparr>)))"

definition timer_oven :: "nat \<Rightarrow> nat \<Rightarrow> shop \<Rightarrow> shop" where
  "timer_oven k i s =
     (if pq_isEmpty (ovenQueue s) then timer_goto k (T_OvenWait i) s else timer_dequeue k i s)"

definition timer_put :: "nat \<Rightarrow> pide \<Rightarrow> shop \<Rightarrow> shop" where
  "timer_put k p s =
     (case (if siparisIptal s then Inr (preparedQueue s) else pq_enqueue (preparedQueue s) p) of
        Inl e \<Rightarrow> timer_goto k (T_Fault e) s
      | Inr q \<Rightarrow> timer_goto k T_Exit (broadcast PreparedFull (s\<lparr>preparedQueue := q\<rparr>)))"

definition timer_prep :: "nat \<Rightarrow> pide \<Rightarrow> shop \<Rightarrow> shop" where
  "timer_prep k p s =
     (if pq_isFull (preparedQueue s) then timer_goto k (T_PrepWait p) s else timer_put k p s)"

definition timerHandler :: "nat \<Rightarrow> shop \<Rightarrow> shop option" where
  "timerHandler k s =
     (if length (timers s) \<le> k then None
      else case timers s ! k of
        T_Armed i \<Rightarrow> Some (timer_goto k (T_App i) s)
      | T_App i \<Rightarrow> Some (timer_app k i s)
      | T_AppWait i \<Rightarrow> None
      | T_AppWoke i \<Rightarrow> Some (if siparisIptal s then timer_take k i s
                         else if cancelled s then timer_goto k T_Exit (broadcast AppCond s)
                         else timer_app k i s)
      | T_Oven i \<Rightarrow> if ovenMutex s = None then Some (timer_oven k i s) else None
      | T_OvenWait i \<Rightarrow> None
      | T_OvenWoke i \<Rightarrow> if ovenMutex s \<noteq> None then None
          else if siparisIptal s then Some (timer_dequeue k i s)
          else if cancelled s
          then Some (timer_goto k T_Exit (broadcast OvenCondEmpty
                 (broadcast AppCond (s\<lparr>aparatus := aparatus s + 1\<rparr>))))
          else Some (timer_oven k i s)
      | T_Send i p \<Rightarrow> Some (timer_goto k (T_Release i p)
          (if siparisIptal s then s else s\<lparr>sent := sent s @ [(PREPARED, pide_id p)]\<rparr>))
      | T_Release i p \<Rightarrow> Some (timer_goto k (T_Prep p) (broadcast AppCond (s\<lparr>aparatus := aparatus s + 1\<rparr>)))
      | T_Prep p \<Rightarrow> if preparedMutex s = None then Some (timer_prep k p s) else None
      | T_PrepWait p \<Rightarrow> None
      | T_PrepWoke p \<Rightarrow> if preparedMutex s \<noteq> None then None
          else if siparisIptal s then Some (timer_put k p s)
          else if cancelled s then Some (timer_goto k T_Exit (broadcast PreparedFull s))
          else Some (timer_prep k p s)
      | T_Exit \<Rightarrow> None
      | T_Fault e \<Rightarrow> None)"

section \<open>Couriers\<close>

definition moto_set :: "nat \<Rightarrow> (courrier \<Rightarrow> courrier) \<Rightarrow> shop \<Rightarrow> shop" where
  "moto_set j f s = s\<lparr>motos := (motos s)[j := f (motos s ! j)]\<rparr>"

definition moto_goto :: "nat \<Rightarrow> moto_pc \<Rightarrow> shop \<Rightarrow> shop" where
  "moto_goto j pc s = moto_set j (m_pc_update (\<lambda>_. pc)) s"

text \<open>One round of filling the bag, behind the test for an empty queue.\<close>

definition moto_take :: "nat \<Rightarrow> shop \<Rightarrow> shop" where
  "moto_take j s =
     (if \<not> siparisIptal s \<and> totalOrder s \<noteq> 0
      then (case pq_dequeue (preparedQueue s) of
          Inl e \<Rightarrow> moto_goto j (M_Fault e) s
        | Inr (p, q) \<Rightarrow> moto_set j (\<lambda>m. m\<lparr>bag := bag m @ [p], m_flag := True, m_pc := M_Loop\<rparr>)
            (s\<lparr>preparedQueue := q, sent := sent s @ [(ON_DELIVERY, pide_id p)],
               totalOrder := totalOrder s - 1\<rparr>))
      else if \<not> siparisIptal s \<and> bag (motos s ! j) \<noteq> []
      then moto_set j (\<lambda>m. m\<lparr>m_flag := True, m_pc := M_Loop\<rparr>) s
      else moto_goto j M_Unlock s)"

text \<open>After the unlock: deliver, or start again with an empty bag.\<close>

definition moto_unlock :: "nat \<Rightarrow> shop \<Rightarrow> shop" where
  "moto_unlock j s =
     (let s = (broadcast PreparedFull (broadcast PreparedEmpty s))\<lparr>preparedMutex := None\<rparr>;
          m = motos s ! j
      in if cancelled s then moto_goto j M_Exit s
         else if m_flag m \<and> \<not> siparisIptal s \<and> bag m \<noteq> [] then moto_goto j (M_Count 0) s
         else moto_set j (\<lambda>m. m\<lparr>m_flag := False, m_pc := M_Lock,
                bag := (if siparisIptal s then [] else bag m)\<rparr>) s)"

definition moto_woke :: "nat \<Rightarrow> shop \<Rightarrow> shop" where
  "moto_woke j s =
     (if totalOrder s = 0 then (moto_goto j M_Take s)\<lparr>preparedMutex := Some (Moto j)\<rparr>
      else let s = moto_set j (\<lambda>m. m\<lparr>bag := (if siparisIptal s then [] else bag m)\<rparr>) s in
        if cancelled s then moto_goto j M_Exit (broadcast PreparedEmpty s)
        else (moto_goto j M_Empty s)\<lparr>preparedMutex := Some (Moto j)\<rparr>)"

text \<open>
  \<open>delivery\<close>: the counters go up before the pide is carried; once the orders are
  cancelled, the rest of the bag is thrown away.
\<close>

definition moto_count :: "nat \<Rightarrow> nat \<Rightarrow> shop \<Rightarrow> shop" where
  "moto_count j i s = moto_set j (\<lambda>m. m\<lparr>received := received m + 1, m_pc := M_Go i\<rparr>)
     (s\<lparr>totalReceived := totalReceived s + 1\<rparr>)"

definition moto_arrive :: "nat \<Rightarrow> nat \<Rightarrow> shop \<Rightarrow> shop" where
  "moto_arrive j i s =
     moto_goto j (if i + 1 < length (bag (motos s ! j)) then M_Count (i + 1) else M_Back)
       (s\<lparr>delivered := delivered s @ [bag (motos s ! j) ! i]\<rparr>)"

definition moto_check :: "nat \<Rightarrow> shop \<Rightarrow> shop" where
  "moto_check j s = moto_goto j M_Returned
     (if onlysendFlag s \<and> totalReceived s = totalOrderSize s
      then s\<lparr>sent := sent s @ [(DELIVERED, 0)], onlysendFlag := False\<rparr> else s)"

definition delivery :: "nat \<Rightarrow> shop \<Rightarrow> shop option" where
  "delivery j s = (case m_pc (motos s ! j) of
       M_Count i \<Rightarrow> Some (moto_count j i s)
     | M_Go i \<Rightarrow> Some (moto_goto j (if siparisIptal s then M_Back else M_Arrive i) s)
     | M_Arrive i \<Rightarrow> Some (moto_arrive j i s)
     | M_Back \<Rightarrow> Some (moto_goto j (if siparisIptal s then M_Returned
                                  else if cancelled s then M_Exit else M_Check) s)
     | M_Check \<Rightarrow> Some (moto_check j s)
     | _ \<Rightarrow> None)"

definition pideShopMoto :: "nat \<Rightarrow> shop \<Rightarrow> shop option" where
  "pideShopMoto j s =
     (if length (motos s) \<le> j then None
      else case m_pc (motos s ! j) of
        M_Lock \<Rightarrow> if preparedMutex s = None
          then Some ((moto_goto j M_Loop s)\<lparr>preparedMutex := Some (Moto j)\<rparr>) else None
      | M_Loop \<Rightarrow> Some (moto_goto j (if 0 < totalOrder s \<and> length (bag (motos s ! j)) < 3
                                   then M_Empty else M_Unlock) s)
      | M_Empty \<Rightarrow> Some (if pq_isEmpty (preparedQueue s)
                       then (moto_goto j M_Wait s)\<lparr>preparedMutex := None\<rparr> else moto_goto j M_Take s)
      | M_Wait \<Rightarrow> None
      | M_Woke \<Rightarrow> if preparedMutex s = None then Some (moto_woke j s) else None
      | M_Take \<Rightarrow> Some (moto_take j s)
      | M_Unlock \<Rightarrow> Some (moto_unlock j s)
      | M_Count i \<Rightarrow> delivery j s
      | M_Go i \<Rightarrow> delivery j s
      | M_Arrive i \<Rightarrow> delivery j s
      | M_Back \<Rightarrow> delivery j s
      | M_Check \<Rightarrow> delivery j s
      | M_Returned \<Rightarrow> Some (moto_set j (\<lambda>m. m\<lparr>bag := [], m_flag := False,
                          m_pc := (if cancelled s then M_Exit else M_Lock)\<rparr>) s)
      | M_Exit \<Rightarrow> None
      | M_Fault e \<Rightarrow> None)"

section \<open>The main thread\<close>

definition main_goto :: "main_pc \<Rightarrow> shop \<Rightarrow> shop" where
  "main_goto pc s = s\<lparr>main_thread := pc\<rparr>"

definition new_orders :: "(int \<times> int) list \<Rightarrow> pide list" where
  "new_orders locs = map (\<lambda>(i, (x, y)). \<lparr>pide_id = int i + 1, loc_x = x, loc_y = y, mod_time = 0\<rparr>)
     (zip [0..<length locs] locs)"

text \<open>
  A client with the homes of its customers connects. \<open>main\<close> sets the flag of the last message
  (\<open>G_New\<close>), waits in \<^verbatim>\<open>recv\<close> for the header and notes the socket (\<open>G_Hello\<close>); \<open>handleClient\<close> sets
  the number of orders (\<open>G_Size\<close>), resets the counter (\<open>G_Reset\<close>) and reads the orders (\<open>G_Read\<close>).
\<close>

definition accept_connection :: "(int \<times> int) list \<Rightarrow> shop \<Rightarrow> shop option" where
  "accept_connection locs s =
     (if main_thread s = G_Accept
      then Some (s\<lparr>motos := map (\<lambda>m. m\<lparr>received := 0\<rparr>) (motos s), siparisIptal := False, main_thread := G_New locs\<rparr>)
      else None)"

definition handleClient_put :: "pide list \<Rightarrow> shop \<Rightarrow> shop" where
  "handleClient_put os s = (case os of
       [] \<Rightarrow> main_goto G_Serve s
     | p # rest \<Rightarrow>
         if pq_isFull (orderQueue s) then main_goto (G_PutWait os) s
         else (case pq_enqueue (orderQueue s) p of
             Inl e \<Rightarrow> main_goto (G_Fault e) s
           | Inr q \<Rightarrow> main_goto (G_Inc rest) (broadcast OrderFull (s\<lparr>orderQueue := q\<rparr>))))"

definition all_joined :: "shop \<Rightarrow> bool" where
  "all_joined s \<longleftrightarrow> (\<forall>pc\<in>set (cooks s). pc = C_Exit) \<and> (\<forall>m\<in>set (motos s). m_pc m = M_Exit)"

definition shop_main :: "shop \<Rightarrow> shop option" where
  "shop_main s = (case main_thread s of
       G_Accept \<Rightarrow> None
     | G_New locs \<Rightarrow> Some (main_goto (G_Hello locs) (s\<lparr>onlysendFlag := True\<rparr>))
     | G_Hello locs \<Rightarrow> Some (main_goto (G_Size locs) (s\<lparr>connected := True\<rparr>))
     | G_Size locs \<Rightarrow> Some (main_goto (G_Reset locs) (s\<lparr>totalOrderSize := int (length locs)\<rparr>))
     | G_Reset locs \<Rightarrow> Some (main_goto (G_Read locs) (s\<lparr>totalReceived := 0\<rparr>))
     | G_Read locs \<Rightarrow> Some (main_goto (G_Put (new_orders locs)) (s\<lparr>ordered := ordered s @ new_orders locs\<rparr>))
     | G_Put os \<Rightarrow> Some (handleClient_put os s)
     | G_PutWait os \<Rightarrow> None
     | G_PutWoke os \<Rightarrow> Some (handleClient_put os s)
     | G_Inc os \<Rightarrow> Some (main_goto (G_Put os) (s\<lparr>totalOrder := totalOrder s + 1\<rparr>))
     | G_Serve \<Rightarrow> None
     | G_Join \<Rightarrow> if all_joined s then Some (main_goto G_Exit s) else None
     | G_Exit \<Rightarrow> None
     | G_Fault e \<Rightarrow> None)"

text \<open>The most efficient courier: number (unset when none has delivered) and count.\<close>

fun best_loop :: "nat \<Rightarrow> nat option \<Rightarrow> int \<Rightarrow> courrier list \<Rightarrow> nat option \<times> int" where
  "best_loop k index largest [] = (index, largest)"
| "best_loop k index largest (m # ms) =
     (if largest < received m then best_loop (k + 1) (Some (k + 1)) (received m) ms
      else best_loop (k + 1) index largest ms)"

definition cancel_handler :: "shop \<Rightarrow> shop" where
  "cancel_handler s = broadcast OvenCondEmpty (broadcast OvenCondFull (broadcast AppCond (s\<lparr>siparisIptal := True\<rparr>)))"

text \<open>A message from the client while its orders are served.\<close>

definition client_message :: "orderStatus \<Rightarrow> shop \<Rightarrow> shop option" where
  "client_message st s =
     (if main_thread s \<noteq> G_Serve then None
      else Some (case st of
          CANCELLED \<Rightarrow> main_goto G_Accept (cancel_handler s)
        | DELIVERED \<Rightarrow> main_goto G_Accept (s\<lparr>best := best s @ [best_loop 0 None 0 (motos s)],
              motos := map (\<lambda>m. m\<lparr>received := 0\<rparr>) (motos s)\<rparr>)
        | BURNED \<Rightarrow> main_goto G_Join s
        | _ \<Rightarrow> s))"

text \<open>\<^verbatim>\<open>SIGINT\<close>; before the first connection the process exits.\<close>

definition burn_handler :: "shop \<Rightarrow> shop" where
  "burn_handler s =
     (if \<not> connected s
      then s\<lparr>main_thread := G_Exit, cooks := map (\<lambda>_. C_Exit) (cooks s), timers := map (\<lambda>_. T_Exit) (timers s),
             motos := map (\<lambda>m. m\<lparr>m_pc := M_Exit\<rparr>) (motos s)\<rparr>
      else broadcast PreparedEmpty (broadcast OvenCondFull (broadcast PreparedFull (broadcast OvenCondEmpty
             (broadcast AppCond (broadcast OrderFull
               (s\<lparr>sent := sent s @ [(BURNED, 0)], cancelled := True\<rparr>)))))))"

section \<open>The program\<close>

datatype shop_event = Step shop_tid | Cooked nat int | Connect "(int \<times> int) list"
  | Message orderStatus | Interrupt | Wakeup shop_cond

definition shop_step :: "shop_event \<Rightarrow> shop \<Rightarrow> shop option" where
  "shop_step ev s = (case ev of
       Step Main \<Rightarrow> shop_main s
     | Step (Cook i) \<Rightarrow> pideShopAsci i s
     | Step (Timer k) \<Rightarrow> timerHandler k s
     | Step (Moto j) \<Rightarrow> pideShopMoto j s
     | Cooked i t \<Rightarrow> prepare i t s
     | Connect locs \<Rightarrow> accept_connection locs s
     | Message st \<Rightarrow> client_message st s
     | Interrupt \<Rightarrow> Some (burn_handler s)
     | Wakeup c \<Rightarrow> Some (broadcast c s))"

definition shop_start :: "nat \<Rightarrow> nat \<Rightarrow> pide_queue \<Rightarrow> pide_queue \<Rightarrow> pide_queue \<Rightarrow> shop" where
  "shop_start cookSize delivSize oq vq pq =
     \<lparr>orderQueue = oq, ovenQueue = vq, preparedQueue = pq, ovenMutex = None, preparedMutex = None,
      aparatus = 3, totalOrder = 0, totalReceived = 0, totalOrderSize = 0, onlysendFlag = True,
      siparisIptal = False, cancelled = False, connected = False, main_thread = G_Accept,
      cooks = replicate cookSize C_Order, timers = [],
      motos = replicate delivSize \<lparr>m_pc = M_Lock, received = 0, bag = [], m_flag = False\<rparr>,
      sent = [], delivered = [], best = [], ordered = []\<rparr>"

text \<open>The queues that \<open>main\<close> creates, with \<^verbatim>\<open>malloc\<close> as an argument.\<close>

definition shop_queues :: "(int \<Rightarrow> pide list option) \<Rightarrow> (pide_queue \<times> pide_queue \<times> pide_queue) option" where
  "shop_queues malloc =
     (case (createQueue True malloc 200, createQueue True malloc 6, createQueue True malloc 200) of
        (Inr (Some oq), Inr (Some vq), Inr (Some pq)) \<Rightarrow> Some (oq, vq, pq)
      | _ \<Rightarrow> None)"

end
