(* ===== verification/ShopInv.thy ===== *)
theory ShopInv
  imports ShopModel "HOL-Library.Multiset"
begin

text \<open>
  Invariants of the pide shop as long as no order is cancelled and the shop does not burn
  down. What the threads contribute to a quantity (apparatuses in use, pides in hand) is a
  weight per program counter; the locale \<open>thread_weight\<close> says once how the total of a
  weight changes when a thread moves, and is interpreted for each quantity.
\<close>

section \<open>Weights\<close>

locale thread_weight =
  fixes cw :: "cook_pc \<Rightarrow> 'a::ab_group_add"
    and tw :: "timer_pc \<Rightarrow> 'a"
    and ow :: "courrier \<Rightarrow> 'a"
    and gw :: "main_pc \<Rightarrow> 'a"
  assumes cook_wake: "cw (wake_cook c pc) = cw pc"
    and timer_wake: "tw (wake_timer c tc) = tw tc"
    and moto_wake: "ow (m\<lparr>m_pc := wake_moto c (m_pc m)\<rparr>) = ow m"
    and main_wake: "gw (wake_main c mc) = gw mc"
    and moto_received: "ow (m\<lparr>received := r\<rparr>) = ow m"
begin

definition weight :: "shop \<Rightarrow> 'a" where
  "weight s = gw (main_thread s) + sum_list (map cw (cooks s)) + sum_list (map tw (timers s))
     + sum_list (map ow (motos s))"

lemma weight_broadcast [simp]: "weight (broadcast c s) = weight s"
  by (simp add: weight_def broadcast_def comp_def cook_wake timer_wake moto_wake main_wake)

lemma cook_weight_broadcast [simp]: "i < length (cooks s) \<Longrightarrow> cw (cooks (broadcast c s) ! i) = cw (cooks s ! i)"
  by (simp add: broadcast_def cook_wake)

lemma timer_weight_broadcast [simp]: "k < length (timers s) \<Longrightarrow> tw (timers (broadcast c s) ! k) = tw (timers s ! k)"
  by (simp add: broadcast_def timer_wake)

lemma weight_cook_goto [simp]:
  "i < length (cooks s) \<Longrightarrow> weight (cook_goto i pc s) = weight s + cw pc - cw (cooks s ! i)"
  using sum_list_update_add [of i "cooks s" cw pc] by (simp add: weight_def cook_goto_def algebra_simps)

lemma weight_timer_goto [simp]:
  "k < length (timers s) \<Longrightarrow> weight (timer_goto k pc s) = weight s + tw pc - tw (timers s ! k)"
  using sum_list_update_add [of k "timers s" tw pc] by (simp add: weight_def timer_goto_def algebra_simps)

lemma weight_moto_set [simp]:
  "j < length (motos s) \<Longrightarrow> weight (moto_set j f s) = weight s + ow (f (motos s ! j)) - ow (motos s ! j)"
  using sum_list_update_add [of j "motos s" ow "f (motos s ! j)"] by (simp add: weight_def moto_set_def algebra_simps)

lemma weight_main_goto [simp]: "weight (main_goto pc s) = weight s + gw pc - gw (main_thread s)"
  by (simp add: weight_def main_goto_def)

lemma weight_new_timer [simp]: "weight (s\<lparr>timers := timers s @ [pc]\<rparr>) = weight s + tw pc"
  by (simp add: weight_def ac_simps)

lemma weight_unreceive [simp]: "weight (s\<lparr>motos := map (\<lambda>m. m\<lparr>received := 0\<rparr>) (motos s)\<rparr>) = weight s"
  by (simp add: weight_def comp_def moto_received)

lemma weight_best [simp]:
  "weight (s\<lparr>best := bs, motos := map (\<lambda>m. m\<lparr>received := 0\<rparr>) (motos s)\<rparr>) = weight s"
  by (simp add: weight_def comp_def moto_received)

lemma weight_fields [simp]:
  "weight (s\<lparr>orderQueue := q\<rparr>) = weight s" "weight (s\<lparr>ovenQueue := q\<rparr>) = weight s"
  "weight (s\<lparr>preparedQueue := q\<rparr>) = weight s" "weight (s\<lparr>ovenMutex := t\<rparr>) = weight s"
  "weight (s\<lparr>preparedMutex := t\<rparr>) = weight s" "weight (s\<lparr>aparatus := n\<rparr>) = weight s"
  "weight (s\<lparr>totalOrder := n\<rparr>) = weight s" "weight (s\<lparr>totalReceived := n\<rparr>) = weight s"
  "weight (s\<lparr>totalOrderSize := n\<rparr>) = weight s" "weight (s\<lparr>onlysendFlag := b\<rparr>) = weight s"
  "weight (s\<lparr>siparisIptal := b\<rparr>) = weight s" "weight (s\<lparr>connected := b\<rparr>) = weight s"
  "weight (s\<lparr>sent := ms\<rparr>) = weight s" "weight (s\<lparr>delivered := ps\<rparr>) = weight s"
  "weight (s\<lparr>best := bs\<rparr>) = weight s" "weight (s\<lparr>ordered := ps\<rparr>) = weight s"
  by (simp_all add: weight_def)

end

section \<open>What the moves leave alone\<close>

lemma goto_sel [simp]:
  "orderQueue (cook_goto i pc s) = orderQueue s" "ovenQueue (cook_goto i pc s) = ovenQueue s"
  "preparedQueue (cook_goto i pc s) = preparedQueue s" "aparatus (cook_goto i pc s) = aparatus s"
  "siparisIptal (cook_goto i pc s) = siparisIptal s" "cancelled (cook_goto i pc s) = cancelled s"
  "motos (cook_goto i pc s) = motos s" "delivered (cook_goto i pc s) = delivered s"
  "ordered (cook_goto i pc s) = ordered s" "main_thread (cook_goto i pc s) = main_thread s"
  "orderQueue (timer_goto k tc s) = orderQueue s" "ovenQueue (timer_goto k tc s) = ovenQueue s"
  "preparedQueue (timer_goto k tc s) = preparedQueue s" "aparatus (timer_goto k tc s) = aparatus s"
  "siparisIptal (timer_goto k tc s) = siparisIptal s" "cancelled (timer_goto k tc s) = cancelled s"
  "motos (timer_goto k tc s) = motos s" "delivered (timer_goto k tc s) = delivered s"
  "ordered (timer_goto k tc s) = ordered s" "main_thread (timer_goto k tc s) = main_thread s"
  "orderQueue (moto_set j f s) = orderQueue s" "ovenQueue (moto_set j f s) = ovenQueue s"
  "preparedQueue (moto_set j f s) = preparedQueue s" "aparatus (moto_set j f s) = aparatus s"
  "siparisIptal (moto_set j f s) = siparisIptal s" "cancelled (moto_set j f s) = cancelled s"
  "delivered (moto_set j f s) = delivered s" "ordered (moto_set j f s) = ordered s"
  "main_thread (moto_set j f s) = main_thread s" "cooks (moto_set j f s) = cooks s"
  "orderQueue (main_goto gc s) = orderQueue s" "ovenQueue (main_goto gc s) = ovenQueue s"
  "preparedQueue (main_goto gc s) = preparedQueue s" "aparatus (main_goto gc s) = aparatus s"
  "siparisIptal (main_goto gc s) = siparisIptal s" "cancelled (main_goto gc s) = cancelled s"
  "motos (main_goto gc s) = motos s" "delivered (main_goto gc s) = delivered s"
  "ordered (main_goto gc s) = ordered s"
  by (simp_all add: cook_goto_def timer_goto_def moto_set_def main_goto_def)

lemma moto_set_id [simp]: "moto_set j (\<lambda>m. m) s = s"
  by (simp add: moto_set_def)

lemma broadcast_sel [simp]:
  "orderQueue (broadcast c s) = orderQueue s" "ovenQueue (broadcast c s) = ovenQueue s"
  "preparedQueue (broadcast c s) = preparedQueue s" "aparatus (broadcast c s) = aparatus s"
  "siparisIptal (broadcast c s) = siparisIptal s" "cancelled (broadcast c s) = cancelled s"
  "delivered (broadcast c s) = delivered s" "ordered (broadcast c s) = ordered s"
  "length (cooks (broadcast c s)) = length (cooks s)" "length (timers (broadcast c s)) = length (timers s)"
  "length (motos (broadcast c s)) = length (motos s)"
  by (simp_all add: broadcast_def)

section \<open>The quiet shop\<close>

definition calm :: "shop_event \<Rightarrow> bool" where
  "calm ev \<longleftrightarrow> ev \<noteq> Message CANCELLED \<and> ev \<noteq> Interrupt"

definition moto_ok :: "courrier \<Rightarrow> bool" where
  "moto_ok m \<longleftrightarrow> (case m_pc m of M_Count i \<Rightarrow> i < length (bag m) | M_Go i \<Rightarrow> i < length (bag m)
     | M_Arrive i \<Rightarrow> i < length (bag m) | _ \<Rightarrow> True)"

definition quiet :: "shop \<Rightarrow> bool" where
  "quiet s \<longleftrightarrow> \<not> siparisIptal s \<and> \<not> cancelled s
     \<and> pq_inv (orderQueue s) \<and> pq_inv (ovenQueue s) \<and> pq_inv (preparedQueue s)
     \<and> (\<forall>m\<in>set (motos s). moto_ok m)"

lemma quietD: "quiet s \<Longrightarrow> \<not> siparisIptal s \<and> \<not> cancelled s"
  by (simp add: quiet_def)

lemma moto_ok_wake [simp]: "moto_ok (m\<lparr>m_pc := wake_moto c (m_pc m)\<rparr>) = moto_ok m"
  by (cases "m_pc m") (simp_all add: moto_ok_def)

lemma quiet_goto [simp]:
  "quiet (cook_goto i pc s) = quiet s" "quiet (timer_goto k tc s) = quiet s" "quiet (main_goto gc s) = quiet s"
  by (simp_all add: quiet_def)

lemma quiet_broadcast [simp]: "quiet (broadcast c s) = quiet s"
  by (simp add: quiet_def) (auto simp: broadcast_def)

lemma quiet_moto_set: "quiet s \<Longrightarrow> moto_ok (f (motos s ! j)) \<Longrightarrow> quiet (moto_set j f s)"
  by (auto simp: quiet_def moto_set_def dest!: set_update_subset_insert [THEN subsetD])

lemma quiet_fields [simp]:
  "quiet (s\<lparr>ovenMutex := t\<rparr>) = quiet s" "quiet (s\<lparr>preparedMutex := t\<rparr>) = quiet s"
  "quiet (s\<lparr>aparatus := n\<rparr>) = quiet s" "quiet (s\<lparr>totalOrder := n\<rparr>) = quiet s"
  "quiet (s\<lparr>totalReceived := n\<rparr>) = quiet s" "quiet (s\<lparr>onlysendFlag := b\<rparr>) = quiet s"
  "quiet (s\<lparr>sent := ms\<rparr>) = quiet s" "quiet (s\<lparr>delivered := ps\<rparr>) = quiet s"
  "quiet (s\<lparr>timers := ts\<rparr>) = quiet s"
  by (simp_all add: quiet_def)

lemma quiet_queues [simp]:
  "pq_inv q \<Longrightarrow> quiet s \<Longrightarrow> quiet (s\<lparr>orderQueue := q\<rparr>)" "pq_inv q \<Longrightarrow> quiet s \<Longrightarrow> quiet (s\<lparr>ovenQueue := q\<rparr>)"
  "pq_inv q \<Longrightarrow> quiet s \<Longrightarrow> quiet (s\<lparr>preparedQueue := q\<rparr>)"
  by (simp_all add: quiet_def)

section \<open>Normal forms of the queue operations\<close>

lemma quiet_orderQueue:
  assumes "quiet s"
  shows "cook_order i s = cook_goto i C_OrderWait s
    \<or> (\<exists>p q. pq_inv q \<and> pq_items (orderQueue s) = p # pq_items q
        \<and> cook_order i s = cook_goto i (C_Prep p) (broadcast OrderFull (s\<lparr>orderQueue := q\<rparr>)))"
proof (cases "pq_isEmpty (orderQueue s)")
  case True
  then show ?thesis by (simp add: cook_order_def)
next
  case False
  have "pq_inv (orderQueue s)" using assms by (simp add: quiet_def)
  from pq.deqE [OF this False] obtain p q where "pq_dequeue (orderQueue s) = Inr (p, q)" "pq_inv q"
      "pq_items (orderQueue s) = p # pq_items q" by blast
  then show ?thesis using False by (intro disjI2 exI [of _ p] exI [of _ q]) (simp add: cook_order_def)
qed

lemma quiet_oven_test:
  assumes "quiet s"
  shows "cook_oven_test i p t a s = cook_goto i (C_OvenTake p t a) (broadcast AppCond (s\<lparr>aparatus := aparatus s + 1\<rparr>))
    \<or> (\<exists>q. pq_inv q \<and> pq_items q = pq_items (ovenQueue s) @ [p]
        \<and> cook_oven_test i p t a s
          = cook_goto i (C_Return p t a) ((broadcast OvenCondFull (s\<lparr>ovenQueue := q\<rparr>))\<lparr>ovenMutex := None\<rparr>))"
proof (cases "pq_isFull (ovenQueue s)")
  case True
  then show ?thesis by (simp add: cook_oven_test_def)
next
  case False
  have "pq_inv (ovenQueue s)" using assms by (simp add: quiet_def)
  from pq.enqE [OF this False TrueI] obtain q where "pq_enqueue (ovenQueue s) p = Inr q" "pq_inv q"
      "pq_items q = pq_items (ovenQueue s) @ [p]" by blast
  then show ?thesis using False assms by (auto simp: cook_oven_test_def cook_put_def quiet_def)
qed

lemma quiet_timer_oven:
  assumes "quiet s"
  shows "(pq_items (ovenQueue s) = [] \<and> timer_oven k i s = timer_goto k (T_OvenWait i) s)
    \<or> (\<exists>p q. pq_inv q \<and> pq_items (ovenQueue s) = p # pq_items q
        \<and> timer_oven k i s = timer_goto k (T_Send i p) (broadcast OvenCondEmpty (s\<lparr>ovenQueue := q\<rparr>)))"
proof (cases "pq_isEmpty (ovenQueue s)")
  case True
  then show ?thesis using assms by (simp add: timer_oven_def quiet_def pq.empty_iff)
next
  case False
  have "pq_inv (ovenQueue s)" using assms by (simp add: quiet_def)
  from pq.deqE [OF this False] obtain p q where "pq_dequeue (ovenQueue s) = Inr (p, q)" "pq_inv q"
      "pq_items (ovenQueue s) = p # pq_items q" by blast
  then show ?thesis using False
    by (intro disjI2 exI [of _ p] exI [of _ q]) (simp add: timer_oven_def timer_dequeue_def)
qed

lemma quiet_timer_prep:
  assumes "quiet s"
  shows "timer_prep k p s = timer_goto k (T_PrepWait p) s
    \<or> (\<exists>q. pq_inv q \<and> pq_items q = pq_items (preparedQueue s) @ [p]
        \<and> timer_prep k p s = timer_goto k T_Exit (broadcast PreparedFull (s\<lparr>preparedQueue := q\<rparr>)))"
proof (cases "pq_isFull (preparedQueue s)")
  case True
  then show ?thesis by (simp add: timer_prep_def)
next
  case False
  have "pq_inv (preparedQueue s)" using assms by (simp add: quiet_def)
  from pq.enqE [OF this False TrueI] obtain q where "pq_enqueue (preparedQueue s) p = Inr q" "pq_inv q"
      "pq_items q = pq_items (preparedQueue s) @ [p]" by blast
  then show ?thesis using False assms by (auto simp: timer_prep_def timer_put_def quiet_def)
qed

text \<open>The pide that a courier takes is the zero pide when the queue is empty.\<close>

lemma quiet_prepared:
  assumes "quiet s"
  shows "\<exists>p q. pq_dequeue (preparedQueue s) = Inr (p, q) \<and> pq_inv q
    \<and> (pq_items (preparedQueue s) = p # pq_items q
       \<or> (p = zero_pide \<and> pq_items (preparedQueue s) = [] \<and> pq_items q = []))"
proof (cases "pq_isEmpty (preparedQueue s)")
  case True
  then show ?thesis using assms by (auto simp: pq_dequeue_empty quiet_def pq.empty_iff)
next
  case False
  have "pq_inv (preparedQueue s)" using assms by (simp add: quiet_def)
  from pq.deqE [OF this False] obtain p q where "pq_dequeue (preparedQueue s) = Inr (p, q)" "pq_inv q"
      "pq_items (preparedQueue s) = p # pq_items q" by blast
  then show ?thesis by simp
qed

lemma quiet_handleClient:
  assumes "quiet s"
  shows "handleClient_put (p # os) s = main_goto (G_PutWait (p # os)) s
    \<or> (\<exists>q. pq_inv q \<and> pq_items q = pq_items (orderQueue s) @ [p]
        \<and> handleClient_put (p # os) s = main_goto (G_Inc os) (broadcast OrderFull (s\<lparr>orderQueue := q\<rparr>)))"
proof (cases "pq_isFull (orderQueue s)")
  case True
  then show ?thesis by (simp add: handleClient_put_def)
next
  case False
  have "pq_inv (orderQueue s)" using assms by (simp add: quiet_def)
  from pq.enqE [OF this False TrueI] obtain q where "pq_enqueue (orderQueue s) p = Inr q" "pq_inv q"
      "pq_items q = pq_items (orderQueue s) @ [p]" by blast
  then show ?thesis using False by (auto simp: handleClient_put_def)
qed

section \<open>The quantities\<close>

text \<open>Apparatuses that a thread has in use.\<close>

fun cook_holds :: "cook_pc \<Rightarrow> int" where
  "cook_holds (C_Oven p t a) = 1"
| "cook_holds (C_OvenTest p t a) = 1"
| "cook_holds (C_OvenWait p t a) = 1"
| "cook_holds (C_OvenWoke p t a) = 1"
| "cook_holds (C_Return p t a) = 1"
| "cook_holds C_CancelReturn = 1"
| "cook_holds _ = 0"

fun timer_holds :: "timer_pc \<Rightarrow> int" where
  "timer_holds (T_Oven i) = 1"
| "timer_holds (T_OvenWait i) = 1"
| "timer_holds (T_OvenWoke i) = 1"
| "timer_holds (T_Send i p) = 1"
| "timer_holds (T_Release i p) = 1"
| "timer_holds _ = 0"

interpretation held: thread_weight cook_holds timer_holds "\<lambda>_. 0" "\<lambda>_. 0"
proof (unfold_locales, goal_cases)
  case (1 c pc) then show ?case by (cases pc) simp_all
next
  case (2 c tc) then show ?case by (cases tc) simp_all
qed simp_all

text \<open>Pides in the oven that a thread will take out, or start the timer of.\<close>

fun cook_due :: "cook_pc \<Rightarrow> int" where
  "cook_due (C_Return p t a) = 1"
| "cook_due (C_Start p t) = 1"
| "cook_due (C_Fault e) = 1"
| "cook_due _ = 0"

fun timer_due :: "timer_pc \<Rightarrow> int" where
  "timer_due (T_Armed i) = 1"
| "timer_due (T_App i) = 1"
| "timer_due (T_AppWait i) = 1"
| "timer_due (T_AppWoke i) = 1"
| "timer_due (T_Oven i) = 1"
| "timer_due (T_OvenWait i) = 1"
| "timer_due (T_OvenWoke i) = 1"
| "timer_due _ = 0"

interpretation due: thread_weight cook_due timer_due "\<lambda>_. 0" "\<lambda>_. 0"
proof (unfold_locales, goal_cases)
  case (1 c pc) then show ?case by (cases pc) simp_all
next
  case (2 c tc) then show ?case by (cases tc) simp_all
qed simp_all

lemma timer_due_nonneg: "0 \<le> timer_due tc"
  by (cases tc) simp_all

lemma cook_due_nonneg: "0 \<le> cook_due pc"
  by (cases pc) simp_all

lemma timer_due_member:
  assumes "k < length (timers s)"
  shows "timer_due (timers s ! k) \<le> due.weight s"
proof -
  have "timer_due (timers s ! k) \<le> sum_list (map timer_due (timers s))"
    using assms by (intro member_le_sum_list) (auto simp: timer_due_nonneg)
  moreover have "0 \<le> sum_list (map cook_due (cooks s))" by (intro sum_list_nonneg) (auto simp: cook_due_nonneg)
  ultimately show ?thesis by (simp add: due.weight_def)
qed

text \<open>The pides that a thread has in hand.\<close>

fun cook_pides :: "cook_pc \<Rightarrow> pide list" where
  "cook_pides (C_Prep p) = [p]"
| "cook_pides (C_App p t) = [p]"
| "cook_pides (C_AppWait p t) = [p]"
| "cook_pides (C_AppWoke p t) = [p]"
| "cook_pides (C_Oven p t a) = [p]"
| "cook_pides (C_OvenTest p t a) = [p]"
| "cook_pides (C_OvenTake p t a) = [p]"
| "cook_pides (C_OvenWait p t a) = [p]"
| "cook_pides (C_OvenWoke p t a) = [p]"
| "cook_pides _ = []"

fun timer_pides :: "timer_pc \<Rightarrow> pide list" where
  "timer_pides (T_Send i p) = [p]"
| "timer_pides (T_Release i p) = [p]"
| "timer_pides (T_Prep p) = [p]"
| "timer_pides (T_PrepWait p) = [p]"
| "timer_pides (T_PrepWoke p) = [p]"
| "timer_pides _ = []"

fun main_orders :: "main_pc \<Rightarrow> pide list" where
  "main_orders (G_Put os) = os"
| "main_orders (G_PutWait os) = os"
| "main_orders (G_PutWoke os) = os"
| "main_orders (G_Inc os) = os"
| "main_orders _ = []"

definition on_board :: "courrier \<Rightarrow> pide list" where
  "on_board m = (case m_pc m of
       M_Count i \<Rightarrow> drop i (bag m) | M_Go i \<Rightarrow> drop i (bag m) | M_Arrive i \<Rightarrow> drop i (bag m)
     | M_Back \<Rightarrow> [] | M_Check \<Rightarrow> [] | M_Returned \<Rightarrow> [] | _ \<Rightarrow> bag m)"

lemma on_board_pc [simp]:
  "m_pc m \<in> {M_Lock, M_Loop, M_Empty, M_Wait, M_Woke, M_Take, M_Unlock, M_Exit} \<Longrightarrow> on_board m = bag m"
  "m_pc m = M_Fault e \<Longrightarrow> on_board m = bag m"
  "m_pc m = M_Count i \<or> m_pc m = M_Go i \<or> m_pc m = M_Arrive i \<Longrightarrow> on_board m = drop i (bag m)"
  "m_pc m \<in> {M_Back, M_Check, M_Returned} \<Longrightarrow> on_board m = []"
  by (auto simp: on_board_def)

definition copies :: "pide \<Rightarrow> pide list \<Rightarrow> int" where
  "copies x ps = int (count_list ps x)"

lemma copies_simps [simp]:
  "copies x [] = 0" "copies x (p # ps) = of_bool (p = x) + copies x ps" "copies x (ps @ qs) = copies x ps + copies x qs"
  by (simp_all add: copies_def)

interpretation hand: thread_weight "\<lambda>pc. copies x (cook_pides pc)" "\<lambda>tc. copies x (timer_pides tc)"
    "\<lambda>m. copies x (on_board m)" "\<lambda>gc. copies x (main_orders gc)"
  for x :: pide
proof (unfold_locales, goal_cases)
  case (1 c pc) then show ?case by (cases pc) simp_all
next
  case (2 c tc) then show ?case by (cases tc) simp_all
next
  case (3 c m) then show ?case by (cases "m_pc m") (simp_all add: on_board_def)
next
  case (4 c mc) then show ?case by (cases mc) simp_all
next
  case 5 then show ?case by (simp add: on_board_def split: moto_pc.split)
qed

section \<open>The invariant\<close>

text \<open>Every real order (the zero pide has number 0) is in exactly one place.\<close>

definition placed :: "pide \<Rightarrow> shop \<Rightarrow> int" where
  "placed x s = hand.weight x s + copies x (pq_items (orderQueue s)) + copies x (pq_items (ovenQueue s))
     + copies x (pq_items (preparedQueue s)) + copies x (delivered s)"

definition shop_inv :: "shop \<Rightarrow> bool" where
  "shop_inv s \<longleftrightarrow> quiet s \<and> aparatus s + held.weight s = 3
     \<and> int (length (pq_items (ovenQueue s))) = due.weight s
     \<and> (\<forall>x. pide_id x \<noteq> 0 \<longrightarrow> placed x s = copies x (ordered s))
     \<and> (\<forall>p\<in>set (ordered s). 1 \<le> pide_id p)"

lemmas shop_inv_simps = shop_inv_def placed_def

lemma cook_order_inv:
  assumes "shop_inv s" "i < length (cooks s)" "cooks s ! i = C_Order \<or> cooks s ! i = C_OrderWoke"
  shows "shop_inv (cook_order i s)"
proof -
  have "quiet s" using assms(1) by (simp add: shop_inv_def)
  from quiet_orderQueue [OF this, of i] show ?thesis
  proof
    assume "cook_order i s = cook_goto i C_OrderWait s"
    then show ?thesis using assms by (auto simp: shop_inv_simps)
  next
    assume "\<exists>p q. pq_inv q \<and> pq_items (orderQueue s) = p # pq_items q
        \<and> cook_order i s = cook_goto i (C_Prep p) (broadcast OrderFull (s\<lparr>orderQueue := q\<rparr>))"
    then obtain p q where "pq_inv q" "pq_items (orderQueue s) = p # pq_items q"
        "cook_order i s = cook_goto i (C_Prep p) (broadcast OrderFull (s\<lparr>orderQueue := q\<rparr>))" by blast
    then show ?thesis using assms by (auto simp: shop_inv_simps)
  qed
qed

lemma cook_app_inv:
  assumes "shop_inv s" "i < length (cooks s)" "cooks s ! i = C_App p t \<or> cooks s ! i = C_AppWoke p t"
  shows "shop_inv (cook_app i p t s)"
  using assms quietD [of s] by (auto simp: shop_inv_simps cook_app_def cook_take_def)

lemma cook_oven_inv:
  assumes "shop_inv s" "i < length (cooks s)" "cooks s ! i = C_OvenTest p t a"
  shows "shop_inv (cook_oven_test i p t a s)"
proof -
  have "quiet s" using assms(1) by (simp add: shop_inv_def)
  from quiet_oven_test [OF this, of i p t a] show ?thesis
  proof
    assume "cook_oven_test i p t a s
      = cook_goto i (C_OvenTake p t a) (broadcast AppCond (s\<lparr>aparatus := aparatus s + 1\<rparr>))"
    then show ?thesis using assms by (auto simp: shop_inv_simps)
  next
    assume "\<exists>q. pq_inv q \<and> pq_items q = pq_items (ovenQueue s) @ [p] \<and> cook_oven_test i p t a s
      = cook_goto i (C_Return p t a) ((broadcast OvenCondFull (s\<lparr>ovenQueue := q\<rparr>))\<lparr>ovenMutex := None\<rparr>)"
    then obtain q where "pq_inv q" "pq_items q = pq_items (ovenQueue s) @ [p]" "cook_oven_test i p t a s
      = cook_goto i (C_Return p t a) ((broadcast OvenCondFull (s\<lparr>ovenQueue := q\<rparr>))\<lparr>ovenMutex := None\<rparr>)" by blast
    then show ?thesis using assms by (auto simp: shop_inv_simps)
  qed
qed

lemma pideShopAsci_inv:
  assumes "shop_inv s" "pideShopAsci i s = Some s'"
  shows "shop_inv s'"
proof -
  have i: "i < length (cooks s)" using assms(2) by (simp add: pideShopAsci_def split: if_splits)
  have q: "\<not> siparisIptal s" "\<not> cancelled s" using assms(1) quietD [of s] by (simp_all add: shop_inv_def)
  show ?thesis
  proof (cases "cooks s ! i")
    case C_Order
    then show ?thesis using assms i cook_order_inv [of s i] by (simp add: pideShopAsci_def)
  next
    case C_OrderWoke
    then show ?thesis using assms i q cook_order_inv [of s i] by (simp add: pideShopAsci_def)
  next
    case (C_App p t)
    then show ?thesis using assms i cook_app_inv [of s i p t] by (simp add: pideShopAsci_def)
  next
    case (C_AppWoke p t)
    then show ?thesis using assms i q cook_app_inv [of s i p t] by (simp add: pideShopAsci_def)
  next
    case (C_OvenTest p t a)
    then show ?thesis using assms i cook_oven_inv [of s i p t a] by (simp add: pideShopAsci_def)
  next
    case (C_OvenTake p t a)
    then show ?thesis using assms i by (auto simp: pideShopAsci_def shop_inv_simps)
  next
    case (C_Return p t a)
    then show ?thesis using assms i q by (auto simp: pideShopAsci_def shop_inv_simps)
  next
    case (C_Start p t)
    then show ?thesis using assms i q by (auto simp: pideShopAsci_def shop_inv_simps cook_start_def split: if_splits)
  qed (use assms i q in \<open>auto simp: pideShopAsci_def shop_inv_simps split: if_splits\<close>)
qed

lemma prepare_inv: "shop_inv s \<Longrightarrow> prepare i t s = Some s' \<Longrightarrow> shop_inv s'"
  by (auto simp: prepare_def shop_inv_simps split: if_splits cook_pc.splits)

lemma timer_app_inv:
  assumes "shop_inv s" "k < length (timers s)" "timers s ! k = T_App i \<or> timers s ! k = T_AppWoke i"
  shows "shop_inv (timer_app k i s)"
  using assms by (auto simp: shop_inv_simps timer_app_def timer_take_def)

text \<open>A timer that comes to the oven finds a pide there.\<close>

lemma timer_oven_inv:
  assumes "shop_inv s" "k < length (timers s)" "timers s ! k = T_Oven i \<or> timers s ! k = T_OvenWoke i"
  shows "shop_inv (timer_oven k i s) \<and> timers (timer_oven k i s) ! k \<noteq> T_OvenWait i"
proof -
  have q: "quiet s" using assms(1) by (simp add: shop_inv_def)
  have "1 \<le> due.weight s" using timer_due_member [OF assms(2)] assms(3) by auto
  then have ne: "pq_items (ovenQueue s) \<noteq> []" using assms(1) by (auto simp: shop_inv_def)
  from quiet_timer_oven [OF q, of k i] ne obtain p r where "pq_inv r" "pq_items (ovenQueue s) = p # pq_items r"
      "timer_oven k i s = timer_goto k (T_Send i p) (broadcast OvenCondEmpty (s\<lparr>ovenQueue := r\<rparr>))" by blast
  then show ?thesis using assms by (auto simp: shop_inv_simps) (auto simp: timer_goto_def)
qed

lemma timer_prep_inv:
  assumes "shop_inv s" "k < length (timers s)" "timers s ! k = T_Prep p \<or> timers s ! k = T_PrepWoke p"
  shows "shop_inv (timer_prep k p s)"
proof -
  have "quiet s" using assms(1) by (simp add: shop_inv_def)
  from quiet_timer_prep [OF this, of k p] show ?thesis
  proof
    assume "timer_prep k p s = timer_goto k (T_PrepWait p) s"
    then show ?thesis using assms by (auto simp: shop_inv_simps)
  next
    assume "\<exists>q. pq_inv q \<and> pq_items q = pq_items (preparedQueue s) @ [p]
        \<and> timer_prep k p s = timer_goto k T_Exit (broadcast PreparedFull (s\<lparr>preparedQueue := q\<rparr>))"
    then obtain q where "pq_inv q" "pq_items q = pq_items (preparedQueue s) @ [p]"
        "timer_prep k p s = timer_goto k T_Exit (broadcast PreparedFull (s\<lparr>preparedQueue := q\<rparr>))" by blast
    then show ?thesis using assms by (auto simp: shop_inv_simps)
  qed
qed

lemma timerHandler_inv:
  assumes "shop_inv s" "timerHandler k s = Some s'"
  shows "shop_inv s'"
proof -
  have k: "k < length (timers s)" using assms(2) by (simp add: timerHandler_def split: if_splits)
  have q: "\<not> siparisIptal s" "\<not> cancelled s" using assms(1) quietD [of s] by (simp_all add: shop_inv_def)
  show ?thesis
  proof (cases "timers s ! k")
    case (T_App i)
    then show ?thesis using assms k timer_app_inv [of s k i] by (simp add: timerHandler_def)
  next
    case (T_AppWoke i)
    then show ?thesis using assms k q timer_app_inv [of s k i] by (simp add: timerHandler_def)
  next
    case (T_Oven i)
    then show ?thesis using assms k timer_oven_inv [of s k i] by (simp add: timerHandler_def split: if_splits)
  next
    case (T_OvenWoke i)
    then show ?thesis using assms k q timer_oven_inv [of s k i] by (simp add: timerHandler_def split: if_splits)
  next
    case (T_Prep p)
    then show ?thesis using assms k timer_prep_inv [of s k p] by (simp add: timerHandler_def split: if_splits)
  next
    case (T_PrepWoke p)
    then show ?thesis using assms k q timer_prep_inv [of s k p] by (simp add: timerHandler_def split: if_splits)
  qed (use assms k q in \<open>auto simp: timerHandler_def shop_inv_simps\<close>)
qed

lemma moto_ok_nth: "quiet s \<Longrightarrow> j < length (motos s) \<Longrightarrow> moto_ok (motos s ! j)"
  by (simp add: quiet_def)

lemma copies_drop: "i < length ps \<Longrightarrow> copies x (drop i ps) = of_bool (ps ! i = x) + copies x (drop (i + 1) ps)"
  by (simp add: Cons_nth_drop_Suc [symmetric])

lemma moto_take_inv:
  assumes "shop_inv s" "j < length (motos s)" "m_pc (motos s ! j) = M_Take"
  shows "shop_inv (moto_take j s)"
proof -
  have q: "quiet s" "\<not> siparisIptal s" using assms(1) quietD [of s] by (auto simp: shop_inv_def)
  obtain p r where r: "pq_dequeue (preparedQueue s) = Inr (p, r)" "pq_inv r" "pq_items (preparedQueue s) = p # pq_items r
       \<or> (p = zero_pide \<and> pq_items (preparedQueue s) = [] \<and> pq_items r = [])"
    using quiet_prepared [OF q(1)] by blast
  have z: "pide_id x \<noteq> 0 \<Longrightarrow> zero_pide \<noteq> x" for x by (auto simp: zero_pide_def)
  show ?thesis
  proof (cases "totalOrder s \<noteq> 0")
    case True
    then show ?thesis using assms q r z
      by (auto simp: moto_take_def shop_inv_simps moto_ok_def intro!: quiet_moto_set)
  next
    case False
    then show ?thesis using assms q
      by (auto simp: moto_take_def moto_goto_def shop_inv_simps moto_ok_def intro!: quiet_moto_set)
  qed
qed

lemma moto_unlock_inv:
  assumes "shop_inv s" "j < length (motos s)" "m_pc (motos s ! j) = M_Unlock"
  shows "shop_inv (moto_unlock j s)"
proof -
  let ?s = "(broadcast PreparedFull (broadcast PreparedEmpty s))\<lparr>preparedMutex := None\<rparr>"
  have q: "\<not> siparisIptal s" "\<not> cancelled s" using assms(1) quietD [of s] by (simp_all add: shop_inv_def)
  have m: "motos ?s ! j = motos s ! j" using assms(2,3) by (simp add: broadcast_def)
  have i: "shop_inv ?s" using assms(1) by (simp add: shop_inv_simps)
  show ?thesis using i assms(2,3) q m
    by (auto simp: moto_unlock_def Let_def moto_goto_def shop_inv_simps moto_ok_def intro!: quiet_moto_set)
qed

lemma pideShopMoto_inv:
  assumes "shop_inv s" "pideShopMoto j s = Some s'"
  shows "shop_inv s'"
proof -
  have j: "j < length (motos s)" using assms(2) by (simp add: pideShopMoto_def split: if_splits)
  have q: "quiet s" "\<not> siparisIptal s" "\<not> cancelled s" using assms(1) quietD [of s] by (simp_all add: shop_inv_def)
  have ok: "moto_ok (motos s ! j)" by (rule moto_ok_nth [OF q(1) j])
  show ?thesis
  proof (cases "m_pc (motos s ! j)")
    case M_Take
    then show ?thesis using assms j moto_take_inv [of s j] by (simp add: pideShopMoto_def)
  next
    case M_Unlock
    then show ?thesis using assms j moto_unlock_inv [of s j] by (simp add: pideShopMoto_def)
  next
    case M_Woke
    then show ?thesis using assms j q
      by (auto simp: pideShopMoto_def delivery_def moto_woke_def moto_goto_def Let_def shop_inv_simps moto_ok_def
          intro!: quiet_moto_set split: if_splits)
  next
    case (M_Count i)
    then show ?thesis using assms j q ok
      by (auto simp: pideShopMoto_def delivery_def moto_count_def shop_inv_simps moto_ok_def intro!: quiet_moto_set)
  next
    case (M_Arrive i)
    then have i: "i < length (bag (motos s ! j))" using ok by (simp add: moto_ok_def)
    have "copies x (drop i (bag (motos s ! j)))
        = of_bool (bag (motos s ! j) ! i = x) + copies x (drop (i + 1) (bag (motos s ! j)))" for x
      by (rule copies_drop [OF i])
    then show ?thesis using M_Arrive assms j q i
      by (auto simp: pideShopMoto_def delivery_def moto_arrive_def moto_goto_def shop_inv_simps moto_ok_def intro!: quiet_moto_set)
  next
    case M_Check
    then show ?thesis using assms j q
      by (auto simp: pideShopMoto_def delivery_def moto_check_def moto_goto_def shop_inv_simps moto_ok_def intro!: quiet_moto_set split: if_splits)
  qed (use assms j q ok in \<open>auto simp: pideShopMoto_def delivery_def moto_goto_def shop_inv_simps moto_ok_def
         intro!: quiet_moto_set split: if_splits\<close>)
qed

lemma handleClient_inv:
  assumes "shop_inv s" "main_thread s = G_Put os \<or> main_thread s = G_PutWoke os"
  shows "shop_inv (handleClient_put os s)"
proof (cases os)
  case Nil
  then show ?thesis using assms by (auto simp: handleClient_put_def shop_inv_simps)
next
  case (Cons p rest)
  have q: "quiet s" using assms(1) by (simp add: shop_inv_def)
  have g: "main_thread (broadcast OrderFull (s\<lparr>orderQueue := r\<rparr>)) = main_thread s" for r
    using assms(2) by (auto simp: broadcast_def)
  from quiet_handleClient [OF q, of p rest] show ?thesis
  proof
    assume "handleClient_put (p # rest) s = main_goto (G_PutWait (p # rest)) s"
    then show ?thesis using assms Cons by (auto simp: shop_inv_simps)
  next
    assume "\<exists>r. pq_inv r \<and> pq_items r = pq_items (orderQueue s) @ [p]
        \<and> handleClient_put (p # rest) s = main_goto (G_Inc rest) (broadcast OrderFull (s\<lparr>orderQueue := r\<rparr>))"
    then obtain r where "pq_inv r" "pq_items r = pq_items (orderQueue s) @ [p]"
        "handleClient_put (p # rest) s = main_goto (G_Inc rest) (broadcast OrderFull (s\<lparr>orderQueue := r\<rparr>))" by blast
    then show ?thesis using assms Cons g by (auto simp: shop_inv_simps)
  qed
qed

lemma quiet_unreceive: "quiet s \<Longrightarrow> quiet (s\<lparr>motos := map (\<lambda>m. m\<lparr>received := 0\<rparr>) (motos s)\<rparr>)"
  by (auto simp: quiet_def moto_ok_def split: moto_pc.splits)

text \<open>The numbers of the orders start at 1.\<close>

lemma new_orders_ids: "p \<in> set (new_orders locs) \<Longrightarrow> 1 \<le> pide_id p"
  by (auto simp: new_orders_def)

lemma shop_main_inv:
  assumes "shop_inv s" "shop_main s = Some s'"
  shows "shop_inv s'"
proof -
  have q: "quiet (s\<lparr>onlysendFlag := b\<rparr>)" "quiet (s\<lparr>connected := b\<rparr>)" "quiet (s\<lparr>totalOrderSize := n\<rparr>)"
      "quiet (s\<lparr>totalReceived := n\<rparr>)" "quiet (s\<lparr>ordered := os\<rparr>)" for b n os
    using assms(1) by (simp_all add: shop_inv_def quiet_def)
  show ?thesis
    using assms handleClient_inv [of s] q
    by (cases "main_thread s") (auto simp: shop_main_def shop_inv_simps dest: new_orders_ids split: if_splits)
qed

lemma connect_inv:
  assumes "shop_inv s" "accept_connection locs s = Some s'"
  shows "shop_inv s'"
proof -
  let ?s = "s\<lparr>motos := map (\<lambda>m. m\<lparr>received := 0\<rparr>) (motos s)\<rparr>"
  have q: "quiet s" "main_thread s = G_Accept" using assms by (auto simp: shop_inv_def accept_connection_def split: if_splits)
  have "s' = main_goto (G_New locs) (?s\<lparr>siparisIptal := False\<rparr>)"
    using assms(2) q(2) by (auto simp: accept_connection_def main_goto_def)
  moreover have "quiet (?s\<lparr>siparisIptal := False\<rparr>)"
    using quiet_unreceive [OF q(1)] by (simp add: quiet_def)
  ultimately show ?thesis using assms(1) q(2) by (auto simp: shop_inv_simps)
qed

lemma message_inv:
  assumes "shop_inv s" "client_message st s = Some s'" "st \<noteq> CANCELLED"
  shows "shop_inv s'"
proof -
  have g: "main_thread s = G_Serve" using assms(2) by (simp add: client_message_def split: if_splits)
  have "quiet s" using assms(1) by (simp add: shop_inv_def)
  then have q: "quiet (s\<lparr>best := bs, motos := map (\<lambda>m. m\<lparr>received := 0\<rparr>) (motos s)\<rparr>)" for bs
    using quiet_unreceive by (simp add: quiet_def)
  have "shop_inv s' \<or> s' = s \<or> s' = main_goto G_Join s
      \<or> s' = main_goto G_Accept (s\<lparr>best := best s @ [best_loop 0 None 0 (motos s)],
            motos := map (\<lambda>m. m\<lparr>received := 0\<rparr>) (motos s)\<rparr>)"
    using assms(2,3) g by (cases st) (simp_all add: client_message_def)
  moreover have "shop_inv (main_goto G_Join s)" using assms(1) g by (simp add: shop_inv_simps)
  moreover have "shop_inv (main_goto G_Accept (s\<lparr>best := bs, motos := map (\<lambda>m. m\<lparr>received := 0\<rparr>) (motos s)\<rparr>))" for bs
    using assms(1) g q [of bs] by (simp add: shop_inv_simps)
  ultimately show ?thesis using assms(1) by blast
qed

lemma shop_step_inv:
  assumes "shop_inv s" "calm ev" "shop_step ev s = Some s'"
  shows "shop_inv s'"
proof (cases ev)
  case (Step t)
  show ?thesis
  proof (cases t)
    case Main
    show ?thesis by (rule shop_main_inv [OF assms(1)]) (use assms(3) Step Main in \<open>simp add: shop_step_def\<close>)
  next
    case (Cook i)
    show ?thesis by (rule pideShopAsci_inv [OF assms(1)]) (use assms(3) Step Cook in \<open>simp add: shop_step_def\<close>)
  next
    case (Timer k)
    show ?thesis by (rule timerHandler_inv [OF assms(1)]) (use assms(3) Step Timer in \<open>simp add: shop_step_def\<close>)
  next
    case (Moto j)
    show ?thesis by (rule pideShopMoto_inv [OF assms(1)]) (use assms(3) Step Moto in \<open>simp add: shop_step_def\<close>)
  qed
next
  case (Message st)
  then have "client_message st s = Some s'" "st \<noteq> CANCELLED" using assms(2,3) by (auto simp: shop_step_def calm_def)
  then show ?thesis by (rule message_inv [OF assms(1)])
next
  case (Wakeup c)
  then show ?thesis using assms(1,3) by (auto simp: shop_step_def shop_inv_simps)
next
  case (Cooked i t)
  show ?thesis by (rule prepare_inv [OF assms(1)]) (use assms(3) Cooked in \<open>simp add: shop_step_def\<close>)
next
  case (Connect locs)
  show ?thesis by (rule connect_inv [OF assms(1)]) (use assms(3) Connect in \<open>simp add: shop_step_def\<close>)
next
  case Interrupt
  then show ?thesis using assms(2) by (simp add: calm_def)
qed

lemma shop_start_inv:
  assumes "shop_queues malloc = Some (oq, vq, pq)" "\<And>n block. 0 < n \<Longrightarrow> malloc n = Some block \<Longrightarrow> int (length block) = n"
  shows "shop_inv (shop_start c d oq vq pq)"
proof -
  have e: "malloc n = Some b \<Longrightarrow> 0 < n \<Longrightarrow> createQueue True malloc n = Inr (Some q) \<Longrightarrow> pq_inv q \<and> pq_items q = []"
    for n b q using createQueue_inv [of malloc n b] assms(2) by fastforce
  have "\<exists>b. malloc n = Some b" if "createQueue True malloc n = Inr (Some q)" for n q
    using that by (auto simp: createQueue_def split: option.splits)
  then have "pq_inv oq \<and> pq_items oq = []" "pq_inv vq \<and> pq_items vq = []" "pq_inv pq \<and> pq_items pq = []"
    using assms(1) e by (fastforce simp: shop_queues_def split: sum.splits option.splits)+
  then show ?thesis
    by (simp add: shop_inv_simps quiet_def shop_start_def held.weight_def due.weight_def hand.weight_def
        moto_ok_def sum_list_replicate)
qed

section \<open>Where the orders are\<close>

definition whereabouts :: "shop \<Rightarrow> pide list" where
  "whereabouts s = main_orders (main_thread s) @ pq_items (orderQueue s) @ concat (map cook_pides (cooks s))
     @ pq_items (ovenQueue s) @ concat (map timer_pides (timers s)) @ pq_items (preparedQueue s)
     @ concat (map on_board (motos s)) @ delivered s"

lemma copies_concat: "copies x (concat (map f ys)) = sum_list (map (\<lambda>y. copies x (f y)) ys)"
  by (induction ys) simp_all

lemma placed_whereabouts: "placed x s = copies x (whereabouts s)"
  by (simp add: placed_def whereabouts_def hand.weight_def copies_concat)

lemma shop_inv_orders:
  assumes "shop_inv s"
  shows "filter_mset (\<lambda>p. pide_id p \<noteq> 0) (mset (whereabouts s)) = mset (ordered s)"
proof (rule multiset_eqI)
  fix x
  have "pide_id x \<noteq> 0 \<Longrightarrow> count_list (whereabouts s) x = count_list (ordered s) x"
    using assms by (simp add: shop_inv_def placed_whereabouts copies_def)
  moreover have "pide_id x = 0 \<Longrightarrow> x \<notin> set (ordered s)" using assms by (auto simp: shop_inv_def)
  ultimately show "count (filter_mset (\<lambda>p. pide_id p \<noteq> 0) (mset (whereabouts s))) x = count (mset (ordered s)) x"
    by (auto simp: count_mset count_list_eq_length_filter [symmetric])
qed

end
