(* ===== verification/ShopProps.thy ===== *)
theory ShopProps
  imports ShopInv
begin

text \<open>
  The properties of the pide shop: what holds in every schedule without a cancellation, and
  concrete schedules on which the shop goes wrong.
\<close>

definition in_use :: "shop \<Rightarrow> int" where
  "in_use s = sum_list (map cook_holds (cooks s)) + sum_list (map timer_holds (timers s))"

text \<open>A \<^verbatim>\<open>malloc\<close> that delivers blocks of the size asked for.\<close>

definition malloc_ok :: "(int \<Rightarrow> pide list option) \<Rightarrow> bool" where
  "malloc_ok malloc \<longleftrightarrow> (\<forall>n block. 0 < n \<longrightarrow> malloc n = Some block \<longrightarrow> int (length block) = n)"

lemma calm_run_inv:
  assumes "shop_queues malloc = Some (oq, vq, pq)" "malloc_ok malloc" "list_all calm es"
  shows "shop_inv (sched_run shop_step es (shop_start c d oq vq pq))"
proof -
  have "shop_inv (shop_start c d oq vq pq)"
    using assms(2) by (intro shop_start_inv [OF assms(1)]) (simp add: malloc_ok_def)
  then show ?thesis
    by (rule sched_run_invariant_on [where I = shop_inv and P = calm, rotated]) (rule assms(3), rule shop_step_inv)
qed

text \<open>
  C4. The account of the three apparatuses is exact in every schedule of any number of
  cooks, couriers and clients without a cancellation: what is free and what the threads
  have in use always adds up to three, and a timer thread that has taken an apparatus and
  comes to the oven always finds a pide there.
\<close>

theorem shop_apparatus_account:
  assumes "shop_queues malloc = Some (oq, vq, pq)" "malloc_ok malloc" "list_all calm es"
    and "s = sched_run shop_step es (shop_start c d oq vq pq)"
  shows "aparatus s + in_use s = 3
    \<and> (\<forall>k i. k < length (timers s) \<and> timers s ! k = T_Oven i \<longrightarrow> pq_items (ovenQueue s) \<noteq> [])"
proof -
  have inv: "shop_inv s" unfolding assms(4) by (rule calm_run_inv [OF assms(1-3)])
  have "held.weight s = in_use s" by (simp add: held.weight_def in_use_def)
  moreover have "pq_items (ovenQueue s) \<noteq> []" if "k < length (timers s)" "timers s ! k = T_Oven i" for k i
  proof -
    have "1 \<le> due.weight s" using timer_due_member [OF that(1)] that(2) by simp
    then show ?thesis using inv by (auto simp: shop_inv_def)
  qed
  ultimately show ?thesis using inv by (auto simp: shop_inv_def)
qed

definition demo_malloc :: "int \<Rightarrow> pide list option" where
  "demo_malloc n = Some (replicate (nat n) zero_pide)"

definition demo_queue :: "int \<Rightarrow> pide_queue" where
  "demo_queue n = \<lparr>q_data = replicate (nat n) zero_pide, q_front = 0, q_rear = n - 1, q_size = 0, q_capacity = n\<rparr>"

definition demo_shop :: "nat \<Rightarrow> nat \<Rightarrow> shop" where
  "demo_shop c d = shop_start c d (demo_queue 200) (demo_queue 6) (demo_queue 200)"

lemma demo_queues:
  "shop_queues demo_malloc = Some (demo_queue 200, demo_queue 6, demo_queue 200)" "malloc_ok demo_malloc"
  by (simp_all add: shop_queues_def createQueue_def demo_malloc_def demo_queue_def malloc_ok_def)

theorem shop_apparatus_account_witness:
  "aparatus (sched_run shop_step [Step (Cook 0)] (demo_shop 2 1))
     + in_use (sched_run shop_step [Step (Cook 0)] (demo_shop 2 1)) = 3"
  using shop_apparatus_account [OF demo_queues, of "[Step (Cook 0)]" _ 2 1]
  by (simp add: calm_def demo_shop_def)



section \<open>Schedules that go wrong\<close>

text \<open>No thread can move, and none is preparing a pide.\<close>

definition preparing :: "cook_pc \<Rightarrow> bool" where
  "preparing pc = (case pc of C_Prep p \<Rightarrow> True | _ \<Rightarrow> False)"

definition shop_stuck :: "shop \<Rightarrow> bool" where
  "shop_stuck s \<longleftrightarrow> shop_main s = None
     \<and> list_all (\<lambda>i. pideShopAsci i s = None \<and> \<not> preparing (cooks s ! i)) [0..<length (cooks s)]
     \<and> list_all (\<lambda>k. timerHandler k s = None) [0..<length (timers s)]
     \<and> list_all (\<lambda>j. pideShopMoto j s = None) [0..<length (motos s)]"

lemma shop_stuck_step:
  assumes "shop_stuck s"
  shows "shop_step (Step t) s = None" "shop_step (Cooked i n) s = None"
proof -
  have c: "pideShopAsci i s = None \<and> prepare i n s = None" for i n
  proof (cases "i < length (cooks s)")
    case True
    then have "pideShopAsci i s = None" "\<not> preparing (cooks s ! i)" using assms by (auto simp: shop_stuck_def list_all_iff)
    then show ?thesis by (auto simp: prepare_def preparing_def split: cook_pc.splits)
  qed (simp add: pideShopAsci_def prepare_def)
  have "timerHandler k s = None" for k
    using assms by (cases "k < length (timers s)") (auto simp: shop_stuck_def list_all_iff timerHandler_def)
  moreover have "pideShopMoto j s = None" for j
    using assms by (cases "j < length (motos s)") (auto simp: shop_stuck_def list_all_iff pideShopMoto_def)
  ultimately show "shop_step (Step t) s = None" "shop_step (Cooked i n) s = None"
    using assms c by (cases t; simp add: shop_step_def shop_stuck_def)+
qed

definition times :: "nat \<Rightarrow> shop_event \<Rightarrow> shop_event list" where
  "times n e = replicate n e"

text \<open>A cook takes an order, prepares it, takes an apparatus and comes to the oven.\<close>

definition go_to_oven :: "nat \<Rightarrow> shop_event list" where
  "go_to_oven i = [Step (Cook i), Cooked i 5, Step (Cook i), Step (Cook i), Step (Cook i)]"

definition place_in_oven :: "nat \<Rightarrow> shop_event list" where
  "place_in_oven i = go_to_oven i @ [Step (Cook i), Step (Cook i)]"

definition full_oven :: "shop_event list" where
  "full_oven = [Connect (replicate 9 (1, 1))] @ times 24 (Step Main)
     @ concat (map place_in_oven [0, 1, 2, 0, 1, 2])"

definition deadlock_schedule :: "shop_event list" where
  "deadlock_schedule = full_oven @ concat (map (\<lambda>i. go_to_oven i @ [Step (Cook i)]) [0, 1, 2])
     @ concat (map (\<lambda>k. times 2 (Step (Timer k))) [0..<6]) @ times 3 (Step (Moto 0))"

definition race_schedule :: "shop_event list" where
  "race_schedule = full_oven @ concat (map (\<lambda>i. go_to_oven i @ [Step (Cook i)]) [0, 1])
     @ go_to_oven 2 @ times 2 (Step (Timer 0)) @ [Step (Cook 2)]"

lemma schedules_calm: "list_all calm deadlock_schedule \<and> list_all calm race_schedule"
  by code_simp

text \<open>What is looked at in a final state, so that a schedule is evaluated once.\<close>

definition report :: "shop \<Rightarrow> bool \<times> int \<times> int \<times> bool \<times> int list \<times> int list" where
  "report s = (shop_stuck s, aparatus s, in_use s, (DELIVERED, 0) \<in> set (sent s),
     map pide_id (ordered s), map pide_id (delivered s))"

lemma deadlock_run: "report (sched_run shop_step deadlock_schedule (demo_shop 3 1))
   = (True, 0, 3, False, [1, 2, 3, 4, 5, 6, 7, 8, 9], [])"
  by code_simp

lemma race_run: "report (sched_run shop_step race_schedule (demo_shop 3 1))
   = (False, -1, 4, False, [1, 2, 3, 4, 5, 6, 7, 8, 9], [])"
  by code_simp

text \<open>The deadlock: a cook in its wait for room in the oven, a timer thread in its wait for an apparatus.\<close>

fun at_oven_wait :: "cook_pc \<Rightarrow> bool" where
  "at_oven_wait (C_OvenWait p t a) = True"
| "at_oven_wait _ = False"

fun at_app_wait :: "timer_pc \<Rightarrow> bool" where
  "at_app_wait (T_AppWait i) = True"
| "at_app_wait _ = False"

definition oven_deadlock :: "shop \<Rightarrow> bool" where
  "oven_deadlock s \<longleftrightarrow> pq_isFull (ovenQueue s) \<and> map pide_id (pq_items (ovenQueue s)) = [1, 2, 3, 4, 5, 6]
     \<and> aparatus s = 0 \<and> map cook_holds (cooks s) = [1, 1, 1] \<and> list_all at_oven_wait (cooks s)
     \<and> length (timers s) = 6 \<and> list_all at_app_wait (timers s) \<and> ovenMutex s = None"

lemma deadlock_reached: "oven_deadlock (sched_run shop_step deadlock_schedule (demo_shop 3 1))"
  by code_simp

text \<open>
  C11. Three cooks and nine orders can bring the shop to a standstill without any
  cancellation. The six pides of the first orders fill the oven; the three cooks wait for
  room in it, each with an apparatus in its hands, so that none is free; and the six timer
  threads, which alone take pides out, all wait for an apparatus. From then on no thread
  has a step: whatever is scheduled leaves this state as it is, and not one of the nine
  pides is delivered.
\<close>

theorem shop_oven_deadlock:
  "\<exists>es s. list_all calm es \<and> s = sched_run shop_step es (demo_shop 3 1)
     \<and> pq_isFull (ovenQueue s) \<and> map pide_id (pq_items (ovenQueue s)) = [1, 2, 3, 4, 5, 6]
     \<and> aparatus s = 0 \<and> map cook_holds (cooks s) = [1, 1, 1] \<and> list_all at_oven_wait (cooks s)
     \<and> length (timers s) = 6 \<and> list_all at_app_wait (timers s) \<and> ovenMutex s = None
     \<and> map pide_id (ordered s) = [1, 2, 3, 4, 5, 6, 7, 8, 9] \<and> delivered s = []
     \<and> (\<forall>t. shop_step (Step t) s = None) \<and> (\<forall>i n. shop_step (Cooked i n) s = None)"
proof (intro exI conjI allI)
  let ?s = "sched_run shop_step deadlock_schedule (demo_shop 3 1)"
  have r: "shop_stuck ?s" using deadlock_run by (simp add: report_def)
  show "shop_step (Step t) ?s = None" for t by (rule shop_stuck_step [OF r])
  show "shop_step (Cooked i n) ?s = None" for i n by (rule shop_stuck_step [OF r])
qed (use schedules_calm deadlock_run deadlock_reached in \<open>simp_all add: report_def oven_deadlock_def\<close>)

text \<open>
  Four threads can use the three apparatuses at once: a cook at the full oven gives its
  apparatus back and takes one again without looking whether one is left.
\<close>

theorem shop_apparatus_race:
  "\<exists>es s. list_all calm es \<and> s = sched_run shop_step es (demo_shop 3 1) \<and> aparatus s = -1 \<and> in_use s = 4"
  by (intro exI [of _ race_schedule] exI [of _ "sched_run shop_step race_schedule (demo_shop 3 1)"] conjI refl)
    (use schedules_calm race_run in \<open>simp_all add: report_def\<close>)

definition early_schedule :: "shop_event list" where
  "early_schedule = [Connect [(1, 1), (2, 2)]] @ times 10 (Step Main) @ place_in_oven 0 @ place_in_oven 0
     @ times 6 (Step (Timer 0)) @ times 6 (Step (Moto 0)) @ times 6 (Step (Timer 1))
     @ times 7 (Step (Moto 1)) @ times 9 (Step (Moto 0))"

lemma early_calm: "list_all calm early_schedule"
  by code_simp

lemma early_run: "report (sched_run shop_step early_schedule (demo_shop 1 2)) = (False, 3, 0, True, [1, 2], [1])"
  by code_simp

text \<open>
  The client can be told that all its customers are served while a pide is still on the
  road: the counters go up when a courier sets out, so the one that comes back first sees
  them complete.
\<close>

theorem shop_delivered_early:
  "\<exists>es s. list_all calm es \<and> s = sched_run shop_step es (demo_shop 1 2) \<and> (DELIVERED, 0) \<in> set (sent s)
     \<and> map pide_id (ordered s) = [1, 2] \<and> map pide_id (delivered s) = [1]"
  by (intro exI [of _ early_schedule] exI [of _ "sched_run shop_step early_schedule (demo_shop 1 2)"] conjI refl)
    (use early_calm early_run in \<open>simp_all add: report_def\<close>)

section \<open>More than 200 orders\<close>

text \<open>Nothing wakes the main thread from its wait for room in the queue of orders.\<close>

lemma step_main_waits:
  assumes "main_thread s = G_PutWait os" "connected s" "ev \<noteq> Wakeup OrderEmpty" "shop_step ev s = Some s'"
  shows "main_thread s' = G_PutWait os \<and> connected s'"
proof -
  have b: "main_thread (broadcast c t) = (if c = OrderEmpty then wake_main c (main_thread t) else main_thread t)" for c t
    by (cases "main_thread t") (simp_all add: broadcast_def)
  have c: "connected (broadcast c t) = connected t" for c t by (simp add: broadcast_def)
  have g: "connected (cook_goto i pc t) = connected t" "connected (timer_goto i tc t) = connected t"
     "connected (moto_set i f t) = connected t" for i pc tc f t
    by (simp_all add: cook_goto_def timer_goto_def moto_set_def)
  show ?thesis
  proof (cases ev)
    case (Step t)
    show ?thesis
    proof (cases t)
      case Main
      then show ?thesis using assms Step by (simp add: shop_step_def shop_main_def)
    next
      case (Cook i)
      then show ?thesis using assms Step b c g
        by (auto simp: shop_step_def pideShopAsci_def cook_order_def cook_app_def cook_take_def cook_oven_test_def
          cook_put_def cook_start_def split: if_splits cook_pc.splits sum.splits)
    next
      case (Timer k)
      then show ?thesis using assms Step b c g
        by (auto simp: shop_step_def timerHandler_def timer_app_def timer_take_def timer_oven_def timer_dequeue_def
          timer_prep_def timer_put_def split: if_splits timer_pc.splits sum.splits)
    next
      case (Moto j)
      then have s': "pideShopMoto j s = Some s'" using assms(4) Step by (simp add: shop_step_def)
      show ?thesis
      proof (cases "m_pc (motos s ! j)")
        case M_Take
        then show ?thesis using assms(1,2) s' b c g
          by (auto simp: pideShopMoto_def delivery_def moto_goto_def moto_take_def split: if_splits sum.splits)
      qed (use assms(1,2) s' b c g in \<open>auto simp: pideShopMoto_def delivery_def moto_goto_def moto_unlock_def moto_woke_def Let_def
             moto_count_def moto_arrive_def moto_check_def split: if_splits\<close>)
    qed
  next
    case (Cooked i n)
    then show ?thesis using assms g by (auto simp: shop_step_def prepare_def split: if_splits cook_pc.splits)
  next
    case (Connect l)
    then show ?thesis using assms by (simp add: shop_step_def accept_connection_def)
  next
    case (Message st)
    then show ?thesis using assms by (simp add: shop_step_def client_message_def)
  next
    case Interrupt
    then show ?thesis using assms b c by (auto simp: shop_step_def burn_handler_def)
  next
    case (Wakeup c')
    then show ?thesis using assms b c by (auto simp: shop_step_def)
  qed
qed
lemma run_main_waits:
  "main_thread s = G_PutWait os \<Longrightarrow> connected s \<Longrightarrow> Wakeup OrderEmpty \<notin> set fs \<Longrightarrow>
   main_thread (sched_run shop_step fs s) = G_PutWait os"
proof (induction fs arbitrary: s)
  case (Cons e fs)
  show ?case
  proof (cases "shop_step e s")
    case None
    then show ?thesis using Cons by simp
  next
    case (Some s')
    then have "main_thread s' = G_PutWait os \<and> connected s'"
      using Cons.prems by (intro step_main_waits [of s os e s']) auto
    then show ?thesis using Some Cons by simp
  qed
qed simp

lemma main_fills:
  assumes "pq_inv (orderQueue s)" "main_thread s = G_Put os" "connected s"
    and "pq_room (orderQueue s) < length (pq_items (orderQueue s)) + length os"
  shows "\<exists>n rest. main_thread (sched_run shop_step (replicate n (Step Main)) s) = G_PutWait rest
    \<and> connected (sched_run shop_step (replicate n (Step Main)) s)"
  using assms
proof (induction os arbitrary: s)
  case Nil
  then show ?case using pq.items_bound [of "orderQueue s"] by simp
next
  case (Cons p os)
  show ?case
  proof (cases "pq_isFull (orderQueue s)")
    case True
    then have "shop_step (Step Main) s = Some (main_goto (G_PutWait (p # os)) s)"
      using Cons.prems(2) by (simp add: shop_step_def shop_main_def handleClient_put_def)
    then show ?thesis using Cons.prems(3)
      by (intro exI [of _ 1] exI [of _ "p # os"]) (simp add: main_goto_def)
  next
    case False
    from pq.enqE [OF Cons.prems(1) False TrueI] obtain q where q: "pq_enqueue (orderQueue s) p = Inr q" "pq_inv q"
        "pq_items q = pq_items (orderQueue s) @ [p]" "pq_room q = pq_room (orderQueue s)" by blast
    let ?s1 = "main_goto (G_Inc os) (broadcast OrderFull (s\<lparr>orderQueue := q\<rparr>))"
    let ?s2 = "main_goto (G_Put os) (?s1\<lparr>totalOrder := totalOrder ?s1 + 1\<rparr>)"
    have s1: "shop_step (Step Main) s = Some ?s1"
      using Cons.prems(2) False q(1) by (simp add: shop_step_def shop_main_def handleClient_put_def)
    have s2: "shop_step (Step Main) ?s1 = Some ?s2"
      by (simp add: shop_step_def shop_main_def main_goto_def)
    have "connected ?s2" using Cons.prems(3) by (simp add: main_goto_def broadcast_def)
    then obtain n rest where "main_thread (sched_run shop_step (replicate n (Step Main)) ?s2) = G_PutWait rest"
        "connected (sched_run shop_step (replicate n (Step Main)) ?s2)"
      using Cons.IH [of ?s2] q Cons.prems(4) by (auto simp: main_goto_def)
    then show ?thesis using s1 s2 by (intro exI [of _ "Suc (Suc n)"] exI [of _ rest]) simp
  qed
qed

text \<open>
  A client with more than 200 customers can hang the shop: when the main thread has
  filled the queue of orders before the cooks begin, it waits for the condition
  \<open>orderEmpty\<close>, which no thread ever signals (the cooks broadcast \<open>orderFull\<close>), so that no
  schedule without a spurious wake-up ever brings it further.
\<close>

theorem shop_main_hangs:
  fixes locs :: "(int \<times> int) list"
  assumes "shop_queues malloc = Some (oq, vq, pq)" "malloc_ok malloc" "200 < length locs"
  shows "\<exists>es. list_all calm es \<and> (\<forall>fs. Wakeup OrderEmpty \<notin> set fs \<longrightarrow>
    (\<exists>rest. main_thread (sched_run shop_step (es @ fs) (shop_start c d oq vq pq)) = G_PutWait rest))"
proof -
  have oq: "pq_inv oq \<and> pq_items oq = [] \<and> pq_room oq = 200"
  proof -
    have "createQueue True malloc 200 = Inr (Some oq)"
      using assms(1) by (auto simp: shop_queues_def split: sum.splits option.splits)
    moreover then obtain b where "malloc 200 = Some b" by (auto simp: createQueue_def split: option.splits)
    moreover from this have "int (length b) = 200"
      using assms(2) unfolding malloc_ok_def by (metis zero_less_numeral)
    ultimately show ?thesis using createQueue_inv [of malloc 200 b] by auto
  qed
  let ?s0 = "shop_start c d oq vq pq"
  define hello where "hello = Connect locs # replicate 5 (Step Main)"
  obtain s1 where s1: "sched_run shop_step hello ?s0 = s1" "main_thread s1 = G_Put (new_orders locs)"
      "connected s1" "orderQueue s1 = oq"
    by (simp add: shop_step_def accept_connection_def shop_start_def shop_main_def main_goto_def numeral_eq_Suc hello_def)
  have "length (new_orders locs) = length locs" by (simp add: new_orders_def)
  then obtain n rest where n: "main_thread (sched_run shop_step (replicate n (Step Main)) s1) = G_PutWait rest"
      "connected (sched_run shop_step (replicate n (Step Main)) s1)"
    using main_fills [of s1 "new_orders locs"] s1 oq assms(3) by auto
  let ?es = "hello @ replicate n (Step Main)"
  have "list_all calm ?es" by (simp add: calm_def list_all_iff hello_def)
  moreover have "main_thread (sched_run shop_step (?es @ fs) ?s0) = G_PutWait rest" if "Wakeup OrderEmpty \<notin> set fs" for fs
    using run_main_waits [OF n that] by (simp add: s1(1) sched_run_append)
  ultimately show ?thesis by blast
qed

theorem shop_main_hangs_witness:
  "\<exists>es. list_all calm es \<and> (\<forall>fs. Wakeup OrderEmpty \<notin> set fs \<longrightarrow>
    (\<exists>rest. main_thread (sched_run shop_step (es @ fs) (demo_shop 3 2)) = G_PutWait rest))"
  using shop_main_hangs [OF demo_queues, of "replicate 201 (1, 1)" 3 2] by (simp add: demo_shop_def)

section \<open>The best courier\<close>

lemma best_loop_max:
  "best_loop k index largest ms = (x, n) \<Longrightarrow> largest \<le> n \<and> (\<forall>m\<in>set ms. received m \<le> n)
     \<and> ((n = largest \<and> x = index) \<or> (largest < n \<and>
          (\<exists>i<length ms. x = Some (k + i + 1) \<and> received (ms ! i) = n \<and> (\<forall>j<i. received (ms ! j) < n))))"
proof (induction ms arbitrary: k index largest)
  case (Cons m ms)
  show ?case
  proof (cases "largest < received m")
    case True
    then have "best_loop (k + 1) (Some (k + 1)) (received m) ms = (x, n)" using Cons.prems by simp
    note ih = Cons.IH [OF this]
    then have n: "largest < n" "\<forall>m'\<in>set (m # ms). received m' \<le> n" using True by auto
    from ih consider "n = received m" "x = Some (k + 1)"
      | i where "i < length ms" "x = Some (k + 1 + i + 1)" "received (ms ! i) = n" "\<forall>j<i. received (ms ! j) < n" "received m < n"
      by blast
    then have "\<exists>i<length (m # ms). x = Some (k + i + 1) \<and> received ((m # ms) ! i) = n
        \<and> (\<forall>j<i. received ((m # ms) ! j) < n)"
    proof cases
      case 1
      then show ?thesis by (intro exI [of _ 0]) simp
    next
      case 2
      then show ?thesis by (intro exI [of _ "Suc i"]) (auto simp: less_Suc_eq_0_disj)
    qed
    then show ?thesis using n by simp
  next
    case False
    then have "best_loop (k + 1) index largest ms = (x, n)" using Cons.prems by simp
    note ih = Cons.IH [OF this]
    show ?thesis
    proof (cases "n = largest")
      case True
      then show ?thesis using ih False by auto
    next
      case neq: False
      then obtain i where i: "i < length ms" "x = Some (k + 1 + i + 1)" "received (ms ! i) = n"
          "\<forall>j<i. received (ms ! j) < n" "largest < n" using ih by blast
      have "\<forall>j<Suc i. received ((m # ms) ! j) < n"
      proof (intro allI impI)
        fix j assume "j < Suc i"
        then show "received ((m # ms) ! j) < n" using i(4,5) False by (cases j) auto
      qed
      then have "\<exists>i<length (m # ms). x = Some (k + i + 1) \<and> received ((m # ms) ! i) = n
          \<and> (\<forall>j<i. received ((m # ms) ! j) < n)"
        using i(1-3) by (intro exI [of _ "Suc i"]) simp
      then show ?thesis using ih i(5) False by auto
    qed
  qed
qed simp

text \<open>
  The announced courier is right: when the client confirms the delivery, the shop
  announces the largest number of pides any courier has taken and the first courier with
  that number; only when no courier has taken any is the number of the courier unset (an
  uninitialised variable in the code). All counters are reset.
\<close>

theorem shop_best_courier:
  assumes "shop_step (Message DELIVERED) s = Some s'" "\<forall>m\<in>set (motos s). 0 \<le> received m"
  shows "\<exists>x n. best s' = best s @ [(x, n)] \<and> (\<forall>m\<in>set (motos s). received m \<le> n)
    \<and> (if n = 0 then x = None
       else \<exists>i<length (motos s). x = Some (i + 1) \<and> received (motos s ! i) = n \<and> (\<forall>j<i. received (motos s ! j) < n))
    \<and> (\<forall>m\<in>set (motos s'). received m = 0)"
proof -
  obtain x n where xn: "best_loop 0 None 0 (motos s) = (x, n)" by fastforce
  have "best s' = best s @ [(x, n)] \<and> (\<forall>m\<in>set (motos s'). received m = 0)"
    using assms(1) xn by (auto simp: shop_step_def client_message_def main_goto_def split: if_splits)
  then show ?thesis using best_loop_max [OF xn] by fastforce
qed

theorem shop_best_courier_witness:
  "\<exists>s'. shop_step (Message DELIVERED) ((demo_shop 1 3)\<lparr>main_thread := G_Serve,
       motos := map (\<lambda>r. \<lparr>m_pc = M_Lock, received = r, bag = [], m_flag = False\<rparr>) [1, 4, 4]\<rparr>) = Some s'
     \<and> best s' = [(Some 2, 4)]"
proof -
  let ?ms = "map (\<lambda>r. \<lparr>m_pc = M_Lock, received = r, bag = [], m_flag = False\<rparr>) [1, 4, 4] :: courrier list"
  let ?s = "(demo_shop 1 3)\<lparr>main_thread := G_Serve, motos := ?ms\<rparr>"
  obtain s' where s': "shop_step (Message DELIVERED) ?s = Some s'"
    by (simp add: shop_step_def client_message_def)
  obtain x n where xn: "best s' = best ?s @ [(x, n)]" "\<forall>m\<in>set (motos ?s). received m \<le> n"
      "if n = 0 then x = None
       else \<exists>i<length (motos ?s). x = Some (i + 1) \<and> received (motos ?s ! i) = n \<and> (\<forall>j<i. received (motos ?s ! j) < n)"
    using shop_best_courier [OF s'] by auto
  then have "4 \<le> n" by simp
  then obtain i where "i < 3" "x = Some (i + 1)" "received (?ms ! i) = n" "\<forall>j<i. received (?ms ! j) < n"
    using xn(3) by auto
  moreover have "i = 0 \<or> i = 1 \<or> i = 2" using \<open>i < 3\<close> by auto
  ultimately have "x = Some 2 \<and> n = 4" using \<open>4 \<le> n\<close> by (auto simp: numeral_2_eq_2 All_less_Suc)
  then show ?thesis using s' xn(1) by (auto simp: demo_shop_def shop_start_def)
qed

end
