(* ===== verification/Terminal.thy ===== *)
theory Terminal
  imports CText
begin

text \<open>
  The terminal emulator of \<^verbatim>\<open>hw2/terminal_emulator.c\<close>: a line is split at the bars, a pipe is
  made between neighbours, a child is forked per command, and the terminal waits.

  The descriptors of a process are a table; \<^verbatim>\<open>pipe\<close> takes the lowest free numbers, \<^verbatim>\<open>fork\<close>
  copies the table, \<^verbatim>\<open>dup2\<close> and \<^verbatim>\<open>close\<close> change it. A step machine follows \<^verbatim>\<open>main\<close> from line
  to line: the events are what \<^verbatim>\<open>read\<close> returns, the steps of the terminal, failing system
  calls (an interrupt makes \<^verbatim>\<open>read\<close> and \<^verbatim>\<open>wait\<close> fail), children that end, and children that \<^verbatim>\<open>wait\<close> returns. The child is taken from
  \<^verbatim>\<open>fork\<close> to its \<^verbatim>\<open>execl\<close> in one step, since it only changes its own table. The history
  variables of a child are its place, the length of its pipeline and its first pipe; \<open>typed\<close>
  records the number of commands of every line.
\<close>

section \<open>The tokens\<close>

definition MAX_TOKENS :: nat where "MAX_TOKENS = 10"
definition MAX_TOKEN_LENGTH :: nat where "MAX_TOKEN_LENGTH = 20"
definition LINE_SIZE :: nat where "LINE_SIZE = 1024"

text \<open>
  The two-dimensional array is one block of memory: a long token runs into the rows behind
  its own, and past the end of the block it is a fault.
\<close>

definition tok_store :: "nat \<Rightarrow> string \<Rightarrow> string \<Rightarrow> string cres" where
  "tok_store k w mem =
     (if MAX_TOKENS * MAX_TOKEN_LENGTH < MAX_TOKEN_LENGTH * k + length w + 1 then Inl OutOfBounds
      else Inr (take (MAX_TOKEN_LENGTH * k) mem @ w @ [CHR 0x00]
                  @ drop (MAX_TOKEN_LENGTH * k + length w + 1) mem))"

fun tokenize_loop :: "nat \<Rightarrow> string list \<Rightarrow> string \<Rightarrow> (string \<times> nat) cres" where
  "tokenize_loop token_count [] mem = Inr (mem, token_count)"
| "tokenize_loop token_count (w # ws) mem =
     cbind (tok_store token_count w mem) (tokenize_loop (token_count + 1) ws)"

definition tokenize_command :: "string \<Rightarrow> string \<Rightarrow> (string \<times> nat) cres" where
  "tokenize_command command mem = tokenize_loop 0 (tokens (CHR ''|'') command) mem"

definition token_at :: "string \<Rightarrow> nat \<Rightarrow> string" where
  "token_at mem i = c_string (drop (MAX_TOKEN_LENGTH * i) mem)"

definition no_tokens :: string where
  "no_tokens = replicate (MAX_TOKENS * MAX_TOKEN_LENGTH) (CHR 0x00)"

section \<open>Descriptors\<close>

datatype desc = Tty | ReadEnd nat | WriteEnd nat

type_synonym fd_table = "desc option list"

definition fd_at :: "fd_table \<Rightarrow> nat \<Rightarrow> desc option" where
  "fd_at t fd = (if fd < length t then t ! fd else None)"

definition fd_set :: "nat \<Rightarrow> desc option \<Rightarrow> fd_table \<Rightarrow> fd_table" where
  "fd_set fd d t = (if fd < length t then t[fd := d] else t @ replicate (fd - length t) None @ [d])"

fun lowest_free :: "fd_table \<Rightarrow> nat" where
  "lowest_free [] = 0"
| "lowest_free (None # t) = 0"
| "lowest_free (Some d # t) = Suc (lowest_free t)"

definition sys_pipe :: "nat \<Rightarrow> fd_table \<Rightarrow> (nat \<times> nat) \<times> fd_table" where
  "sys_pipe k t =
     (let r = lowest_free t; t = fd_set r (Some (ReadEnd k)) t;
          w = lowest_free t; t = fd_set w (Some (WriteEnd k)) t in ((r, w), t))"

definition sys_close :: "nat \<Rightarrow> fd_table \<Rightarrow> int \<times> fd_table" where
  "sys_close fd t = (if fd_at t fd = None then (-1, t) else (0, fd_set fd None t))"

definition sys_dup2 :: "nat \<Rightarrow> nat \<Rightarrow> fd_table \<Rightarrow> int \<times> fd_table" where
  "sys_dup2 old new t = (if fd_at t old = None then (-1, t) else (int new, fd_set new (fd_at t old) t))"

section \<open>The child between fork and exec\<close>

text \<open>The table and the messages of \<^verbatim>\<open>perror\<close>; \<open>bad\<close> is the test of the result.\<close>

type_synonym fd_state = "fd_table \<times> string list"

definition checked :: "(int \<Rightarrow> bool) \<Rightarrow> string \<Rightarrow> (fd_table \<Rightarrow> int \<times> fd_table) \<Rightarrow> fd_state \<Rightarrow> fd_state" where
  "checked bad msg call st =
     (case call (fst st) of (r, t) \<Rightarrow> (t, if bad r then snd st @ [msg] else snd st))"

definition close_fd :: "nat \<Rightarrow> fd_state \<Rightarrow> fd_state" where
  "close_fd fd = checked (\<lambda>r. r = -1) ''close'' (sys_close fd)"

definition close_pipes :: "(nat \<times> nat) list \<Rightarrow> nat list \<Rightarrow> fd_state \<Rightarrow> fd_state" where
  "close_pipes pfd ks st = fold (\<lambda>k st. close_fd (snd (pfd ! k)) (close_fd (fst (pfd ! k)) st)) ks st"

definition first_child :: "(nat \<times> nat) list \<Rightarrow> nat \<Rightarrow> fd_state \<Rightarrow> fd_state" where
  "first_child pfd pipe_num st =
     (let st = close_fd (fst (pfd ! 0)) st;
          st = checked (\<lambda>r. r = -1) ''dup2'' (sys_dup2 (snd (pfd ! 0)) 1) st;
          st = close_fd (snd (pfd ! 0)) st
      in close_pipes pfd [1..<pipe_num] st)"

text \<open>
  \<^verbatim>\<open>close(pfd[i-1][1] == -1)\<close> compares inside the parentheses: it closes descriptor 0. The
  result of \<^verbatim>\<open>dup2\<close> is reported whenever it is not 0.
\<close>

definition last_child :: "(nat \<times> nat) list \<Rightarrow> nat \<Rightarrow> fd_state \<Rightarrow> fd_state" where
  "last_child pfd i st =
     (let st = checked (\<lambda>r. r \<noteq> 0) ''close'' (sys_close 0) st;
          st = checked (\<lambda>r. r \<noteq> 0) ''dup2'' (sys_dup2 (fst (pfd ! (i - 1))) 0) st;
          st = close_fd (fst (pfd ! (i - 1))) st
      in close_pipes pfd [0..<i - 1] st)"

definition middle_child :: "(nat \<times> nat) list \<Rightarrow> nat \<Rightarrow> nat \<Rightarrow> fd_state \<Rightarrow> fd_state" where
  "middle_child pfd pipe_num i st =
     (let st = close_pipes pfd [0..<i - 1] st;
          st = close_fd (snd (pfd ! (i - 1))) st;
          st = close_fd (fst (pfd ! i)) st;
          st = checked (\<lambda>r. r \<noteq> 0) ''dup2'' (sys_dup2 (fst (pfd ! (i - 1))) 0) st;
          st = checked (\<lambda>r. r \<noteq> 0) ''dup2'' (sys_dup2 (snd (pfd ! i)) 1) st;
          st = close_fd (fst (pfd ! (i - 1))) st;
          st = close_fd (snd (pfd ! i)) st
      in close_pipes pfd [i + 1..<pipe_num] st)"

definition child_fds :: "(nat \<times> nat) list \<Rightarrow> nat \<Rightarrow> nat \<Rightarrow> fd_state \<Rightarrow> fd_state" where
  "child_fds pfd command_num i st =
     (if command_num = 1 then st
      else if i = 0 then first_child pfd (command_num - 1) st
      else if i = command_num - 1 then last_child pfd i st
      else middle_child pfd (command_num - 1) i st)"

section \<open>The terminal\<close>

datatype child_state = Running | Zombie | Reaped

record child =
  c_command :: string
  c_fds :: fd_table
  c_state :: child_state
  c_index :: nat
  c_count :: nat
  c_base :: nat

datatype term_pc = S_Read | S_Pipe nat | S_Fork nat | S_Close nat | S_Wait nat nat
  | S_Exit int | S_Fault cfault

record terminal =
  t_pc :: term_pc
  t_fds :: fd_table
  pfd :: "(nat \<times> nat) list"
  token_mem :: string
  command_num :: nat
  next_pipe :: nat
  line_base :: nat
  children :: "child list"
  perrors :: "string list"
  typed :: "nat list"

datatype term_event = Typed string | ReadFails | Go | CallFails | Ends nat | Waited nat

definition term_start :: terminal where
  "term_start = \<lparr>t_pc = S_Read, t_fds = [Some Tty, Some Tty, Some Tty], pfd = [], token_mem = no_tokens,
     command_num = 0, next_pipe = 0, line_base = 0, children = [], perrors = [], typed = []\<rparr>"

text \<open>\<^verbatim>\<open>buff[num_of_bytes_read] = 0\<close> needs a free byte behind the line.\<close>

definition read_line :: "string \<Rightarrow> terminal \<Rightarrow> terminal" where
  "read_line bytes s =
     (if LINE_SIZE \<le> length bytes then s\<lparr>t_pc := S_Fault OutOfBounds\<rparr>
      else if c_strncmp0 (c_string bytes) '':q'' 2 then s\<lparr>t_pc := S_Exit 0\<rparr>
      else (case tokenize_command (c_string bytes) (token_mem s) of
          Inl e \<Rightarrow> s\<lparr>t_pc := S_Fault e\<rparr>
        | Inr (mem, n) \<Rightarrow> s\<lparr>t_pc := S_Pipe 0, token_mem := mem, command_num := n, pfd := [],
              line_base := next_pipe s, typed := typed s @ [n]\<rparr>))"

definition make_pipe :: "nat \<Rightarrow> terminal \<Rightarrow> terminal" where
  "make_pipe i s =
     (if i + 1 < command_num s
      then (case sys_pipe (next_pipe s) (t_fds s) of (rw, t) \<Rightarrow>
          s\<lparr>t_pc := S_Pipe (i + 1), pfd := pfd s @ [rw], t_fds := t, next_pipe := next_pipe s + 1\<rparr>)
      else s\<lparr>t_pc := S_Fork 0\<rparr>)"

definition fork_child :: "nat \<Rightarrow> terminal \<Rightarrow> terminal" where
  "fork_child i s =
     (if i < command_num s
      then (case child_fds (pfd s) (command_num s) i (t_fds s, []) of (t, msgs) \<Rightarrow>
          s\<lparr>t_pc := S_Close i, perrors := perrors s @ msgs,
            children := children s @ [\<lparr>c_command = token_at (token_mem s) i, c_fds = t, c_state = Running,
              c_index = i, c_count = command_num s, c_base = line_base s\<rparr>]\<rparr>)
      else s\<lparr>t_pc := S_Read, token_mem := no_tokens\<rparr>)"

definition close_used :: "nat \<Rightarrow> terminal \<Rightarrow> terminal" where
  "close_used i s = (case close_pipes (pfd s) [0..<i] (t_fds s, perrors s) of (t, msgs) \<Rightarrow>
     s\<lparr>t_pc := S_Wait i 0, t_fds := t, perrors := msgs\<rparr>)"

definition unreaped :: "terminal \<Rightarrow> nat" where
  "unreaped s = length (filter (\<lambda>c. c_state c \<noteq> Reaped) (children s))"

text \<open>\<^verbatim>\<open>wait\<close> fails when there is no child left, and blocks while none has ended.\<close>

definition wait_child :: "nat \<Rightarrow> nat \<Rightarrow> terminal \<Rightarrow> terminal option" where
  "wait_child i j s =
     (if i \<le> j then Some (s\<lparr>t_pc := S_Fork (i + 1)\<rparr>)
      else if unreaped s = 0 then Some (s\<lparr>t_pc := S_Wait i (j + 1), perrors := perrors s @ [''wait'']\<rparr>)
      else None)"

definition set_child :: "nat \<Rightarrow> child_state \<Rightarrow> terminal \<Rightarrow> terminal" where
  "set_child k st s = s\<lparr>children := (children s)[k := (children s ! k)\<lparr>c_state := st\<rparr>]\<rparr>"

definition term_step :: "term_event \<Rightarrow> terminal \<Rightarrow> terminal option" where
  "term_step ev s = (case ev of
       Typed bytes \<Rightarrow> if t_pc s = S_Read \<and> length bytes \<le> LINE_SIZE then Some (read_line bytes s) else None
     | ReadFails \<Rightarrow> if t_pc s = S_Read then Some (s\<lparr>t_pc := S_Fault OutOfBounds\<rparr>) else None
     | Go \<Rightarrow> (case t_pc s of
           S_Pipe i \<Rightarrow> Some (make_pipe i s)
         | S_Fork i \<Rightarrow> Some (fork_child i s)
         | S_Close i \<Rightarrow> Some (close_used i s)
         | S_Wait i j \<Rightarrow> wait_child i j s
         | _ \<Rightarrow> None)
     | CallFails \<Rightarrow> (case t_pc s of
           S_Pipe i \<Rightarrow> if i + 1 < command_num s then Some (s\<lparr>t_pc := S_Exit 1\<rparr>) else None
         | S_Fork i \<Rightarrow> if i < command_num s then Some (s\<lparr>t_pc := S_Exit (-1)\<rparr>) else None
         | S_Wait i j \<Rightarrow> if j < i
             then Some (s\<lparr>t_pc := S_Wait i (j + 1), perrors := perrors s @ [''wait'']\<rparr>) else None
         | _ \<Rightarrow> None)
     | Ends k \<Rightarrow> if k < length (children s) \<and> c_state (children s ! k) = Running
         then Some (set_child k Zombie s) else None
     | Waited k \<Rightarrow> (case t_pc s of
           S_Wait i j \<Rightarrow> if j < i \<and> k < length (children s) \<and> c_state (children s ! k) = Zombie
             then Some ((set_child k Reaped s)\<lparr>t_pc := S_Wait i (j + 1)\<rparr>) else None
         | _ \<Rightarrow> None))"

end
