(* ===== verification/TermProps.thy ===== *)
theory TermProps
  imports Terminal
begin

text \<open>
  Properties of the terminal: what the rows of the token array contain, how the pipes are
  wired in every schedule, which commands ever see the end of their input, and how many
  children stay unreaped at the prompt.
\<close>

section \<open>Tokens\<close>

text \<open>What a command is after the whole line has been stored in rows of 20 bytes.\<close>

fun row_command :: "string list \<Rightarrow> string" where
  "row_command [] = []"
| "row_command [w] = w"
| "row_command (w # v # ws) = (if length w < 20 then w else take 20 w @ row_command (v # ws))"

lemma c_string_word: "c_text w \<Longrightarrow> c_string (w @ CHR 0x00 # r) = w"
  unfolding c_string_def c_text_def by (subst takeWhile_append2) auto

lemma c_string_prefix: "c_text w \<Longrightarrow> c_string (w @ r) = w @ c_string r"
  unfolding c_string_def c_text_def by (subst takeWhile_append2) auto

lemma c_text_take: "c_text w \<Longrightarrow> c_text (take n w)"
  by (auto simp: c_text_def dest: in_set_takeD)

lemma tok_store_Inr:
  assumes "tok_store k w mem = Inr mem'" "length mem = 200"
  shows "length mem' = 200" "take (20 * k) mem' = take (20 * k) mem"
    "\<exists>r. drop (20 * k) mem' = w @ CHR 0x00 # r"
  using assms by (auto simp: tok_store_def MAX_TOKENS_def MAX_TOKEN_LENGTH_def split: if_splits)

lemma row_split:
  assumes "take (20 * Suc k) mem' = take (20 * Suc k) mem" "drop (20 * k) mem = w @ CHR 0x00 # r"
  shows "drop (20 * k) mem' = take 20 (w @ CHR 0x00 # r) @ drop (20 * Suc k) mem'"
proof -
  have "take 20 (drop (20 * k) mem') = take 20 (drop (20 * k) mem)"
    using assms(1) by (simp add: take_drop)
  moreover have "drop (20 * k) mem' = take 20 (drop (20 * k) mem') @ drop (20 * Suc k) mem'"
    by (metis append_take_drop_id add.commute drop_drop mult_Suc_right)
  ultimately show ?thesis using assms(2) by simp
qed

lemma c_string_row:
  assumes "c_text w"
  shows "c_string (take 20 (w @ CHR 0x00 # r) @ rest) = (if length w < 20 then w else take 20 w @ c_string rest)"
proof (cases "length w < 20")
  case True
  then obtain n where "20 - length w = Suc n" by (metis Suc_diff_Suc)
  then show ?thesis using True c_string_word [OF assms] by simp
next
  case False
  then show ?thesis using c_string_prefix [OF c_text_take [OF assms]] by simp
qed

lemma tokenize_loop_rows:
  "tokenize_loop k ws mem = Inr (mem', n) \<Longrightarrow> length mem = 200 \<Longrightarrow> \<forall>w\<in>set ws. c_text w \<Longrightarrow>
   n = k + length ws \<and> take (20 * k) mem' = take (20 * k) mem \<and> length mem' = 200
   \<and> (\<forall>i<length ws. c_string (drop (20 * (k + i)) mem') = row_command (drop i ws))"
proof (induction ws arbitrary: k mem)
  case (Cons w ws)
  obtain m1 where m1: "tok_store k w mem = Inr m1" "tokenize_loop (Suc k) ws m1 = Inr (mem', n)"
    using Cons.prems(1) by auto
  note st = tok_store_Inr [OF m1(1) Cons.prems(2)]
  obtain r where r: "drop (20 * k) m1 = w @ CHR 0x00 # r" using st(3) by blast
  have ih: "n = Suc k + length ws" "take (20 * Suc k) mem' = take (20 * Suc k) m1" "length mem' = 200"
      "\<forall>i<length ws. c_string (drop (20 * (Suc k + i)) mem') = row_command (drop i ws)"
    using Cons.IH [OF m1(2) st(1)] Cons.prems(3) by auto
  have "take (20 * k) mem' = take (20 * k) (take (20 * Suc k) mem')" by (simp add: min_def)
  also have "\<dots> = take (20 * k) mem" using ih(2) st(2) by (simp add: min_def)
  finally have tk: "take (20 * k) mem' = take (20 * k) mem" .
  have row: "c_string (drop (20 * k) mem') = row_command (w # ws)"
  proof (cases ws)
    case Nil
    then have "mem' = m1" using m1(2) by simp
    then show ?thesis using r Nil c_string_word Cons.prems(3) by simp
  next
    case (Cons v vs)
    have "c_string (drop (20 * Suc k) mem') = row_command ws" using ih(4) Cons by auto
    moreover have "c_text w" using Cons.prems(3) by simp
    ultimately show ?thesis
      using row_split [OF ih(2) r] c_string_row [of w r "drop (20 * Suc k) mem'"] Cons by simp
  qed
  have "c_string (drop (20 * (k + i)) mem') = row_command (drop i (w # ws))" if "i < length (w # ws)" for i
    using row ih(4) that by (cases i) auto
  then show ?case using ih tk by auto
qed simp

lemma tokens_text: "c_text s \<Longrightarrow> w \<in> set (tokens d s) \<Longrightarrow> c_text w"
proof -
  have "set w \<subseteq> set s" if "w \<in> set (split_on d s)" for w
    using that by (induction s arbitrary: w) (fastforce split: if_splits list.splits)+
  then show "c_text s \<Longrightarrow> w \<in> set (tokens d s) \<Longrightarrow> c_text w" by (auto simp: tokens_def c_text_def)
qed

text \<open>
  C30. The commands of a line, exactly: when the line has been split without leaving the
  array, command \<open>i\<close> is the \<open>i\<close>-th part of the line if that has less than 20 characters or
  is the last one, and otherwise its first 20 characters followed by the next command: a
  long command swallows the commands behind it.
\<close>

theorem terminal_commands:
  assumes "tokenize_command line no_tokens = Inr (mem, n)" "c_text line"
  shows "n = length (tokens (CHR ''|'') line)
    \<and> (\<forall>i<n. token_at mem i = row_command (drop i (tokens (CHR ''|'') line)))"
proof -
  have "\<forall>w\<in>set (tokens (CHR ''|'') line). c_text w" using tokens_text [OF assms(2)] by blast
  moreover have "length no_tokens = 200" by (simp add: no_tokens_def MAX_TOKENS_def MAX_TOKEN_LENGTH_def)
  ultimately show ?thesis
    using tokenize_loop_rows [of 0 "tokens (CHR ''|'') line" no_tokens mem n] assms(1)
    by (simp add: tokenize_command_def token_at_def MAX_TOKEN_LENGTH_def)
qed

theorem terminal_commands_witness:
  "\<exists>mem. tokenize_command ''ls -l /usr/local/share|wc'' no_tokens = Inr (mem, 2)
     \<and> token_at mem 0 = ''ls -l /usr/local/shawc'' \<and> token_at mem 1 = ''wc''"
proof -
  have t: "tokens (CHR ''|'') ''ls -l /usr/local/share|wc'' = [''ls -l /usr/local/share'', ''wc'']"
    by (simp add: tokens_def)
  obtain mem where m: "tokenize_command ''ls -l /usr/local/share|wc'' no_tokens = Inr (mem, 2)"
    by (simp add: tokenize_command_def t tok_store_def MAX_TOKENS_def MAX_TOKEN_LENGTH_def no_tokens_def)
  show ?thesis
    using terminal_commands [OF m] m by (simp add: t c_text_def numeral_2_eq_2 All_less_Suc)
qed

section \<open>Descriptor tables\<close>

lemma fd_at_set [simp]: "fd_at (fd_set fd d t) x = (if x = fd then d else fd_at t x)"
  by (auto simp: fd_at_def fd_set_def nth_append nth_Cons')

lemma fd_at_lowest [simp]: "fd_at t (lowest_free t) = None"
  by (induction t rule: lowest_free.induct) (simp_all add: fd_at_def split: if_splits)

lemma close_fd_at [simp]: "fd_at (fst (close_fd fd st)) x = (if x = fd then None else fd_at (fst st) x)"
  by (auto simp: close_fd_def checked_def sys_close_def split: prod.splits if_splits)

lemma close_0_at [simp]:
  "fd_at (fst (checked bad msg (sys_close 0) st)) x = (if x = 0 then None else fd_at (fst st) x)"
  by (auto simp: checked_def sys_close_def split: prod.splits if_splits)

lemma dup2_at [simp]:
  "fd_at (fst st) old \<noteq> None \<Longrightarrow>
   fd_at (fst (checked bad msg (sys_dup2 old new) st)) x = (if x = new then fd_at (fst st) old else fd_at (fst st) x)"
  by (auto simp: checked_def sys_dup2_def)

lemma close_pipes_at [simp]:
  "fd_at (fst (close_pipes p ks st)) x =
     (if \<exists>k\<in>set ks. x = fst (p ! k) \<or> x = snd (p ! k) then None else fd_at (fst st) x)"
  by (induction ks arbitrary: st) (auto simp: close_pipes_def)

text \<open>The numbers in \<open>pfd\<close> are distinct and behind the standard descriptors.\<close>

definition pfd_ok :: "(nat \<times> nat) list \<Rightarrow> bool" where
  "pfd_ok p \<longleftrightarrow> (\<forall>j<length p. 3 \<le> fst (p ! j) \<and> 3 \<le> snd (p ! j)
     \<and> (\<forall>k<length p. fst (p ! j) \<noteq> snd (p ! k)
          \<and> (fst (p ! j) = fst (p ! k) \<longrightarrow> j = k) \<and> (snd (p ! j) = snd (p ! k) \<longrightarrow> j = k)))"

text \<open>The table has the terminal and the pipes from \<open>lo\<close> on, and nothing else.\<close>

definition holds :: "(nat \<times> nat) list \<Rightarrow> nat \<Rightarrow> nat \<Rightarrow> fd_table \<Rightarrow> bool" where
  "holds p lo b t \<longleftrightarrow> (\<forall>x<3. fd_at t x = Some Tty)
     \<and> (\<forall>j<length p. lo \<le> j \<longrightarrow> fd_at t (fst (p ! j)) = Some (ReadEnd (b + j))
                              \<and> fd_at t (snd (p ! j)) = Some (WriteEnd (b + j)))
     \<and> (\<forall>x. 3 \<le> x \<longrightarrow> fd_at t x \<noteq> None \<longrightarrow> (\<exists>j<length p. lo \<le> j \<and> (x = fst (p ! j) \<or> x = snd (p ! j))))"

lemma pfd_okD:
  assumes "pfd_ok p" "j < length p"
  shows "3 \<le> fst (p ! j)" "3 \<le> snd (p ! j)"
    "k < length p \<Longrightarrow> fst (p ! j) \<noteq> snd (p ! k)" "k < length p \<Longrightarrow> snd (p ! k) \<noteq> fst (p ! j)"
    "k < length p \<Longrightarrow> fst (p ! j) = fst (p ! k) \<longleftrightarrow> j = k"
    "k < length p \<Longrightarrow> snd (p ! j) = snd (p ! k) \<longleftrightarrow> j = k"
  using assms unfolding pfd_ok_def by metis+

lemma holds_start: "holds [] lo b [Some Tty, Some Tty, Some Tty]"
  by (auto simp: holds_def fd_at_def less_Suc_eq numeral_3_eq_3)

lemma holds_clean: "length p \<le> lo \<Longrightarrow> holds p lo b t \<Longrightarrow> holds [] lo' b' t"
  by (fastforce simp: holds_def)

lemma holds_pipe:
  assumes "holds p 0 b t" "pfd_ok p" "sys_pipe (b + length p) t = (rw, t')"
  shows "holds (p @ [rw]) 0 b t' \<and> pfd_ok (p @ [rw])"
proof -
  define r where "r = lowest_free t"
  define t1 where "t1 = fd_set r (Some (ReadEnd (b + length p))) t"
  define w where "w = lowest_free t1"
  have rw: "rw = (r, w)" "t' = fd_set w (Some (WriteEnd (b + length p))) t1"
    using assms(3) by (simp_all add: sys_pipe_def Let_def r_def t1_def w_def)
  have free: "fd_at t r = None" "fd_at t1 w = None" by (simp_all add: r_def w_def)
  then have "fd_at t w = None" "w \<noteq> r" unfolding t1_def by (auto split: if_splits)
  have low: "3 \<le> r" "3 \<le> w"
    using assms(1) free(1) \<open>fd_at t w = None\<close> by (force simp: holds_def not_le [symmetric])+
  have old: "fst (p ! j) \<noteq> r" "fst (p ! j) \<noteq> w" "snd (p ! j) \<noteq> r" "snd (p ! j) \<noteq> w" if "j < length p" for j
    using assms(1) free(1) \<open>fd_at t w = None\<close> that by (force simp: holds_def)+
  have "pfd_ok (p @ [rw])"
    using assms(2) low old old [symmetric] \<open>w \<noteq> r\<close> unfolding pfd_ok_def rw(1)
    by (auto simp: nth_append less_Suc_eq)
  moreover have "holds (p @ [rw]) 0 b t'"
    using assms(1) low old old [symmetric] \<open>w \<noteq> r\<close> unfolding holds_def rw t1_def
    by (auto simp: nth_append less_Suc_eq)
  ultimately show ?thesis by simp
qed

lemma holds_close:
  assumes h: "holds p (i - 1) b t" and ok: "pfd_ok p" and "i \<le> length p"
  shows "holds p i b (fst (close_pipes p [0..<i] (t, m)))"
proof -
  let ?t = "fst (close_pipes p [0..<i] (t, m))"
  have keep: "fst (p ! j) \<noteq> fst (p ! k) \<and> fst (p ! j) \<noteq> snd (p ! k)"
      "snd (p ! j) \<noteq> fst (p ! k) \<and> snd (p ! j) \<noteq> snd (p ! k)"
    if "i \<le> j" "j < length p" "k < i" for j k
    using pfd_okD(3-) [OF ok that(2), of k] pfd_okD(3-) [OF ok, of k j] that assms(3) by auto
  have low: "3 \<le> fst (p ! k)" "3 \<le> snd (p ! k)" if "k < i" for k
    using pfd_okD(1,2) [OF ok, of k] that assms(3) by auto
  show ?thesis unfolding holds_def
  proof (intro conjI allI impI)
    fix x :: nat assume "x < 3"
    then have "\<forall>k<i. x \<noteq> fst (p ! k) \<and> x \<noteq> snd (p ! k)" using low by (metis not_le)
    then show "fd_at ?t x = Some Tty" using h \<open>x < 3\<close> by (simp add: holds_def)
  next
    fix j assume j: "j < length p" "i \<le> j"
    show "fd_at ?t (fst (p ! j)) = Some (ReadEnd (b + j))" "fd_at ?t (snd (p ! j)) = Some (WriteEnd (b + j))"
      using h j keep [OF j(2,1)] by (simp_all add: holds_def)
  next
    fix x :: nat assume x: "3 \<le> x" "fd_at ?t x \<noteq> None"
    then have "fd_at t x \<noteq> None" and no: "\<forall>k<i. x \<noteq> fst (p ! k) \<and> x \<noteq> snd (p ! k)" by (auto split: if_splits)
    then obtain j where "j < length p" "x = fst (p ! j) \<or> x = snd (p ! j)" using h x(1) by (auto simp: holds_def)
    then show "\<exists>j<length p. i \<le> j \<and> (x = fst (p ! j) \<or> x = snd (p ! j))" using no by (metis not_le)
  qed
qed

section \<open>Wiring\<close>

text \<open>
  What the command at place \<open>i\<close> of a pipeline of \<open>n\<close> whose first pipe is \<open>b\<close> starts with:
  its input, its output, and everything else that is open.
\<close>

definition wired :: "nat \<Rightarrow> nat \<Rightarrow> nat \<Rightarrow> fd_table \<Rightarrow> bool" where
  "wired n i b t \<longleftrightarrow>
     fd_at t 0 = Some (if i = 0 then Tty else ReadEnd (b + i - 1))
   \<and> fd_at t 1 = Some (if i + 1 = n then Tty else WriteEnd (b + i))
   \<and> fd_at t 2 = Some Tty
   \<and> (if 2 \<le> n \<and> i + 1 = n then \<exists>x\<ge>3. fd_at t x = Some (WriteEnd (b + i - 1)) \<and> (\<forall>y\<ge>3. y \<noteq> x \<longrightarrow> fd_at t y = None)
      else \<forall>y\<ge>3. fd_at t y = None)"

lemma child_wired:
  assumes h: "holds p (i - 1) b t" and ok: "pfd_ok p" and n: "length p = n - 1" "i < n"
  shows "wired n i b (fst (child_fds p n i (t, [])))"
proof -
  have std: "fd_at t 0 = Some Tty" "fd_at t 1 = Some Tty" "fd_at t 2 = Some Tty"
    using h by (simp_all add: holds_def)
  have pipe: "fd_at t (fst (p ! j)) = Some (ReadEnd (b + j))" "fd_at t (snd (p ! j)) = Some (WriteEnd (b + j))"
    if "j < n - 1" "i - 1 \<le> j" for j
    using h that n(1) by (auto simp: holds_def)
  have other: "\<exists>j<n - 1. i - 1 \<le> j \<and> (x = fst (p ! j) \<or> x = snd (p ! j))" if "3 \<le> x" "fd_at t x = Some d" for x d
    using h that n(1) unfolding holds_def by (metis option.distinct(1))
  have num: "3 \<le> fst (p ! j)" "3 \<le> snd (p ! j)" if "j < n - 1" for j
    using pfd_okD(1,2) [OF ok, of j] that n(1) by auto
  then have small: "fst (p ! j) \<noteq> 0" "fst (p ! j) \<noteq> 1" "fst (p ! j) \<noteq> 2"
     "snd (p ! j) \<noteq> 0" "snd (p ! j) \<noteq> 1" "snd (p ! j) \<noteq> 2"
     "fst (p ! j) \<noteq> Suc 0" "snd (p ! j) \<noteq> Suc 0" if "j < n - 1" for j
    using that by fastforce+
  have dist: "fst (p ! j) \<noteq> snd (p ! k)" "snd (p ! j) \<noteq> fst (p ! k)" "fst (p ! j) = fst (p ! k) \<longleftrightarrow> j = k"
     "snd (p ! j) = snd (p ! k) \<longleftrightarrow> j = k" if "j < n - 1" "k < n - 1" for j k
    using pfd_okD(3-) [OF ok, of j k] pfd_okD(3-) [OF ok, of k j] that n(1) by auto
  then have free: "\<not> (\<exists>k<n - 1. x = fst (p ! k) \<or> x = snd (p ! k))" if "x < 3" for x
    using num that by (metis not_le)
  note small = small small [symmetric]
  consider "n = 1" | "2 \<le> n" "i = 0" | "2 \<le> n" "i = n - 1" "i \<noteq> 0" | "i \<noteq> 0" "i + 1 < n" using n(2) by linarith
  then show ?thesis
  proof cases
    case 1
    then show ?thesis using std n(2) other by (fastforce simp: wired_def child_fds_def)
  next
    case 2
    have split: "(\<exists>k<n - 1. Q k) \<longleftrightarrow> Q 0 \<or> (\<exists>k\<in>{1..<n - 1}. Q k)" for Q
    proof -
      have "{..<n - 1} = insert 0 {1..<n - 1}" using 2(1) by auto
      then show ?thesis by (metis insert_iff lessThan_iff)
    qed
    have run: "fd_at (fst (child_fds p n i (t, []))) x =
      (if \<exists>k\<in>{1..<n - 1}. x = fst (p ! k) \<or> x = snd (p ! k) then None else if x = snd (p ! 0) then None
       else if x = 1 then Some (WriteEnd b) else if x = fst (p ! 0) then None else fd_at t x)" for x
      using 2 pipe [of 0] dist(2) [of 0 0] by (simp add: child_fds_def first_child_def Let_def)
    have at: "fd_at (fst (child_fds p n i (t, []))) x =
      (if \<exists>k<n - 1. x = fst (p ! k) \<or> x = snd (p ! k) then None else if x = 1 then Some (WriteEnd b) else fd_at t x)" for x
      unfolding run split using small [of 0] 2(1) by (simp split del: if_split) (auto split: if_split)
    have "fd_at (fst (child_fds p n i (t, []))) y = None" if "3 \<le> y" for y
      using other [OF that] that 2(2) unfolding at by (cases "fd_at t y") auto
    then show ?thesis using 2 std free [of 0] free [of 1] free [of 2] unfolding wired_def at by simp
  next
    case 3
    have lt: "i - 1 < n - 1" and nz: "fst (p ! (i - 1)) \<noteq> 0" using 3 small(1) [of "i - 1"] by auto
    have run: "fd_at (fst (child_fds p n i (t, []))) x =
      (if \<exists>k\<in>{0..<i - 1}. x = fst (p ! k) \<or> x = snd (p ! k) then None else if x = fst (p ! (i - 1)) then None
       else if x = 0 then Some (ReadEnd (b + (i - 1))) else fd_at t x)" for x
      using 3 nz pipe [OF lt order_refl] unfolding child_fds_def last_child_def by simp
    have r: "fd_at (fst (child_fds p n i (t, []))) y = (if y = snd (p ! (i - 1)) then Some (WriteEnd (b + (i - 1))) else None)"
      if "3 \<le> y" for y
    proof (cases "y = snd (p ! (i - 1))")
      case True
      then have "\<not> (\<exists>k\<in>{0..<i - 1}. y = fst (p ! k) \<or> y = snd (p ! k))" "y \<noteq> fst (p ! (i - 1))"
        using dist [of "i - 1"] dist [of _ "i - 1"] 3 by auto
      then show ?thesis using True 3 that pipe [of "i - 1"] unfolding run by simp
    next
      case False
      have "j = i - 1" if "j < n - 1" "i - 1 \<le> j" for j using that 3(2) by linarith
      then show ?thesis using False other [OF that] that unfolding run by (cases "fd_at t y") auto
    qed
    have "\<exists>x\<ge>3. fd_at (fst (child_fds p n i (t, []))) x = Some (WriteEnd (b + (i - 1)))
        \<and> (\<forall>y\<ge>3. y \<noteq> x \<longrightarrow> fd_at (fst (child_fds p n i (t, []))) y = None)"
      using r num(2) [of "i - 1"] 3 by (intro exI [of _ "snd (p ! (i - 1))"]) simp
    moreover have "\<not> (\<exists>k\<in>{0..<i - 1}. x = fst (p ! k) \<or> x = snd (p ! k))" "x \<noteq> fst (p ! (i - 1))" if "x < 3" for x
      using free [OF that] 3 by auto
    then have "fd_at (fst (child_fds p n i (t, []))) 0 = Some (ReadEnd (b + (i - 1)))"
        "fd_at (fst (child_fds p n i (t, []))) 1 = Some Tty" "fd_at (fst (child_fds p n i (t, []))) 2 = Some Tty"
      using std unfolding run by simp_all
    ultimately show ?thesis using 3 by (simp add: wired_def)
  next
    case 4
    have run: "fd_at (fst (child_fds p n i (t, []))) x =
      (if \<exists>k\<in>{i + 1..<n - 1}. x = fst (p ! k) \<or> x = snd (p ! k) then None
       else if x = snd (p ! i) \<or> x = fst (p ! (i - 1)) then None
       else if x = 1 then Some (WriteEnd (b + i)) else if x = 0 then Some (ReadEnd (b + (i - 1)))
       else if x = fst (p ! i) \<or> x = snd (p ! (i - 1)) \<or> (\<exists>k\<in>{0..<i - 1}. x = fst (p ! k) \<or> x = snd (p ! k)) then None
       else fd_at t x)" for x
    proof -
      have lt: "i - 1 < n - 1" "i < n - 1" "i - 1 \<noteq> i" "n \<noteq> 1" "i \<noteq> 0" "i \<noteq> n - 1" using 4 by auto
      have "\<not> (\<exists>k\<in>{0..<i - 1}. y = fst (p ! k) \<or> y = snd (p ! k))"
        if "y = fst (p ! (i - 1)) \<or> y = snd (p ! i)" for y
      proof -
        have "fst (p ! (i - 1)) \<noteq> fst (p ! k) \<and> fst (p ! (i - 1)) \<noteq> snd (p ! k) \<and> snd (p ! i) \<noteq> fst (p ! k) \<and> snd (p ! i) \<noteq> snd (p ! k)"
          if "k < i - 1" for k
          using dist [OF lt(1), of k] dist [OF lt(2), of k] that 4 by auto
        then show ?thesis using that by fastforce
      qed
      note k = this
      define s3 where "s3 = close_fd (fst (p ! i)) (close_fd (snd (p ! (i - 1))) (close_pipes p [0..<i - 1] (t, [])))"
      define s4 where "s4 = checked (\<lambda>r. r \<noteq> 0) ''dup2'' (sys_dup2 (fst (p ! (i - 1))) 0) s3"
      have s3: "fd_at (fst s3) y = (if y = fst (p ! i) \<or> y = snd (p ! (i - 1)) \<or> (\<exists>k\<in>{0..<i - 1}. y = fst (p ! k) \<or> y = snd (p ! k))
          then None else fd_at t y)" for y by (simp add: s3_def)
      have r: "fd_at (fst s3) (fst (p ! (i - 1))) = Some (ReadEnd (b + (i - 1)))"
        using k [of "fst (p ! (i - 1))"] pipe [OF lt(1) order_refl] dist [OF lt(1,1)] dist [OF lt(1,2)] lt(3) by (simp add: s3)
      have s4: "fd_at (fst s4) y = (if y = 0 then Some (ReadEnd (b + (i - 1))) else fd_at (fst s3) y)" for y
        using r by (simp add: s4_def)
      have "fd_at (fst s3) (snd (p ! i)) = Some (WriteEnd (b + i))"
        using k [of "snd (p ! i)"] pipe [OF lt(2)] dist [OF lt(2,2)] dist [OF lt(1,2)] lt(3) by (simp add: s3)
      then have w: "fd_at (fst s4) (snd (p ! i)) = Some (WriteEnd (b + i))" using small [OF lt(2)] by (simp add: s4)
      have "child_fds p n i (t, []) = close_pipes p [i + 1..<n - 1] (close_fd (snd (p ! i)) (close_fd (fst (p ! (i - 1)))
          (checked (\<lambda>r. r \<noteq> 0) ''dup2'' (sys_dup2 (snd (p ! i)) 1) s4)))"
        using lt(4-) by (simp add: child_fds_def middle_child_def s3_def s4_def)
      then show ?thesis using w by (simp add: s4 s3)
    qed
    have "fd_at (fst (child_fds p n i (t, []))) y = None" if "3 \<le> y" for y
    proof -
      have "j = i - 1 \<or> j = i \<or> j \<in> {i + 1..<n - 1}" if "j < n - 1" "i - 1 \<le> j" for j using that by auto
      then show ?thesis using other [OF that] that unfolding run by (cases "fd_at t y") fastforce+
    qed
    moreover have "\<not> (\<exists>k\<in>{i + 1..<n - 1}. x = fst (p ! k) \<or> x = snd (p ! k))" "\<not> (\<exists>k\<in>{0..<i - 1}. x = fst (p ! k) \<or> x = snd (p ! k))"
        "x \<noteq> fst (p ! (i - 1))" "x \<noteq> snd (p ! (i - 1))" "x \<noteq> fst (p ! i)" "x \<noteq> snd (p ! i)" if "x < 3" for x
      using free [OF that] 4 by auto
    then have "fd_at (fst (child_fds p n i (t, []))) 0 = Some (ReadEnd (b + (i - 1)))"
        "fd_at (fst (child_fds p n i (t, []))) 1 = Some (WriteEnd (b + i))" "fd_at (fst (child_fds p n i (t, []))) 2 = Some Tty"
      using std unfolding run by simp_all
    ultimately show ?thesis using 4 by (simp add: wired_def)
  qed
qed

section \<open>The invariant of the terminal\<close>

definition child_ok :: "child \<Rightarrow> bool" where
  "child_ok c \<longleftrightarrow> c_index c < c_count c \<and> wired (c_count c) (c_index c) (c_base c) (c_fds c)"

text \<open>Children of different lines have different pipes.\<close>

definition same_line :: "child \<Rightarrow> child \<Rightarrow> bool" where
  "same_line c d \<longleftrightarrow> c_base c = c_base d \<and> c_count c = c_count d"

definition apart :: "child \<Rightarrow> child \<Rightarrow> bool" where
  "apart c d \<longleftrightarrow> c_base c + (c_count c - 1) \<le> c_base d \<or> c_base d + (c_count d - 1) \<le> c_base c"

definition kin_ok :: "terminal \<Rightarrow> bool" where
  "kin_ok s \<longleftrightarrow> (\<forall>c\<in>set (children s). \<forall>d\<in>set (children s). same_line c d \<or> apart c d)
     \<and> (\<forall>c\<in>set (children s). c_base c + (c_count c - 1) \<le> line_base s
          \<or> (c_base c = line_base s \<and> c_count c = command_num s))"

definition place_ok :: "terminal \<Rightarrow> bool" where
  "place_ok s \<longleftrightarrow> (case t_pc s of
       S_Read \<Rightarrow> holds [] 0 0 (t_fds s) \<and> line_base s + (command_num s - 1) \<le> next_pipe s
     | S_Pipe i \<Rightarrow> holds (pfd s) 0 (line_base s) (t_fds s) \<and> length (pfd s) = i \<and> i \<le> command_num s - 1
          \<and> next_pipe s = line_base s + i
          \<and> (\<forall>c\<in>set (children s). c_base c + (c_count c - 1) \<le> line_base s)
     | S_Fork i \<Rightarrow> holds (pfd s) (i - 1) (line_base s) (t_fds s) \<and> length (pfd s) = command_num s - 1 \<and> i \<le> command_num s
          \<and> next_pipe s = line_base s + (command_num s - 1)
     | S_Close i \<Rightarrow> holds (pfd s) (i - 1) (line_base s) (t_fds s) \<and> length (pfd s) = command_num s - 1 \<and> i < command_num s
          \<and> next_pipe s = line_base s + (command_num s - 1)
     | S_Wait i j \<Rightarrow> holds (pfd s) i (line_base s) (t_fds s) \<and> length (pfd s) = command_num s - 1 \<and> i < command_num s \<and> j \<le> i
          \<and> next_pipe s = line_base s + (command_num s - 1)
     | _ \<Rightarrow> True)"

definition term_inv :: "terminal \<Rightarrow> bool" where
  "term_inv s \<longleftrightarrow> (\<forall>c\<in>set (children s). child_ok c) \<and> kin_ok s \<and> place_ok s
     \<and> pfd_ok (pfd s)"

lemma holds_any_base: "holds [] lo b t = holds [] 0 0 t"
  by (simp add: holds_def)

lemma read_line_inv: "term_inv s \<Longrightarrow> t_pc s = S_Read \<Longrightarrow> term_inv (read_line bytes s)"
  by (auto simp: term_inv_def read_line_def kin_ok_def place_ok_def holds_any_base [of _ "next_pipe s"] pfd_ok_def
      split: sum.splits if_splits)

lemma make_pipe_inv: "term_inv s \<Longrightarrow> t_pc s = S_Pipe i \<Longrightarrow> term_inv (make_pipe i s)"
  using holds_pipe [of "pfd s" "line_base s" "t_fds s"]
  by (auto simp: term_inv_def make_pipe_def kin_ok_def place_ok_def split: prod.splits)

lemma fork_child_inv:
  assumes "term_inv s" "t_pc s = S_Fork i"
  shows "term_inv (fork_child i s)"
proof (cases "i < command_num s")
  case True
  obtain t msgs where c: "child_fds (pfd s) (command_num s) i (t_fds s, []) = (t, msgs)" by fastforce
  have "wired (command_num s) i (line_base s) t"
    using child_wired [of "pfd s" i "line_base s" "t_fds s" "command_num s"] assms True c
    by (simp add: term_inv_def place_ok_def)
  then show ?thesis using assms True c
    by (auto simp: term_inv_def fork_child_def child_ok_def kin_ok_def place_ok_def same_line_def apart_def)
next
  case False
  then show ?thesis using assms holds_clean [of "pfd s" "i - 1" "line_base s" "t_fds s" 0 0]
    by (auto simp: term_inv_def fork_child_def kin_ok_def place_ok_def)
qed

lemma close_used_inv: "term_inv s \<Longrightarrow> t_pc s = S_Close i \<Longrightarrow> term_inv (close_used i s)"
  using holds_close [of "pfd s" i "line_base s" "t_fds s" "perrors s"]
  by (auto simp: term_inv_def close_used_def kin_ok_def place_ok_def split: prod.splits)

lemma set_child_inv:
  assumes "term_inv s" "k < length (children s)"
  shows "term_inv (set_child k st s)"
proof -
  let ?c = "(children s ! k)\<lparr>c_state := st\<rparr>"
  have m: "\<exists>c\<in>set (children s). c_base c = c_base d \<and> c_count c = c_count d \<and> c_index c = c_index d \<and> c_fds c = c_fds d"
    if "d \<in> set ((children s)[k := ?c])" for d
    using set_update_subset_insert [of "children s" k ?c] that assms(2) by force
  have "child_ok d" if "d \<in> set ((children s)[k := ?c])" for d
    using m [OF that] assms(1) by (auto simp: child_ok_def term_inv_def)
  moreover have "kin_ok (set_child k st s)"
  proof -
    have "same_line d e \<or> apart d e" if "d \<in> set ((children s)[k := ?c])" "e \<in> set ((children s)[k := ?c])" for d e
    proof -
      note de = that
      obtain d' e' where "d' \<in> set (children s)" "e' \<in> set (children s)" "c_base d' = c_base d" "c_count d' = c_count d"
          "c_base e' = c_base e" "c_count e' = c_count e" using m [OF de(1)] m [OF de(2)] by blast
      moreover from this(1,2) have "same_line d' e' \<or> apart d' e'" using assms(1) unfolding term_inv_def kin_ok_def by blast
      ultimately show ?thesis by (simp add: same_line_def apart_def)
    qed
    moreover have "c_base d + (c_count d - 1) \<le> line_base s \<or> c_base d = line_base s \<and> c_count d = command_num s"
      if "d \<in> set ((children s)[k := ?c])" for d
      using m [OF that] assms(1) unfolding term_inv_def kin_ok_def by fastforce
    ultimately show ?thesis unfolding kin_ok_def set_child_def by simp
  qed
  moreover have "place_ok (set_child k st s)"
  proof (cases "t_pc s")
    case (S_Pipe i)
    then have "\<forall>c\<in>set (children s). c_base c + (c_count c - 1) \<le> line_base s" using assms(1) by (simp add: place_ok_def term_inv_def)
    then have "c_base d + (c_count d - 1) \<le> line_base s" if "d \<in> set ((children s)[k := ?c])" for d
      using m [OF that] by fastforce
    then show ?thesis using assms(1) S_Pipe by (simp add: place_ok_def term_inv_def set_child_def)
  qed (use assms(1) in \<open>simp_all add: place_ok_def term_inv_def set_child_def\<close>)
  ultimately show ?thesis using assms(1) by (simp add: term_inv_def set_child_def)
qed

lemma term_inv_pc: "term_inv s \<Longrightarrow> place_ok (s\<lparr>t_pc := pc\<rparr>) \<Longrightarrow> term_inv (s\<lparr>t_pc := pc\<rparr>)"
  by (simp add: term_inv_def kin_ok_def)

lemma place_ok_perrors [simp]: "place_ok (s\<lparr>perrors := m\<rparr>) = place_ok s"
  by (simp add: place_ok_def split: term_pc.split)

lemma term_inv_pc_perrors:
  "term_inv s \<Longrightarrow> place_ok (s\<lparr>t_pc := pc\<rparr>) \<Longrightarrow> term_inv (s\<lparr>t_pc := pc, perrors := m\<rparr>)"
  using term_inv_pc [of s pc] by (simp add: term_inv_def kin_ok_def)

lemma term_step_inv:
  assumes "term_inv s" "term_step ev s = Some s'"
  shows "term_inv s'"
proof (cases ev)
  case (Typed bytes)
  then show ?thesis using assms read_line_inv by (auto simp: term_step_def split: if_splits)
next
  case ReadFails
  then show ?thesis using assms term_inv_pc [of s "S_Fault OutOfBounds"]
    by (simp add: term_step_def place_ok_def split: if_splits)
next
  case Go
  show ?thesis
  proof (cases "t_pc s")
    case (S_Wait i j)
    then have "place_ok (s\<lparr>t_pc := if i \<le> j then S_Fork (i + 1) else S_Wait i (j + 1)\<rparr>)"
      using assms(1) by (auto simp: term_inv_def place_ok_def)
    then show ?thesis
      using S_Wait assms(2) Go term_inv_pc [OF assms(1), of "S_Fork (i + 1)"] term_inv_pc_perrors [OF assms(1), of "S_Wait i (j + 1)"]
      by (auto simp: term_step_def wait_child_def split: if_splits)
  qed (use assms Go make_pipe_inv fork_child_inv close_used_inv in \<open>auto simp: term_step_def\<close>)
next
  case CallFails
  show ?thesis
  proof (cases "t_pc s")
    case (S_Wait i j)
    then have "j < i" "s' = s\<lparr>t_pc := S_Wait i (j + 1), perrors := perrors s @ [''wait'']\<rparr>"
      using assms(2) CallFails by (simp_all add: term_step_def split: if_splits)
    moreover from this(1) have "place_ok (s\<lparr>t_pc := S_Wait i (j + 1)\<rparr>)"
      using S_Wait assms(1) by (simp add: term_inv_def place_ok_def)
    ultimately show ?thesis using term_inv_pc_perrors [OF assms(1)] by simp
  next
    case (S_Pipe i)
    then show ?thesis using assms CallFails term_inv_pc [of s "S_Exit 1"]
      by (simp add: term_step_def place_ok_def split: if_splits)
  next
    case (S_Fork i)
    then show ?thesis using assms CallFails term_inv_pc [of s "S_Exit (- 1)"]
      by (simp add: term_step_def place_ok_def split: if_splits)
  qed (use assms CallFails in \<open>simp_all add: term_step_def\<close>)
next
  case (Ends k)
  then show ?thesis using assms set_child_inv by (auto simp: term_step_def split: if_splits)
next
  case (Waited k)
  then obtain i j where w: "t_pc s = S_Wait i j" "j < i" "k < length (children s)"
      "s' = (set_child k Reaped s)\<lparr>t_pc := S_Wait i (j + 1)\<rparr>"
    using assms(2) by (auto simp: term_step_def split: term_pc.splits if_splits)
  have "t_pc (set_child k Reaped s) = S_Wait i j" using w(1) by (simp add: set_child_def)
  then show ?thesis using set_child_inv [OF assms(1) w(3), of Reaped] w(2,4)
    by (simp add: term_inv_def kin_ok_def place_ok_def)
qed

lemma term_run_inv: "term_inv (sched_run term_step es term_start)"
proof (rule sched_run_invariant)
  show "term_inv term_start"
    by (simp add: term_inv_def term_start_def kin_ok_def place_ok_def pfd_ok_def holds_start)
qed (rule term_step_inv)

definition pair_schedule :: "term_event list" where
  "pair_schedule = [Typed ''ls|wc'', Go, Go, Go, Go, Go, Go, Go, Ends 0, Waited 0, Go, Go]"

definition term_report :: "terminal \<Rightarrow> term_pc \<times> (nat \<times> nat \<times> child_state) list \<times> nat list" where
  "term_report s = (t_pc s, map (\<lambda>c. (c_index c, c_count c, c_state c)) (children s), typed s)"

lemma pair_run:
  "term_report (sched_run term_step pair_schedule term_start)
   = (S_Read, [(0, 2, Reaped), (1, 2, Running)], [2])"
  by code_simp

lemma pair_last:
  "let c = children (sched_run term_step pair_schedule term_start) ! 1
   in c \<in> set (children (sched_run term_step pair_schedule term_start))
      \<and> c_index c = 1 \<and> c_count c = 2 \<and> c_state c = Running"
proof -
  let ?s = "sched_run term_step pair_schedule term_start"
  have m: "map (\<lambda>c. (c_index c, c_count c, c_state c)) (children ?s) = [(0, 2, Reaped), (1, 2, Running)]"
    using pair_run by (simp add: term_report_def)
  have "length (children ?s) = 2" using arg_cong [OF m, of length] by simp
  then show ?thesis using arg_cong [OF m, of "\<lambda>l. l ! 1"] by (simp add: Let_def)
qed

text \<open>
  C14. The wiring of every command that is ever started, in every schedule of lines, steps,
  failing calls and ending children: command \<open>i\<close> of \<open>n\<close> reads from pipe \<open>i - 1\<close> and writes
  to pipe \<open>i\<close> of its line, the ends of the pipeline are on the terminal, and nothing else is
  open, except that the last command of a pipeline also holds the write end of the pipe it
  reads from.
\<close>

theorem terminal_wiring:
  "\<forall>c\<in>set (children (sched_run term_step es term_start)).
     c_index c < c_count c \<and> wired (c_count c) (c_index c) (c_base c) (c_fds c)"
  using term_run_inv [of es] by (simp add: term_inv_def child_ok_def)

theorem terminal_wiring_witness:
  "\<exists>c b. c \<in> set (children (sched_run term_step pair_schedule term_start)) \<and> wired 2 1 b (c_fds c)"
  using terminal_wiring [of pair_schedule] pair_last unfolding Let_def by metis

section \<open>The end of the input\<close>

text \<open>A reader sees the end of a pipe when no process has its write end open.\<close>

definition writes_to :: "nat \<Rightarrow> child \<Rightarrow> bool" where
  "writes_to k c \<longleftrightarrow> c_state c = Running \<and> Some (WriteEnd k) \<in> set (c_fds c)"

definition pipe_open :: "nat \<Rightarrow> terminal \<Rightarrow> bool" where
  "pipe_open k s \<longleftrightarrow> Some (WriteEnd k) \<in> set (t_fds s) \<or> list_ex (writes_to k) (children s)"

lemma in_fds: "Some d \<in> set t \<longleftrightarrow> (\<exists>x. fd_at t x = Some d)"
  by (auto simp: fd_at_def in_set_conv_nth split: if_splits)

lemma wired_writes:
  assumes "wired n i b t" "i < n"
  shows "Some (WriteEnd k) \<in> set t \<longleftrightarrow> 2 \<le> n \<and> ((i + 1 < n \<and> k = b + i) \<or> (i + 1 = n \<and> k = b + i - 1))"
proof -
  have x: "(\<exists>x. P x) \<longleftrightarrow> P 0 \<or> P 1 \<or> P 2 \<or> (\<exists>x\<ge>3. P x)" for P :: "nat \<Rightarrow> bool"
  proof -
    have "x = 0 \<or> x = 1 \<or> x = 2 \<or> 3 \<le> x" for x :: nat by linarith
    then show ?thesis by metis
  qed
  show ?thesis
  proof (cases "i + 1 = n")
    case True
    then show ?thesis using assms unfolding in_fds x [where P = "\<lambda>y. fd_at t y = Some (WriteEnd k)"] wired_def
      by (cases "2 \<le> n"; auto split: if_splits; metis option.inject desc.inject(2) option.distinct(1))
  next
    case False
    then show ?thesis using assms unfolding in_fds x [where P = "\<lambda>y. fd_at t y = Some (WriteEnd k)"] wired_def
      by (auto split: if_splits)
  qed
qed

lemma pipe_neighbour:
  fixes i n j m b c :: nat
  assumes "0 < i" "i + 1 < n" "j < m" "2 \<le> m"
    and "(j + 1 < m \<and> b + i - 1 = c + j) \<or> (j + 1 = m \<and> b + i - 1 = c + j - 1)"
    and "(b = c \<and> n = m) \<or> b + (n - 1) \<le> c \<or> c + (m - 1) \<le> b"
  shows "b = c \<and> n = m \<and> j + 1 = i"
proof -
  obtain x y z where xyz: "i = Suc x" "n = Suc (Suc (Suc (x + y)))" "m = Suc (Suc z)"
    using assms(1,2,4) by (metis One_nat_def Suc_eq_plus1 add_2_eq_Suc gr0_conv_Suc le_Suc_ex less_imp_Suc_add add_Suc)
  show ?thesis using assms(3,5,6) unfolding xyz by auto
qed

text \<open>
  C17. In every schedule, the last command of a pipeline never sees the end of its input:
  its standard input is a pipe that stays open for writing as long as the command runs. At
  the prompt, any other command but the first sees it exactly when its left neighbour has
  ended.
\<close>

theorem terminal_last_never_ends:
  assumes "s = sched_run term_step es term_start" "c \<in> set (children s)" "c_state c = Running" "0 < c_index c"
  shows "\<exists>k. fd_at (c_fds c) 0 = Some (ReadEnd k)
    \<and> (if c_index c + 1 = c_count c then pipe_open k s
       else t_pc s = S_Read \<longrightarrow> (pipe_open k s \<longleftrightarrow>
         (\<exists>d\<in>set (children s). same_line c d \<and> c_index d + 1 = c_index c \<and> c_state d = Running)))"
proof -
  have inv: "term_inv s" unfolding assms(1) by (rule term_run_inv)
  have ok: "c_index d < c_count d" "wired (c_count d) (c_index d) (c_base d) (c_fds d)"
    if "d \<in> set (children s)" for d using inv that by (auto simp: term_inv_def child_ok_def)
  have w: "writes_to k d \<longleftrightarrow> c_state d = Running \<and> 2 \<le> c_count d
      \<and> ((c_index d + 1 < c_count d \<and> k = c_base d + c_index d) \<or> (c_index d + 1 = c_count d \<and> k = c_base d + c_index d - 1))"
    if "d \<in> set (children s)" for d k
    using wired_writes [OF ok(2) [OF that] ok(1) [OF that]] by (simp add: writes_to_def)
  let ?k = "c_base c + c_index c - 1"
  have input: "fd_at (c_fds c) 0 = Some (ReadEnd ?k)" using ok(2) [OF assms(2)] assms(4) by (simp add: wired_def)
  show ?thesis
  proof (intro exI [of _ ?k] conjI)
    show "fd_at (c_fds c) 0 = Some (ReadEnd ?k)" by (rule input)
    show "if c_index c + 1 = c_count c then pipe_open ?k s
       else t_pc s = S_Read \<longrightarrow> (pipe_open ?k s \<longleftrightarrow>
         (\<exists>d\<in>set (children s). same_line c d \<and> c_index d + 1 = c_index c \<and> c_state d = Running))"
    proof (cases "c_index c + 1 = c_count c")
      case True
      then have "writes_to ?k c" using w [OF assms(2)] assms(3,4) by auto
      then show ?thesis using True assms(2) by (auto simp: pipe_open_def list_ex_iff)
    next
      case False
      have "pipe_open ?k s \<longleftrightarrow> (\<exists>d\<in>set (children s). same_line c d \<and> c_index d + 1 = c_index c \<and> c_state d = Running)"
        if "t_pc s = S_Read"
      proof -
        have "Some (WriteEnd ?k) \<notin> set (t_fds s)"
        proof
          assume "Some (WriteEnd ?k) \<in> set (t_fds s)"
          then obtain x where "fd_at (t_fds s) x = Some (WriteEnd ?k)" by (auto simp: in_fds)
          moreover have "holds [] 0 0 (t_fds s)" using inv that by (simp add: term_inv_def place_ok_def)
          ultimately show False by (cases "x < 3") (auto simp: holds_def)
        qed
        moreover have "writes_to ?k d \<longleftrightarrow> same_line c d \<and> c_index d + 1 = c_index c \<and> c_state d = Running"
          if d: "d \<in> set (children s)" for d
        proof
          assume "writes_to ?k d"
          then have r: "c_state d = Running" "2 \<le> c_count d"
            "(c_index d + 1 < c_count d \<and> ?k = c_base d + c_index d) \<or> (c_index d + 1 = c_count d \<and> ?k = c_base d + c_index d - 1)"
            using w [OF d] by auto
          have n: "c_index c + 1 < c_count c" using ok(1) [OF assms(2)] False by simp
          have "same_line c d \<or> apart c d" using inv assms(2) d by (auto simp: term_inv_def kin_ok_def)
          from pipe_neighbour [OF assms(4) n ok(1) [OF d] r(2,3) this [unfolded same_line_def apart_def]]
          show "same_line c d \<and> c_index d + 1 = c_index c \<and> c_state d = Running"
            using r(1) by (simp add: same_line_def)
        next
          assume r: "same_line c d \<and> c_index d + 1 = c_index c \<and> c_state d = Running"
          then have e: "c_index c = c_index d + 1" and b: "c_base c = c_base d" "c_count c = c_count d"
            by (simp_all add: same_line_def)
          then have "?k = c_base d + c_index d" "c_index d + 1 < c_count d" "2 \<le> c_count d"
            using ok(1) [OF assms(2)] unfolding e b by simp_all
          then show "writes_to ?k d" using w [OF d] r by blast
        qed
        ultimately show ?thesis by (auto simp: pipe_open_def list_ex_iff)
      qed
      then show ?thesis using False by simp
    qed
  qed
qed

theorem terminal_last_never_ends_witness:
  "\<exists>c k. c \<in> set (children (sched_run term_step pair_schedule term_start)) \<and> c_state c = Running
     \<and> fd_at (c_fds c) 0 = Some (ReadEnd k) \<and> pipe_open k (sched_run term_step pair_schedule term_start)"
proof -
  define c where "c = children (sched_run term_step pair_schedule term_start) ! 1"
  have c: "c \<in> set (children (sched_run term_step pair_schedule term_start))"
      "c_index c = 1" "c_count c = 2" "c_state c = Running"
    using pair_last by (simp_all add: c_def Let_def)
  then show ?thesis using terminal_last_never_ends [OF refl c(1,4)] by auto
qed

section \<open>Waiting\<close>

text \<open>The loop that follows the fork of child \<open>i\<close> waits for \<open>i\<close> children.\<close>

definition left_by :: "nat \<Rightarrow> nat \<Rightarrow> nat" where
  "left_by i u = foldl (\<lambda>u i. u + 1 - i) u [0..<i]"

definition left_over :: "nat list \<Rightarrow> nat" where
  "left_over ns = foldl (\<lambda>u n. left_by n u) 0 ns"

definition count_ok :: "terminal \<Rightarrow> bool" where
  "count_ok s \<longleftrightarrow> (case t_pc s of
       S_Read \<Rightarrow> unreaped s = left_over (typed s)
     | S_Pipe i \<Rightarrow> typed s \<noteq> [] \<and> last (typed s) = command_num s \<and> unreaped s = left_over (butlast (typed s))
     | S_Fork i \<Rightarrow> typed s \<noteq> [] \<and> last (typed s) = command_num s \<and> i \<le> command_num s
          \<and> unreaped s = left_by i (left_over (butlast (typed s)))
     | S_Close i \<Rightarrow> typed s \<noteq> [] \<and> last (typed s) = command_num s \<and> i < command_num s
          \<and> unreaped s = left_by i (left_over (butlast (typed s))) + 1
     | S_Wait i j \<Rightarrow> typed s \<noteq> [] \<and> last (typed s) = command_num s \<and> i < command_num s \<and> j \<le> i
          \<and> unreaped s = left_by i (left_over (butlast (typed s))) + 1 - j
     | _ \<Rightarrow> True)"

lemma left_by_Suc [simp]: "left_by (Suc i) u = left_by i u + 1 - i" "left_by 0 u = u"
  by (simp_all add: left_by_def)

lemma left_over_last: "ns \<noteq> [] \<Longrightarrow> left_over ns = left_by (last ns) (left_over (butlast ns))"
  unfolding left_over_def by (metis append_butlast_last_id foldl_Cons foldl_Nil foldl_append)

lemma unreaped_set:
  assumes "k < length (children s)" "c_state (children s ! k) \<noteq> Reaped"
  shows "unreaped (set_child k st s) = (if st = Reaped then unreaped s - 1 else unreaped s) \<and> 0 < unreaped s"
proof -
  define f :: "child \<Rightarrow> nat" where "f c = (if c_state c \<noteq> Reaped then 1 else 0)" for c
  have u: "length (filter (\<lambda>c. c_state c \<noteq> Reaped) cs) = sum_list (map f cs)" for cs
    by (induction cs) (simp_all add: f_def)
  have "f (children s ! k) + sum_list (map f (children (set_child k st s)))
      = f ((children s ! k)\<lparr>c_state := st\<rparr>) + sum_list (map f (children s))"
    unfolding set_child_def using sum_list_update_add [OF assms(1)] by simp
  moreover have "f (children s ! k) \<le> sum_list (map f (children s))"
    using assms(1) by (intro member_le_sum_list) auto
  ultimately show ?thesis using assms(2) by (auto simp: unreaped_def u f_def)
qed

lemma count_step:
  assumes "count_ok s" "ev \<noteq> CallFails" "term_step ev s = Some s'"
  shows "count_ok s'"
proof (cases ev)
  case (Typed bytes)
  then show ?thesis using assms
    by (auto simp: term_step_def read_line_def count_ok_def unreaped_def split: if_splits sum.splits)
next
  case ReadFails
  then show ?thesis using assms by (auto simp: term_step_def count_ok_def split: if_splits)
next
  case Go
  show ?thesis
  proof (cases "t_pc s")
    case (S_Fork i)
    then show ?thesis using assms Go left_over_last [of "typed s"]
      by (auto simp: term_step_def fork_child_def count_ok_def unreaped_def split: if_splits prod.splits)
  next
    case (S_Wait i j)
    then show ?thesis using assms Go
      by (auto simp: term_step_def wait_child_def count_ok_def unreaped_def split: if_splits)
  qed (use assms Go in \<open>auto simp: term_step_def make_pipe_def close_used_def count_ok_def unreaped_def split: prod.splits\<close>)
next
  case CallFails
  then show ?thesis using assms(2) by simp
next
  case (Ends k)
  then have k: "k < length (children s)" "c_state (children s ! k) = Running" "s' = set_child k Zombie s"
    using assms(3) by (auto simp: term_step_def split: if_splits)
  then have "unreaped s' = unreaped s" using unreaped_set [of k s Zombie] by simp
  then show ?thesis using assms(1) k(3) by (simp add: count_ok_def set_child_def split: term_pc.splits)
next
  case (Waited k)
  then obtain i j where w: "t_pc s = S_Wait i j" "j < i" "k < length (children s)" "c_state (children s ! k) = Zombie"
      "s' = (set_child k Reaped s)\<lparr>t_pc := S_Wait i (j + 1)\<rparr>"
    using assms(3) by (auto simp: term_step_def split: term_pc.splits if_splits)
  have "unreaped s' = unreaped s - 1" using unreaped_set [of k s Reaped] w by (simp add: unreaped_def)
  then show ?thesis using assms(1) w by (auto simp: count_ok_def set_child_def)
qed

text \<open>
  Waiting, exactly: in every schedule without a failing call, the number of children that
  have not been waited for is, at the prompt, a function of the numbers of commands of the
  lines alone. A single command adds one (it is never waited for), a pair adds one, and
  after a line of three or more as the first one nothing is left, so that the terminal never
  comes back to the prompt while the last command, which waits for the end of its input,
  runs.
\<close>

theorem terminal_waits:
  assumes "CallFails \<notin> set es" "s = sched_run term_step es term_start" "t_pc s = S_Read"
  shows "unreaped s = left_over (typed s)
    \<and> (\<forall>n. typed s = [n] \<and> 3 \<le> n \<longrightarrow> (\<forall>c\<in>set (children s). c_state c = Reaped))"
proof -
  have "count_ok s" unfolding assms(2)
  proof (rule sched_run_invariant_on [where P = "\<lambda>ev. ev \<noteq> CallFails" and I = count_ok])
    show "count_ok term_start" by (simp add: count_ok_def term_start_def unreaped_def left_over_def)
    show "list_all (\<lambda>ev. ev \<noteq> CallFails) es" using assms(1) by (auto simp: list_all_iff)
  qed (rule count_step)
  then have u: "unreaped s = left_over (typed s)" using assms(3) by (simp add: count_ok_def)
  have "left_by (n + 3) 0 = 0" for n
    by (induction n) (simp_all add: numeral_3_eq_3)
  then have "left_by n 0 = 0" if "3 \<le> n" for n using that by (metis le_add_diff_inverse2)
  then have "unreaped s = 0" if "typed s = [n]" "3 \<le> n" for n
    using u that by (simp add: left_over_def)
  then have "\<forall>n. typed s = [n] \<and> 3 \<le> n \<longrightarrow> (\<forall>c\<in>set (children s). c_state c = Reaped)"
    by (auto simp: unreaped_def filter_empty_conv)
  then show ?thesis using u by simp
qed

theorem terminal_waits_witness:
  "unreaped (sched_run term_step pair_schedule term_start) = left_over [2] \<and> left_over [2] = 1"
proof -
  have r: "t_pc (sched_run term_step pair_schedule term_start) = S_Read"
      "typed (sched_run term_step pair_schedule term_start) = [2]"
    using pair_run by (simp_all add: term_report_def)
  have "CallFails \<notin> set pair_schedule" by (simp add: pair_schedule_def)
  then have "unreaped (sched_run term_step pair_schedule term_start) = left_over [2]"
    using terminal_waits [OF _ refl r(1)] r(2) by simp
  then show ?thesis by (simp add: left_over_def numeral_2_eq_2)
qed

end
