(* ===== verification/OldCopier.thy ===== *)
theory OldCopier
  imports CText
begin

text \<open>
  The older parallel copier, \<^verbatim>\<open>hw5/copy.c\<close>: one producer walks the source tree and stacks a
  job per regular file, consumers take jobs and copy while they hold the only mutex.

  \<open>directorySearch\<close> is the list of what the walk does, in order, for the tree as the calls see
  it; the producer executes it step by step. Threads are program counters. A consumer is
  woken from \<open>cond_consume\<close>, and the producer from \<open>cond_produce\<close>, by the broadcasts of the
  code and by spurious wake-ups. An open file is its unread rest and what has been written to
  its copy; a job names it by its number, and a read and a write together are a step. The end of the
  process (\<^verbatim>\<open>exit\<close>, or a fault) stops every thread. \<open>opened\<close>, \<open>produced\<close>, \<open>taken\<close> and
  \<open>finished\<close> are history variables.
\<close>

section \<open>The walk\<close>

datatype copy_item =
    Folder "(string \<times> copy_item) list"   \<comment> \<open>its entries, none when it cannot be read\<close>
  | FolderFails                           \<comment> \<open>\<^verbatim>\<open>mkdir\<close> of the target fails\<close>
  | Regular string bool                   \<comment> \<open>contents, and whether both \<^verbatim>\<open>open\<close> calls succeed\<close>
  | Fifo
  | OtherItem                             \<comment> \<open>of another type, or without \<^verbatim>\<open>stat\<close>\<close>

datatype walk_op = O_Mkdir string | O_Copy string string string bool | O_Fifo string | O_Fault cfault

definition NAME_BUF :: nat where "NAME_BUF = 512"
definition COPY_BUF :: nat where "COPY_BUF = 4096"

fun directorySearch :: "string \<Rightarrow> string \<Rightarrow> (string \<times> copy_item) list \<Rightarrow> walk_op list" where
  "directorySearch src dst [] = []"
| "directorySearch src dst ((name, item) # entries) =
     (if name = ''.'' \<or> name = ''..'' then directorySearch src dst entries
      else let path = src @ ''/'' @ name; new_target = dst @ ''/'' @ name in
        if NAME_BUF \<le> length path then [O_Fault OutOfBounds]
        else (case item of
            Folder sub \<Rightarrow>
              if NAME_BUF \<le> length new_target then [O_Fault OutOfBounds]
              else O_Mkdir new_target # directorySearch path new_target sub @ directorySearch src dst entries
          | FolderFails \<Rightarrow> if NAME_BUF \<le> length new_target then [O_Fault OutOfBounds] else []
          | Regular bytes ok \<Rightarrow> O_Copy path dst bytes ok # directorySearch src dst entries
          | Fifo \<Rightarrow> if NAME_BUF \<le> length new_target then [O_Fault OutOfBounds]
              else O_Fifo new_target # directorySearch src dst entries
          | OtherItem \<Rightarrow> directorySearch src dst entries))"

section \<open>State\<close>

record file_copy =
  fd :: nat
  source_filename :: string
  destination_filename :: string

datatype producer_pc = P_Search "walk_op list" | P_Lock file_copy int "walk_op list"
  | P_Wait file_copy int "walk_op list" | P_Woke file_copy int "walk_op list" | P_Exit

datatype consumer_pc = K_Lock | K_Wait | K_Woke | K_Copy file_copy | K_Unlock | K_Exit

datatype proc_pc = H_JoinProducer | H_Join nat | H_Exit | H_Fault cfault

record copier =
  buffer :: "file_copy list"
  buffer_size :: int
  bufferCounter :: int
  buffer_freed :: bool
  copier_done :: bool
  signalint :: bool
  num_files_copied :: int
  num_dirs_copied :: int
  num_bytes_copied :: int
  num_of_fifo_copied :: int
  mtx :: "nat option"
  prod_at :: producer_pc
  consumers :: "consumer_pc list"
  proc :: proc_pc
  open_files :: "(string \<times> string) list"
  report_line :: "(int \<times> int \<times> int \<times> int) option"
  opened :: "string list"
  produced :: "file_copy list"
  taken :: "file_copy list"
  finished :: "file_copy list"

definition wake_consumers :: "copier \<Rightarrow> copier" where
  "wake_consumers s = s\<lparr>consumers := map (\<lambda>pc. if pc = K_Wait then K_Woke else pc) (consumers s)\<rparr>"

definition wake_producer :: "copier \<Rightarrow> copier" where
  "wake_producer s = s\<lparr>prod_at := (case prod_at s of P_Wait job sz ops \<Rightarrow> P_Woke job sz ops | pc \<Rightarrow> pc)\<rparr>"

section \<open>The producer\<close>

definition base_name :: "string \<Rightarrow> string" where
  "base_name path = (case tokens (CHR ''/'') path of [] \<Rightarrow> [] | ts \<Rightarrow> last ts)"

text \<open>The counters of \<open>directorySearch\<close> after \<open>copyFile\<close> has returned.\<close>

definition count_file :: "int \<Rightarrow> walk_op list \<Rightarrow> copier \<Rightarrow> copier" where
  "count_file sz ops s =
     (if 2 ^ 31 \<le> num_bytes_copied s + sz then s\<lparr>proc := H_Fault IntOverflow, prod_at := P_Search ops\<rparr>
      else s\<lparr>num_files_copied := num_files_copied s + 1, num_bytes_copied := num_bytes_copied s + sz,
             prod_at := P_Search ops\<rparr>)"

definition copyFile :: "string \<Rightarrow> string \<Rightarrow> string \<Rightarrow> bool \<Rightarrow> walk_op list \<Rightarrow> copier \<Rightarrow> copier" where
  "copyFile source destination bytes ok ops s =
     (let destination_copy = destination @ ''/'' @ base_name source in
      if NAME_BUF \<le> length destination_copy then s\<lparr>proc := H_Fault OutOfBounds\<rparr>
      else if \<not> ok then count_file (int (length bytes)) ops s
      else s\<lparr>open_files := open_files s @ [(bytes, [])], opened := opened s @ [bytes],
             prod_at := P_Lock \<lparr>fd = length (open_files s), source_filename = source,
               destination_filename = destination_copy\<rparr> (int (length bytes)) ops\<rparr>)"

text \<open>The critical section of \<open>copyFile\<close>.\<close>

definition put_job :: "file_copy \<Rightarrow> int \<Rightarrow> walk_op list \<Rightarrow> copier \<Rightarrow> copier" where
  "put_job job sz ops s =
     (if bufferCounter s = buffer_size s then s\<lparr>prod_at := P_Wait job sz ops\<rparr>
      else if buffer_freed s then s\<lparr>proc := H_Fault UseAfterFree\<rparr>
      else if bufferCounter s < 0 \<or> int (length (buffer s)) \<le> bufferCounter s then s\<lparr>proc := H_Fault OutOfBounds\<rparr>
      else count_file sz ops (wake_consumers (s\<lparr>buffer := (buffer s)[nat (bufferCounter s) := job],
             bufferCounter := bufferCounter s + 1, produced := produced s @ [job]\<rparr>)))"

definition producer :: "copier \<Rightarrow> copier option" where
  "producer s = (case prod_at s of
       P_Search [] \<Rightarrow> Some (s\<lparr>copier_done := True, prod_at := P_Exit\<rparr>)
     | P_Search (O_Mkdir p # ops) \<Rightarrow> Some (s\<lparr>num_dirs_copied := num_dirs_copied s + 1, prod_at := P_Search ops\<rparr>)
     | P_Search (O_Fifo p # ops) \<Rightarrow> Some (s\<lparr>num_of_fifo_copied := num_of_fifo_copied s + 1, prod_at := P_Search ops\<rparr>)
     | P_Search (O_Fault e # ops) \<Rightarrow> Some (s\<lparr>proc := H_Fault e\<rparr>)
     | P_Search (O_Copy source destination bytes ok # ops) \<Rightarrow> Some (copyFile source destination bytes ok ops s)
     | P_Lock job sz ops \<Rightarrow> if mtx s = None then Some (put_job job sz ops s) else None
     | P_Wait job sz ops \<Rightarrow> None
     | P_Woke job sz ops \<Rightarrow> if mtx s = None then Some (put_job job sz ops s) else None
     | P_Exit \<Rightarrow> None)"

section \<open>Consumers\<close>

definition consumer_goto :: "nat \<Rightarrow> consumer_pc \<Rightarrow> copier \<Rightarrow> copier" where
  "consumer_goto k pc s = s\<lparr>consumers := (consumers s)[k := pc]\<rparr>"

text \<open>With the mutex taken: wait, leave, or take the job on top of the stack.\<close>

definition consumer_test :: "nat \<Rightarrow> copier \<Rightarrow> copier" where
  "consumer_test k s =
     (if bufferCounter s = 0 \<and> \<not> copier_done s then consumer_goto k K_Wait s
      else if (bufferCounter s = 0 \<or> copier_done s) \<and> \<not> signalint s then consumer_goto k K_Exit s
      else let n = bufferCounter s - 1 in
        if buffer_freed s then s\<lparr>proc := H_Fault UseAfterFree\<rparr>
        else if n < 0 \<or> int (length (buffer s)) \<le> n then s\<lparr>proc := H_Fault OutOfBounds\<rparr>
        else consumer_goto k (K_Copy (buffer s ! nat n))
               (s\<lparr>bufferCounter := n, mtx := Some k, taken := taken s @ [buffer s ! nat n]\<rparr>))"

text \<open>One round of the loop of \<open>consume\<close>; reading nothing ends it.\<close>

definition consume :: "nat \<Rightarrow> file_copy \<Rightarrow> copier \<Rightarrow> copier" where
  "consume k job s =
     (let (rest, copy) = open_files s ! fd job in
      if rest = [] then consumer_goto k K_Unlock (s\<lparr>finished := finished s @ [job]\<rparr>)
      else s\<lparr>open_files := (open_files s)[fd job := (drop COPY_BUF rest, copy @ take COPY_BUF rest)]\<rparr>)"

definition consumer :: "nat \<Rightarrow> copier \<Rightarrow> copier option" where
  "consumer k s =
     (if length (consumers s) \<le> k then None
      else case consumers s ! k of
        K_Lock \<Rightarrow> if mtx s = None then Some (consumer_test k s) else None
      | K_Wait \<Rightarrow> None
      | K_Woke \<Rightarrow> if mtx s = None then Some (consumer_test k s) else None
      | K_Copy job \<Rightarrow> Some (consume k job s)
      | K_Unlock \<Rightarrow> Some (consumer_goto k K_Lock ((wake_producer s)\<lparr>mtx := None\<rparr>))
      | K_Exit \<Rightarrow> None)"

text \<open>A failing \<^verbatim>\<open>read\<close> or \<^verbatim>\<open>write\<close> leaves \<open>consume\<close>.\<close>

definition consume_fails :: "nat \<Rightarrow> copier \<Rightarrow> copier option" where
  "consume_fails k s =
     (if length (consumers s) \<le> k then None
      else case consumers s ! k of K_Copy job \<Rightarrow> Some (consumer_goto k K_Unlock s) | _ \<Rightarrow> None)"

section \<open>The process\<close>

text \<open>\<^verbatim>\<open>atoi(argv[2] + 1)\<close>: the number is read without its first character.\<close>

definition joins :: "string \<Rightarrow> int" where
  "joins arg = c_atoi (tl arg)"

definition copier_main :: "string \<Rightarrow> copier \<Rightarrow> copier option" where
  "copier_main arg s = (case proc s of
       H_JoinProducer \<Rightarrow> if prod_at s = P_Exit then Some (s\<lparr>proc := H_Join 1\<rparr>) else None
     | H_Join i \<Rightarrow>
         if int i < joins arg
         then (if length (consumers s) < i then Some (s\<lparr>proc := H_Fault OutOfBounds\<rparr>)
               else if consumers s ! (i - 1) = K_Exit then Some (s\<lparr>proc := H_Join (i + 1)\<rparr>) else None)
         else (let s = s\<lparr>report_line := Some (num_files_copied s, num_dirs_copied s, num_of_fifo_copied s, num_bytes_copied s)\<rparr>
               in Some (if buffer_freed s then s\<lparr>proc := H_Fault UseAfterFree\<rparr> else s\<lparr>proc := H_Exit\<rparr>))
     | _ \<Rightarrow> None)"

definition sigint_handler :: "copier \<Rightarrow> copier" where
  "sigint_handler s =
     (if buffer_freed s then s\<lparr>signalint := True, proc := H_Fault UseAfterFree\<rparr>
      else s\<lparr>signalint := True, buffer_freed := True\<rparr>)"

datatype copier_event = Produce_step | Consume_step nat | Main_step | IOFails nat | Spurious nat | SpuriousProducer
  | Sigint_event

definition copier_step :: "string \<Rightarrow> copier_event \<Rightarrow> copier \<Rightarrow> copier option" where
  "copier_step arg ev s =
     (if (case proc s of H_Exit \<Rightarrow> True | H_Fault e \<Rightarrow> True | _ \<Rightarrow> False) then None
      else case ev of
        Produce_step \<Rightarrow> producer s
      | Consume_step k \<Rightarrow> consumer k s
      | Main_step \<Rightarrow> copier_main arg s
      | IOFails k \<Rightarrow> consume_fails k s
      | Spurious k \<Rightarrow> if k < length (consumers s) \<and> consumers s ! k = K_Wait then Some (consumer_goto k K_Woke s) else None
      | SpuriousProducer \<Rightarrow> Some (wake_producer s)
      | Sigint_event \<Rightarrow> Some (sigint_handler s))"

text \<open>The command line gives the size of the buffer and the number of consumers.\<close>

definition copier_start :: "string \<Rightarrow> string \<Rightarrow> (string \<times> copy_item) list \<Rightarrow> string \<Rightarrow> string \<Rightarrow> file_copy list \<Rightarrow> copier" where
  "copier_start source destination entries arg1 arg2 junk =
     \<lparr>buffer = junk, buffer_size = c_atoi arg1, bufferCounter = 0, buffer_freed = False, copier_done = False,
      signalint = False, num_files_copied = 0, num_dirs_copied = 0, num_bytes_copied = 0, num_of_fifo_copied = 0,
      mtx = None, prod_at = P_Search (directorySearch source destination entries),
      consumers = replicate (nat (c_atoi arg2)) K_Lock, proc = H_JoinProducer, open_files = [], report_line = None,
      opened = [], produced = [], taken = [], finished = []\<rparr>"

end
