(* ===== verification/OldCopierProps.thy ===== *)
theory OldCopierProps
  imports OldCopier
begin

text \<open>
  Properties of the older copier: what is copied is copied exactly, and how much of the tree
  can be left uncopied.
\<close>

section \<open>The invariant\<close>

definition stack :: "copier \<Rightarrow> file_copy list" where
  "stack s = take (nat (bufferCounter s)) (buffer s)"

fun working :: "consumer_pc \<Rightarrow> file_copy list" where
  "working (K_Copy job) = [job]"
| "working _ = []"

fun pending :: "producer_pc \<Rightarrow> file_copy list" where
  "pending (P_Lock job sz ops) = [job]"
| "pending (P_Wait job sz ops) = [job]"
| "pending (P_Woke job sz ops) = [job]"
| "pending _ = []"

definition in_work :: "copier \<Rightarrow> file_copy list" where
  "in_work s = concat (map working (consumers s))"

definition busy :: "consumer_pc \<Rightarrow> bool" where
  "busy pc = (case pc of K_Copy job \<Rightarrow> True | K_Unlock \<Rightarrow> True | _ \<Rightarrow> False)"

definition all_jobs :: "copier \<Rightarrow> file_copy list" where
  "all_jobs s = stack s @ pending (prod_at s) @ in_work s @ finished s"

text \<open>Where the jobs are, who holds the mutex, and what the files contain.\<close>

definition jobs_ok :: "copier \<Rightarrow> bool" where
  "jobs_ok s \<longleftrightarrow> 0 \<le> bufferCounter s \<and> bufferCounter s \<le> buffer_size s \<and> int (length (buffer s)) = buffer_size s
     \<and> \<not> buffer_freed s \<and> \<not> signalint s
     \<and> mset (produced s) = mset (stack s) + mset (taken s)
     \<and> mset (taken s) = mset (in_work s) + mset (finished s)
     \<and> distinct (map fd (all_jobs s))"

definition mutex_ok :: "copier \<Rightarrow> bool" where
  "mutex_ok s \<longleftrightarrow> (\<forall>k<length (consumers s). busy (consumers s ! k) \<longleftrightarrow> mtx s = Some k)
     \<and> (\<forall>k. mtx s = Some k \<longrightarrow> k < length (consumers s))"

definition files_ok :: "copier \<Rightarrow> bool" where
  "files_ok s \<longleftrightarrow> length (opened s) = length (open_files s)
     \<and> (\<forall>job\<in>set (all_jobs s). fd job < length (open_files s))
     \<and> (\<forall>i<length (open_files s). snd (open_files s ! i) @ fst (open_files s ! i) = opened s ! i)
     \<and> (\<forall>job\<in>set (stack s @ pending (prod_at s)). snd (open_files s ! fd job) = [])
     \<and> (\<forall>job\<in>set (finished s). fst (open_files s ! fd job) = [])"

definition copier_inv :: "copier \<Rightarrow> bool" where
  "copier_inv s \<longleftrightarrow> jobs_ok s \<and> mutex_ok s \<and> files_ok s"

lemmas inv_defs = copier_inv_def jobs_ok_def mutex_ok_def files_ok_def all_jobs_def in_work_def stack_def

text \<open>Fields that the invariant does not look at.\<close>

lemma inv_fields [simp]:
  "copier_inv (s\<lparr>num_files_copied := a\<rparr>) = copier_inv s" "copier_inv (s\<lparr>num_dirs_copied := a\<rparr>) = copier_inv s"
  "copier_inv (s\<lparr>num_bytes_copied := a\<rparr>) = copier_inv s" "copier_inv (s\<lparr>num_of_fifo_copied := a\<rparr>) = copier_inv s"
  "copier_inv (s\<lparr>proc := p\<rparr>) = copier_inv s" "copier_inv (s\<lparr>report_line := r\<rparr>) = copier_inv s"
  "copier_inv (s\<lparr>copier_done := d\<rparr>) = copier_inv s"
  by (simp_all add: inv_defs)

lemma inv_prod: "pending pc = pending (prod_at s) \<Longrightarrow> copier_inv (s\<lparr>prod_at := pc\<rparr>) = copier_inv s"
  by (simp add: inv_defs)

lemma in_work_set:
  assumes "k < length (consumers s)"
  shows "mset (working (consumers s ! k)) + mset (concat (map working ((consumers s)[k := pc])))
    = mset (working pc) + mset (in_work s)"
  using sum_list_update_add [OF assms, of "\<lambda>x. mset (working x)" pc]
  by (simp add: in_work_def mset_concat o_def)

lemma inv_perm:
  "mset ys = mset xs \<Longrightarrow> distinct (map f ys) = distinct (map f xs)"
  by (metis mset_eq_imp_distinct_iff mset_map)

text \<open>A consumer that neither has a job nor the mutex moves to such a place.\<close>

lemma inv_consumer_goto:
  assumes "copier_inv s" "k < length (consumers s)" "\<not> busy (consumers s ! k)" "\<not> busy pc"
  shows "copier_inv (consumer_goto k pc s)"
proof -
  have "working (consumers s ! k) = []" "working pc = []"
    using assms(3,4) by (auto simp: busy_def split: consumer_pc.splits)
  then have "map working ((consumers s)[k := pc]) = map working (consumers s)"
    using assms(2) by (simp add: map_update list_update_same_conv)
  then show ?thesis using assms by (auto simp: inv_defs consumer_goto_def nth_list_update)
qed

lemma inv_wake_consumers [simp]: "copier_inv (wake_consumers s) = copier_inv s"
proof -
  have "working (if pc = K_Wait then K_Woke else pc) = working pc" "busy (if pc = K_Wait then K_Woke else pc) = busy pc" for pc
    by (simp_all add: busy_def)
  then show ?thesis by (simp add: inv_defs wake_consumers_def o_def)
qed

lemma inv_wake_producer [simp]: "copier_inv (wake_producer s) = copier_inv s"
  unfolding wake_producer_def by (rule inv_prod) (cases "prod_at s"; simp)

lemma inv_copyFile:
  assumes "copier_inv s" "prod_at s = P_Search (O_Copy a b bytes ok # ops)"
  shows "copier_inv (copyFile a b bytes ok ops s)"
proof (cases "ok \<and> length (b @ ''/'' @ base_name a) < NAME_BUF")
  case True
  let ?job = "\<lparr>fd = length (open_files s), source_filename = a, destination_filename = b @ ''/'' @ base_name a\<rparr>"
  let ?s = "copyFile a b bytes ok ops s"
  have s: "?s = s\<lparr>open_files := open_files s @ [(bytes, [])], opened := opened s @ [bytes],
      prod_at := P_Lock ?job (int (length bytes)) ops\<rparr>" using True by (auto simp: copyFile_def Let_def)
  have old: "fd job < length (open_files s)" if "job \<in> set (stack s) \<or> job \<in> set (in_work s) \<or> job \<in> set (finished s)" for job
    using assms(1) that by (auto simp: copier_inv_def files_ok_def all_jobs_def)
  then have new: "length (open_files s) \<notin> fd ` set (stack s)" "length (open_files s) \<notin> fd ` set (in_work s)"
    "length (open_files s) \<notin> fd ` set (finished s)" by fastforce+
  have "all_jobs ?s = stack s @ ?job # in_work s @ finished s" "all_jobs s = stack s @ in_work s @ finished s"
    by (simp_all add: s assms(2) all_jobs_def stack_def in_work_def)
  moreover have "stack ?s = stack s" "in_work ?s = in_work s" by (simp_all add: s stack_def in_work_def)
  ultimately show ?thesis using assms(1) new old
    by (auto simp: s copier_inv_def jobs_ok_def mutex_ok_def files_ok_def nth_append less_Suc_eq image_iff)
next
  case False
  then show ?thesis using assms inv_prod [of "P_Search ops"]
    by (auto simp: copyFile_def Let_def count_file_def)
qed

lemma inv_put_job:
  assumes "copier_inv s" "pending (prod_at s) = [job]"
  shows "copier_inv (put_job job sz ops s)"
proof (cases "bufferCounter s = buffer_size s")
  case True
  then show ?thesis using assms inv_prod [of "P_Wait job sz ops" s] by (simp add: put_job_def)
next
  case False
  let ?s = "s\<lparr>buffer := (buffer s)[nat (bufferCounter s) := job], bufferCounter := bufferCounter s + 1,
      produced := produced s @ [job], prod_at := P_Search ops\<rparr>"
  have room: "0 \<le> bufferCounter s" "nat (bufferCounter s) < length (buffer s)"
    using assms(1) False by (auto simp: copier_inv_def jobs_ok_def)
  then have st: "stack ?s = stack s @ [job]"
    by (simp add: stack_def nat_add_distrib take_Suc_conv_app_nth)
  have iw: "in_work ?s = in_work s" by (simp add: in_work_def)
  have "all_jobs ?s = all_jobs s" by (simp add: all_jobs_def st iw assms(2))
  then have i: "copier_inv ?s" using assms room False st iw
    by (auto simp: copier_inv_def jobs_ok_def mutex_ok_def files_ok_def)
  then have w: "copier_inv (wake_consumers ?s)" by simp
  have "put_job job sz ops s = (let t = wake_consumers ?s in
      if 2 ^ 31 \<le> num_bytes_copied s + sz then t\<lparr>proc := H_Fault IntOverflow\<rparr>
      else t\<lparr>num_files_copied := num_files_copied s + 1, num_bytes_copied := num_bytes_copied s + sz\<rparr>)"
    using assms(1) room False
    by (auto simp: put_job_def count_file_def wake_consumers_def Let_def copier_inv_def jobs_ok_def)
  then show ?thesis using w by (simp add: Let_def)
qed

lemma inv_consumer_test:
  assumes "copier_inv s" "k < length (consumers s)" "consumers s ! k = K_Lock \<or> consumers s ! k = K_Woke" "mtx s = None"
  shows "copier_inv (consumer_test k s)"
proof (cases "bufferCounter s = 0 \<or> copier_done s")
  case True
  then show ?thesis using assms inv_consumer_goto [OF assms(1,2), of K_Wait] inv_consumer_goto [OF assms(1,2), of K_Exit]
    by (auto simp: consumer_test_def busy_def copier_inv_def jobs_ok_def)
next
  case False
  let ?n = "nat (bufferCounter s - 1)"
  let ?job = "buffer s ! ?n"
  let ?s = "consumer_goto k (K_Copy ?job) (s\<lparr>bufferCounter := bufferCounter s - 1, mtx := Some k, taken := taken s @ [?job]\<rparr>)"
  have b: "0 < bufferCounter s" "?n < length (buffer s)" "nat (bufferCounter s) = Suc ?n"
    using assms(1) False by (auto simp: copier_inv_def jobs_ok_def)
  then have t: "consumer_test k s = ?s"
    using assms(1) False by (auto simp: consumer_test_def Let_def copier_inv_def jobs_ok_def)
  have st: "stack s = stack ?s @ [?job]"
    using b by (simp add: stack_def consumer_goto_def take_Suc_conv_app_nth)
  have iw: "mset (in_work ?s) = mset (in_work s) + {#?job#}"
    using in_work_set [OF assms(2), of "K_Copy ?job"] assms(3) by (auto simp: in_work_def consumer_goto_def)
  have perm: "mset (all_jobs ?s) = mset (all_jobs s)"
    using iw st by (simp add: all_jobs_def consumer_goto_def)
  have files: "open_files ?s = open_files s" "opened ?s = opened s" "finished ?s = finished s" "prod_at ?s = prod_at s"
    by (simp_all add: consumer_goto_def)
  have "jobs_ok ?s" using assms(1) b iw inv_perm [OF perm, of fd] st
    by (auto simp: copier_inv_def jobs_ok_def consumer_goto_def)
  moreover have "mutex_ok ?s" using assms
    by (auto simp: copier_inv_def mutex_ok_def consumer_goto_def nth_list_update busy_def)
  moreover have "files_ok ?s"
    using assms(1) mset_eq_setD [OF perm] st unfolding copier_inv_def files_ok_def files by auto
  ultimately show ?thesis by (simp add: t copier_inv_def)
qed

lemma inv_consume:
  assumes "copier_inv s" "k < length (consumers s)" "consumers s ! k = K_Copy job"
  shows "copier_inv (consume k job s)"
proof -
  obtain rest copy where rc: "open_files s ! fd job = (rest, copy)" by fastforce
  have "K_Copy job \<in> set (consumers s)" using assms(2,3) nth_mem by fastforce
  then have mem: "job \<in> set (in_work s)" by (force simp: in_work_def)
  show ?thesis
  proof (cases "rest = []")
    case True
    let ?s = "consumer_goto k K_Unlock (s\<lparr>finished := finished s @ [job]\<rparr>)"
    have iw: "mset (in_work s) = mset (in_work ?s) + {#job#}"
      using in_work_set [OF assms(2), of K_Unlock] assms(3) by (simp add: in_work_def consumer_goto_def)
    have st: "stack ?s = stack s" by (simp add: stack_def consumer_goto_def)
    have perm: "mset (all_jobs ?s) = mset (all_jobs s)"
      using iw st by (simp add: all_jobs_def consumer_goto_def)
    have files: "open_files ?s = open_files s" "opened ?s = opened s" "finished ?s = finished s @ [job]" "prod_at ?s = prod_at s"
      by (simp_all add: consumer_goto_def)
    have "jobs_ok ?s" using assms(1) iw inv_perm [OF perm, of fd] st
      by (auto simp: copier_inv_def jobs_ok_def consumer_goto_def)
    moreover have "mutex_ok ?s" using assms
      by (auto simp: copier_inv_def mutex_ok_def consumer_goto_def nth_list_update busy_def)
    moreover have "files_ok ?s"
      using assms(1) mset_eq_setD [OF perm] rc True unfolding copier_inv_def files_ok_def files st by auto
    ultimately show ?thesis using rc True by (simp add: consume_def copier_inv_def)
  next
    case False
    let ?s = "s\<lparr>open_files := (open_files s)[fd job := (drop COPY_BUF rest, copy @ take COPY_BUF rest)]\<rparr>"
    have d: "distinct (map fd (all_jobs s))" using assms(1) by (simp add: copier_inv_def jobs_ok_def)
    have ne: "fd job \<noteq> fd x" if "x \<in> set (stack s @ pending (prod_at s)) \<union> set (finished s)" for x
      using d mem that by (auto simp: all_jobs_def)
    have "\<forall>x\<in>set (stack s @ pending (prod_at s)). open_files ?s ! fd x = open_files s ! fd x"
        "\<forall>x\<in>set (finished s). open_files ?s ! fd x = open_files s ! fd x"
      using ne by auto
    moreover have "snd (open_files ?s ! i) @ fst (open_files ?s ! i) = snd (open_files s ! i) @ fst (open_files s ! i)"
      if "i < length (open_files s)" for i
      using rc that by (cases "i = fd job") simp_all
    moreover have "all_jobs ?s = all_jobs s" "stack ?s = stack s" "in_work ?s = in_work s"
      by (simp_all add: all_jobs_def stack_def in_work_def)
    ultimately have "files_ok ?s" using assms(1) unfolding copier_inv_def files_ok_def by simp
    then have "copier_inv ?s" using assms(1)
      by (simp add: copier_inv_def jobs_ok_def mutex_ok_def all_jobs_def stack_def in_work_def)
    then show ?thesis using rc False by (simp add: consume_def)
  qed
qed

lemma inv_unlock:
  assumes "copier_inv s" "k < length (consumers s)" "consumers s ! k = K_Unlock"
  shows "copier_inv (consumer_goto k K_Lock (s\<lparr>mtx := None\<rparr>))"
proof -
  have "map working ((consumers s)[k := K_Lock]) = map working (consumers s)"
    using assms(2,3) by (simp add: map_update list_update_same_conv)
  moreover have "mtx s = Some k" using assms by (auto simp: copier_inv_def mutex_ok_def busy_def)
  ultimately show ?thesis using assms
    by (auto simp: inv_defs consumer_goto_def nth_list_update busy_def)
qed

section \<open>Undisturbed schedules\<close>

definition undisturbed :: "copier_event \<Rightarrow> bool" where
  "undisturbed ev = (case ev of Sigint_event \<Rightarrow> False | IOFails k \<Rightarrow> False | _ \<Rightarrow> True)"

lemma producer_inv:
  assumes "copier_inv s" "producer s = Some s'"
  shows "copier_inv s'"
proof (cases "prod_at s")
  case (P_Search ops)
  show ?thesis
  proof (cases ops)
    case Nil
    have "s' = s\<lparr>copier_done := True, prod_at := P_Exit\<rparr>" using P_Search Nil assms(2) by (simp add: producer_def)
    then show ?thesis using P_Search assms(1) inv_prod [of P_Exit "s\<lparr>copier_done := True\<rparr>"] by simp
  next
    case (Cons op rest)
    show ?thesis
    proof (cases op)
      case (O_Copy a b bytes ok)
      then show ?thesis using inv_copyFile [OF assms(1), of a b bytes ok rest] P_Search Cons assms(2)
        by (simp add: producer_def)
    qed (use P_Search Cons assms inv_prod [of "P_Search rest"] in \<open>auto simp: producer_def\<close>)
  qed
next
  case (P_Lock job sz ops)
  then show ?thesis using assms inv_put_job [OF assms(1), of job sz ops] by (auto simp: producer_def split: if_splits)
next
  case (P_Woke job sz ops)
  then show ?thesis using assms inv_put_job [OF assms(1), of job sz ops] by (auto simp: producer_def split: if_splits)
qed (use assms(2) in \<open>simp_all add: producer_def\<close>)

lemma consumer_inv:
  assumes "copier_inv s" "consumer k s = Some s'"
  shows "copier_inv s'"
proof -
  have k: "k < length (consumers s)" using assms(2) by (simp add: consumer_def split: if_splits)
  show ?thesis
  proof (cases "consumers s ! k")
    case K_Lock
    then show ?thesis using assms k inv_consumer_test [OF assms(1) k] by (simp add: consumer_def split: if_splits)
  next
    case K_Woke
    then show ?thesis using assms k inv_consumer_test [OF assms(1) k] by (simp add: consumer_def split: if_splits)
  next
    case (K_Copy job)
    then show ?thesis using assms(2) k inv_consume [OF assms(1) k] by (simp add: consumer_def)
  next
    case K_Unlock
    have "k < length (consumers (wake_producer s))" "consumers (wake_producer s) ! k = K_Unlock"
      using k K_Unlock by (simp_all add: wake_producer_def)
    then show ?thesis using assms K_Unlock k inv_unlock [of "wake_producer s" k] by (simp add: consumer_def)
  qed (use assms(2) k in \<open>simp_all add: consumer_def\<close>)
qed

lemma copier_main_inv: "copier_inv s \<Longrightarrow> copier_main arg s = Some s' \<Longrightarrow> copier_inv s'"
  by (auto simp: copier_main_def Let_def split: proc_pc.splits if_splits)

lemma copier_stepE:
  assumes "copier_step arg ev s = Some s'"
  obtains "ev = Produce_step" "producer s = Some s'"
  | k where "ev = Consume_step k" "consumer k s = Some s'"
  | "ev = Main_step" "copier_main arg s = Some s'"
  | k where "ev = IOFails k" "consume_fails k s = Some s'"
  | k where "ev = Spurious k" "k < length (consumers s)" "consumers s ! k = K_Wait" "s' = consumer_goto k K_Woke s"
  | "ev = SpuriousProducer" "s' = wake_producer s"
  | "ev = Sigint_event" "s' = sigint_handler s"
  using assms by (cases ev) (auto simp: copier_step_def split: if_splits)

lemma copier_step_inv:
  assumes "copier_inv s" "undisturbed ev" "copier_step arg ev s = Some s'"
  shows "copier_inv s'"
  using assms(3)
proof (cases rule: copier_stepE)
  case 1
  then show ?thesis using producer_inv assms(1) by blast
next
  case (2 k)
  then show ?thesis using consumer_inv assms(1) by blast
next
  case 3
  then show ?thesis using copier_main_inv assms(1) by blast
next
  case (4 k)
  then show ?thesis using assms(2) by (simp add: undisturbed_def)
next
  case (5 k)
  then show ?thesis using inv_consumer_goto [OF assms(1) 5(2), of K_Woke] by (simp add: busy_def)
next
  case 6
  then show ?thesis using assms(1) by simp
next
  case 7
  then show ?thesis using assms(2) by (simp add: undisturbed_def)
qed

lemma copier_start_inv:
  assumes "int (length junk) = c_atoi arg1"
  shows "copier_inv (copier_start src dst entries arg1 arg2 junk)"
proof -
  have "concat (map working (replicate n K_Lock)) = []" for n by (induction n) simp_all
  then show ?thesis using assms by (simp add: inv_defs copier_start_def busy_def)
qed

section \<open>What is copied\<close>

text \<open>The regular files of a walk: source, copy and contents.\<close>

fun files_of :: "walk_op list \<Rightarrow> (string \<times> string \<times> string) list" where
  "files_of [] = []"
| "files_of (O_Copy a b bytes ok # ops) =
     (if ok then (a, b @ ''/'' @ base_name a, bytes) # files_of ops else files_of ops)"
| "files_of (_ # ops) = files_of ops"

fun ops_left :: "producer_pc \<Rightarrow> walk_op list" where
  "ops_left (P_Search ops) = ops"
| "ops_left (P_Lock job sz ops) = ops"
| "ops_left (P_Wait job sz ops) = ops"
| "ops_left (P_Woke job sz ops) = ops"
| "ops_left P_Exit = []"

definition described :: "copier \<Rightarrow> file_copy \<Rightarrow> string \<times> string \<times> string" where
  "described s job = (source_filename job, destination_filename job, opened s ! fd job)"

definition walk_ok :: "(string \<times> string \<times> string) list \<Rightarrow> copier \<Rightarrow> bool" where
  "walk_ok fs s \<longleftrightarrow> map (described s) (produced s @ pending (prod_at s)) @ files_of (ops_left (prod_at s)) = fs"

lemma walk_fields [simp]:
  "walk_ok fs (s\<lparr>proc := p\<rparr>) = walk_ok fs s" "walk_ok fs (wake_consumers s) = walk_ok fs s"
  "walk_ok fs (consumer_goto k pc s) = walk_ok fs s" "walk_ok fs (s\<lparr>mtx := m\<rparr>) = walk_ok fs s"
  "walk_ok fs (s\<lparr>open_files := fl\<rparr>) = walk_ok fs s" "walk_ok fs (s\<lparr>finished := fi\<rparr>) = walk_ok fs s"
  "walk_ok fs (s\<lparr>report_line := r\<rparr>) = walk_ok fs s"
  by (simp_all add: walk_ok_def described_def [abs_def] wake_consumers_def consumer_goto_def)

lemma walk_wake_producer [simp]: "walk_ok fs (wake_producer s) = walk_ok fs s"
  by (cases "prod_at s") (simp_all add: walk_ok_def described_def [abs_def] wake_producer_def)

lemma produced_fd:
  assumes "copier_inv s" "job \<in> set (produced s @ pending (prod_at s))"
  shows "fd job < length (opened s)"
proof -
  have "set (produced s) = set (stack s) \<union> set (taken s)" "set (taken s) = set (in_work s) \<union> set (finished s)"
    using assms(1) unfolding copier_inv_def jobs_ok_def by (metis set_mset_mset set_mset_union)+
  then have "job \<in> set (all_jobs s)" using assms(2) by (auto simp: all_jobs_def)
  then show ?thesis using assms(1) by (auto simp: copier_inv_def files_ok_def)
qed

lemma producer_walk:
  assumes "copier_inv s" "walk_ok fs s" "producer s = Some s'"
  shows "walk_ok fs s'"
proof (cases "prod_at s")
  case (P_Search ops)
  show ?thesis
  proof (cases ops)
    case Nil
    then show ?thesis using P_Search assms by (auto simp: producer_def walk_ok_def described_def [abs_def])
  next
    case (Cons op rest)
    show ?thesis
    proof (cases op)
      case (O_Copy a b bytes ok)
      have "\<forall>job\<in>set (produced s). fd job < length (opened s)" using produced_fd [OF assms(1)] by simp
      then have m: "map (\<lambda>job. (source_filename job, destination_filename job, (opened s @ [bytes]) ! fd job)) (produced s)
          = map (described s) (produced s)"
        by (simp add: described_def nth_append)
      have "length (opened s) = length (open_files s)" using assms(1) by (simp add: copier_inv_def files_ok_def)
      then have "(opened s @ [bytes]) ! length (open_files s) = bytes" by (metis nth_append_length)
      then show ?thesis using P_Search Cons O_Copy assms(2,3) m
        by (auto simp: producer_def copyFile_def Let_def count_file_def walk_ok_def described_def [abs_def])
    qed (use P_Search Cons assms in \<open>auto simp: producer_def walk_ok_def described_def [abs_def]\<close>)
  qed
next
  case (P_Lock job sz ops)
  then show ?thesis using assms(2,3)
    by (auto simp: producer_def put_job_def count_file_def wake_consumers_def walk_ok_def described_def [abs_def] split: if_splits)
next
  case (P_Woke job sz ops)
  then show ?thesis using assms(2,3)
    by (auto simp: producer_def put_job_def count_file_def wake_consumers_def walk_ok_def described_def [abs_def] split: if_splits)
qed (use assms(3) in \<open>simp_all add: producer_def\<close>)

lemma walk_taken [simp]: "walk_ok fs (s\<lparr>bufferCounter := n, mtx := m, taken := t\<rparr>) = walk_ok fs s"
  by (simp add: walk_ok_def described_def [abs_def])

lemma copier_step_walk:
  assumes "copier_inv s \<and> walk_ok fs s" "undisturbed ev" "copier_step arg ev s = Some s'"
  shows "copier_inv s' \<and> walk_ok fs s'"
proof -
  have w: "walk_ok fs s" "copier_inv s" using assms(1) by simp_all
  have "walk_ok fs s'"
    using assms(3)
  proof (cases rule: copier_stepE)
    case 1
    then show ?thesis using producer_walk w by blast
  next
    case (2 k)
    then show ?thesis using w
      by (auto simp: consumer_def consumer_test_def consume_def Let_def split: if_splits consumer_pc.splits prod.splits)
  next
    case 3
    then show ?thesis using w by (auto simp: copier_main_def Let_def split: proc_pc.splits if_splits)
  qed (use w assms(2) in \<open>simp_all add: undisturbed_def\<close>)
  then show ?thesis using copier_step_inv [OF w(2) assms(2,3)] by simp
qed

text \<open>
  C20. In every schedule without an interrupt or an input-output error, whatever the number of
  consumers: the jobs made so far are those of the walk, in order, with the contents of
  their files; each is still on the stack with an empty copy, or has been taken by one
  consumer; a finished copy equals its source; the stack stays within the buffer, and one
  consumer at most is between taking a job and unlocking.
\<close>

theorem old_copier_safe:
  assumes "int (length junk) = c_atoi arg1" "list_all undisturbed es"
    and "s = sched_run (copier_step arg2) es (copier_start src dst entries arg1 arg2 junk)"
  shows "(\<exists>rest. map (described s) (produced s) @ rest = files_of (directorySearch src dst entries))
    \<and> distinct (map fd (produced s)) \<and> mset (produced s) = mset (stack s) + mset (taken s)
    \<and> (\<forall>job\<in>set (stack s). open_files s ! fd job = (opened s ! fd job, []))
    \<and> (\<forall>job\<in>set (finished s). open_files s ! fd job = ([], opened s ! fd job))
    \<and> 0 \<le> bufferCounter s \<and> bufferCounter s \<le> int (length (buffer s))
    \<and> (\<forall>j<length (consumers s). \<forall>k<length (consumers s). busy (consumers s ! j) \<and> busy (consumers s ! k) \<longrightarrow> j = k)"
proof -
  let ?fs = "files_of (directorySearch src dst entries)"
  have "copier_inv s \<and> walk_ok ?fs s" unfolding assms(3)
  proof (rule sched_run_invariant_on [where P = undisturbed])
    show "list_all undisturbed es" by (rule assms(2))
    show "copier_inv (copier_start src dst entries arg1 arg2 junk) \<and> walk_ok ?fs (copier_start src dst entries arg1 arg2 junk)"
      using copier_start_inv [OF assms(1)] by (simp add: copier_start_def walk_ok_def)
  qed (rule copier_step_walk)
  then have inv: "copier_inv s" and w: "walk_ok ?fs s" by simp_all
  have d: "distinct (map fd (all_jobs s))" and p: "mset (produced s) = mset (stack s) + mset (taken s)"
      and t: "mset (taken s) = mset (in_work s) + mset (finished s)"
    using inv by (auto simp: copier_inv_def jobs_ok_def)
  have "mset (produced s @ pending (prod_at s)) = mset (all_jobs s)"
    by (simp add: all_jobs_def p t)
  then have "distinct (map fd (produced s @ pending (prod_at s)))" using d inv_perm by blast
  then have "distinct (map fd (produced s))" by simp
  moreover have lt: "fd job < length (open_files s)" if "job \<in> set (stack s) \<union> set (finished s)" for job
    using inv that by (auto simp: copier_inv_def files_ok_def all_jobs_def)
  have whole: "snd (open_files s ! i) @ fst (open_files s ! i) = opened s ! i" if "i < length (open_files s)" for i
    using inv that by (auto simp: copier_inv_def files_ok_def)
  have "open_files s ! fd job = (opened s ! fd job, [])" if "job \<in> set (stack s)" for job
  proof -
    have "snd (open_files s ! fd job) = []" using inv that by (simp add: copier_inv_def files_ok_def)
    moreover have "fd job < length (open_files s)" using lt that by simp
    ultimately show ?thesis using whole [of "fd job"] by (simp add: prod_eq_iff)
  qed
  moreover have "open_files s ! fd job = ([], opened s ! fd job)" if "job \<in> set (finished s)" for job
  proof -
    have "fst (open_files s ! fd job) = []" using inv that by (simp add: copier_inv_def files_ok_def)
    moreover have "fd job < length (open_files s)" using lt that by simp
    ultimately show ?thesis using whole [of "fd job"] by (simp add: prod_eq_iff)
  qed
  moreover have "\<exists>rest. map (described s) (produced s) @ rest = ?fs"
    using w by (auto simp: walk_ok_def)
  moreover have "\<forall>j<length (consumers s). \<forall>k<length (consumers s). busy (consumers s ! j) \<and> busy (consumers s ! k) \<longrightarrow> j = k"
    using inv by (auto simp: copier_inv_def mutex_ok_def)
  moreover have "0 \<le> bufferCounter s \<and> bufferCounter s \<le> int (length (buffer s))"
    using inv by (simp add: copier_inv_def jobs_ok_def)
  ultimately show ?thesis using p by blast
qed

definition demo_tree :: "(string \<times> copy_item) list" where
  "demo_tree = [(''a'', Regular ''xy'' True), (''d'', Folder [(''b'', Regular ''z'' True)])]"

definition demo_job :: file_copy where
  "demo_job = \<lparr>fd = 0, source_filename = [], destination_filename = []\<rparr>"

definition demo_copier :: copier where
  "demo_copier = copier_start ''s'' ''t'' demo_tree ''2'' ''1'' [demo_job, demo_job]"

definition demo_events :: "copier_event list" where
  "demo_events = replicate 5 Produce_step @ replicate 4 (Consume_step 0)"

lemma demo_sizes: "int (length [demo_job, demo_job]) = c_atoi ''2''"
  by (simp add: c_atoi_def c_isspace_def c_isdigit_def digits_val_def digit_val_def)

theorem old_copier_safe_witness:
  "(\<exists>rest. map (described (sched_run (copier_step ''1'') demo_events demo_copier))
        (produced (sched_run (copier_step ''1'') demo_events demo_copier)) @ rest
      = [(''s/a'', ''t/a'', ''xy''), (''s/d/b'', ''t/d/b'', ''z'')])
   \<and> distinct (map fd (produced (sched_run (copier_step ''1'') demo_events demo_copier)))"
proof -
  have "list_all undisturbed demo_events" by (simp add: demo_events_def undisturbed_def list_all_iff)
  moreover have "files_of (directorySearch ''s'' ''t'' demo_tree) = [(''s/a'', ''t/a'', ''xy''), (''s/d/b'', ''t/d/b'', ''z'')]"
    by (simp add: demo_tree_def NAME_BUF_def base_name_def tokens_def Let_def)
  ultimately show ?thesis
    using old_copier_safe [OF demo_sizes _ refl, where es = demo_events and ?arg2.0 = "''1''" and src = "''s''"
        and dst = "''t''" and entries = demo_tree]
    unfolding demo_copier_def by simp
qed

section \<open>What is not copied\<close>

definition no_interrupt :: "copier_event \<Rightarrow> bool" where
  "no_interrupt ev = (case ev of Sigint_event \<Rightarrow> False | _ \<Rightarrow> True)"

definition ended_ok :: "copier \<Rightarrow> bool" where
  "ended_ok s \<longleftrightarrow> \<not> signalint s \<and> (copier_done s \<longrightarrow> prod_at s = P_Exit)"

lemma consumer_fields:
  assumes "consumer k s = Some s'"
  shows "prod_at s' = P_Exit \<longleftrightarrow> prod_at s = P_Exit" "signalint s' = signalint s" "copier_done s' = copier_done s"
  using assms by (auto simp: consumer_def consumer_test_def consume_def consumer_goto_def wake_producer_def Let_def
      split: if_splits consumer_pc.splits producer_pc.splits prod.splits)

lemma main_fields:
  assumes "copier_main arg s = Some s'"
  shows "prod_at s' = prod_at s" "signalint s' = signalint s" "copier_done s' = copier_done s"
    "taken s' = taken s" "stack s' = stack s" "consumers s' = consumers s"
  using assms by (auto simp: copier_main_def Let_def stack_def split: if_splits proc_pc.splits)

lemma producer_fields:
  assumes "producer s = Some s'"
  shows "signalint s' = signalint s" "copier_done s' \<Longrightarrow> copier_done s \<or> prod_at s' = P_Exit"
    "prod_at s \<noteq> P_Exit" "taken s' = taken s"
  using assms by (auto simp: producer_def copyFile_def put_job_def count_file_def wake_consumers_def Let_def
      split: if_splits producer_pc.splits list.splits walk_op.splits)

lemma ended_step:
  assumes "ended_ok s" "no_interrupt ev" "copier_step arg ev s = Some s'"
  shows "ended_ok s'"
  using assms(3)
proof (cases rule: copier_stepE)
  case 1
  then show ?thesis using producer_fields [OF 1(2)] assms(1) by (auto simp: ended_ok_def)
next
  case (2 k)
  then show ?thesis using consumer_fields [OF 2(2)] assms(1) by (simp add: ended_ok_def)
next
  case 3
  then show ?thesis using main_fields [OF 3(2)] assms(1) by (simp add: ended_ok_def)
next
  case (4 k)
  then show ?thesis using assms(1)
    by (auto simp: ended_ok_def consume_fails_def consumer_goto_def split: if_splits consumer_pc.splits)
next
  case (5 k)
  then show ?thesis using assms(1) by (simp add: ended_ok_def consumer_goto_def)
next
  case 6
  then show ?thesis using assms(1) by (auto simp: ended_ok_def wake_producer_def)
next
  case 7
  then show ?thesis using assms(2) by (simp add: no_interrupt_def)
qed

lemma frozen_step:
  assumes "ended_ok s \<and> copier_done s \<and> taken s = t \<and> stack s = st" "no_interrupt ev" "copier_step arg ev s = Some s'"
  shows "ended_ok s' \<and> copier_done s' \<and> taken s' = t \<and> stack s' = st"
proof -
  have e: "ended_ok s'" using ended_step assms by blast
  from assms(3) have "copier_done s' \<and> taken s' = taken s \<and> stack s' = stack s"
  proof (cases rule: copier_stepE)
    case 1
    then show ?thesis using producer_fields(3) [OF 1(2)] assms(1) by (auto simp: ended_ok_def)
  next
    case (2 k)
    then show ?thesis using assms(1)
      by (auto simp: consumer_def consumer_test_def consume_def consumer_goto_def wake_producer_def Let_def stack_def ended_ok_def
          split: if_splits consumer_pc.splits producer_pc.splits prod.splits)
  next
    case 3
    then show ?thesis using main_fields [OF 3(2)] assms(1) by simp
  next
    case (4 k)
    then show ?thesis using assms(1)
      by (auto simp: consume_fails_def consumer_goto_def stack_def split: if_splits consumer_pc.splits)
  next
    case (5 k)
    then show ?thesis using assms(1) by (simp add: consumer_goto_def stack_def)
  next
    case 6
    then show ?thesis using assms(1) by (simp add: wake_producer_def stack_def)
  next
    case 7
    then show ?thesis using assms(2) by (simp add: no_interrupt_def)
  qed
  then show ?thesis using e assms(1) by simp
qed

text \<open>
  The copier drops files: in every schedule without an interrupt, once the producer has
  finished its walk, no further job is taken, and those on the stack stay there for ever.
\<close>

theorem old_copier_drops_jobs:
  assumes "list_all no_interrupt es" "list_all no_interrupt fs"
    and "s = sched_run (copier_step arg2) es (copier_start src dst entries arg1 arg2 junk)" "copier_done s"
  shows "taken (sched_run (copier_step arg2) fs s) = taken s \<and> stack (sched_run (copier_step arg2) fs s) = stack s"
proof -
  have "ended_ok s" unfolding assms(3)
  proof (rule sched_run_invariant_on [where P = no_interrupt])
    show "ended_ok (copier_start src dst entries arg1 arg2 junk)" by (simp add: ended_ok_def copier_start_def)
    show "list_all no_interrupt es" by (rule assms(1))
  qed (rule ended_step)
  then have "ended_ok s \<and> copier_done s \<and> taken s = taken s \<and> stack s = stack s" using assms(4) by simp
  then have "ended_ok (sched_run (copier_step arg2) fs s) \<and> copier_done (sched_run (copier_step arg2) fs s)
      \<and> taken (sched_run (copier_step arg2) fs s) = taken s \<and> stack (sched_run (copier_step arg2) fs s) = stack s"
  proof (rule sched_run_invariant_on [where P = no_interrupt, rotated])
    show "list_all no_interrupt fs" by (rule assms(2))
  qed (rule frozen_step)
  then show ?thesis by simp
qed

definition drop_events :: "copier_event list" where
  "drop_events = replicate 7 Produce_step"

lemma drop_run:
  "(\<lambda>s. (copier_done s, map source_filename (stack s), taken s)) (sched_run (copier_step ''1'') drop_events demo_copier)
   = (True, [''s/a'', ''s/d/b''], [])"
  by code_simp

theorem old_copier_drops_jobs_witness:
  "\<forall>n. taken (sched_run (copier_step ''1'') (replicate n (Consume_step 0))
          (sched_run (copier_step ''1'') drop_events demo_copier)) = []
     \<and> map source_filename (stack (sched_run (copier_step ''1'') (replicate n (Consume_step 0))
          (sched_run (copier_step ''1'') drop_events demo_copier))) = [''s/a'', ''s/d/b'']"
proof
  fix n
  have "list_all no_interrupt drop_events" "list_all no_interrupt (replicate n (Consume_step 0))"
    by (simp_all add: drop_events_def no_interrupt_def list_all_iff)
  then show "taken (sched_run (copier_step ''1'') (replicate n (Consume_step 0))
          (sched_run (copier_step ''1'') drop_events demo_copier)) = []
     \<and> map source_filename (stack (sched_run (copier_step ''1'') (replicate n (Consume_step 0))
          (sched_run (copier_step ''1'') drop_events demo_copier))) = [''s/a'', ''s/d/b'']"
    using old_copier_drops_jobs [OF _ _ refl, where es = drop_events and fs = "replicate n (Consume_step 0)"
        and ?arg2.0 = "''1''" and ?arg1.0 = "''2''" and src = "''s''" and dst = "''t''" and entries = demo_tree
        and junk = "[demo_job, demo_job]"] drop_run
    by (simp add: demo_copier_def)
qed

section \<open>A report without a copy\<close>

text \<open>A walk on which no call fails and no name is too long.\<close>

fun smooth :: "walk_op list \<Rightarrow> bool" where
  "smooth [] = True"
| "smooth (O_Copy a b bytes ok # ops) \<longleftrightarrow> ok \<and> length (b @ ''/'' @ base_name a) < NAME_BUF \<and> smooth ops"
| "smooth (O_Fault e # ops) = False"
| "smooth (_ # ops) = smooth ops"

fun walk_counts :: "walk_op list \<Rightarrow> int \<times> int \<times> int \<times> int" where
  "walk_counts [] = (0, 0, 0, 0)"
| "walk_counts (op # ops) = (case walk_counts ops of (fs, ds, ps, bs) \<Rightarrow>
     (case op of O_Copy a b bytes ok \<Rightarrow> (fs + 1, ds, ps, bs + int (length bytes))
      | O_Mkdir p \<Rightarrow> (fs, ds + 1, ps, bs) | O_Fifo p \<Rightarrow> (fs, ds, ps + 1, bs) | O_Fault e \<Rightarrow> (fs, ds, ps, bs)))"

definition counted :: "copier \<Rightarrow> int \<times> int \<times> int \<times> int" where
  "counted s = (num_files_copied s, num_dirs_copied s, num_of_fifo_copied s, num_bytes_copied s)"

definition add_counts :: "int \<times> int \<times> int \<times> int \<Rightarrow> int \<times> int \<times> int \<times> int \<Rightarrow> int \<times> int \<times> int \<times> int" where
  "add_counts x y = (case x of (a, b, c, d) \<Rightarrow> case y of (a', b', c', d') \<Rightarrow> (a + a', b + b', c + c', d + d'))"

text \<open>The producer alone, from a state in which its files fit into the buffer.\<close>

definition ready :: "walk_op list \<Rightarrow> copier \<Rightarrow> bool" where
  "ready ops s \<longleftrightarrow> prod_at s = P_Search ops \<and> proc s = H_JoinProducer \<and> mtx s = None \<and> \<not> buffer_freed s \<and> 0 \<le> bufferCounter s
     \<and> bufferCounter s + int (length (files_of ops)) \<le> int (length (buffer s)) \<and> int (length (buffer s)) = buffer_size s
     \<and> taken s = [] \<and> (\<forall>f\<in>set (open_files s). snd f = [])
     \<and> (case walk_counts ops of (fs, ds, ps, bs) \<Rightarrow> num_bytes_copied s + bs < 2 ^ 31)"

lemma walk_counts_nonneg: "walk_counts ops = (fs, ds, ps, bs) \<Longrightarrow> 0 \<le> bs"
  by (induction ops arbitrary: fs ds ps bs) (force split: prod.splits walk_op.splits)+

lemma producer_runs:
  "ready ops s \<Longrightarrow> smooth ops \<Longrightarrow> \<exists>n. let s' = sched_run (copier_step arg) (replicate n Produce_step) s
     in ready [] s' \<and> counted s' = add_counts (counted s) (walk_counts ops)"
proof (induction ops arbitrary: s)
  case Nil
  then show ?case by (intro exI [of _ 0]) (simp add: add_counts_def counted_def)
next
  case (Cons op ops)
  have go_on: "\<exists>n. let s' = sched_run (copier_step arg) (replicate n Produce_step) s
     in ready [] s' \<and> counted s' = add_counts (counted s) (walk_counts (op # ops))"
    if "sched_run (copier_step arg) (replicate m Produce_step) s = s2" "ready ops s2" "smooth ops"
      "add_counts (counted s2) (walk_counts ops) = add_counts (counted s) (walk_counts (op # ops))" for m s2
  proof -
    note pre = that
    obtain n where n: "let s' = sched_run (copier_step arg) (replicate n Produce_step) s2
       in ready [] s' \<and> counted s' = add_counts (counted s2) (walk_counts ops)"
      using Cons.IH [OF pre(2,3)] by blast
    have "sched_run (copier_step arg) (replicate (m + n) Produce_step) s
        = sched_run (copier_step arg) (replicate n Produce_step) s2"
      using pre(1) by (simp add: replicate_add sched_run_append)
    then show ?thesis using n pre(4) by (intro exI [of _ "m + n"]) (simp add: Let_def)
  qed
  obtain fs ds ps bs where wc: "walk_counts ops = (fs, ds, ps, bs)" by (cases "walk_counts ops") auto
  note bs = walk_counts_nonneg [OF wc]
  note r = Cons.prems(1) [unfolded ready_def]
  show ?case
  proof (cases op)
    case (O_Mkdir p)
    let ?s = "s\<lparr>num_dirs_copied := num_dirs_copied s + 1, prod_at := P_Search ops\<rparr>"
    show ?thesis
      by (rule go_on [of "Suc 0" ?s]) (use r O_Mkdir Cons.prems(2) wc in
        \<open>auto simp: copier_step_def producer_def ready_def counted_def add_counts_def\<close>)
  next
    case (O_Fifo p)
    let ?s = "s\<lparr>num_of_fifo_copied := num_of_fifo_copied s + 1, prod_at := P_Search ops\<rparr>"
    show ?thesis
      by (rule go_on [of "Suc 0" ?s]) (use r O_Fifo Cons.prems(2) wc in
        \<open>auto simp: copier_step_def producer_def ready_def counted_def add_counts_def\<close>)
  next
    case (O_Fault e)
    then show ?thesis using Cons.prems(2) by simp
  next
    case (O_Copy a b bytes ok)
    let ?job = "\<lparr>fd = length (open_files s), source_filename = a, destination_filename = b @ ''/'' @ base_name a\<rparr>"
    let ?s1 = "s\<lparr>open_files := open_files s @ [(bytes, [])], opened := opened s @ [bytes],
        prod_at := P_Lock ?job (int (length bytes)) ops\<rparr>"
    let ?s2 = "put_job ?job (int (length bytes)) ops ?s1"
    have small: "num_bytes_copied s + int (length bytes) < 2 ^ 31" using r wc bs O_Copy by simp
    have s1: "copier_step arg Produce_step s = Some ?s1"
      using r O_Copy Cons.prems(2) by (auto simp: copier_step_def producer_def copyFile_def Let_def)
    have s2: "copier_step arg Produce_step ?s1 = Some ?s2"
      using r by (simp add: copier_step_def producer_def)
    show ?thesis
    proof (rule go_on [of "Suc (Suc 0)" ?s2])
      show "sched_run (copier_step arg) (replicate (Suc (Suc 0)) Produce_step) s = ?s2" using s1 s2 by simp
      show "ready ops ?s2" using r O_Copy Cons.prems(2) wc small
        by (auto simp: ready_def put_job_def count_file_def wake_consumers_def)
      show "smooth ops" using O_Copy Cons.prems(2) by simp
      show "add_counts (counted ?s2) (walk_counts ops) = add_counts (counted s) (walk_counts (op # ops))"
        using r O_Copy Cons.prems(2) wc small
        by (auto simp: put_job_def count_file_def wake_consumers_def counted_def add_counts_def)
    qed
  qed
qed

text \<open>
  The copier can report a complete copy without having copied a byte: for every tree
  whose files fit into the buffer and on which no call fails, and with fewer than ten
  consumers (a number of one digit), there is a schedule on which the process ends
  normally and prints the true numbers of files, directories, FIFOs and bytes, while no job
  has been taken and every copy is empty: \<^verbatim>\<open>atoi(argv[2] + 1)\<close> is 0, so that \<^verbatim>\<open>main\<close> waits for no
  consumer.
\<close>

theorem old_copier_reports_without_copying:
  assumes "smooth (directorySearch src dst entries)" "int (length junk) = c_atoi arg1" "length arg2 = 1"
    and "int (length (files_of (directorySearch src dst entries))) \<le> c_atoi arg1"
    and "walk_counts (directorySearch src dst entries) = (fs, ds, ps, bs)" "bs < 2 ^ 31"
  shows "\<exists>es s. list_all undisturbed es \<and> s = sched_run (copier_step arg2) es (copier_start src dst entries arg1 arg2 junk)
    \<and> proc s = H_Exit \<and> report_line s = Some (fs, ds, ps, bs) \<and> taken s = [] \<and> (\<forall>f\<in>set (open_files s). snd f = [])"
proof -
  let ?ops = "directorySearch src dst entries"
  let ?s0 = "copier_start src dst entries arg1 arg2 junk"
  have "ready ?ops ?s0" using assms(2,4-6) by (simp add: ready_def copier_start_def)
  then obtain n where n: "let s' = sched_run (copier_step arg2) (replicate n Produce_step) ?s0
     in ready [] s' \<and> counted s' = add_counts (counted ?s0) (walk_counts ?ops)"
    using producer_runs [OF _ assms(1)] by blast
  define s1 where "s1 = sched_run (copier_step arg2) (replicate n Produce_step) ?s0"
  have r: "ready [] s1" and c: "counted s1 = (fs, ds, ps, bs)"
    using n assms(5) by (simp_all add: Let_def s1_def copier_start_def counted_def add_counts_def)
  define s2 where "s2 = s1\<lparr>copier_done := True, prod_at := P_Exit\<rparr>"
  have s2: "copier_step arg2 Produce_step s1 = Some s2"
    using r by (simp add: ready_def copier_step_def producer_def s2_def)
  define s3 where "s3 = s2\<lparr>proc := H_Join 1\<rparr>"
  have s3: "copier_step arg2 Main_step s2 = Some s3"
    using r by (simp add: ready_def copier_step_def copier_main_def s2_def s3_def)
  have "joins arg2 = 0" using assms(3) by (cases arg2) (simp_all add: joins_def c_atoi_def)
  then have s4: "copier_step arg2 Main_step s3 = Some (s3\<lparr>report_line := Some (fs, ds, ps, bs), proc := H_Exit\<rparr>)"
    using r c by (simp add: ready_def counted_def copier_step_def copier_main_def s2_def s3_def Let_def)
  let ?es = "replicate n Produce_step @ [Produce_step, Main_step, Main_step]"
  have "sched_run (copier_step arg2) ?es ?s0 = s3\<lparr>report_line := Some (fs, ds, ps, bs), proc := H_Exit\<rparr>"
    using s2 s3 s4 by (simp add: sched_run_append s1_def [symmetric])
  moreover have "list_all undisturbed ?es" by (simp add: list_all_iff undisturbed_def)
  moreover have "taken s3 = []" "\<forall>f\<in>set (open_files s3). snd f = []" using r by (simp_all add: ready_def s3_def s2_def)
  ultimately show ?thesis by (intro exI [of _ ?es]) simp
qed

theorem old_copier_reports_without_copying_witness:
  "\<exists>es s. list_all undisturbed es \<and> s = sched_run (copier_step ''1'') es demo_copier
    \<and> proc s = H_Exit \<and> report_line s = Some (2, 1, 0, 3) \<and> taken s = [] \<and> (\<forall>f\<in>set (open_files s). snd f = [])"
  unfolding demo_copier_def
  by (rule old_copier_reports_without_copying)
    (simp_all add: demo_tree_def NAME_BUF_def base_name_def tokens_def Let_def c_atoi_def c_isspace_def c_isdigit_def
      digits_val_def digit_val_def)

section \<open>A consumer that is not woken\<close>

text \<open>The consumers that \<^verbatim>\<open>main\<close> has joined have ended.\<close>

definition joined_ok :: "string \<Rightarrow> copier \<Rightarrow> bool" where
  "joined_ok arg s \<longleftrightarrow> (\<forall>j. (case proc s of H_Join i \<Rightarrow> Suc j < i | H_Exit \<Rightarrow> int (Suc j) < joins arg | _ \<Rightarrow> False)
     \<longrightarrow> j < length (consumers s) \<and> consumers s ! j = K_Exit)"

lemma consumer_others:
  assumes "consumer k s = Some s'" "j < length (consumers s)" "j \<noteq> k \<or> consumers s ! j = K_Exit \<or> consumers s ! j = K_Wait"
  shows "j < length (consumers s') \<and> consumers s' ! j = consumers s ! j" "proc s' = proc s \<or> (\<exists>e. proc s' = H_Fault e)"
  using assms by (auto simp: consumer_def consumer_test_def consume_def consumer_goto_def wake_producer_def Let_def
      split: if_splits consumer_pc.splits producer_pc.splits prod.splits)

lemma producer_others:
  assumes "producer s = Some s'" "j < length (consumers s)" "consumers s ! j = K_Exit"
  shows "j < length (consumers s') \<and> consumers s' ! j = K_Exit"
  using assms by (auto simp: producer_def copyFile_def put_job_def count_file_def wake_consumers_def Let_def
      split: if_splits producer_pc.splits list.splits walk_op.splits)

lemma producer_proc:
  assumes "producer s = Some s'"
  shows "proc s' = proc s \<or> (\<exists>e. proc s' = H_Fault e)"
  using assms by (auto simp: producer_def copyFile_def put_job_def count_file_def wake_consumers_def Let_def
      split: if_splits producer_pc.splits list.splits walk_op.splits)

lemma joined_okI:
  assumes "joined_ok arg s" "proc s' = proc s \<or> (\<exists>e. proc s' = H_Fault e)"
    and "\<And>j. j < length (consumers s) \<Longrightarrow> consumers s ! j = K_Exit \<Longrightarrow> j < length (consumers s') \<and> consumers s' ! j = K_Exit"
  shows "joined_ok arg s'"
  using assms(2)
proof
  assume "proc s' = proc s"
  then show ?thesis using assms(1,3) unfolding joined_ok_def by simp
qed (auto simp: joined_ok_def)

lemma main_joined:
  assumes "joined_ok arg s" "copier_main arg s = Some s'"
  shows "joined_ok arg s'"
proof (cases "proc s")
  case (H_Join i)
  have old: "j < length (consumers s) \<and> consumers s ! j = K_Exit" if "Suc j < i" for j
    using assms(1) H_Join that by (simp add: joined_ok_def)
  show ?thesis
  proof (cases "int i < joins arg")
    case True
    have "j < length (consumers s) \<and> consumers s ! j = K_Exit"
      if "Suc j < Suc i" "\<not> length (consumers s) < i" "consumers s ! (i - 1) = K_Exit" for j
      using old [of j] that by (cases "Suc j = i") auto
    then show ?thesis using assms(2) H_Join True
      by (auto simp: copier_main_def joined_ok_def split: if_splits)
  next
    case False
    then show ?thesis using assms(2) H_Join old by (auto simp: copier_main_def joined_ok_def Let_def split: if_splits)
  qed
qed (use assms(2) in \<open>auto simp: copier_main_def joined_ok_def split: if_splits\<close>)

lemma joined_step:
  assumes "joined_ok arg s" "copier_step arg ev s = Some s'"
  shows "joined_ok arg s'"
  using assms(2)
proof (cases rule: copier_stepE)
  case 1
  show ?thesis by (rule joined_okI [OF assms(1) producer_proc [OF 1(2)] producer_others [OF 1(2)]])
next
  case (2 k)
  have k: "k < length (consumers s)" using 2(2) by (simp add: consumer_def split: if_splits)
  have "consumers s ! k \<noteq> K_Exit \<and> consumers s ! k \<noteq> K_Wait" using 2(2) k by (auto simp: consumer_def)
  moreover have "proc s' = proc s \<or> (\<exists>e. proc s' = H_Fault e)"
    using 2(2) by (auto simp: consumer_def consumer_test_def consume_def consumer_goto_def wake_producer_def Let_def
      split: if_splits consumer_pc.splits producer_pc.splits prod.splits)
  ultimately show ?thesis by (intro joined_okI [OF assms(1)]) (auto dest: consumer_others(1) [OF 2(2)])
next
  case 3
  then show ?thesis using main_joined [OF assms(1)] by simp
next
  case (4 k)
  then show ?thesis by (intro joined_okI [OF assms(1)])
    (auto simp: consume_fails_def consumer_goto_def nth_list_update split: if_splits consumer_pc.splits)
next
  case (5 k)
  then show ?thesis by (intro joined_okI [OF assms(1)]) (auto simp: consumer_goto_def nth_list_update)
next
  case 6
  then show ?thesis by (intro joined_okI [OF assms(1)]) (simp_all add: wake_producer_def)
next
  case 7
  then show ?thesis by (intro joined_okI [OF assms(1)]) (auto simp: sigint_handler_def)
qed

definition sleeps :: "nat \<Rightarrow> copier \<Rightarrow> bool" where
  "sleeps k s \<longleftrightarrow> prod_at s = P_Exit \<and> k < length (consumers s) \<and> consumers s ! k = K_Wait"

lemma sleeps_step:
  assumes "sleeps k s" "no_interrupt ev \<and> ev \<noteq> Spurious k" "copier_step arg ev s = Some s'"
  shows "sleeps k s'"
  using assms(3)
proof (cases rule: copier_stepE)
  case 1
  then show ?thesis using producer_fields(3) assms(1) by (auto simp: sleeps_def)
next
  case (2 j)
  then show ?thesis using consumer_others(1) [OF 2(2), of k] consumer_fields(1) [OF 2(2)] assms(1) by (auto simp: sleeps_def)
next
  case 3
  then show ?thesis using main_fields [OF 3(2)] assms(1) by (simp add: sleeps_def)
next
  case (4 j)
  then show ?thesis using assms(1)
    by (auto simp: sleeps_def consume_fails_def consumer_goto_def nth_list_update split: if_splits consumer_pc.splits)
next
  case (5 j)
  then show ?thesis using assms(1,2) by (auto simp: sleeps_def consumer_goto_def nth_list_update)
next
  case 6
  then show ?thesis using assms(1) by (simp add: sleeps_def wake_producer_def)
next
  case 7
  then show ?thesis using assms(2) by (simp add: no_interrupt_def)
qed

text \<open>
  A consumer that waits for a job when the walk ends is never woken, since \<open>done\<close> is set
  without a broadcast; when it is one of those that \<^verbatim>\<open>main\<close> joins, the process never ends
  normally.
\<close>

theorem old_copier_sleeping_consumer:
  assumes "list_all no_interrupt es" "s = sched_run (copier_step arg2) es (copier_start src dst entries arg1 arg2 junk)"
    and "copier_done s" "k < length (consumers s)" "consumers s ! k = K_Wait"
    and "list_all (\<lambda>ev. no_interrupt ev \<and> ev \<noteq> Spurious k) fs"
  shows "consumers (sched_run (copier_step arg2) fs s) ! k = K_Wait
    \<and> (int (Suc k) < joins arg2 \<longrightarrow> proc (sched_run (copier_step arg2) fs s) \<noteq> H_Exit)"
proof -
  have "ended_ok s" unfolding assms(2)
  proof (rule sched_run_invariant_on [where P = no_interrupt])
    show "ended_ok (copier_start src dst entries arg1 arg2 junk)" by (simp add: ended_ok_def copier_start_def)
    show "list_all no_interrupt es" by (rule assms(1))
  qed (rule ended_step)
  then have "sleeps k s" using assms(3-5) by (simp add: ended_ok_def sleeps_def)
  then have z: "sleeps k (sched_run (copier_step arg2) fs s)"
  proof (rule sched_run_invariant_on [where P = "\<lambda>ev. no_interrupt ev \<and> ev \<noteq> Spurious k", rotated])
    show "list_all (\<lambda>ev. no_interrupt ev \<and> ev \<noteq> Spurious k) fs" by (rule assms(6))
  qed (rule sleeps_step)
  have "joined_ok arg2 (sched_run (copier_step arg2) (es @ fs) (copier_start src dst entries arg1 arg2 junk))"
  proof (rule sched_run_invariant)
    show "joined_ok arg2 (copier_start src dst entries arg1 arg2 junk)" by (simp add: joined_ok_def copier_start_def)
  qed (rule joined_step)
  then have "joined_ok arg2 (sched_run (copier_step arg2) fs s)" by (simp add: sched_run_append assms(2))
  then show ?thesis using z by (auto simp: sleeps_def joined_ok_def)
qed

definition sleep_events :: "copier_event list" where
  "sleep_events = [Consume_step 0, Produce_step]"

lemma sleep_run:
  "(\<lambda>s. (copier_done s, take 1 (consumers s))) (sched_run (copier_step ''12'') sleep_events
     (copier_start ''s'' ''t'' [] ''1'' ''12'' [demo_job])) = (True, [K_Wait])"
  by code_simp

theorem old_copier_sleeping_consumer_witness:
  "\<forall>n. proc (sched_run (copier_step ''12'') (replicate n Main_step)
      (sched_run (copier_step ''12'') sleep_events (copier_start ''s'' ''t'' [] ''1'' ''12'' [demo_job]))) \<noteq> H_Exit"
proof
  fix n
  let ?s = "sched_run (copier_step ''12'') sleep_events (copier_start ''s'' ''t'' [] ''1'' ''12'' [demo_job])"
  have s: "copier_done ?s" "take 1 (consumers ?s) = [K_Wait]" using sleep_run by simp_all
  then have k: "0 < length (consumers ?s)" "consumers ?s ! 0 = K_Wait" by (cases "consumers ?s"; simp)+
  have "list_all no_interrupt sleep_events" by (simp add: sleep_events_def no_interrupt_def)
  moreover have "list_all (\<lambda>ev. no_interrupt ev \<and> ev \<noteq> Spurious 0) (replicate n Main_step)"
    by (simp add: list_all_iff no_interrupt_def)
  moreover have "joins ''12'' = 2"
    by (simp add: joins_def c_atoi_def c_isspace_def c_isdigit_def digits_val_def digit_val_def)
  ultimately show "proc (sched_run (copier_step ''12'') (replicate n Main_step) ?s) \<noteq> H_Exit"
    using old_copier_sleeping_consumer [OF _ refl s(1) k, of "replicate n Main_step"] by simp
qed

end
