(* ===== verification/DirSync.thy ===== *)
theory DirSync
  imports CText
begin

text \<open>
  The directory synchronisation of \<^verbatim>\<open>hw6\<close>: \<open>server/server.c\<close> and \<open>client/client.c\<close>, which
  share \<open>take_files\<close>, \<open>reallocate_struct\<close> and \<open>create_directory\<close> word for word.

  A directory is the listing that \<^verbatim>\<open>readdir\<close> and \<^verbatim>\<open>stat\<close> give, in order. A host is its
  directories and the contents of its files, by the components of the path; permissions are
  not modelled. The globals with the file names are a list; uninitialised cells hold an
  arbitrary entry. In every round both sides scan their directory, exchange the entries,
  compare, and the server sends its files; the two processes alternate strictly, so a round
  is a function. A packet is a name with the contents that follow it on the connection.

  \<open>take_files\<close> appends a slash to its path. The path of a subdirectory is a buffer of 512, whose
  end is modelled; that of the first call is \<open>argv[1]\<close> itself, and the slash goes one byte behind
  it, every round another one. The model has \<open>argv[1]\<close> as a string of any length, so this
  overrun, which is undefined and in practice eats up the next argument, is not a fault.
\<close>

section \<open>Entries\<close>

record sync_file =
  filename :: string
  modification_time :: string
  file_modes :: int

datatype snode = SFile int int          \<comment> \<open>modification time and mode\<close>
  | SDir "(string \<times> snode) list"      \<comment> \<open>its entries, none when it cannot be opened\<close>
  | SGone                              \<comment> \<open>\<^verbatim>\<open>stat\<close> fails\<close>

definition FILE_LEN :: nat where "FILE_LEN = 512"
definition PATH_LEN :: nat where "PATH_LEN = 256"
definition MAX_DIFFERENCE :: nat where "MAX_DIFFERENCE = 64"

text \<open>\<^verbatim>\<open>strchr(name, '/') + 1\<close>, with NULL left as it is.\<close>

definition after_slash :: "string \<Rightarrow> string option" where
  "after_slash s = (case dropWhile (\<lambda>c. c \<noteq> CHR ''/'') s of [] \<Rightarrow> None | _ # rest \<Rightarrow> Some rest)"

text \<open>The array is copied out, replaced by one with five more cells, and copied back.\<close>

definition reallocate_struct :: "sync_file \<Rightarrow> nat \<Rightarrow> sync_file list \<Rightarrow> sync_file list cres" where
  "reallocate_struct junk i arr =
     (if length arr < i then Inl OutOfBounds
      else let temp = map (\<lambda>j. arr ! j) [0..<i]
           in Inr (map (\<lambda>j. if j < i then temp ! j else junk) [0..<i + 5]))"

section \<open>Scanning\<close>

text \<open>
  The loop over a directory: the array, \<open>file_counter\<close>, and the local \<open>i\<close>, which a
  subdirectory does not change.
\<close>

fun take_loop :: "sync_file \<Rightarrow> string \<Rightarrow> (string \<times> snode) list \<Rightarrow> sync_file list \<times> nat \<times> nat
    \<Rightarrow> (sync_file list \<times> nat \<times> nat) cres" where
  "take_loop junk path [] st = Inr st"
| "take_loop junk path ((name, node) # entries) (arr, file_counter, i) =
     (if name = ''.'' \<or> name = ''..'' then take_loop junk path entries (arr, file_counter, i)
      else let file = take (FILE_LEN - 1) (path @ name) in
        case node of
          SGone \<Rightarrow> take_loop junk path entries (arr, file_counter, i)
        | SDir sub \<Rightarrow>
            if FILE_LEN \<le> length file + 1 then Inl OutOfBounds
            else cbind (take_loop junk (file @ ''/'') sub (arr, file_counter, file_counter))
                   (\<lambda>(arr, file_counter, _). take_loop junk path entries (arr, file_counter, i))
        | SFile mtime mode \<Rightarrow>
            if length arr \<le> file_counter then Inl OutOfBounds
            else let arr = arr[file_counter := \<lparr>filename = file, modification_time = take 11 (dec mtime), file_modes = mode\<rparr>];
                     n = file_counter + 1
              in cbind (if n mod 5 = 0 \<and> n \<noteq> 0 then reallocate_struct junk n arr else Inr arr)
                   (\<lambda>arr. take_loop junk path entries (arr, n, n)))"

text \<open>The path that grew, the array, the result, and the global size.\<close>

definition take_files :: "sync_file \<Rightarrow> string \<Rightarrow> nat \<Rightarrow> (string \<times> snode) list \<Rightarrow> sync_file list
    \<Rightarrow> (string \<times> sync_file list \<times> nat \<times> nat) cres" where
  "take_files junk path flag entries arr =
     (let path = (if flag = 0 then path @ ''/'' else path)
      in cbind (take_loop junk path entries (arr, 0, 0)) (\<lambda>(arr, file_counter, i). Inr (path, arr, file_counter, i)))"

section \<open>Hosts\<close>

record host =
  dirs :: "string list set"
  files :: "string list \<rightharpoonup> string"

definition path_key :: "string \<Rightarrow> string list" where
  "path_key p = (if take 1 p = ''/'' then ''/'' # tokens (CHR ''/'') p else tokens (CHR ''/'') p)"

definition parent_exists :: "string list \<Rightarrow> host \<Rightarrow> bool" where
  "parent_exists k h \<longleftrightarrow> butlast k = [] \<or> butlast k = [''/''] \<or> butlast k \<in> dirs h"

text \<open>\<^verbatim>\<open>mkdir\<close>; an existing name is no error.\<close>

definition make_dir :: "string list \<Rightarrow> host \<Rightarrow> host option" where
  "make_dir k h = (if k \<in> dirs h \<or> files h k \<noteq> None then Some h
     else if parent_exists k h then Some (h\<lparr>dirs := insert k (dirs h)\<rparr>) else None)"

text \<open>The proper prefixes of the path, without a leading slash, up to the first error.\<close>

fun make_prefixes :: "string list \<Rightarrow> string list \<Rightarrow> host \<Rightarrow> host" where
  "make_prefixes before (t # u # ts) h = (case make_dir (before @ [t]) h of
       None \<Rightarrow> h
     | Some h \<Rightarrow> make_prefixes (before @ [t]) (u # ts) h)"
| "make_prefixes before ts h = h"

definition create_directory :: "string \<Rightarrow> host \<Rightarrow> host" where
  "create_directory path h = make_prefixes [] (tokens (CHR ''/'') path) h"

text \<open>\<^verbatim>\<open>open\<close> with \<^verbatim>\<open>O_CREAT | O_TRUNC\<close>, and with \<^verbatim>\<open>O_TRUNC\<close> alone.\<close>

definition open_create :: "string \<Rightarrow> host \<Rightarrow> host option" where
  "open_create path h = (let k = path_key path in
     if parent_exists k h \<and> k \<noteq> [] \<and> k \<notin> dirs h then Some (h\<lparr>files := (files h)(k \<mapsto> [])\<rparr>) else None)"

definition open_truncate :: "string \<Rightarrow> host \<Rightarrow> host option" where
  "open_truncate path h = (let k = path_key path in
     if files h k = None then None else Some (h\<lparr>files := (files h)(k \<mapsto> [])\<rparr>))"

section \<open>Comparing\<close>

text \<open>The inner loop: is the name among the entries? \<^verbatim>\<open>strcmp\<close> of NULL is a fault.\<close>

fun find_name :: "string option \<Rightarrow> sync_file list \<Rightarrow> bool cres" where
  "find_name name [] = Inr False"
| "find_name name (f # fs) = (case (name, after_slash (filename f)) of
       (Some a, Some b) \<Rightarrow> if a = b then Inr True else find_name name fs
     | _ \<Rightarrow> Inl NullDeref)"

text \<open>\<open>compare\<close> of the client: what the server has more is created and appended.\<close>

fun compare_client :: "sync_file \<Rightarrow> string \<Rightarrow> sync_file list \<Rightarrow> sync_file list \<times> nat \<times> host
    \<Rightarrow> (sync_file list \<times> nat \<times> host) cres" where
  "compare_client junk src [] st = Inr st"
| "compare_client junk src (f # server_files) (arr, sz, h) =
     (if length arr < sz then Inl OutOfBounds
      else cbind (find_name (after_slash (filename f)) (take sz arr)) (\<lambda>found.
        if found then compare_client junk src server_files (arr, sz, h)
        else case after_slash (filename f) of
            None \<Rightarrow> Inl NullDeref
          | Some rel \<Rightarrow>
              let temp = src @ rel in
              if PATH_LEN \<le> length temp then Inl OutOfBounds
              else cbind (if sz mod 5 = 0 \<and> sz \<noteq> 0 then reallocate_struct junk sz arr else Inr arr) (\<lambda>arr.
                if length arr \<le> sz then Inl OutOfBounds
                else let arr = arr[sz := (arr ! sz)\<lparr>filename := temp\<rparr>];
                         h = create_directory temp h
                  in compare_client junk src server_files
                       (arr, sz + 1, (case open_create temp h of None \<Rightarrow> h | Some h \<Rightarrow> h)))))"

text \<open>\<open>compare\<close> of the server: what the client has more is created and remembered.\<close>

fun compare_server :: "sync_file \<Rightarrow> string \<Rightarrow> nat \<Rightarrow> sync_file list \<Rightarrow> sync_file list \<times> string list \<times> host
    \<Rightarrow> (sync_file list \<times> string list \<times> host) cres" where
  "compare_server junk src sz [] st = Inr st"
| "compare_server junk src sz (f # client_files) (arr, difference, h) =
     (if length arr < sz then Inl OutOfBounds
      else cbind (find_name (after_slash (filename f)) (take sz arr)) (\<lambda>found.
        if found then compare_server junk src sz client_files (arr, difference, h)
        else case after_slash (filename f) of
            None \<Rightarrow> Inl NullDeref
          | Some rel \<Rightarrow>
              let temp = src @ rel in
              if PATH_LEN \<le> length temp then Inl OutOfBounds
              else cbind (if sz mod 5 = 0 \<and> sz \<noteq> 0 then reallocate_struct junk sz arr else Inr arr) (\<lambda>arr.
                if MAX_DIFFERENCE \<le> length difference then Inl OutOfBounds
                else let h = create_directory temp h
                  in compare_server junk src sz client_files
                       (arr, difference @ [temp], (case open_create temp h of None \<Rightarrow> h | Some h \<Rightarrow> h)))))"

section \<open>Sending and receiving\<close>

type_synonym packet = "string \<times> string"

text \<open>The packets sent, and whether a failed \<^verbatim>\<open>open\<close> has ended the server.\<close>

fun write_files :: "host \<Rightarrow> sync_file list \<Rightarrow> (packet list \<times> bool) cres" where
  "write_files h [] = Inr ([], False)"
| "write_files h (f # fs) = (case files h (path_key (filename f)) of
       None \<Rightarrow> Inr ([], True)
     | Some bytes \<Rightarrow> (case after_slash (filename f) of
           None \<Rightarrow> Inl NullDeref
         | Some rel \<Rightarrow> cbind (write_files h fs) (\<lambda>(ps, ended). Inr ((rel, bytes) # ps, ended))))"

definition write_to_client :: "host \<Rightarrow> nat \<Rightarrow> sync_file list \<Rightarrow> nat \<Rightarrow> (packet list \<times> bool) cres" where
  "write_to_client h sz arr flag =
     (if flag \<noteq> 0 then Inr ([], False)
      else if length arr < sz then Inl OutOfBounds else write_files h (take sz arr))"

datatype read_end = R_Done "packet list" | R_Blocks | R_Exit

text \<open>The client expects as many files as it has entries itself.\<close>

fun read_from_serverx :: "nat \<Rightarrow> string \<Rightarrow> packet list \<Rightarrow> host \<Rightarrow> (read_end \<times> host) cres" where
  "read_from_serverx 0 src ps h = Inr (R_Done ps, h)"
| "read_from_serverx (Suc n) src [] h = Inr (R_Blocks, h)"
| "read_from_serverx (Suc n) src ((name, bytes) # ps) h =
     (if PATH_LEN \<le> length name \<or> PATH_LEN \<le> length (src @ name) then Inl OutOfBounds
      else case open_truncate (src @ name) h of
          None \<Rightarrow> Inr (R_Exit, h)
        | Some h \<Rightarrow> read_from_serverx n src ps (h\<lparr>files := (files h)(path_key (src @ name) \<mapsto> bytes)\<rparr>))"

section \<open>A round\<close>

record server_side =
  server_src :: string
  server_host :: host
  difference :: "string list"
  round_counter :: nat

record client_side =
  client_src :: string
  client_host :: host
  client_files :: "sync_file list"

text \<open>
  One turn of the loops of \<open>synchronize_server_side\<close> and of the client's \<open>main\<close>: the server
  allocates its array anew and counts its rounds, the client keeps its array and scans with
  the flag 0 every time. The result says how the client's reading ended and whether a failed
  \<^verbatim>\<open>open\<close> has ended the server.
\<close>

definition sync_round :: "sync_file \<Rightarrow> (string \<times> snode) list \<Rightarrow> (string \<times> snode) list \<Rightarrow> server_side \<Rightarrow> client_side
    \<Rightarrow> (read_end \<times> bool \<times> server_side \<times> client_side) cres" where
  "sync_round junk slist clist s c =
     cbind (take_files junk (server_src s) (round_counter s) slist (replicate 5 junk)) (\<lambda>(ssrc, sarr, _, ssize).
     cbind (take_files junk (client_src c) 0 clist (client_files c)) (\<lambda>(csrc, carr, ccount, csize).
     cbind (compare_server junk ssrc ssize (take csize carr) (sarr, difference s, server_host s)) (\<lambda>(sarr', diff, shost).
     cbind (compare_client junk csrc (take ssize sarr) (carr, ccount, client_host c)) (\<lambda>(carr, csize, chost).
     cbind (write_to_client shost ssize sarr' (round_counter s)) (\<lambda>(packets, ended).
     cbind (read_from_serverx csize csrc packets chost) (\<lambda>(outcome, chost).
       Inr (outcome, ended,
         \<lparr>server_src = ssrc, server_host = shost, difference = diff, round_counter = round_counter s + 1\<rparr>,
         \<lparr>client_src = csrc, client_host = chost, client_files = carr\<rparr>)))))))"

end
