(* ===== verification/Duplex.thy ===== *)
theory Duplex
  imports Prelude
begin

text \<open>
  Two deterministic processes that talk over a pair of first-in first-out channels, as a
  client and a server do over a connection or a pair of FIFOs.

  \<^item> \<open>action\<close>: what a process does next in its state: it puts a message on its outgoing
    channel, waits for one on its incoming channel, computes, or has ended.
  \<^item> \<open>duplex_step\<close>: the step of one side; reading from an empty channel blocks.
  \<^item> the locale \<open>commuting\<close>: the steps of different threads commute. Then a state in which
    every thread is stuck, if some schedule leads to it, is where every schedule leads that
    lets each thread move often enough. It extends \<open>round_progress\<close> of the prelude.
\<close>

section \<open>Steps that commute\<close>

fun follow :: "('e \<Rightarrow> 's \<Rightarrow> 's option) \<Rightarrow> 'e list \<Rightarrow> 's \<Rightarrow> 's option" where
  "follow step [] s = Some s"
| "follow step (e # es) s = (case step e s of None \<Rightarrow> None | Some s' \<Rightarrow> follow step es s')"

lemma follow_append:
  "follow step (es @ fs) s = (case follow step es s of None \<Rightarrow> None | Some t \<Rightarrow> follow step fs t)"
  by (induction es arbitrary: s) (auto split: option.split)

lemma follow_run: "follow step es s = Some t \<Longrightarrow> sched_run step es s = t"
  by (induction es arbitrary: s) (auto split: option.splits)

definition leads :: "('e \<Rightarrow> 's \<Rightarrow> 's option) \<Rightarrow> 's \<Rightarrow> 's \<Rightarrow> bool" where
  "leads step s t \<longleftrightarrow> (\<exists>es. follow step es s = Some t)"

lemma leads_refl [intro, simp]: "leads step s s"
  unfolding leads_def by (rule exI [of _ "[]"]) simp

lemma leads_trans [trans]: "leads step s t \<Longrightarrow> leads step t u \<Longrightarrow> leads step s u"
  unfolding leads_def by (metis follow_append option.simps(5))

lemma leads_step: "step e s = Some t \<Longrightarrow> leads step t u \<Longrightarrow> leads step s u"
  unfolding leads_def by (metis follow.simps(2) option.simps(5))

lemma leads_one: "step e s = Some t \<Longrightarrow> leads step s t"
  by (rule leads_step [OF _ leads_refl])

locale commuting =
  fixes step :: "'e \<Rightarrow> 's \<Rightarrow> 's option"
  assumes commute: "e \<noteq> f \<Longrightarrow> step e s = Some s1 \<Longrightarrow> step f s = Some s2 \<Longrightarrow> \<exists>t. step f s1 = Some t \<and> step e s2 = Some t"
begin

text \<open>A step taken out of order can be completed to the same end, with one step less to do.\<close>

lemma step_first:
  assumes "follow step es s = Some t" "stuck step t" "step e s = Some s1"
  shows "\<exists>fs. follow step fs s1 = Some t \<and> Suc (length fs) = length es"
  using assms(1,3)
proof (induction es arbitrary: s s1)
  case Nil
  then show ?case using assms(2) by (simp add: stuck_def)
next
  case (Cons a es)
  from Cons.prems(1) obtain s2 where s2: "step a s = Some s2" "follow step es s2 = Some t"
    by (auto split: option.splits)
  show ?case
  proof (cases "a = e")
    case True
    then show ?thesis using s2 Cons.prems(2) by auto
  next
    case False
    then obtain u where u: "step a s1 = Some u" "step e s2 = Some u"
      using commute [OF _ Cons.prems(2) s2(1)] by blast
    from Cons.IH [OF s2(2) u(2)] obtain fs where "follow step fs u = Some t" "Suc (length fs) = length es" by blast
    then show ?thesis using u(1) by (intro exI [of _ "a # fs"]) simp
  qed
qed

lemma same_length:
  assumes "follow step es s = Some t" "stuck step t" "follow step fs s = Some t"
  shows "length es = length fs"
  using assms(1,3)
proof (induction fs arbitrary: es s)
  case Nil
  then show ?case using assms(2) by (cases es) (auto simp: stuck_def)
next
  case (Cons f fs)
  from Cons.prems(2) obtain s1 where "step f s = Some s1" "follow step fs s1 = Some t" by (auto split: option.splits)
  then show ?case using step_first [OF Cons.prems(1) assms(2)] Cons.IH by (metis length_Cons)
qed

definition to_go :: "'s \<Rightarrow> 's \<Rightarrow> nat" where
  "to_go t s = length (SOME es. follow step es s = Some t)"

lemma to_go_eq: "follow step es s = Some t \<Longrightarrow> stuck step t \<Longrightarrow> to_go t s = length es"
  unfolding to_go_def by (rule someI2 [of _ es]) (blast intro: same_length)+

lemma to_go_step:
  assumes "leads step s t" "stuck step t" "step e s = Some s1"
  shows "leads step s1 t \<and> to_go t s1 < to_go t s"
proof -
  obtain es where es: "follow step es s = Some t" using assms(1) by (auto simp: leads_def)
  obtain fs where "follow step fs s1 = Some t" "Suc (length fs) = length es" using step_first [OF es assms(2,3)] by blast
  then show ?thesis using to_go_eq [OF es assms(2)] to_go_eq [of fs s1 t] assms(2) by (auto simp: leads_def)
qed

end

text \<open>Every schedule in rounds therefore reaches the stuck state.\<close>

sublocale commuting \<subseteq> towards: round_progress step "\<lambda>s. stuck step t \<and> leads step s t" "to_go t"
    "\<lambda>e s. step e s \<noteq> None" "\<lambda>s. s = t" UNIV for t
proof (unfold_locales, goal_cases)
  case (5 s)
  then obtain es where es: "follow step es s = Some t" by (auto simp: leads_def)
  then show ?case using 5 by (cases es) (auto split: option.splits)
qed (use to_go_step in \<open>(fastforce simp: stuck_def)+\<close>)

context commuting begin

lemma every_schedule:
  assumes "leads step s t" "stuck step t"
  shows "\<exists>n. \<forall>rs. n \<le> length rs \<longrightarrow> (\<forall>r\<in>set rs. UNIV \<subseteq> set r) \<longrightarrow> sched_run step (concat rs) s = t"
  using towards.rounds_reach [of t s] assms by blast

text \<open>And until then the stuck state stays within reach.\<close>

lemma still_leads:
  assumes "leads step s t" "stuck step t"
  shows "leads step (sched_run step es s) t"
  using towards.run_down [of t s es] assms by blast

end

section \<open>Processes with two channels\<close>

datatype ('m, 's) action = Send 'm 's | Recv "'m \<Rightarrow> 's" | Local 's | Halt

datatype side = LeftSide | RightSide

lemma UNIV_side: "UNIV = {LeftSide, RightSide}"
  using side.exhaust by auto

record ('l, 'r, 'm) duplex =
  left_state :: 'l
  right_state :: 'r
  to_right :: "'m list"
  to_left :: "'m list"

fun duplex_step :: "('l \<Rightarrow> ('m, 'l) action) \<Rightarrow> ('r \<Rightarrow> ('m, 'r) action) \<Rightarrow> side
    \<Rightarrow> ('l, 'r, 'm) duplex \<Rightarrow> ('l, 'r, 'm) duplex option" where
  "duplex_step left right LeftSide d = (case left (left_state d) of
       Send m l \<Rightarrow> Some (d\<lparr>left_state := l, to_right := to_right d @ [m]\<rparr>)
     | Recv f \<Rightarrow> (case to_left d of [] \<Rightarrow> None | m # ms \<Rightarrow> Some (d\<lparr>left_state := f m, to_left := ms\<rparr>))
     | Local l \<Rightarrow> Some (d\<lparr>left_state := l\<rparr>)
     | Halt \<Rightarrow> None)"
| "duplex_step left right RightSide d = (case right (right_state d) of
       Send m r \<Rightarrow> Some (d\<lparr>right_state := r, to_left := to_left d @ [m]\<rparr>)
     | Recv f \<Rightarrow> (case to_right d of [] \<Rightarrow> None | m # ms \<Rightarrow> Some (d\<lparr>right_state := f m, to_right := ms\<rparr>))
     | Local r \<Rightarrow> Some (d\<lparr>right_state := r\<rparr>)
     | Halt \<Rightarrow> None)"

lemma duplex_commute_left_right:
  assumes "duplex_step left right LeftSide s = Some s1" "duplex_step left right RightSide s = Some s2"
  shows "\<exists>t. duplex_step left right RightSide s1 = Some t \<and> duplex_step left right LeftSide s2 = Some t"
  using assms by (auto split: action.splits list.splits)

lemma duplex_commute:
  assumes "e \<noteq> f" "duplex_step left right e s = Some s1" "duplex_step left right f s = Some s2"
  shows "\<exists>t. duplex_step left right f s1 = Some t \<and> duplex_step left right e s2 = Some t"
  using assms duplex_commute_left_right [of left right s] by (cases e; cases f) blast+

lemma stuck_duplex:
  "stuck (duplex_step left right) s \<longleftrightarrow> duplex_step left right LeftSide s = None \<and> duplex_step left right RightSide s = None"
  unfolding stuck_def by (metis side.exhaust)

end
