(* ===== verification/DirTalk.thy ===== *)
theory DirTalk
  imports DirSync Duplex
begin

text \<open>
  The two processes of a synchronisation, step by step: the thread \<open>synchronize_server_side\<close>
  of the server and the loop in the client's \<open>main\<close>, over one connection.

  An object that one side writes is one message: an \<^verbatim>\<open>int\<close>, an entry, the 256 bytes of a name, a
  length, a byte. Every \<^verbatim>\<open>recv\<close> returns the object that was written, and the connection
  never fills. When the client expects a name and an \<^verbatim>\<open>int\<close> arrives, the name is what stands before
  the first NUL of its four bytes; any other mismatch ends the model of the reader
  (\<open>S_Garbled\<close>, \<open>C_Garbled\<close>). What happens to the server once the client is gone is not
  modelled. The scans of a side are given by their number.
\<close>

datatype sync_msg = M_Int nat | M_Entry sync_file | M_Name string | M_Long nat | M_Byte char

type_synonym listing = "(string \<times> snode) list"

section \<open>The server\<close>

text \<open>The arguments of the control points are the loop variables and \<open>sizeof_client\<close>.\<close>

datatype server_pc = S_Scan | S_Size | S_Entry nat | S_ReadSize | S_Read nat | S_Compare
  | S_Write nat nat | S_Length nat nat string | S_Bytes nat nat string | S_Free
  | S_Exit | S_Fault cfault | S_Garbled

record sync_server = server_side +
  server_at :: server_pc
  server_files_information :: "sync_file list"
  size_of_server_insides :: nat
  client_files_information :: "sync_file list"

text \<open>The loop of \<open>write_to_client\<close>.\<close>

definition send_file :: "nat \<Rightarrow> nat \<Rightarrow> sync_server \<Rightarrow> (sync_msg, sync_server) action" where
  "send_file flag i x =
     (if flag \<noteq> 0 \<or> size_of_server_insides x \<le> i then Local (x\<lparr>server_at := S_Free\<rparr>)
      else if length (server_files_information x) \<le> i then Local (x\<lparr>server_at := S_Fault OutOfBounds\<rparr>)
      else let f = server_files_information x ! i
        in case files (server_host x) (path_key (filename f)) of
          None \<Rightarrow> Local (x\<lparr>server_at := S_Exit\<rparr>)
        | Some bytes \<Rightarrow> (case after_slash (filename f) of
              None \<Rightarrow> Local (x\<lparr>server_at := S_Fault NullDeref\<rparr>)
            | Some rel \<Rightarrow> Send (M_Name rel) (x\<lparr>server_at := S_Length flag i bytes\<rparr>)))"

definition server_talk :: "sync_file \<Rightarrow> (nat \<Rightarrow> listing) \<Rightarrow> sync_server \<Rightarrow> (sync_msg, sync_server) action" where
  "server_talk junk scan x = (case server_at x of
     S_Scan \<Rightarrow> (case take_files junk (server_src x) (round_counter x) (scan (round_counter x)) (server_files_information x) of
         Inl e \<Rightarrow> Local (x\<lparr>server_at := S_Fault e\<rparr>)
       | Inr (path, arr, _, n) \<Rightarrow> Local (x\<lparr>server_at := S_Size, server_src := path,
             server_files_information := arr, size_of_server_insides := n\<rparr>))
   | S_Size \<Rightarrow> Send (M_Int (size_of_server_insides x)) (x\<lparr>server_at := S_Entry 0\<rparr>)
   | S_Entry j \<Rightarrow>
       if size_of_server_insides x \<le> j then Local (x\<lparr>server_at := S_ReadSize\<rparr>)
       else if length (server_files_information x) \<le> j then Local (x\<lparr>server_at := S_Fault OutOfBounds\<rparr>)
       else Send (M_Entry (server_files_information x ! j)) (x\<lparr>server_at := S_Entry (j + 1)\<rparr>)
   | S_ReadSize \<Rightarrow> Recv (\<lambda>m. case m of
         M_Int n \<Rightarrow> x\<lparr>server_at := S_Read n, client_files_information := []\<rparr>
       | _ \<Rightarrow> x\<lparr>server_at := S_Garbled\<rparr>)
   | S_Read n \<Rightarrow>
       if n \<le> length (client_files_information x) then Local (x\<lparr>server_at := S_Compare\<rparr>)
       else Recv (\<lambda>m. case m of
         M_Entry f \<Rightarrow> x\<lparr>client_files_information := client_files_information x @ [f]\<rparr>
       | _ \<Rightarrow> x\<lparr>server_at := S_Garbled\<rparr>)
   | S_Compare \<Rightarrow> (case compare_server junk (server_src x) (size_of_server_insides x) (client_files_information x)
           (server_files_information x, difference x, server_host x) of
         Inl e \<Rightarrow> Local (x\<lparr>server_at := S_Fault e\<rparr>)
       | Inr (arr, diff, h) \<Rightarrow> Local (x\<lparr>server_at := S_Write (round_counter x) 0, round_counter := round_counter x + 1,
             server_files_information := arr, difference := diff, server_host := h\<rparr>))
   | S_Write flag i \<Rightarrow> send_file flag i x
   | S_Length flag i bytes \<Rightarrow> Send (M_Long (length bytes)) (x\<lparr>server_at := S_Bytes flag i bytes\<rparr>)
   | S_Bytes flag i bytes \<Rightarrow> (case bytes of
         [] \<Rightarrow> Local (x\<lparr>server_at := S_Write flag (i + 1)\<rparr>)
       | b # bs \<Rightarrow> Send (M_Byte b) (x\<lparr>server_at := S_Bytes flag i bs\<rparr>))
   | S_Free \<Rightarrow> Local (x\<lparr>server_at := S_Scan, server_files_information := replicate 5 junk,
         client_files_information := []\<rparr>)
   | S_Exit \<Rightarrow> Halt | S_Fault e \<Rightarrow> Halt | S_Garbled \<Rightarrow> Halt)"

section \<open>The client\<close>

datatype client_pc = C_Scan | C_ReadSize nat | C_Read nat nat | C_Size nat | C_Entry nat nat | C_Compare
  | C_Name nat | C_Length nat "string list" | C_Bytes nat "string list" nat
  | C_Exit | C_Fault cfault | C_Garbled

record sync_client = client_side +
  client_at :: client_pc
  scans :: nat
  size_of_client_inside :: nat
  server_files :: "sync_file list"

text \<open>The name that the bytes of an \<^verbatim>\<open>int\<close> make.\<close>

definition int_name :: "nat \<Rightarrow> string" where
  "int_name n = takeWhile (\<lambda>c. c \<noteq> CHR 0x00) (map (\<lambda>k. char_of (n div 256 ^ k mod 256)) [0..<4])"

text \<open>The loop of \<open>read_from_serverx\<close>: the name, the opened file, the length, the bytes.\<close>

definition take_name :: "nat \<Rightarrow> sync_client \<Rightarrow> string \<Rightarrow> sync_client" where
  "take_name n y name = (let temp = client_src y @ name in
     if PATH_LEN \<le> length name \<or> PATH_LEN \<le> length temp then y\<lparr>client_at := C_Fault OutOfBounds\<rparr>
     else case open_truncate temp (client_host y) of
         None \<Rightarrow> y\<lparr>client_at := C_Exit\<rparr>
       | Some h \<Rightarrow> y\<lparr>client_at := C_Length n (path_key temp), client_host := h\<rparr>)"

definition put_byte :: "string list \<Rightarrow> char \<Rightarrow> host \<Rightarrow> host" where
  "put_byte k b h = h\<lparr>files := (files h)(k \<mapsto> the (files h k) @ [b])\<rparr>"

definition client_talk :: "sync_file \<Rightarrow> (nat \<Rightarrow> listing) \<Rightarrow> sync_client \<Rightarrow> (sync_msg, sync_client) action" where
  "client_talk junk scan y = (case client_at y of
     C_Scan \<Rightarrow> (case take_files junk (client_src y) 0 (scan (scans y)) (client_files y) of
         Inl e \<Rightarrow> Local (y\<lparr>client_at := C_Fault e\<rparr>)
       | Inr (path, arr, cli_files, n) \<Rightarrow> Local (y\<lparr>client_at := C_ReadSize cli_files, scans := scans y + 1,
             client_src := path, client_files := arr, size_of_client_inside := n\<rparr>))
   | C_ReadSize cli_files \<Rightarrow> Recv (\<lambda>m. case m of
         M_Int n \<Rightarrow> y\<lparr>client_at := C_Read cli_files n, server_files := []\<rparr>
       | _ \<Rightarrow> y\<lparr>client_at := C_Garbled\<rparr>)
   | C_Read cli_files n \<Rightarrow>
       if n \<le> length (server_files y) then Local (y\<lparr>client_at := C_Size cli_files\<rparr>)
       else Recv (\<lambda>m. case m of
         M_Entry f \<Rightarrow> y\<lparr>server_files := server_files y @ [f]\<rparr>
       | _ \<Rightarrow> y\<lparr>client_at := C_Garbled\<rparr>)
   | C_Size cli_files \<Rightarrow> Send (M_Int (size_of_client_inside y)) (y\<lparr>client_at := C_Entry cli_files 0\<rparr>)
   | C_Entry cli_files i \<Rightarrow>
       if size_of_client_inside y \<le> i then Local (y\<lparr>client_at := C_Compare, size_of_client_inside := cli_files\<rparr>)
       else if length (client_files y) \<le> i then Local (y\<lparr>client_at := C_Fault OutOfBounds\<rparr>)
       else Send (M_Entry (client_files y ! i)) (y\<lparr>client_at := C_Entry cli_files (i + 1)\<rparr>)
   | C_Compare \<Rightarrow> (case compare_client junk (client_src y) (server_files y)
           (client_files y, size_of_client_inside y, client_host y) of
         Inl e \<Rightarrow> Local (y\<lparr>client_at := C_Fault e\<rparr>)
       | Inr (arr, n, h) \<Rightarrow> Local (y\<lparr>client_at := C_Name n, client_files := arr,
             size_of_client_inside := n, client_host := h\<rparr>))
   | C_Name n \<Rightarrow> (case n of
         0 \<Rightarrow> Local (y\<lparr>client_at := C_Scan\<rparr>)
       | Suc n \<Rightarrow> Recv (\<lambda>m. case m of
             M_Name name \<Rightarrow> take_name n y name
           | M_Int k \<Rightarrow> take_name n y (int_name k)
           | _ \<Rightarrow> y\<lparr>client_at := C_Garbled\<rparr>))
   | C_Length n k \<Rightarrow> Recv (\<lambda>m. case m of
         M_Long len \<Rightarrow> y\<lparr>client_at := C_Bytes n k len\<rparr>
       | _ \<Rightarrow> y\<lparr>client_at := C_Garbled\<rparr>)
   | C_Bytes n k len \<Rightarrow> (case len of
         0 \<Rightarrow> Local (y\<lparr>client_at := C_Name n\<rparr>)
       | Suc len \<Rightarrow> Recv (\<lambda>m. case m of
             M_Byte b \<Rightarrow> y\<lparr>client_at := C_Bytes n k len, client_host := put_byte k b (client_host y)\<rparr>
           | _ \<Rightarrow> y\<lparr>client_at := C_Garbled\<rparr>))
   | C_Exit \<Rightarrow> Halt | C_Fault e \<Rightarrow> Halt | C_Garbled \<Rightarrow> Halt)"

section \<open>Both\<close>

type_synonym talk_state = "(sync_server, sync_client, sync_msg) duplex"

definition talk_step :: "sync_file \<Rightarrow> (nat \<Rightarrow> listing) \<Rightarrow> (nat \<Rightarrow> listing) \<Rightarrow> side \<Rightarrow> talk_state \<Rightarrow> talk_state option" where
  "talk_step junk sscan cscan = duplex_step (server_talk junk sscan) (client_talk junk cscan)"

text \<open>The two sides at the top of their loops, before anything has been exchanged.\<close>

definition talk_start :: "sync_file \<Rightarrow> string \<Rightarrow> host \<Rightarrow> string \<Rightarrow> host \<Rightarrow> talk_state" where
  "talk_start junk s shost c chost =
     \<lparr>left_state = \<lparr>server_src = s, server_host = shost, difference = [], round_counter = 0, server_at = S_Scan,
          server_files_information = replicate 5 junk, size_of_server_insides = 0, client_files_information = []\<rparr>,
      right_state = \<lparr>client_src = c, client_host = chost, client_files = replicate 5 junk, client_at = C_Scan,
          scans = 0, size_of_client_inside = 0, server_files = []\<rparr>,
      to_right = [], to_left = []\<rparr>"

interpretation talk: commuting "talk_step junk sscan cscan" for junk sscan cscan
  by unfold_locales (metis duplex_commute talk_step_def)

end
