(* ===== verification/DirSyncProps.thy ===== *)
theory DirSyncProps
  imports DirSync "HOL-Library.Sublist"
begin

text \<open>
  Properties of the directory synchronisation: the scan against a recursive specification,
  the first round of a session, and the second.
\<close>

section \<open>Scanning\<close>

lemma reallocate_eq [simp]:
  "i \<le> length arr \<Longrightarrow> reallocate_struct junk i arr = Inr (take i arr @ replicate 5 junk)"
  by (auto simp: reallocate_struct_def Let_def nth_append intro!: nth_equalityI)

definition dot :: "string \<Rightarrow> bool" where
  "dot name \<longleftrightarrow> name = ''.'' \<or> name = ''..''"

text \<open>The regular files below a directory, in the order of the listing.\<close>

fun entries_of :: "string \<Rightarrow> (string \<times> snode) list \<Rightarrow> sync_file list" where
  "entries_of path [] = []"
| "entries_of path ((name, node) # es) =
     (if dot name then [] else case node of
        SGone \<Rightarrow> []
      | SDir sub \<Rightarrow> entries_of (path @ name @ ''/'') sub
      | SFile mtime mode \<Rightarrow> [\<lparr>filename = path @ name, modification_time = take 11 (dec mtime), file_modes = mode\<rparr>])
     @ entries_of path es"

text \<open>Names that fit the buffers.\<close>

fun fits :: "string \<Rightarrow> (string \<times> snode) list \<Rightarrow> bool" where
  "fits path [] = True"
| "fits path ((name, node) # es) \<longleftrightarrow>
     (dot name \<or> (length (path @ name) + 1 < FILE_LEN
        \<and> (case node of SDir sub \<Rightarrow> fits (path @ name @ ''/'') sub | _ \<Rightarrow> True))) \<and> fits path es"

definition is_file :: "string \<times> snode \<Rightarrow> bool" where
  "is_file e \<longleftrightarrow> \<not> dot (fst e) \<and> (case snd e of SFile t m \<Rightarrow> True | _ \<Rightarrow> False)"

text \<open>A listing up to its last regular file.\<close>

definition upto_last :: "(string \<times> snode) list \<Rightarrow> (string \<times> snode) list" where
  "upto_last es = rev (dropWhile (\<lambda>e. \<not> is_file e) (rev es))"

lemma upto_last_Nil: "(\<forall>e\<in>set es. \<not> is_file e) \<Longrightarrow> upto_last es = []"
  by (simp add: upto_last_def)

lemma upto_last_Cons:
  "upto_last (e # es) = (if \<exists>x\<in>set (e # es). is_file x then e # upto_last es else [])"
proof (cases "\<exists>x\<in>set es. is_file x")
  case True
  then show ?thesis by (auto simp: upto_last_def dropWhile_append1)
next
  case False
  then have "dropWhile (\<lambda>e. \<not> is_file e) (rev es) = []" by (simp add: dropWhile_eq_Nil_conv)
  moreover have "dropWhile (\<lambda>e. \<not> is_file e) (rev es @ [e]) = dropWhile (\<lambda>e. \<not> is_file e) [e]"
    using False by (intro dropWhile_append2) simp
  ultimately show ?thesis using False by (auto simp: upto_last_def)
qed

definition cells :: "nat \<Rightarrow> sync_file list \<Rightarrow> bool" where
  "cells n arr \<longleftrightarrow> 5 * (n div 5) + 5 \<le> length arr"

lemma cells_less: "cells n arr \<Longrightarrow> n < length arr"
  unfolding cells_def by linarith

lemma cells_Suc: "cells n arr \<Longrightarrow> Suc n mod 5 \<noteq> 0 \<Longrightarrow> cells (Suc n) arr"
  unfolding cells_def by (metis Suc_times_mod_eq div_Suc dvd_imp_mod_0 mod_Suc)

lemma take_loop_entries:
  "fits path es \<Longrightarrow> cells n arr \<Longrightarrow> \<exists>arr'.
     take_loop junk path es (arr, n, i) = Inr (arr', n + length (entries_of path es),
       if \<exists>e\<in>set es. is_file e then n + length (entries_of path (upto_last es)) else i)
   \<and> take (n + length (entries_of path es)) arr' = take n arr @ entries_of path es
   \<and> cells (n + length (entries_of path es)) arr'"
proof (induction path es arbitrary: arr n i rule: entries_of.induct)
  case (1 path)
  then show ?case by simp
next
  case (2 path name node es)
  have rest: "fits path es" using "2.prems"(1) by simp
  show ?case
  proof (cases "dot name")
    case True
    then have "\<not> is_file (name, node)" by (simp add: is_file_def)
    then show ?thesis using "2.IH"(2) [OF rest "2.prems"(2), of i] True
      by (auto simp: dot_def upto_last_Cons)
  next
    case False
    note nodot = this
    have short: "length (path @ name) + 1 < FILE_LEN" using "2.prems"(1) False by simp
    then have whole: "take (FILE_LEN - 1) (path @ name) = path @ name" by simp
    show ?thesis
    proof (cases node)
      case SGone
      then have "\<not> is_file (name, node)" by (simp add: is_file_def)
      then show ?thesis using "2.IH"(2) [OF rest "2.prems"(2), of i] SGone False whole
        by (auto simp: dot_def Let_def upto_last_Cons)
    next
      case (SDir sub)
      then have f: "\<not> is_file (name, node)" by (simp add: is_file_def)
      have "fits (path @ name @ ''/'') sub" using "2.prems"(1) False SDir by simp
      from "2.IH"(1) [OF False SDir this "2.prems"(2), of n] obtain a1 j where
        a1: "take_loop junk (path @ name @ ''/'') sub (arr, n, n) = Inr (a1, n + length (entries_of (path @ name @ ''/'') sub), j)"
          "take (n + length (entries_of (path @ name @ ''/'') sub)) a1 = take n arr @ entries_of (path @ name @ ''/'') sub"
          "cells (n + length (entries_of (path @ name @ ''/'') sub)) a1" by blast
      from "2.IH"(2) [OF rest a1(3), of i] obtain a2 where
        a2: "take_loop junk path es (a1, n + length (entries_of (path @ name @ ''/'') sub), i)
            = Inr (a2, n + length (entries_of (path @ name @ ''/'') sub) + length (entries_of path es),
               if \<exists>e\<in>set es. is_file e then n + length (entries_of (path @ name @ ''/'') sub) + length (entries_of path (upto_last es)) else i)"
          "take (n + length (entries_of (path @ name @ ''/'') sub) + length (entries_of path es)) a2
            = take (n + length (entries_of (path @ name @ ''/'') sub)) a1 @ entries_of path es"
          "cells (n + length (entries_of (path @ name @ ''/'') sub) + length (entries_of path es)) a2" by blast
      have run: "take_loop junk path ((name, node) # es) (arr, n, i)
          = take_loop junk path es (a1, n + length (entries_of (path @ name @ ''/'') sub), i)"
        using nodot SDir short whole a1(1) by (simp add: dot_def Let_def)
      show ?thesis using a1(2) a2 f nodot SDir unfolding run
        by (intro exI [of _ a2]) (auto simp: upto_last_Cons add.assoc)
    next
      case (SFile mtime mode)
      then have f: "is_file (name, node)" using nodot by (simp add: is_file_def)
      let ?e = "\<lparr>filename = path @ name, modification_time = take 11 (dec mtime), file_modes = mode\<rparr>"
      have lt: "n < length arr" using cells_less [OF "2.prems"(2)] .
      obtain a1 where a1: "(if Suc n mod 5 = 0 then reallocate_struct junk (Suc n) (arr[n := ?e]) else Inr (arr[n := ?e])) = Inr a1"
          "take (Suc n) a1 = take n arr @ [?e]" "cells (Suc n) a1"
      proof (cases "Suc n mod 5 = 0")
        case True
        show ?thesis
          by (rule that [of "take (Suc n) (arr[n := ?e]) @ replicate 5 junk"])
            (use True lt in \<open>auto simp: cells_def take_Suc_conv_app_nth\<close>)
      next
        case False
        show ?thesis
          by (rule that [of "arr[n := ?e]"])
            (use False lt cells_Suc [OF "2.prems"(2)] in \<open>auto simp: cells_def take_Suc_conv_app_nth\<close>)
      qed
      from "2.IH"(2) [OF rest a1(3), of "Suc n"] obtain a2 where
        a2: "take_loop junk path es (a1, Suc n, Suc n) = Inr (a2, Suc n + length (entries_of path es),
               if \<exists>e\<in>set es. is_file e then Suc n + length (entries_of path (upto_last es)) else Suc n)"
          "take (Suc n + length (entries_of path es)) a2 = take (Suc n) a1 @ entries_of path es"
          "cells (Suc n + length (entries_of path es)) a2" by blast
      have run: "take_loop junk path ((name, node) # es) (arr, n, i) = take_loop junk path es (a1, Suc n, Suc n)"
        using nodot SFile short whole lt a1(1) by (simp add: dot_def Let_def)
      show ?thesis using a1(2) a2 f nodot SFile upto_last_Nil [of es] unfolding run
        by (intro exI [of _ a2]) (auto simp: upto_last_Cons)
    qed
  qed
qed

text \<open>
  C27. Scanning a directory, exactly, for every tree whose names fit: the array receives the
  entries of all regular files in traversal order and never overflows as it grows by five,
  the result is their number, and the global size counts only those up to the last regular
  file that lies directly in the directory: the files of subdirectories listed after it are
  never announced to the other side. (The path of the first call, \<open>argv[1]\<close>, is taken to have
  room for the slash.)
\<close>

theorem sync_take_files:
  assumes "fits (if flag = 0 then path @ ''/'' else path) es" "5 \<le> length arr"
  shows "\<exists>arr'. take_files junk path flag es arr = (let p = (if flag = 0 then path @ ''/'' else path) in
      Inr (p, arr', length (entries_of p es), length (entries_of p (upto_last es))))
    \<and> take (length (entries_of (if flag = 0 then path @ ''/'' else path) es)) arr'
        = entries_of (if flag = 0 then path @ ''/'' else path) es
    \<and> length (entries_of (if flag = 0 then path @ ''/'' else path) es) < length arr'"
proof -
  let ?p = "if flag = 0 then path @ ''/'' else path"
  have "cells 0 arr" using assms(2) by (simp add: cells_def)
  from take_loop_entries [OF assms(1) this, of junk 0] obtain arr' where
    a: "take_loop junk ?p es (arr, 0, 0) = Inr (arr', length (entries_of ?p es),
        if \<exists>e\<in>set es. is_file e then length (entries_of ?p (upto_last es)) else 0)"
      "take (length (entries_of ?p es)) arr' = entries_of ?p es" "cells (length (entries_of ?p es)) arr'"
    by auto
  have "(if \<exists>e\<in>set es. is_file e then length (entries_of ?p (upto_last es)) else 0) = length (entries_of ?p (upto_last es))"
    using upto_last_Nil [of es] by auto
  then show ?thesis using a cells_less [OF a(3)]
    by (intro exI [of _ arr']) (simp add: take_files_def Let_def)
qed

section \<open>Names and paths\<close>

text \<open>A directory name as the programs need it, and the listings that a file system can give.\<close>

definition plain :: "string \<Rightarrow> bool" where
  "plain w \<longleftrightarrow> w \<noteq> [] \<and> CHR ''/'' \<notin> set w"

fun wf_listing :: "(string \<times> snode) list \<Rightarrow> bool" where
  "wf_listing [] = True"
| "wf_listing ((name, node) # es) \<longleftrightarrow> plain name \<and> name \<notin> fst ` set es \<and> wf_listing es
     \<and> (case node of SDir sub \<Rightarrow> wf_listing sub | _ \<Rightarrow> True)"

text \<open>The paths of the regular files, component by component.\<close>

fun paths_of :: "(string \<times> snode) list \<Rightarrow> string list list" where
  "paths_of [] = []"
| "paths_of ((name, node) # es) =
     (if dot name then [] else case node of
        SGone \<Rightarrow> [] | SDir sub \<Rightarrow> map ((#) name) (paths_of sub) | SFile t m \<Rightarrow> [[name]]) @ paths_of es"

definition names_of :: "(string \<times> snode) list \<Rightarrow> string list" where
  "names_of es = map filename (entries_of [] es)"

lemma entries_of_prefix:
  "entries_of (p @ q) es = map (\<lambda>f. f\<lparr>filename := p @ filename f\<rparr>) (entries_of q es)"
  by (induction q es rule: entries_of.induct) (auto split: snode.splits)

lemma entries_names: "map filename (entries_of p es) = map ((@) p) (names_of es)"
  using entries_of_prefix [of p "[]" es] by (simp add: names_of_def o_def)

lemma tokens_slash: "tokens d (d # s) = tokens d s"
  by (simp add: tokens_def)

lemma tokens_dir: "plain w \<Longrightarrow> tokens (CHR ''/'') (w @ CHR ''/'' # s) = w # tokens (CHR ''/'') s"
  by (rule tokens_app) (simp_all add: plain_def)

lemma tokens_plain: "plain w \<Longrightarrow> tokens (CHR ''/'') w = [w]"
  by (rule tokens_word) (simp_all add: plain_def)

lemma names_Cons:
  "names_of ((name, node) # es) = (if dot name then [] else case node of
        SGone \<Rightarrow> [] | SDir sub \<Rightarrow> map ((@) (name @ ''/'')) (names_of sub) | SFile t m \<Rightarrow> [name]) @ names_of es"
  using entries_names [of "name @ ''/''"] by (cases node) (simp_all add: names_of_def)

lemma names_paths: "wf_listing es \<Longrightarrow> map (tokens (CHR ''/'')) (names_of es) = paths_of es"
proof (induction es rule: paths_of.induct)
  case (2 name node es)
  have "plain name" using "2.prems" by simp
  then have "tokens (CHR ''/'') ((name @ ''/'') @ r) = name # tokens (CHR ''/'') r" for r by (simp add: tokens_dir)
  then have d: "map (tokens (CHR ''/'')) (map ((@) (name @ ''/'')) rs) = map ((#) name) (map (tokens (CHR ''/'')) rs)" for rs
    by (induction rs) simp_all
  show ?case
  proof (cases node)
    case (SDir sub)
    then show ?thesis using 2 d by (simp add: names_Cons del: map_map)
  qed (use 2 in \<open>simp_all add: names_Cons tokens_plain\<close>)
qed (simp add: names_of_def)

lemma names_start: "wf_listing es \<Longrightarrow> r \<in> set (names_of es) \<Longrightarrow> \<exists>c s. r = c # s \<and> c \<noteq> CHR ''/''"
proof (induction es arbitrary: r rule: paths_of.induct)
  case (2 name node es)
  have "\<exists>c s. name = c # s \<and> c \<noteq> CHR ''/''" using "2.prems"(1) by (cases name) (auto simp: plain_def)
  then show ?case using 2 by (cases node) (auto simp: names_Cons split: if_splits)
qed (simp add: names_of_def)

lemma paths_head: "p \<in> set (paths_of es) \<Longrightarrow> p \<noteq> [] \<and> hd p \<in> fst ` set es"
  by (induction es rule: paths_of.induct) (auto split: if_splits snode.splits)

text \<open>No file of a tree is a directory on the way to another.\<close>

definition prefix_free :: "string list list \<Rightarrow> bool" where
  "prefix_free ps \<longleftrightarrow> distinct ps \<and> (\<forall>p\<in>set ps. \<forall>q\<in>set ps. prefix p q \<longrightarrow> p = q)"

lemma prefix_free_append:
  assumes "prefix_free ps" "prefix_free qs" "\<And>p q. p \<in> set ps \<Longrightarrow> q \<in> set qs \<Longrightarrow> \<not> prefix p q \<and> \<not> prefix q p"
  shows "prefix_free (ps @ qs)"
  using assms unfolding prefix_free_def by (auto 4 4)

lemma paths_prefix_free: "wf_listing es \<Longrightarrow> prefix_free (paths_of es)"
proof (induction es rule: paths_of.induct)
  case (2 name node es)
  have es: "prefix_free (paths_of es)" using 2 by simp
  let ?here = "if dot name then [] else case node of
        SGone \<Rightarrow> [] | SDir sub \<Rightarrow> map ((#) name) (paths_of sub) | SFile t m \<Rightarrow> [[name]]"
  have "prefix_free ?here"
  proof (cases node)
    case (SDir sub)
    then have "\<not> dot name \<Longrightarrow> prefix_free (paths_of sub)" using 2 by simp
    then show ?thesis using SDir by (auto simp: prefix_free_def distinct_map)
  qed (simp_all add: prefix_free_def)
  moreover have h: "p \<noteq> [] \<and> hd p = name" if "p \<in> set ?here" for p
    using that by (auto split: if_splits snode.splits)
  moreover have "\<not> prefix p q \<and> \<not> prefix q p" if pq: "p \<in> set ?here" "q \<in> set (paths_of es)" for p q
  proof -
    have "name \<notin> fst ` set es" using "2.prems" by simp
    then have "hd p \<noteq> hd q" "p \<noteq> []" "q \<noteq> []" using h [OF pq(1)] paths_head [OF pq(2)] by metis+
    then show ?thesis by (auto simp: prefix_def)
  qed
  ultimately have "prefix_free (?here @ paths_of es)" using es by (intro prefix_free_append) auto
  then show ?case by simp
qed (simp add: prefix_free_def)

lemma path_key_relative: "plain w \<Longrightarrow> path_key (w @ CHR ''/'' # s) = w # tokens (CHR ''/'') s"
proof -
  assume "plain w"
  moreover from this have "take 1 (w @ CHR ''/'' # s) \<noteq> ''/''" by (cases w) (auto simp: plain_def)
  ultimately show ?thesis by (simp add: path_key_def tokens_dir)
qed

lemma after_slash_dir: "plain w \<Longrightarrow> after_slash (w @ CHR ''/'' # s) = Some s"
proof -
  assume "plain w"
  then have "dropWhile (\<lambda>c. c \<noteq> CHR ''/'') (w @ CHR ''/'' # s) = dropWhile (\<lambda>c. c \<noteq> CHR ''/'') (CHR ''/'' # s)"
    by (intro dropWhile_append2) (auto simp: plain_def)
  then show ?thesis by (simp add: after_slash_def)
qed

section \<open>Creating files\<close>

definition creates :: "string \<Rightarrow> host \<Rightarrow> host" where
  "creates temp h = (let h = create_directory temp h in case open_create temp h of None \<Rightarrow> h | Some h \<Rightarrow> h)"

definition above :: "string list \<Rightarrow> string list set" where
  "above k = {q. q \<noteq> [] \<and> strict_prefix q k}"

lemma above_short: "above [] = {}" "above [v] = {}"
  by (auto simp: above_def strict_prefix_def prefix_Cons)

lemma make_prefixes_dirs:
  "(\<forall>q. q \<noteq> [] \<and> strict_prefix q ts \<longrightarrow> files h (before @ q) = None) \<Longrightarrow> before = [] \<or> before \<in> dirs h \<Longrightarrow>
   make_prefixes before ts h = h\<lparr>dirs := dirs h \<union> (@) before ` above ts\<rparr>"
proof (induction before ts h rule: make_prefixes.induct)
  case (1 before t u ts h)
  let ?h = "h\<lparr>dirs := insert (before @ [t]) (dirs h)\<rparr>"
  have "strict_prefix [t] (t # u # ts)" by simp
  then have "files h (before @ [t]) = None" using "1.prems"(1) by blast
  then have m: "make_dir (before @ [t]) h = Some ?h"
    using "1.prems"(2) by (auto simp: make_dir_def parent_exists_def insert_absorb)
  have "files ?h ((before @ [t]) @ q) = None" if "q \<noteq> [] \<and> strict_prefix q (u # ts)" for q
    using "1.prems"(1) that by (auto dest: spec [of _ "t # q"])
  then have "make_prefixes (before @ [t]) (u # ts) ?h
      = ?h\<lparr>dirs := dirs ?h \<union> (@) (before @ [t]) ` above (u # ts)\<rparr>"
    using "1.IH" [OF m] by simp
  moreover have "above (t # u # ts) = insert [t] ((#) t ` above (u # ts))"
    by (auto simp: above_def strict_prefix_def prefix_Cons)
  ultimately show ?case using m by (simp add: image_image)
qed (simp_all add: above_short)

definition creatable :: "string list set \<Rightarrow> host \<Rightarrow> bool" where
  "creatable K h \<longleftrightarrow> (\<forall>k\<in>K. k \<noteq> [] \<and> k \<notin> dirs h \<and> (\<forall>q\<in>above k. files h q = None))"

lemma creates_file:
  assumes "creatable K h" "path_key temp = k" "tokens (CHR ''/'') temp = k" "k \<in> K"
  shows "creates temp h = h\<lparr>dirs := dirs h \<union> above k, files := (files h)(k \<mapsto> [])\<rparr>"
proof -
  have c: "k \<noteq> []" "k \<notin> dirs h" "\<forall>q\<in>above k. files h q = None" using assms(1,4) by (auto simp: creatable_def)
  have "create_directory temp h = h\<lparr>dirs := dirs h \<union> above k\<rparr>"
    using make_prefixes_dirs [of k h "[]"] c(3) by (simp add: create_directory_def assms(3) above_def)
  moreover have "butlast k = [] \<or> butlast k \<in> above k"
    using c(1) by (cases k rule: rev_cases) (auto simp: above_def strict_prefix_def)
  moreover have "k \<notin> above k" by (simp add: above_def)
  ultimately show ?thesis using c(1,2)
    by (auto simp: creates_def open_create_def parent_exists_def assms(2) Let_def)
qed

lemma creatable_step:
  assumes "creatable (set ps) h" "prefix_free ps" "k \<in> set ps"
  shows "creatable (set ps) (h\<lparr>dirs := dirs h \<union> above k, files := (files h)(k \<mapsto> [])\<rparr>)"
  using assms by (auto simp: creatable_def prefix_free_def above_def strict_prefix_def)

text \<open>Creating several files of a tree leaves all of them empty and nothing else changed.\<close>

lemma creates_all:
  "creatable (set ps) h \<Longrightarrow> prefix_free ps \<Longrightarrow>
   \<forall>t\<in>set ts. path_key t \<in> set ps \<and> tokens (CHR ''/'') t = path_key t \<Longrightarrow>
   files (fold creates ts h) = (\<lambda>k. if k \<in> path_key ` set ts then Some [] else files h k)"
proof (induction ts arbitrary: h)
  case (Cons t ts)
  have t: "path_key t \<in> set ps" "tokens (CHR ''/'') t = path_key t" using Cons.prems(3) by auto
  have c: "creates t h = h\<lparr>dirs := dirs h \<union> above (path_key t), files := (files h)(path_key t \<mapsto> [])\<rparr>"
    by (rule creates_file [OF Cons.prems(1) refl t(2,1)])
  have "creatable (set ps) (creates t h)"
    unfolding c by (rule creatable_step [OF Cons.prems(1,2) t(1)])
  then show ?case using Cons.IH [of "creates t h"] Cons.prems(2,3) by (auto simp: c)
qed simp

lemma creates_all_dirs:
  "creatable (set ps) h \<Longrightarrow> prefix_free ps \<Longrightarrow>
   \<forall>t\<in>set ts. path_key t \<in> set ps \<and> tokens (CHR ''/'') t = path_key t \<Longrightarrow>
   dirs (fold creates ts h) = dirs h \<union> (\<Union>t\<in>set ts. above (path_key t))"
proof (induction ts arbitrary: h)
  case (Cons t ts)
  have t: "path_key t \<in> set ps" "tokens (CHR ''/'') t = path_key t" using Cons.prems(3) by auto
  have c: "creates t h = h\<lparr>dirs := dirs h \<union> above (path_key t), files := (files h)(path_key t \<mapsto> [])\<rparr>"
    by (rule creates_file [OF Cons.prems(1) refl t(2,1)])
  have "creatable (set ps) (creates t h)"
    unfolding c by (rule creatable_step [OF Cons.prems(1,2) t(1)])
  then show ?case using Cons.IH [of "creates t h"] Cons.prems(2,3) by (auto simp: c)
qed simp

section \<open>Comparing\<close>

text \<open>The names of some entries behind their first slash.\<close>

definition rels :: "sync_file list \<Rightarrow> string list \<Rightarrow> bool" where
  "rels fs rs \<longleftrightarrow> map (\<lambda>f. after_slash (filename f)) fs = map Some rs"

lemma find_name_rels: "rels fs cs \<Longrightarrow> find_name (Some r) fs = Inr (r \<in> set cs)"
proof (induction fs arbitrary: cs)
  case (Cons f fs)
  then show ?case by (cases cs) (auto simp: rels_def)
qed (simp add: rels_def)

lemma rels_entries:
  assumes "\<And>r. after_slash (p @ r) = Some (g r)"
  shows "rels (entries_of p es) (map g (names_of es))"
proof -
  have "map (\<lambda>f. after_slash (filename f)) (entries_of p es) = map after_slash (map ((@) p) (names_of es))"
    using arg_cong [OF entries_names [of p es], of "map after_slash"] by (simp add: comp_def)
  then show ?thesis by (simp add: rels_def assms)
qed

lemma length_entries: "length (entries_of p es) = length (names_of es)"
  using arg_cong [OF entries_names [of p es], of length] by simp

text \<open>Names of which none is found, whatever is appended on the way.\<close>

fun fresh :: "(string \<Rightarrow> string) \<Rightarrow> string list \<Rightarrow> string set \<Rightarrow> bool" where
  "fresh g [] known = True"
| "fresh g (r # rs) known \<longleftrightarrow> r \<notin> known \<and> fresh g rs (insert (g r) known)"

lemma fresh_id: "distinct rs \<Longrightarrow> set rs \<inter> known = {} \<Longrightarrow> fresh (\<lambda>r. r) rs known"
  by (induction rs arbitrary: known) auto

lemma fresh_disjoint: "\<forall>r\<in>set rs. r \<notin> range g \<Longrightarrow> known \<subseteq> range g \<Longrightarrow> fresh g rs known"
  by (induction rs arbitrary: known) auto

lemma compare_client_fresh:
  "rels fs rs \<Longrightarrow> sz \<le> length arr \<Longrightarrow> (sz mod 5 \<noteq> 0 \<or> sz = 0 \<longrightarrow> cells sz arr) \<Longrightarrow> rels (take sz arr) cs \<Longrightarrow>
   fresh g rs (set cs) \<Longrightarrow> (\<And>r. after_slash (src @ r) = Some (g r)) \<Longrightarrow> \<forall>r\<in>set rs. length (src @ r) < PATH_LEN \<Longrightarrow>
   \<exists>arr'. compare_client junk src fs (arr, sz, h) = Inr (arr', sz + length rs, fold creates (map ((@) src) rs) h)"
proof (induction fs arbitrary: rs arr sz h cs)
  case Nil
  then show ?case by (simp add: rels_def)
next
  case (Cons f fs)
  obtain r rs' where rs: "rs = r # rs'" "after_slash (filename f) = Some r" "rels fs rs'"
    using Cons.prems(1) by (cases rs) (auto simp: rels_def)
  define a1 where "a1 = (if sz mod 5 = 0 \<and> sz \<noteq> 0 then take sz arr @ replicate 5 junk else arr)"
  have a1: "sz < length a1" "take sz a1 = take sz arr" "sz mod 5 = 4 \<or> cells (Suc sz) a1"
  proof -
    have "sz mod 5 = 4 \<or> cells (Suc sz) a1 \<and> sz < length a1" if "cells sz arr" "a1 = arr"
      using that cells_Suc [of sz arr] cells_less [of sz arr] by (cases "sz mod 5 = 4") (auto simp: mod_Suc)
    moreover have "cells (Suc sz) a1" if "sz mod 5 = 0" "sz \<noteq> 0"
    proof -
      have "5 * (Suc sz div 5) = sz" using that(1) by presburger
      then show ?thesis using that Cons.prems(2) by (simp add: cells_def a1_def)
    qed
    ultimately show "sz mod 5 = 4 \<or> cells (Suc sz) a1" using Cons.prems(3) by (auto simp: a1_def)
    show "sz < length a1" using Cons.prems(2,3) cells_less [of sz arr] by (auto simp: a1_def)
    show "take sz a1 = take sz arr" using Cons.prems(2) by (simp add: a1_def)
  qed
  define a2 where "a2 = a1[sz := (a1 ! sz)\<lparr>filename := src @ r\<rparr>]"
  have step: "compare_client junk src (f # fs) (arr, sz, h)
      = compare_client junk src fs (a2, Suc sz, creates (src @ r) h)"
    using Cons.prems(2,5,7) rs find_name_rels [OF Cons.prems(4), of r] a1(1)
    by (auto simp: a2_def a1_def creates_def Let_def)
  have "rels (take (Suc sz) a2) (cs @ [g r])"
    using Cons.prems(4,6) a1(1,2) by (simp add: a2_def rels_def take_Suc_conv_app_nth)
  moreover have "Suc sz \<le> length a2" "Suc sz mod 5 \<noteq> 0 \<or> Suc sz = 0 \<longrightarrow> cells (Suc sz) a2"
    using a1(1,3) by (auto simp: a2_def cells_def mod_Suc)
  ultimately obtain arr' where "compare_client junk src fs (a2, Suc sz, creates (src @ r) h)
      = Inr (arr', Suc sz + length rs', fold creates (map ((@) src) rs') (creates (src @ r) h))"
    using Cons.IH [OF rs(3), of "Suc sz" a2 "cs @ [g r]" "creates (src @ r) h"] Cons.prems(5-7) rs(1) by auto
  then show ?case using step rs(1) by simp
qed

lemma compare_client_length:
  "compare_client junk src fs (arr, sz, h) = Inr (arr', n, h') \<Longrightarrow> 5 \<le> length arr \<Longrightarrow> 5 \<le> length arr'"
proof (induction fs arbitrary: arr sz h)
  case (Cons f fs)
  from Cons.prems show ?case
    by (auto simp: Let_def elim!: Cons.IH split: if_splits option.splits) (drule Cons.IH; simp)+
qed simp

lemma compare_server_fresh:
  "rels fs rs \<Longrightarrow> sz \<le> length arr \<Longrightarrow> rels (take sz arr) cs \<Longrightarrow> set rs \<inter> set cs = {} \<Longrightarrow>
   \<forall>r\<in>set rs. length (src @ r) < PATH_LEN \<Longrightarrow> length diff + length rs \<le> MAX_DIFFERENCE \<Longrightarrow>
   \<exists>arr'. compare_server junk src sz fs (arr, diff, h)
       = Inr (arr', diff @ map ((@) src) rs, fold creates (map ((@) src) rs) h)
     \<and> sz \<le> length arr' \<and> take sz arr' = take sz arr"
proof (induction fs arbitrary: rs arr diff h)
  case Nil
  then show ?case by (simp add: rels_def)
next
  case (Cons f fs)
  obtain r rs' where rs: "rs = r # rs'" "after_slash (filename f) = Some r" "rels fs rs'"
    using Cons.prems(1) by (cases rs) (auto simp: rels_def)
  define a1 where "a1 = (if sz mod 5 = 0 \<and> sz \<noteq> 0 then take sz arr @ replicate 5 junk else arr)"
  have a1: "sz \<le> length a1" "take sz a1 = take sz arr" using Cons.prems(2) by (simp_all add: a1_def)
  have "compare_server junk src sz (f # fs) (arr, diff, h)
      = compare_server junk src sz fs (a1, diff @ [src @ r], creates (src @ r) h)"
    using Cons.prems(2,4-6) rs find_name_rels [OF Cons.prems(3), of r]
    by (auto simp: a1_def creates_def Let_def)
  moreover have "rels (take sz a1) cs" using Cons.prems(3) a1(2) by simp
  ultimately show ?case
    using Cons.IH [OF rs(3) a1(1), of "diff @ [src @ r]" "creates (src @ r) h"] Cons.prems(4-6) rs(1) a1(2) by auto
qed

section \<open>Sending and receiving\<close>

lemma write_files_all:
  "rels fs rs \<Longrightarrow> \<forall>f\<in>set fs. files h (path_key (filename f)) \<noteq> None \<Longrightarrow>
   write_files h fs = Inr (zip rs (map (\<lambda>f. the (files h (path_key (filename f)))) fs), False)"
proof (induction fs arbitrary: rs)
  case (Cons f fs)
  then show ?case by (cases rs) (auto simp: rels_def)
qed simp

lemma read_all:
  "\<forall>(name, bytes)\<in>set ps. length (src @ name) < PATH_LEN \<and> files h (path_key (src @ name)) \<noteq> None \<Longrightarrow>
   distinct (map (\<lambda>(name, bytes). path_key (src @ name)) ps) \<Longrightarrow>
   \<exists>h'. read_from_serverx (length ps) src ps h = Inr (R_Done [], h') \<and> dirs h' = dirs h
     \<and> (\<forall>(name, bytes)\<in>set ps. files h' (path_key (src @ name)) = Some bytes)
     \<and> (\<forall>k. k \<notin> (\<lambda>(name, bytes). path_key (src @ name)) ` set ps \<longrightarrow> files h' k = files h k)"
proof (induction ps arbitrary: h)
  case (Cons p ps)
  obtain name bytes where p: "p = (name, bytes)" by fastforce
  let ?k = "path_key (src @ name)"
  let ?h = "h\<lparr>files := (files h)(?k \<mapsto> bytes)\<rparr>"
  have step: "read_from_serverx (length (p # ps)) src (p # ps) h = read_from_serverx (length ps) src ps ?h"
    using Cons.prems(1) p by (auto simp: open_truncate_def Let_def)
  have "\<exists>h'. read_from_serverx (length ps) src ps ?h = Inr (R_Done [], h') \<and> dirs h' = dirs ?h
     \<and> (\<forall>(name, bytes)\<in>set ps. files h' (path_key (src @ name)) = Some bytes)
     \<and> (\<forall>k. k \<notin> (\<lambda>(name, bytes). path_key (src @ name)) ` set ps \<longrightarrow> files h' k = files ?h k)"
    by (rule Cons.IH) (use Cons.prems in auto)
  then obtain h' where h': "read_from_serverx (length ps) src ps ?h = Inr (R_Done [], h')" "dirs h' = dirs h"
      "\<forall>(name, bytes)\<in>set ps. files h' (path_key (src @ name)) = Some bytes"
      "\<forall>k. k \<notin> (\<lambda>(name, bytes). path_key (src @ name)) ` set ps \<longrightarrow> files h' k = files ?h k" by auto
  have "?k \<notin> (\<lambda>(name, bytes). path_key (src @ name)) ` set ps" using Cons.prems(2) p by simp
  then have "files h' ?k = Some bytes" using h'(4) by auto
  then show ?case using h' p step by auto
qed simp

section \<open>The rounds of a session\<close>

lemma prefix_free_map: "prefix_free ps \<Longrightarrow> prefix_free (map ((#) w) ps)"
  by (auto simp: prefix_free_def distinct_map)

lemma distinct_names: "wf_listing es \<Longrightarrow> distinct (names_of es)"
  using paths_prefix_free [of es] names_paths [of es] by (metis distinct_map prefix_free_def)

lemma names_set: "wf_listing es \<Longrightarrow> tokens (CHR ''/'') ` set (names_of es) = set (paths_of es)"
  using names_paths [of es] by (metis set_map)

lemma entries_member: "f \<in> set (entries_of p es) \<Longrightarrow> \<exists>r\<in>set (names_of es). filename f = p @ r"
  using entries_names [of p es] by (metis (no_types, lifting) image_iff image_eqI set_map)

text \<open>The server's half of a scan: every file announced.\<close>

lemma take_files_all:
  assumes "fits p es" "5 \<le> length arr" "names_of (upto_last es) = names_of es" "p = (if flag = 0 then path @ ''/'' else path)"
  shows "\<exists>arr'. take_files junk path flag es arr = Inr (p, arr', length (names_of es), length (names_of es))
    \<and> take (length (names_of es)) arr' = entries_of p es \<and> length (names_of es) < length arr'
    \<and> cells (length (names_of es)) arr'"
proof -
  have "cells 0 arr" using assms(2) by (simp add: cells_def)
  from take_loop_entries [OF assms(1) this, of junk 0] obtain arr' where
    a: "take_loop junk p es (arr, 0, 0) = Inr (arr', length (names_of es),
        if \<exists>e\<in>set es. is_file e then length (names_of (upto_last es)) else 0)"
      "take (length (names_of es)) arr' = entries_of p es" "cells (length (names_of es)) arr'"
    by (auto simp: length_entries)
  have "(if \<exists>e\<in>set es. is_file e then length (names_of (upto_last es)) else 0) = length (names_of es)"
    using upto_last_Nil [of es] assms(3) by (auto simp: names_of_def)
  then show ?thesis using a cells_less [OF a(3)] assms(4)
    by (intro exI [of _ arr']) (simp add: take_files_def Let_def)
qed

text \<open>A host on which no file is a directory or lies below a file.\<close>

definition host_ok :: "host \<Rightarrow> bool" where
  "host_ok h \<longleftrightarrow> (\<forall>k. files h k \<noteq> None \<longrightarrow> k \<notin> dirs h \<and> (\<forall>q\<in>above k. files h q = None))"

text \<open>Files below a directory in which there was nothing leave the host in order.\<close>

lemma host_ok_below:
  assumes "host_ok h" "prefix_free ps" "files h [c] = None"
    and "\<forall>k. strict_prefix [c] k \<longrightarrow> k \<notin> dirs h \<and> files h k = None" "\<forall>p\<in>set ps. strict_prefix [c] p"
    and "dirs h' = dirs h \<union> \<Union> (above ` set ps)" "\<And>k. k \<notin> set ps \<Longrightarrow> files h' k = files h k"
  shows "host_ok h'"
proof -
  have below: "q = [c] \<or> strict_prefix [c] q" if "q \<in> above k" "strict_prefix [c] k" for q k
    using that by (cases q; cases k) (auto simp: above_def strict_prefix_def)
  have "k \<notin> dirs h' \<and> (\<forall>q\<in>above k. files h' q = None)" if k: "files h' k \<noteq> None" for k
  proof (cases "k \<in> set ps")
    case True
    then have c: "strict_prefix [c] k" using assms(5) by blast
    have "k \<notin> above p" if "p \<in> set ps" for p
      using assms(2) True that by (auto simp: prefix_free_def above_def strict_prefix_def)
    moreover have "q \<notin> set ps" if "q \<in> above k" for q
      using assms(2) True that by (auto simp: prefix_free_def above_def strict_prefix_def)
    ultimately show ?thesis using assms(3,4,6,7) below [OF _ c] c by (metis UN_E Un_iff)
  next
    case False
    then have old: "files h k \<noteq> None" using k assms(7) by simp
    then have no: "k \<noteq> [c]" "\<not> strict_prefix [c] k" using assms(3,4) by auto
    have "k \<notin> above p" if "p \<in> set ps" for p using below [of k p] no assms(5) that by blast
    moreover have "q \<notin> set ps" if "q \<in> above k" for q
      using no(2) assms(5) that by (auto simp: above_def dest: prefix_order.less_trans)
    ultimately show ?thesis using assms(1,6,7) old unfolding host_ok_def by (metis UN_E Un_iff)
  qed
  then show ?thesis by (simp add: host_ok_def)
qed

text \<open>The first round brings an empty directory up to date.\<close>

lemma first_round:
  assumes "plain s" "plain c" "wf_listing sl" "fits (s @ ''/'') sl" "names_of (upto_last sl) = names_of sl"
    and "\<forall>r\<in>set (names_of sl). length ((c @ ''/'') @ r) < PATH_LEN"
    and "\<forall>p\<in>set (paths_of sl). files (server_host S) (s # p) \<noteq> None"
    and "server_src S = s" "round_counter S = 0" "client_src C = c" "5 \<le> length (client_files C)"
    and "files (client_host C) [c] = None" "host_ok (client_host C)"
    and "\<forall>k. strict_prefix [c] k \<longrightarrow> k \<notin> dirs (client_host C) \<and> files (client_host C) k = None"
  shows "\<exists>C'. sync_round junk sl [] S C = Inr (R_Done [], False, S\<lparr>server_src := s @ ''/'', round_counter := 1\<rparr>, C')
    \<and> client_src C' = c @ ''/'' \<and> 5 \<le> length (client_files C') \<and> host_ok (client_host C')
    \<and> (\<forall>p\<in>set (paths_of sl). files (client_host C') (c # p) = files (server_host S) (s # p))
    \<and> (\<forall>k. k \<notin> (#) c ` set (paths_of sl) \<longrightarrow> files (client_host C') k = files (client_host C) k)"
proof -
  let ?rs = "names_of sl" and ?n = "length (names_of sl)" and ?sp = "s @ ''/''" and ?cp = "c @ ''/''"
  let ?h = "client_host C"
  obtain sarr where sarr: "take_files junk s 0 sl (replicate 5 junk) = Inr (?sp, sarr, ?n, ?n)"
      "take ?n sarr = entries_of ?sp sl" "?n < length sarr"
    using take_files_all [OF assms(4) _ assms(5), of "replicate 5 junk" 0 s junk] by auto
  have client: "take_files junk c 0 [] (client_files C) = Inr (?cp, client_files C, 0, 0)"
    by (simp add: take_files_def Let_def)
  have key_s: "path_key (?sp @ r) = s # tokens (CHR ''/'') r" for r using path_key_relative [OF assms(1)] by simp
  have key_c: "path_key (?cp @ r) = c # tokens (CHR ''/'') r" for r using path_key_relative [OF assms(2)] by simp
  have rels_s: "rels (entries_of ?sp sl) ?rs"
    using rels_entries [of ?sp "\<lambda>r. r" sl] after_slash_dir [OF assms(1)] by simp
  \<comment> \<open>the client creates every file\<close>
  have "fresh (\<lambda>r. r) ?rs (set [])" by (rule fresh_id [OF distinct_names [OF assms(3)]]) simp
  moreover have "after_slash (?cp @ r) = Some r" for r using after_slash_dir [OF assms(2)] by simp
  ultimately obtain carr where carr: "compare_client junk ?cp (entries_of ?sp sl) (client_files C, 0, ?h)
      = Inr (carr, ?n, fold creates (map ((@) ?cp) ?rs) ?h)"
    using compare_client_fresh [OF rels_s, of 0 "client_files C" "[]" "\<lambda>r. r" ?cp junk ?h] assms(6,11)
    by (auto simp: rels_def cells_def)
  have carr5: "5 \<le> length carr" by (rule compare_client_length [OF carr assms(11)])
  let ?h' = "fold creates (map ((@) ?cp) ?rs) ?h" and ?ps = "map ((#) c) (paths_of sl)"
  have keys: "path_key ` (@) ?cp ` set ?rs = set ?ps"
  proof -
    have "path_key ` (@) ?cp ` A = (#) c ` tokens (CHR ''/'') ` A" for A by (simp only: image_image key_c)
    then show ?thesis using names_set [OF assms(3)] by (simp only: set_map)
  qed
  have cr: "creatable (set ?ps) ?h"
  proof -
    have "p \<noteq> []" if "p \<in> set (paths_of sl)" for p using paths_head [OF that] by simp
    moreover have "files ?h q = None" if qa: "q \<in> above (c # p)" for q p
    proof -
      obtain l where l: "q = c # l" using qa by (cases q) (auto simp: above_def)
      show ?thesis
      proof (cases l)
        case (Cons x xs)
        then have "strict_prefix [c] q" using l by simp
        then show ?thesis using assms(14) by blast
      qed (use l assms(12) in simp)
    qed
    moreover have "c # p \<notin> dirs ?h" if pin: "p \<in> set (paths_of sl)" for p
    proof -
      have "strict_prefix [c] (c # p)" using paths_head [OF pin] by (cases p) simp_all
      then show ?thesis using assms(14) by blast
    qed
    ultimately show ?thesis by (auto simp: creatable_def)
  qed
  have pf: "prefix_free ?ps" by (rule prefix_free_map [OF paths_prefix_free [OF assms(3)]])
  have tk: "\<forall>t\<in>set (map ((@) ?cp) ?rs). path_key t \<in> set ?ps \<and> tokens (CHR ''/'') t = path_key t"
    using names_set [OF assms(3)] tokens_dir [OF assms(2)] by (auto simp: key_c [simplified])
  have files': "files ?h' = (\<lambda>k. if k \<in> path_key ` set (map ((@) ?cp) ?rs) then Some [] else files ?h k)"
    by (rule creates_all [OF cr pf tk])
  have dirs': "dirs ?h' = dirs ?h \<union> \<Union> (above ` set ?ps)"
  proof -
    have "dirs ?h' = dirs ?h \<union> \<Union> (above ` path_key ` (@) ?cp ` set ?rs)"
      using creates_all_dirs [OF cr pf tk] by simp
    then show ?thesis by (simp only: keys)
  qed
  \<comment> \<open>the server sends every file\<close>
  let ?val = "\<lambda>r. the (files (server_host S) (s # tokens (CHR ''/'') r))"
  have "\<forall>f\<in>set (entries_of ?sp sl). files (server_host S) (path_key (filename f)) \<noteq> None"
    using entries_member [of _ ?sp sl] names_set [OF assms(3)] assms(7) key_s by fastforce
  from write_files_all [OF rels_s this]
  have "write_files (server_host S) (entries_of ?sp sl)
      = Inr (zip ?rs (map (\<lambda>f. the (files (server_host S) (path_key (filename f)))) (entries_of ?sp sl)), False)" .
  moreover have "map (\<lambda>f. the (files (server_host S) (path_key (filename f)))) (entries_of ?sp sl) = map ?val ?rs"
    using arg_cong [OF entries_names [of ?sp sl], of "map (\<lambda>x. the (files (server_host S) (path_key x)))"]
    by (simp add: comp_def key_s [simplified])
  moreover have "zip ?rs (map ?val ?rs) = map (\<lambda>r. (r, ?val r)) ?rs" by (simp add: zip_map2 zip_same_conv_map)
  ultimately have wr: "write_to_client (server_host S) ?n sarr 0 = Inr (map (\<lambda>r. (r, ?val r)) ?rs, False)"
    using sarr(2,3) by (simp add: write_to_client_def)
  \<comment> \<open>the client reads them\<close>
  have "\<exists>h''. read_from_serverx (length (map (\<lambda>r. (r, ?val r)) ?rs)) ?cp (map (\<lambda>r. (r, ?val r)) ?rs) ?h' = Inr (R_Done [], h'')
     \<and> dirs h'' = dirs ?h'
     \<and> (\<forall>(name, bytes)\<in>set (map (\<lambda>r. (r, ?val r)) ?rs). files h'' (path_key (?cp @ name)) = Some bytes)
     \<and> (\<forall>k. k \<notin> (\<lambda>(name, bytes). path_key (?cp @ name)) ` set (map (\<lambda>r. (r, ?val r)) ?rs) \<longrightarrow> files h'' k = files ?h' k)"
  proof (rule read_all)
    show "\<forall>(name, bytes)\<in>set (map (\<lambda>r. (r, ?val r)) ?rs). length (?cp @ name) < PATH_LEN \<and> files ?h' (path_key (?cp @ name)) \<noteq> None"
      using assms(6) files' by auto
    have "map (\<lambda>(name, bytes). path_key (?cp @ name)) (map (\<lambda>r. (r, ?val r)) ?rs) = map ((#) c) (map (tokens (CHR ''/'')) ?rs)"
      by (simp add: key_c [simplified])
    then show "distinct (map (\<lambda>(name, bytes). path_key (?cp @ name)) (map (\<lambda>r. (r, ?val r)) ?rs))"
      using paths_prefix_free [OF assms(3)] by (simp add: names_paths [OF assms(3)] distinct_map prefix_free_def del: map_map)
  qed
  then obtain h'' where rd: "read_from_serverx ?n ?cp (map (\<lambda>r. (r, ?val r)) ?rs) ?h' = Inr (R_Done [], h'')" "dirs h'' = dirs ?h'"
      "\<And>r. r \<in> set ?rs \<Longrightarrow> files h'' (path_key (?cp @ r)) = Some (?val r)"
      "\<And>k. k \<notin> (\<lambda>r. path_key (?cp @ r)) ` set ?rs \<Longrightarrow> files h'' k = files ?h' k"
    by (auto simp: image_image)
  let ?S = "S\<lparr>server_src := ?sp, round_counter := 1\<rparr>"
  let ?C = "\<lparr>client_src = ?cp, client_host = h'', client_files = carr\<rparr>"
  have "sync_round junk sl [] S C = Inr (R_Done [], False, ?S, ?C)"
    unfolding sync_round_def assms(8-10)
    by (simp only: sarr(1,2) client carr wr rd(1) cbind_Inr prod.case compare_server.simps take_0 length_map)
      simp
  moreover have "files h'' (c # p) = files (server_host S) (s # p)" if pin: "p \<in> set (paths_of sl)" for p
  proof -
    have "p \<in> tokens (CHR ''/'') ` set ?rs" using pin names_set [OF assms(3)] by simp
    then obtain r where r: "r \<in> set ?rs" "p = tokens (CHR ''/'') r" by auto
    have "files h'' (c # p) = Some (?val r)" using rd(3) [OF r(1)] key_c [of r] r(2) by simp
    then show ?thesis using assms(7) pin r(2) by auto
  qed
  moreover have old: "files h'' k = files ?h k" if "k \<notin> (#) c ` set (paths_of sl)" for k
  proof -
    have "k \<notin> path_key ` (@) ?cp ` set ?rs" using that keys by simp
    then show ?thesis using rd(4) [of k] files' by (auto simp: image_image)
  qed
  moreover have "host_ok h''"
  proof (rule host_ok_below [OF assms(13) pf assms(12,14)])
    show "\<forall>p\<in>set ?ps. strict_prefix [c] p"
      using paths_head by (fastforce simp: strict_prefix_def prefix_Cons)
  qed (use old rd(2) dirs' in simp_all)
  ultimately show ?thesis using carr5 by (intro exI [of _ ?C]) simp
qed

lemma creates_tree:
  assumes "plain w" "wf_listing es" "host_ok h" "\<forall>p\<in>set (paths_of es). files h (w # p) \<noteq> None"
    and "\<And>r. \<exists>u. t r = w @ CHR ''/'' # u \<and> tokens (CHR ''/'') u = tokens (CHR ''/'') r"
  shows "files (fold creates (map t (names_of es)) h) = (\<lambda>k. if k \<in> (#) w ` set (paths_of es) then Some [] else files h k)"
proof -
  let ?ps = "map ((#) w) (paths_of es)"
  have key: "path_key (t r) = w # tokens (CHR ''/'') r" "tokens (CHR ''/'') (t r) = path_key (t r)" for r
    using assms(5) [of r] path_key_relative [OF assms(1)] tokens_dir [OF assms(1)] by auto
  have "\<forall>k\<in>set ?ps. k \<noteq> [] \<and> files h k \<noteq> None" using assms(4) by auto
  then have "creatable (set ?ps) h" using assms(3) unfolding creatable_def host_ok_def by blast
  moreover have "prefix_free ?ps" by (rule prefix_free_map [OF paths_prefix_free [OF assms(2)]])
  moreover have "\<forall>x\<in>set (map t (names_of es)). path_key x \<in> set ?ps \<and> tokens (CHR ''/'') x = path_key x"
    using names_set [OF assms(2)] key by auto
  ultimately have "files (fold creates (map t (names_of es)) h)
      = (\<lambda>k. if k \<in> path_key ` set (map t (names_of es)) then Some [] else files h k)" by (rule creates_all)
  moreover have "path_key ` set (map t (names_of es)) = (#) w ` tokens (CHR ''/'') ` set (names_of es)"
    by (simp only: set_map image_image key(1))
  ultimately show ?thesis by (simp only: names_set [OF assms(2)])
qed

text \<open>
  The round after that: the client has appended a second slash to its directory, so each side
  finds none of its names among those of the other, takes every file for new and opens it
  with \<^verbatim>\<open>O_TRUNC\<close>; the server sends its files in its first round only.
\<close>

lemma second_round:
  assumes "plain s" "plain c" "wf_listing sl" "wf_listing cl" "fits (s @ ''/'') sl" "fits (c @ ''//'') cl"
    and "names_of (upto_last sl) = names_of sl" "names_of (upto_last cl) = names_of cl" "names_of sl @ names_of cl \<noteq> []"
    and "\<forall>r\<in>set (names_of sl). length ((c @ ''//'') @ r) < PATH_LEN"
    and "\<forall>r\<in>set (names_of cl). length ((s @ ''//'') @ r) < PATH_LEN"
    and "length (difference S) + length (names_of cl) \<le> MAX_DIFFERENCE"
    and "server_src S = s @ ''/''" "0 < round_counter S" "client_src C = c @ ''/''" "5 \<le> length (client_files C)"
    and "host_ok (server_host S)" "\<forall>p\<in>set (paths_of cl). files (server_host S) (s # p) \<noteq> None"
    and "host_ok (client_host C)" "\<forall>p\<in>set (paths_of sl). files (client_host C) (c # p) \<noteq> None"
  shows "\<exists>S' C'. sync_round junk sl cl S C = Inr (R_Blocks, False, S', C')
    \<and> server_src S' = s @ ''/'' \<and> round_counter S' = round_counter S + 1 \<and> client_src C' = c @ ''//''
    \<and> files (server_host S') = (\<lambda>k. if k \<in> (#) s ` set (paths_of cl) then Some [] else files (server_host S) k)
    \<and> files (client_host C') = (\<lambda>k. if k \<in> (#) c ` set (paths_of sl) then Some [] else files (client_host C) k)"
proof -
  let ?sp = "s @ ''/''" and ?cp = "c @ ''//''" and ?n = "length (names_of sl)" and ?m = "length (names_of cl)"
  let ?g = "(@) ''/''"
  obtain sarr where sarr: "take_files junk ?sp (round_counter S) sl (replicate 5 junk) = Inr (?sp, sarr, ?n, ?n)"
      "take ?n sarr = entries_of ?sp sl" "?n < length sarr"
    using take_files_all [OF assms(5) _ assms(7), of "replicate 5 junk" "round_counter S" ?sp junk] assms(14) by auto
  obtain carr where carr: "take_files junk (c @ ''/'') 0 cl (client_files C) = Inr (?cp, carr, ?m, ?m)"
      "take ?m carr = entries_of ?cp cl" "?m < length carr" "cells ?m carr"
    using take_files_all [OF assms(6,16) assms(8), of 0 "c @ ''/''" junk] by auto
  have rels_s: "rels (entries_of ?sp sl) (names_of sl)"
    using rels_entries [of ?sp "\<lambda>r. r" sl] after_slash_dir [OF assms(1)] by simp
  have slash: "after_slash (?cp @ r) = Some (?g r)" for r using after_slash_dir [OF assms(2)] by simp
  then have rels_c: "rels (entries_of ?cp cl) (map ?g (names_of cl))" by (rule rels_entries)
  have no: "r \<notin> range ?g" if r: "r \<in> set (names_of sl)" for r
    using names_start [OF assms(3) r] by auto
  \<comment> \<open>the server takes all names of the client for new\<close>
  have "set (map ?g (names_of cl)) \<inter> set (names_of sl) = {}" using no by auto
  moreover have "\<forall>r\<in>set (map ?g (names_of cl)). length (?sp @ r) < PATH_LEN" using assms(11) by simp
  moreover have "length (difference S) + length (map ?g (names_of cl)) \<le> MAX_DIFFERENCE" using assms(12) by simp
  moreover have "?n \<le> length sarr" "rels (take ?n sarr) (names_of sl)" using sarr(2,3) rels_s by auto
  ultimately obtain sarr' where server: "compare_server junk ?sp ?n (entries_of ?cp cl) (sarr, difference S, server_host S)
      = Inr (sarr', difference S @ map ((@) ?sp) (map ?g (names_of cl)), fold creates (map ((@) ?sp) (map ?g (names_of cl))) (server_host S))"
    using compare_server_fresh [OF rels_c] by blast
  \<comment> \<open>and the client those of the server\<close>
  have "fresh ?g (names_of sl) (set (map ?g (names_of cl)))" by (rule fresh_disjoint) (use no in auto)
  then obtain carr' where client: "compare_client junk ?cp (entries_of ?sp sl) (carr, ?m, client_host C)
      = Inr (carr', ?m + ?n, fold creates (map ((@) ?cp) (names_of sl)) (client_host C))"
    using compare_client_fresh [OF rels_s less_imp_le [OF carr(3)] _ _ _ slash assms(10)] carr(2,4) rels_c by metis
  have blocks: "read_from_serverx (?m + ?n) ?cp [] h = Inr (R_Blocks, h)" for h
    using assms(9) by (cases "?m + ?n") auto
  have quiet: "write_to_client h ?n sarr' (round_counter S) = Inr ([], False)" for h
    using assms(14) by (simp add: write_to_client_def)
  let ?S = "\<lparr>server_src = ?sp, server_host = fold creates (map ((@) ?sp) (map ?g (names_of cl))) (server_host S),
     difference = difference S @ map ((@) ?sp) (map ?g (names_of cl)), round_counter = round_counter S + 1\<rparr>"
  let ?C = "\<lparr>client_src = ?cp, client_host = fold creates (map ((@) ?cp) (names_of sl)) (client_host C), client_files = carr'\<rparr>"
  have "sync_round junk sl cl S C = Inr (R_Blocks, False, ?S, ?C)"
    unfolding sync_round_def assms(13,15)
    by (simp only: sarr(1,2) carr(1,2) server client quiet blocks cbind_Inr prod.case)
  moreover have "files (server_host ?S) = (\<lambda>k. if k \<in> (#) s ` set (paths_of cl) then Some [] else files (server_host S) k)"
    using creates_tree [OF assms(1,4,17,18), of "(@) ?sp \<circ> ?g"] by (simp add: tokens_slash)
  moreover have "files (client_host ?C) = (\<lambda>k. if k \<in> (#) c ` set (paths_of sl) then Some [] else files (client_host C) k)"
    using creates_tree [OF assms(2,3,19,20), of "(@) ?cp"] by (simp add: tokens_slash)
  ultimately show ?thesis by (intro exI [of _ ?S] exI [of _ ?C]) (simp only: sync_round_def, simp)
qed

section \<open>Witnesses\<close>

abbreviation no_entry :: sync_file where
  "no_entry \<equiv> \<lparr>filename = [], modification_time = [], file_modes = 0\<rparr>"

abbreviation a_tree :: "(string \<times> snode) list" where
  "a_tree \<equiv> [(''.'', SGone), (''d'', SDir [(''b'', SFile 1 0)]), (''a'', SFile 2 0)]"

definition a_host :: "string \<Rightarrow> host" where
  "a_host w = \<lparr>dirs = {[w], [w, ''d'']}, files = [[w, ''d'', ''b''] \<mapsto> ''xy'', [w, ''a''] \<mapsto> ''z'']\<rparr>"

lemma a_host_ok: "plain w \<Longrightarrow> w \<noteq> ''d'' \<Longrightarrow> host_ok (a_host w)"
  by (auto simp: host_ok_def a_host_def above_def strict_prefix_def prefix_Cons)

lemma sync_take_files_witness:
  "\<exists>arr'. take_files no_entry ''s'' 0 [(''a'', SFile 1 0), (''d'', SDir [(''b'', SFile 1 0)])] (replicate 5 no_entry)
      = Inr (''s/'', arr', 2, 1)"
  using sync_take_files [of 0 "''s''" "[(''a'', SFile 1 0), (''d'', SDir [(''b'', SFile 1 0)])]" "replicate 5 no_entry" no_entry]
  by (auto simp: FILE_LEN_def dot_def upto_last_def is_file_def)

lemma a_tree_scan:
  "names_of a_tree = [''d/b'', ''a'']" "paths_of a_tree = [[''d'', ''b''], [''a'']]"
  "wf_listing a_tree" "fits (''s'' @ ''/'') a_tree" "fits (''c'' @ ''//'') a_tree" "names_of (upto_last a_tree) = names_of a_tree"
  by (simp_all add: names_of_def dot_def plain_def FILE_LEN_def upto_last_def is_file_def)

end
