(* ===== verification/DirTalkProps.thy ===== *)
theory DirTalkProps
  imports DirTalk DirSyncProps
begin

text \<open>
  The two processes of \<open>DirTalk\<close> against the rounds of \<open>DirSync\<close>: what one round function
  computes is where the two loops arrive together, and every schedule of a session ends in
  the same way.
\<close>

section \<open>Single steps\<close>

abbreviation both :: "sync_server \<Rightarrow> sync_client \<Rightarrow> sync_msg list \<Rightarrow> sync_msg list \<Rightarrow> talk_state" where
  "both x y q p \<equiv> \<lparr>left_state = x, right_state = y, to_right = q, to_left = p\<rparr>"

lemma server_local:
  assumes "server_talk junk ss x = Local x'" "leads (talk_step junk ss cs) (both x' y q p) t"
  shows "leads (talk_step junk ss cs) (both x y q p) t"
  by (rule leads_step [OF _ assms(2), of LeftSide]) (simp add: talk_step_def assms(1))

lemma server_send:
  assumes "server_talk junk ss x = Send m x'" "leads (talk_step junk ss cs) (both x' y (q @ [m]) p) t"
  shows "leads (talk_step junk ss cs) (both x y q p) t"
  by (rule leads_step [OF _ assms(2), of LeftSide]) (simp add: talk_step_def assms(1))

lemma server_recv:
  assumes "server_talk junk ss x = Recv f" "leads (talk_step junk ss cs) (both (f m) y q p) t"
  shows "leads (talk_step junk ss cs) (both x y q (m # p)) t"
  by (rule leads_step [OF _ assms(2), of LeftSide]) (simp add: talk_step_def assms(1))

lemma client_local:
  assumes "client_talk junk cs y = Local y'" "leads (talk_step junk ss cs) (both x y' q p) t"
  shows "leads (talk_step junk ss cs) (both x y q p) t"
  by (rule leads_step [OF _ assms(2), of RightSide]) (simp add: talk_step_def assms(1))

lemma client_send:
  assumes "client_talk junk cs y = Send m y'" "leads (talk_step junk ss cs) (both x y' q (p @ [m])) t"
  shows "leads (talk_step junk ss cs) (both x y q p) t"
  by (rule leads_step [OF _ assms(2), of RightSide]) (simp add: talk_step_def assms(1))

lemma client_recv:
  assumes "client_talk junk cs y = Recv f" "leads (talk_step junk ss cs) (both x (f m) q p) t"
  shows "leads (talk_step junk ss cs) (both x y (m # q) p) t"
  by (rule leads_step [OF _ assms(2), of RightSide]) (simp add: talk_step_def assms(1))

section \<open>The loops\<close>

lemma server_sends_entries:
  assumes "server_at x = S_Entry j" "n = size_of_server_insides x" "n \<le> length (server_files_information x)" "j \<le> n"
    and "leads (talk_step junk ss cs)
      (both (x\<lparr>server_at := S_ReadSize\<rparr>) y (q @ map M_Entry (drop j (take n (server_files_information x)))) p) t"
  shows "leads (talk_step junk ss cs) (both x y q p) t"
  using assms
proof (induction "n - j" arbitrary: x j q)
  case 0
  then have "server_talk junk ss x = Local (x\<lparr>server_at := S_ReadSize\<rparr>)" "n = j" by (simp_all add: server_talk_def)
  then show ?case using 0 by (auto intro: server_local)
next
  case (Suc k)
  let ?x = "x\<lparr>server_at := S_Entry (j + 1)\<rparr>"
  have j: "j < n" using Suc.hyps(2) by simp
  have d: "drop j (take n (server_files_information x))
      = server_files_information x ! j # drop (j + 1) (take n (server_files_information x))"
    using j Suc.prems(3) by (subst Cons_nth_drop_Suc [symmetric]) simp_all
  have "leads (talk_step junk ss cs) (both ?x y (q @ [M_Entry (server_files_information x ! j)]) p) t"
    by (rule Suc.hyps(1) [of "j + 1" ?x]) (use d Suc.prems Suc.hyps(2) in \<open>simp_all\<close>)
  then show ?case
    by (rule server_send [rotated]) (use j Suc.prems in \<open>simp add: server_talk_def\<close>)
qed

lemma client_reads_entries:
  assumes "client_at y = C_Read c n" "n = length (server_files y) + length fs"
    and "leads (talk_step junk ss cs)
      (both x (y\<lparr>server_files := server_files y @ fs, client_at := C_Size c\<rparr>) q p) t"
  shows "leads (talk_step junk ss cs) (both x y (map M_Entry fs @ q) p) t"
  using assms
proof (induction fs arbitrary: y)
  case Nil
  then have "client_talk junk cs y = Local (y\<lparr>client_at := C_Size c\<rparr>)" by (simp add: client_talk_def)
  then show ?case using Nil.prems(3) by (auto intro: client_local)
next
  case (Cons f fs)
  have "leads (talk_step junk ss cs) (both x (y\<lparr>server_files := server_files y @ [f]\<rparr>) (map M_Entry fs @ q) p) t"
    by (rule Cons.IH) (use Cons.prems in \<open>simp_all\<close>)
  moreover have "client_talk junk cs y = Recv (\<lambda>m. case m of M_Entry f \<Rightarrow> y\<lparr>server_files := server_files y @ [f]\<rparr>
       | _ \<Rightarrow> y\<lparr>client_at := C_Garbled\<rparr>)"
    using Cons.prems(1,2) by (simp add: client_talk_def)
  ultimately show ?case by (simp add: client_recv)
qed

lemma client_sends_entries:
  assumes "client_at y = C_Entry c j" "n = size_of_client_inside y" "n \<le> length (client_files y)" "j \<le> n"
    and "leads (talk_step junk ss cs)
      (both x (y\<lparr>size_of_client_inside := c, client_at := C_Compare\<rparr>) q (p @ map M_Entry (drop j (take n (client_files y))))) t"
  shows "leads (talk_step junk ss cs) (both x y q p) t"
  using assms
proof (induction "n - j" arbitrary: y j p)
  case 0
  then have "client_talk junk cs y = Local (y\<lparr>size_of_client_inside := c, client_at := C_Compare\<rparr>)" "n = j"
    by (simp_all add: client_talk_def)
  then show ?case using 0 by (auto intro: client_local)
next
  case (Suc k)
  let ?y = "y\<lparr>client_at := C_Entry c (j + 1)\<rparr>"
  have j: "j < n" using Suc.hyps(2) by simp
  have d: "drop j (take n (client_files y)) = client_files y ! j # drop (j + 1) (take n (client_files y))"
    using j Suc.prems(3) by (subst Cons_nth_drop_Suc [symmetric]) simp_all
  have "leads (talk_step junk ss cs) (both x ?y q (p @ [M_Entry (client_files y ! j)])) t"
    by (rule Suc.hyps(1) [of "j + 1" ?y]) (use d Suc.prems Suc.hyps(2) in \<open>simp_all\<close>)
  then show ?case
    by (rule client_send [rotated]) (use j Suc.prems in \<open>simp add: client_talk_def\<close>)
qed

lemma server_reads_entries:
  assumes "server_at x = S_Read n" "n = length (client_files_information x) + length fs"
    and "leads (talk_step junk ss cs)
      (both (x\<lparr>client_files_information := client_files_information x @ fs, server_at := S_Compare\<rparr>) y q p) t"
  shows "leads (talk_step junk ss cs) (both x y q (map M_Entry fs @ p)) t"
  using assms
proof (induction fs arbitrary: x)
  case Nil
  then have "server_talk junk ss x = Local (x\<lparr>server_at := S_Compare\<rparr>)" by (simp add: server_talk_def)
  then show ?case using Nil.prems(3) by (auto intro: server_local)
next
  case (Cons f fs)
  have "leads (talk_step junk ss cs)
      (both (x\<lparr>client_files_information := client_files_information x @ [f]\<rparr>) y q (map M_Entry fs @ p)) t"
    by (rule Cons.IH) (use Cons.prems in \<open>simp_all\<close>)
  moreover have "server_talk junk ss x = Recv (\<lambda>m. case m of
         M_Entry f \<Rightarrow> x\<lparr>client_files_information := client_files_information x @ [f]\<rparr>
       | _ \<Rightarrow> x\<lparr>server_at := S_Garbled\<rparr>)"
    using Cons.prems(1,2) by (simp add: server_talk_def)
  ultimately show ?case by (simp add: server_recv)
qed

text \<open>The messages of a packet.\<close>

definition packet_msgs :: "packet \<Rightarrow> sync_msg list" where
  "packet_msgs = (\<lambda>(name, bytes). M_Name name # M_Long (length bytes) # map M_Byte bytes)"

lemma server_sends_bytes:
  assumes "server_at x = S_Bytes flag i bytes"
    and "leads (talk_step junk ss cs) (both (x\<lparr>server_at := S_Write flag (i + 1)\<rparr>) y (q @ map M_Byte bytes) p) t"
  shows "leads (talk_step junk ss cs) (both x y q p) t"
  using assms
proof (induction bytes arbitrary: x q)
  case Nil
  then have "server_talk junk ss x = Local (x\<lparr>server_at := S_Write flag (i + 1)\<rparr>)" by (simp add: server_talk_def)
  then show ?case using Nil.prems(2) by (auto intro: server_local)
next
  case (Cons b bytes)
  let ?x = "x\<lparr>server_at := S_Bytes flag i bytes\<rparr>"
  have "leads (talk_step junk ss cs) (both ?x y (q @ [M_Byte b]) p) t"
    by (rule Cons.IH) (use Cons.prems in \<open>simp_all\<close>)
  then show ?case by (rule server_send [rotated]) (use Cons.prems(1) in \<open>simp add: server_talk_def\<close>)
qed

lemma server_writes_files:
  assumes "server_at x = S_Write 0 i" "n = size_of_server_insides x" "n \<le> length (server_files_information x)" "i \<le> n"
    and "write_files (server_host x) (drop i (take n (server_files_information x))) = Inr (ps, False)"
    and "leads (talk_step junk ss cs) (both (x\<lparr>server_at := S_Free\<rparr>) y (q @ concat (map packet_msgs ps)) p) t"
  shows "leads (talk_step junk ss cs) (both x y q p) t"
  using assms
proof (induction "n - i" arbitrary: x i q ps)
  case 0
  then have "server_talk junk ss x = Local (x\<lparr>server_at := S_Free\<rparr>)" "n = i" by (simp_all add: server_talk_def send_file_def)
  then show ?case using 0 by (auto intro: server_local)
next
  case (Suc k)
  let ?f = "server_files_information x ! i"
  have i: "i < n" using Suc.hyps(2) by simp
  have d: "drop i (take n (server_files_information x)) = ?f # drop (i + 1) (take n (server_files_information x))"
    using i Suc.prems(3) by (subst Cons_nth_drop_Suc [symmetric]) simp_all
  obtain bytes rel ps' where w: "files (server_host x) (path_key (filename ?f)) = Some bytes"
      "after_slash (filename ?f) = Some rel" "ps = (rel, bytes) # ps'"
      "write_files (server_host x) (drop (i + 1) (take n (server_files_information x))) = Inr (ps', False)"
    using Suc.prems(5) unfolding d by (auto split: option.splits)
  let ?x = "\<lambda>pc. x\<lparr>server_at := pc\<rparr>"
  let ?q = "q @ [M_Name rel, M_Long (length bytes)] @ map M_Byte bytes"
  have l: "leads (talk_step junk ss cs) (both (?x (S_Write 0 (i + 1))) y ?q p) t"
    by (rule Suc.hyps(1) [of "i + 1"]) (use Suc.prems Suc.hyps(2) w in \<open>simp_all add: packet_msgs_def\<close>)
  have "leads (talk_step junk ss cs) (both (?x (S_Bytes 0 i bytes)) y ((q @ [M_Name rel]) @ [M_Long (length bytes)]) p) t"
    by (rule server_sends_bytes [where flag = 0 and i = i and bytes = bytes]) (use l in simp_all)
  then have "leads (talk_step junk ss cs) (both (?x (S_Length 0 i bytes)) y (q @ [M_Name rel]) p) t"
    by (rule server_send [rotated]) (simp add: server_talk_def)
  then show ?case
    by (rule server_send [rotated]) (use i Suc.prems(1-3) w in \<open>simp add: server_talk_def send_file_def\<close>)
qed

lemma put_bytes:
  assumes "client_at y = C_Bytes n k (length bytes)" "files (client_host y) k = Some old"
    and "leads (talk_step junk ss cs) (both x (y\<lparr>client_at := C_Name n,
          client_host := (client_host y)\<lparr>files := (files (client_host y))(k \<mapsto> old @ bytes)\<rparr>\<rparr>) q p) t"
  shows "leads (talk_step junk ss cs) (both x y (map M_Byte bytes @ q) p) t"
  using assms
proof (induction bytes arbitrary: y old)
  case Nil
  have "client_talk junk cs y = Local (y\<lparr>client_at := C_Name n\<rparr>)" using Nil(1) by (simp add: client_talk_def)
  moreover have "y\<lparr>client_at := C_Name n, client_host := (client_host y)\<lparr>files := (files (client_host y))(k \<mapsto> old)\<rparr>\<rparr>
      = y\<lparr>client_at := C_Name n\<rparr>"
    using Nil(2) by (simp add: fun_upd_idem)
  ultimately show ?case using Nil.prems(3) by (simp only: append_Nil append_Nil2 list.map client_local)
next
  case (Cons b bytes)
  let ?y = "y\<lparr>client_at := C_Bytes n k (length bytes), client_host := put_byte k b (client_host y)\<rparr>"
  have "leads (talk_step junk ss cs) (both x ?y (map M_Byte bytes @ q) p) t"
    by (rule Cons.IH [of ?y "old @ [b]"]) (use Cons.prems in \<open>simp_all add: put_byte_def cong: if_cong\<close>)
  then show ?case using Cons.prems(1)
    by (simp add: client_recv [where f = "\<lambda>m. case m of
          M_Byte b \<Rightarrow> y\<lparr>client_at := C_Bytes n k (length bytes), client_host := put_byte k b (client_host y)\<rparr>
        | _ \<Rightarrow> y\<lparr>client_at := C_Garbled\<rparr>"] client_talk_def)
qed

text \<open>The client takes the packets as \<open>read_from_serverx\<close> does.\<close>

lemma client_takes_name:
  assumes "client_at y = C_Name (Suc n)" "length name < PATH_LEN" "length (client_src y @ name) < PATH_LEN"
    and "open_truncate (client_src y @ name) (client_host y) = Some h"
    and "leads (talk_step junk ss cs) (both x (y\<lparr>client_at := C_Name n,
          client_host := h\<lparr>files := (files h)(path_key (client_src y @ name) \<mapsto> bytes)\<rparr>\<rparr>) q p) t"
  shows "leads (talk_step junk ss cs) (both x y (packet_msgs (name, bytes) @ q) p) t"
proof -
  let ?k = "path_key (client_src y @ name)"
  let ?y = "\<lambda>pc. y\<lparr>client_at := pc, client_host := h\<rparr>"
  have k: "files h ?k = Some []" using assms(4) by (auto simp: open_truncate_def Let_def split: if_splits)
  have "leads (talk_step junk ss cs) (both x (?y (C_Bytes n ?k (length bytes))) (map M_Byte bytes @ q) p) t"
    by (rule put_bytes [where n = n and k = ?k and old = "[]"]) (use k assms(5) in simp_all)
  moreover have "client_talk junk cs (?y (C_Length n ?k)) = Recv (\<lambda>m. case m of M_Long len \<Rightarrow> ?y (C_Bytes n ?k len)
      | _ \<Rightarrow> ?y C_Garbled)" by (simp add: client_talk_def fun_eq_iff split: sync_msg.split)
  ultimately have "leads (talk_step junk ss cs) (both x (?y (C_Length n ?k)) (M_Long (length bytes) # map M_Byte bytes @ q) p) t"
    by (simp add: client_recv)
  moreover have "client_talk junk cs y = Recv (\<lambda>m. case m of M_Name name \<Rightarrow> take_name n y name
      | M_Int k \<Rightarrow> take_name n y (int_name k) | _ \<Rightarrow> y\<lparr>client_at := C_Garbled\<rparr>)"
    using assms(1) by (simp add: client_talk_def)
  moreover have "take_name n y name = ?y (C_Length n ?k)"
    using assms(2-4) by (simp add: take_name_def)
  ultimately show ?thesis by (simp add: packet_msgs_def client_recv)
qed

lemma client_takes_packets:
  assumes "client_at y = C_Name n" "read_from_serverx n (client_src y) ps (client_host y) = Inr (r, h)" "r = R_Done [] \<or> r = R_Blocks"
  shows "\<exists>m. (m = 0) = (r = R_Done []) \<and> leads (talk_step junk ss cs) (both x y (concat (map packet_msgs ps) @ q) p)
    (both x (y\<lparr>client_at := C_Name m, client_host := h\<rparr>) q p)"
  using assms
proof (induction ps arbitrary: n y)
  case Nil
  have "h = client_host y" "(n = 0) = (r = R_Done [])" using Nil.prems(2,3) by (cases n; auto)+
  moreover from this have "y\<lparr>client_at := C_Name n, client_host := h\<rparr> = y" using Nil.prems(1) by simp
  ultimately show ?case by (intro exI [of _ n]) simp
next
  case (Cons pk ps)
  obtain name bytes where pk: "pk = (name, bytes)" by fastforce
  from Cons.prems(2,3) obtain m where n: "n = Suc m" by (cases n) auto
  let ?k = "path_key (client_src y @ name)"
  from Cons.prems(2,3) obtain h1 where h1: "length name < PATH_LEN" "length (client_src y @ name) < PATH_LEN"
      "open_truncate (client_src y @ name) (client_host y) = Some h1"
      "read_from_serverx m (client_src y) ps (h1\<lparr>files := (files h1)(?k \<mapsto> bytes)\<rparr>) = Inr (r, h)"
    unfolding pk n by (auto simp: not_le split: if_splits option.splits)
  let ?y = "y\<lparr>client_at := C_Name m, client_host := h1\<lparr>files := (files h1)(?k \<mapsto> bytes)\<rparr>\<rparr>"
  have "\<exists>m. (m = 0) = (r = R_Done []) \<and> leads (talk_step junk ss cs) (both x ?y (concat (map packet_msgs ps) @ q) p)
      (both x (?y\<lparr>client_at := C_Name m, client_host := h\<rparr>) q p)"
    by (rule Cons.IH) (use Cons.prems(3) h1(4) in simp_all)
  then obtain k where "(k = 0) = (r = R_Done [])" "leads (talk_step junk ss cs) (both x ?y (concat (map packet_msgs ps) @ q) p)
      (both x (y\<lparr>client_at := C_Name k, client_host := h\<rparr>) q p)" by auto
  with client_takes_name [OF Cons.prems(1) [unfolded n] h1(1-3)] show ?case by (intro exI [of _ k]) (simp add: pk)
qed

section \<open>A round\<close>

lemma take_loop_bounds:
  "take_loop junk path es (arr, n, i) = Inr (arr', n', i') \<Longrightarrow> i \<le> n \<Longrightarrow> n \<le> length arr \<Longrightarrow>
   i' \<le> n' \<and> n' \<le> length arr' \<and> n \<le> n'"
proof (induction junk path es "(arr, n, i)" arbitrary: arr n i arr' n' i' rule: take_loop.induct)
  case (2 junk path name node entries arr file_counter i)
  show ?case
  proof (cases "name = ''.'' \<or> name = ''..''")
    case True
    then show ?thesis using "2.hyps"(1) "2.prems" by auto
  next
    case False
    show ?thesis
    proof (cases node)
      case (SFile mtime mode)
      let ?f = "\<lparr>filename = take (FILE_LEN - 1) (path @ name), modification_time = take 11 (dec mtime), file_modes = mode\<rparr>"
      from "2.prems"(1) obtain arr1 where a: "file_counter < length arr"
          "(if (file_counter + 1) mod 5 = 0 \<and> file_counter + 1 \<noteq> 0 then reallocate_struct junk (file_counter + 1) (arr[file_counter := ?f])
            else Inr (arr[file_counter := ?f])) = Inr arr1"
          "take_loop junk path entries (arr1, file_counter + 1, file_counter + 1) = Inr (arr', n', i')"
        using False unfolding SFile by (auto simp: Let_def not_le split: if_splits)
      then have "file_counter + 1 \<le> length arr1" by (auto split: if_splits)
      then show ?thesis using "2.hyps"(2) [OF False refl SFile _ refl refl a(2,3)] a(1) by simp
    next
      case (SDir sub)
      from "2.prems"(1) obtain arr1 n1 i1 where a: "\<not> FILE_LEN \<le> length (take (FILE_LEN - 1) (path @ name)) + 1"
          "take_loop junk (take (FILE_LEN - 1) (path @ name) @ ''/'') sub (arr, file_counter, file_counter) = Inr (arr1, n1, i1)"
          "take_loop junk path entries (arr1, n1, i) = Inr (arr', n', i')"
        using False unfolding SDir by (auto simp: Let_def split: if_splits)
      have "i1 \<le> n1 \<and> n1 \<le> length arr1 \<and> file_counter \<le> n1"
        by (rule "2.hyps"(3) [OF False refl SDir _ a(2)]) (use a(1) "2.prems"(3) in \<open>simp_all del: length_take\<close>)
      then show ?thesis
        using "2.hyps"(4) [OF False refl SDir a(1,2) refl refl a(3)] "2.prems"(2) by linarith
    next
      case SGone
      then show ?thesis using "2.hyps"(5) [OF False refl SGone, of arr' n' i'] "2.prems" False by simp
    qed
  qed
qed simp

lemma take_files_bounds:
  "take_files junk path flag es arr = Inr (path', arr', n, i) \<Longrightarrow> i \<le> n \<and> n \<le> length arr'"
  using take_loop_bounds [of junk _ es arr 0 0] by (auto simp: take_files_def Let_def)

text \<open>The parts of a round: scanning and announcing, reading the other side's announcement, comparing, sending.\<close>

lemma server_announces:
  assumes "server_at x = S_Scan"
    and "take_files junk (server_src x) (round_counter x) (ss (round_counter x)) (server_files_information x) = Inr (path, arr, cnt, n)"
    and "leads (talk_step junk ss cs) (both (x\<lparr>server_src := path, server_files_information := arr,
          size_of_server_insides := n, server_at := S_ReadSize\<rparr>) y (q @ M_Int n # map M_Entry (take n arr)) p) t"
  shows "leads (talk_step junk ss cs) (both x y q p) t"
proof -
  let ?x = "\<lambda>pc. x\<lparr>server_at := pc, server_src := path, server_files_information := arr, size_of_server_insides := n\<rparr>"
  have "leads (talk_step junk ss cs) (both (?x (S_Entry 0)) y (q @ [M_Int n]) p) t"
    by (rule server_sends_entries [where j = 0 and n = n]) (use assms(3) take_files_bounds [OF assms(2)] in simp_all)
  then have "leads (talk_step junk ss cs) (both (?x S_Size) y q p) t"
    by (rule server_send [rotated]) (simp add: server_talk_def)
  then show ?thesis
    by (rule server_local [rotated]) (use assms(1,2) in \<open>simp add: server_talk_def\<close>)
qed

lemma client_scans:
  assumes "client_at y = C_Scan"
    and "take_files junk (client_src y) 0 (cs (scans y)) (client_files y) = Inr (path, arr, cnt, n)"
    and "leads (talk_step junk ss cs) (both x (y\<lparr>scans := scans y + 1, client_src := path,
          client_files := arr, size_of_client_inside := n, client_at := C_ReadSize cnt\<rparr>) q p) t"
  shows "leads (talk_step junk ss cs) (both x y q p) t"
  by (rule client_local [OF _ assms(3)]) (use assms(1,2) in \<open>simp add: client_talk_def\<close>)

lemma client_reads_announcement:
  assumes "client_at y = C_ReadSize cnt"
    and "leads (talk_step junk ss cs) (both x (y\<lparr>server_files := fs, client_at := C_Size cnt\<rparr>) q p) t"
  shows "leads (talk_step junk ss cs) (both x y (M_Int (length fs) # map M_Entry fs @ q) p) t"
proof -
  have "leads (talk_step junk ss cs) (both x (y\<lparr>client_at := C_Read cnt (length fs), server_files := []\<rparr>) (map M_Entry fs @ q) p) t"
    by (rule client_reads_entries [where c = cnt and n = "length fs"]) (use assms(2) in simp_all)
  moreover have "client_talk junk cs y = Recv (\<lambda>m. case m of M_Int n \<Rightarrow> y\<lparr>client_at := C_Read cnt n, server_files := []\<rparr>
      | _ \<Rightarrow> y\<lparr>client_at := C_Garbled\<rparr>)"
    using assms(1) by (simp add: client_talk_def)
  ultimately show ?thesis by (simp add: client_recv)
qed

lemma client_announces:
  assumes "client_at y = C_Size cnt" "size_of_client_inside y \<le> length (client_files y)"
    and "leads (talk_step junk ss cs) (both x (y\<lparr>size_of_client_inside := cnt, client_at := C_Compare\<rparr>) q
      (p @ M_Int (size_of_client_inside y) # map M_Entry (take (size_of_client_inside y) (client_files y)))) t"
  shows "leads (talk_step junk ss cs) (both x y q p) t"
proof -
  let ?n = "size_of_client_inside y"
  have "leads (talk_step junk ss cs) (both x (y\<lparr>client_at := C_Entry cnt 0\<rparr>) q (p @ [M_Int ?n])) t"
    by (rule client_sends_entries [where c = cnt and j = 0 and n = ?n]) (use assms(2,3) in simp_all)
  then show ?thesis
    by (rule client_send [rotated]) (use assms(1) in \<open>simp add: client_talk_def\<close>)
qed

lemma server_reads_announcement:
  assumes "server_at x = S_ReadSize"
    and "leads (talk_step junk ss cs) (both (x\<lparr>client_files_information := fs, server_at := S_Compare\<rparr>) y q p) t"
  shows "leads (talk_step junk ss cs) (both x y q (M_Int (length fs) # map M_Entry fs @ p)) t"
proof -
  have "leads (talk_step junk ss cs) (both (x\<lparr>server_at := S_Read (length fs), client_files_information := []\<rparr>) y q (map M_Entry fs @ p)) t"
    by (rule server_reads_entries [where n = "length fs"]) (use assms(2) in simp_all)
  moreover have "server_talk junk ss x = Recv (\<lambda>m. case m of M_Int n \<Rightarrow> x\<lparr>server_at := S_Read n, client_files_information := []\<rparr>
      | _ \<Rightarrow> x\<lparr>server_at := S_Garbled\<rparr>)"
    using assms(1) by (simp add: server_talk_def)
  ultimately show ?thesis by (simp add: server_recv)
qed

lemma server_transfers:
  assumes "server_at x = S_Write flag 0"
    and "write_to_client (server_host x) (size_of_server_insides x) (server_files_information x) flag = Inr (ps, False)"
    and "leads (talk_step junk ss cs) (both (x\<lparr>server_files_information := replicate 5 junk,
          client_files_information := [], server_at := S_Scan\<rparr>) y (q @ concat (map packet_msgs ps)) p) t"
  shows "leads (talk_step junk ss cs) (both x y q p) t"
proof -
  have free: "leads (talk_step junk ss cs) (both (x\<lparr>server_at := S_Free\<rparr>) y (q @ concat (map packet_msgs ps)) p) t"
    by (rule server_local [OF _ assms(3)]) (simp add: server_talk_def)
  show ?thesis
  proof (cases "flag = 0")
    case True
    show ?thesis
      by (rule server_writes_files [where i = 0 and n = "size_of_server_insides x", OF _ refl _ _ _ free])
        (use assms(1,2) True in \<open>simp_all add: write_to_client_def split: if_splits\<close>)
  next
    case False
    then have "ps = []" "server_talk junk ss x = Local (x\<lparr>server_at := S_Free\<rparr>)"
      using assms(1,2) by (simp_all add: write_to_client_def server_talk_def send_file_def)
    then show ?thesis using free by (simp add: server_local)
  qed
qed

text \<open>The tops of the two loops.\<close>

definition at_round :: "sync_file \<Rightarrow> server_side \<Rightarrow> client_side \<Rightarrow> nat \<Rightarrow> talk_state \<Rightarrow> bool" where
  "at_round junk S C k d \<longleftrightarrow> server_at (left_state d) = S_Scan \<and> server_files_information (left_state d) = replicate 5 junk
     \<and> server_side.truncate (left_state d) = S \<and> client_side.truncate (right_state d) = C \<and> scans (right_state d) = k
     \<and> to_right d = [] \<and> to_left d = []"

text \<open>A round of the functional model is one of the processes.\<close>

lemma round_followed:
  assumes "at_round junk S C k d" "client_at (right_state d) = C_Scan"
    and "sync_round junk (ss (round_counter S)) (cs k) S C = Inr (r, False, S', C')" "r = R_Done [] \<or> r = R_Blocks"
  shows "\<exists>d' m. leads (talk_step junk ss cs) d d' \<and> at_round junk S' C' (k + 1) d'
    \<and> client_at (right_state d') = C_Name m \<and> (m = 0) = (r = R_Done [])"
proof -
  obtain x y where d: "d = both x y [] []" using assms(1) by (cases d) (auto simp: at_round_def)
  have start: "server_at x = S_Scan" "server_files_information x = replicate 5 junk" "server_side.truncate x = S"
      "client_side.truncate y = C" "scans y = k" "client_at y = C_Scan"
    using assms(1,2) d by (simp_all add: at_round_def)
  have S: "server_src S = server_src x" "server_host S = server_host x" "difference S = difference x" "round_counter S = round_counter x"
    and C: "client_src C = client_src y" "client_host C = client_host y" "client_files C = client_files y"
    unfolding start(3,4) [symmetric] by (simp_all add: server_side.truncate_def client_side.truncate_def)
  from assms(3) obtain ssrc sarr scount ssize csrc carr ccount csize sarr' diff shost carr' n chost ps h where
    rnd: "take_files junk (server_src x) (round_counter x) (ss (round_counter x)) (server_files_information x) = Inr (ssrc, sarr, scount, ssize)"
      "take_files junk (client_src y) 0 (cs (scans y)) (client_files y) = Inr (csrc, carr, ccount, csize)"
      "compare_server junk ssrc ssize (take csize carr) (sarr, difference x, server_host x) = Inr (sarr', diff, shost)"
      "compare_client junk csrc (take ssize sarr) (carr, ccount, client_host y) = Inr (carr', n, chost)"
      "write_to_client shost ssize sarr' (round_counter x) = Inr (ps, False)"
      "read_from_serverx n csrc ps chost = Inr (r, h)"
    and S': "S' = \<lparr>server_src = ssrc, server_host = shost, difference = diff, round_counter = round_counter x + 1\<rparr>"
    and C': "C' = \<lparr>client_src = csrc, client_host = h, client_files = carr'\<rparr>"
    unfolding sync_round_def S C start(2,5) by auto
  have bounds: "ssize \<le> length sarr" "csize \<le> length carr"
    using take_files_bounds [OF rnd(1)] take_files_bounds [OF rnd(2)] by simp_all
  let ?X1 = "x\<lparr>server_src := ssrc, server_files_information := sarr, size_of_server_insides := ssize, server_at := S_ReadSize\<rparr>"
  let ?X2 = "?X1\<lparr>client_files_information := take csize carr, server_at := S_Compare\<rparr>"
  let ?X3 = "?X2\<lparr>round_counter := round_counter x + 1, server_files_information := sarr', difference := diff,
     server_host := shost, server_at := S_Write (round_counter x) 0\<rparr>"
  let ?X4 = "?X3\<lparr>server_files_information := replicate 5 junk, client_files_information := [], server_at := S_Scan\<rparr>"
  let ?Y1 = "y\<lparr>scans := scans y + 1, client_src := csrc, client_files := carr, size_of_client_inside := csize, client_at := C_ReadSize ccount\<rparr>"
  let ?Y2 = "?Y1\<lparr>server_files := take ssize sarr, client_at := C_Size ccount\<rparr>"
  let ?Y3 = "?Y2\<lparr>size_of_client_inside := ccount, client_at := C_Compare\<rparr>"
  let ?Y4 = "?Y3\<lparr>client_files := carr', size_of_client_inside := n, client_host := chost, client_at := C_Name n\<rparr>"
  let ?S = "M_Int (length (take ssize sarr)) # map M_Entry (take ssize sarr)"
  let ?C = "M_Int (length (take csize carr)) # map M_Entry (take csize carr)"
  obtain m t where m: "(m = 0) = (r = R_Done [])" "t = both ?X4 (?Y4\<lparr>client_at := C_Name m, client_host := h\<rparr>) [] []"
      "leads (talk_step junk ss cs) (both ?X4 ?Y4 ([] @ concat (map packet_msgs ps)) []) t"
    using client_takes_packets [of ?Y4 n ps r h junk ss cs ?X4 "[]" "[]"] rnd(6) assms(4) by auto
  from m(3) have "leads (talk_step junk ss cs) (both ?X3 ?Y4 [] []) t"
    by (rule server_transfers [rotated 2]) (use rnd(5) in simp_all)
  then have "leads (talk_step junk ss cs) (both ?X2 ?Y4 [] []) t"
    by (rule server_local [rotated]) (use rnd(3) in \<open>simp add: server_talk_def\<close>)
  then have "leads (talk_step junk ss cs) (both ?X1 ?Y4 [] (?C @ [])) t"
    by (simp only: append_Cons) (rule server_reads_announcement [rotated], simp_all)
  then have "leads (talk_step junk ss cs) (both ?X1 ?Y4 [] ([] @ ?C)) t"
    by (simp only: append_Nil append_Nil2)
  then have "leads (talk_step junk ss cs) (both ?X1 ?Y3 [] ([] @ ?C)) t"
    by (rule client_local [rotated]) (use rnd(4) in \<open>simp add: client_talk_def\<close>)
  then have "leads (talk_step junk ss cs) (both ?X1 ?Y2 [] []) t"
    using bounds(2) by - (rule client_announces; simp)
  then have "leads (talk_step junk ss cs) (both ?X1 ?Y1 (?S @ []) []) t"
    by (simp only: append_Cons) (rule client_reads_announcement [rotated], simp_all)
  then have "leads (talk_step junk ss cs) (both ?X1 y ([] @ ?S) []) t"
    by (simp only: append_Nil append_Nil2) (rule client_scans [where cs = cs, OF start(6) rnd(2)])
  then have "leads (talk_step junk ss cs) (both x y [] []) t"
    using bounds(1) by - (rule server_announces [where ss = ss, OF start(1) rnd(1)]; simp)
  moreover have "at_round junk S' C' (k + 1) t" "client_at (right_state t) = C_Name m"
    unfolding S' C' at_round_def m(2) using start(5) by (simp_all add: server_side.truncate_def client_side.truncate_def)
  ultimately show ?thesis using m(1) d by blast
qed

end
