(* ===== verification/DirSession.thy ===== *)
theory DirSession
  imports DirTalkProps
begin

text \<open>
  Whole sessions of the directory synchronisation: the rounds of \<open>DirSync\<close>, which the
  processes of \<open>DirTalk\<close> follow, put together. The first round copies, the second truncates,
  and the third announcement of the server ends the client.
\<close>

section \<open>The end of a session\<close>

lemma length_int_name: "length (int_name n) \<le> 4"
  unfolding int_name_def by (rule order_trans [OF length_takeWhile_le]) simp

lemma next_scan:
  assumes "at_round junk S C k d" "client_at (right_state d) = C_Name 0"
  shows "\<exists>d'. leads (talk_step junk ss cs) d d' \<and> at_round junk S C k d' \<and> client_at (right_state d') = C_Scan"
proof -
  obtain x y where d: "d = both x y [] []" using assms(1) by (cases d) (auto simp: at_round_def)
  have "leads (talk_step junk ss cs) d (both x (y\<lparr>client_at := C_Scan\<rparr>) [] [])"
    unfolding d by (rule client_local [OF _ leads_refl]) (use assms(2) d in \<open>simp add: client_talk_def\<close>)
  then show ?thesis using assms(1) d
    by (intro exI [of _ "both x (y\<lparr>client_at := C_Scan\<rparr>) [] []"]) (simp add: at_round_def client_side.truncate_def)
qed

text \<open>A client that still expects a name takes the size of the next announcement for it.\<close>

lemma client_misreads:
  assumes "at_round junk S C k d" "client_at (right_state d) = C_Name (Suc m)"
    and "take_files junk (server_src S) (round_counter S) (ss (round_counter S)) (replicate 5 junk) = Inr (path, arr, cnt, n)"
    and "length (client_src C) + 4 < PATH_LEN" "files (client_host C) (path_key (client_src C @ int_name n)) = None"
  shows "\<exists>t. leads (talk_step junk ss cs) d t \<and> stuck (talk_step junk ss cs) t \<and> client_at (right_state t) = C_Exit
    \<and> server_host (left_state t) = server_host S \<and> client_host (right_state t) = client_host C"
proof -
  obtain x y where d: "d = both x y [] []" using assms(1) by (cases d) (auto simp: at_round_def)
  have x: "server_at x = S_Scan" "server_files_information x = replicate 5 junk" "server_src x = server_src S"
      "round_counter x = round_counter S" "server_host x = server_host S"
    and y: "client_at y = C_Name (Suc m)" "client_src y = client_src C" "client_host y = client_host C"
    using assms(1,2) d by (auto simp: at_round_def server_side.truncate_def client_side.truncate_def)
  let ?X = "x\<lparr>server_src := path, server_files_information := arr, size_of_server_insides := n, server_at := S_ReadSize\<rparr>"
  let ?Y = "y\<lparr>client_at := C_Exit\<rparr>"
  let ?t = "both ?X ?Y (map M_Entry (take n arr)) []"
  have "client_talk junk cs y = Recv (\<lambda>m'. case m' of M_Name name \<Rightarrow> take_name m y name
      | M_Int k \<Rightarrow> take_name m y (int_name k) | _ \<Rightarrow> y\<lparr>client_at := C_Garbled\<rparr>)"
    using y(1) by (simp add: client_talk_def)
  moreover have "take_name m y (int_name n) = ?Y"
    using assms(4,5) y(2,3) length_int_name [of n] by (simp add: take_name_def open_truncate_def)
  ultimately have "leads (talk_step junk ss cs) (both ?X y ([] @ M_Int n # map M_Entry (take n arr)) []) ?t"
    by (simp add: client_recv)
  then have "leads (talk_step junk ss cs) d ?t"
    unfolding d by (rule server_announces [where ss = ss, rotated 2]) (use x assms(3) in simp_all)
  moreover have "stuck (talk_step junk ss cs) ?t"
    by (simp add: talk_step_def stuck_duplex server_talk_def client_talk_def)
  ultimately show ?thesis using x(5) y(3) by (intro exI [of _ ?t]) simp
qed

section \<open>Properties\<close>

text \<open>
  C18. The first round brings an empty directory up to date: for every tree of the server
  whose names fit and whose last entry is a regular file, the round ends with nothing left
  on the connection, the server's files are unchanged, every file of the tree has its
  contents in the client's directory, and nothing else has changed there.
\<close>

theorem sync_first_round:
  assumes "plain s" "plain c" "wf_listing sl" "fits (s @ ''/'') sl" "names_of (upto_last sl) = names_of sl"
    and "\<forall>r\<in>set (names_of sl). length ((c @ ''/'') @ r) < PATH_LEN"
    and "\<forall>p\<in>set (paths_of sl). files (server_host S) (s # p) \<noteq> None"
    and "server_src S = s" "round_counter S = 0" "client_src C = c" "5 \<le> length (client_files C)"
    and "files (client_host C) [c] = None" "host_ok (client_host C)"
    and "\<forall>k. strict_prefix [c] k \<longrightarrow> k \<notin> dirs (client_host C) \<and> files (client_host C) k = None"
  shows "\<exists>S' C'. sync_round junk sl [] S C = Inr (R_Done [], False, S', C') \<and> server_host S' = server_host S
    \<and> (\<forall>p\<in>set (paths_of sl). files (client_host C') (c # p) = files (server_host S) (s # p))
    \<and> (\<forall>k. k \<notin> (#) c ` set (paths_of sl) \<longrightarrow> files (client_host C') k = files (client_host C) k)"
proof -
  from first_round [OF assms, of junk] obtain C' where
    "sync_round junk sl [] S C = Inr (R_Done [], False, S\<lparr>server_src := s @ ''/'', round_counter := 1\<rparr>, C')"
    "\<forall>p\<in>set (paths_of sl). files (client_host C') (c # p) = files (server_host S) (s # p)"
    "\<forall>k. k \<notin> (#) c ` set (paths_of sl) \<longrightarrow> files (client_host C') k = files (client_host C) k" by (elim exE conjE)
  then show ?thesis by (intro exI [of _ "S\<lparr>server_src := s @ ''/'', round_counter := 1\<rparr>"] exI [of _ C']) simp
qed

text \<open>
  C21. The two processes implement the rounds: if the round function gives a result without a
  failed \<^verbatim>\<open>open\<close> of the server, the loops, started at their tops with empty channels, can
  reach their tops again (or the client the name it waits for) with exactly that result and
  empty channels, and no schedule of them can end otherwise than through that point.
\<close>

theorem sync_round_refined:
  assumes "at_round junk S C k d" "client_at (right_state d) = C_Scan"
    and "sync_round junk (ss (round_counter S)) (cs k) S C = Inr (r, False, S', C')" "r = R_Done [] \<or> r = R_Blocks"
  shows "\<exists>d' m. leads (talk_step junk ss cs) d d' \<and> at_round junk S' C' (k + 1) d'
    \<and> client_at (right_state d') = C_Name m \<and> (m = 0) = (r = R_Done [])
    \<and> (\<forall>t. stuck (talk_step junk ss cs) t \<longrightarrow> leads (talk_step junk ss cs) d t \<longrightarrow> leads (talk_step junk ss cs) d' t)"
proof -
  obtain d' m where d': "leads (talk_step junk ss cs) d d'" "at_round junk S' C' (k + 1) d'"
      "client_at (right_state d') = C_Name m" "(m = 0) = (r = R_Done [])"
    using round_followed [where ss = ss and cs = cs, OF assms] by blast
  then obtain es where "sched_run (talk_step junk ss cs) es d = d'" by (auto simp: leads_def dest: follow_run)
  then show ?thesis using d' talk.still_leads [of junk ss cs d _ es] by blast
qed

text \<open>
  C15. Every session destroys what it copied. Let the client's directory be empty at first
  and hold the server's tree, in some order, when it is scanned again. Whatever the order in
  which the two processes run, after enough rounds of the scheduler the client has exited
  with a failure, and all files of the tree are empty on both sides: the second comparison
  truncates them, and the client, which waits for their contents, reads the size that the
  server announces in its third round as the name of a file.
\<close>

theorem sync_session_destroys:
  assumes "plain s" "plain c" "wf_listing sl" "wf_listing cl" "fits (s @ ''/'') sl" "fits (c @ ''//'') cl"
    and "names_of (upto_last sl) = names_of sl" "names_of (upto_last cl) = names_of cl"
    and "set (paths_of cl) = set (paths_of sl)" "names_of sl \<noteq> []" "length (names_of cl) \<le> MAX_DIFFERENCE"
    and "\<forall>r\<in>set (names_of sl). length ((c @ ''//'') @ r) < PATH_LEN"
    and "\<forall>r\<in>set (names_of cl). length ((s @ ''//'') @ r) < PATH_LEN" "length c + 6 < PATH_LEN"
    and "host_ok shost" "\<forall>p\<in>set (paths_of sl). files shost (s # p) \<noteq> None"
    and "host_ok chost" "files chost [c] = None" "\<forall>k. strict_prefix [c] k \<longrightarrow> k \<notin> dirs chost \<and> files chost k = None"
    and "\<And>k. k \<le> 2 \<Longrightarrow> ss k = sl" "cs 0 = []" "cs 1 = cl"
    and "tokens (CHR ''/'') (int_name (length (names_of sl))) \<notin> set (paths_of sl)"
  shows "\<exists>N. \<forall>rs. N \<le> length rs \<longrightarrow> (\<forall>r\<in>set rs. UNIV \<subseteq> set r) \<longrightarrow>
    (\<exists>d. sched_run (talk_step junk ss cs) (concat rs) (talk_start junk s shost c chost) = d
      \<and> client_at (right_state d) = C_Exit
      \<and> (\<forall>p\<in>set (paths_of sl). files (server_host (left_state d)) (s # p) = Some []
          \<and> files (client_host (right_state d)) (c # p) = Some []))"
proof -
  let ?S = "\<lparr>server_src = s, server_host = shost, difference = [], round_counter = 0\<rparr>"
  let ?C = "\<lparr>client_src = c, client_host = chost, client_files = replicate 5 junk\<rparr>"
  let ?d = "talk_start junk s shost c chost" and ?step = "talk_step junk ss cs"
  obtain C1 where r1: "sync_round junk (ss 0) (cs 0) ?S ?C = Inr (R_Done [], False, ?S\<lparr>server_src := s @ ''/'', round_counter := 1\<rparr>, C1)"
      "client_src C1 = c @ ''/''" "5 \<le> length (client_files C1)" "host_ok (client_host C1)"
      "\<forall>p\<in>set (paths_of sl). files (client_host C1) (c # p) = files shost (s # p)"
      "\<forall>k. k \<notin> (#) c ` set (paths_of sl) \<longrightarrow> files (client_host C1) k = files chost k"
  proof -
    have "\<forall>r\<in>set (names_of sl). length ((c @ ''/'') @ r) < PATH_LEN" using assms(12) by auto
    then have "\<exists>C1. sync_round junk sl [] ?S ?C = Inr (R_Done [], False, ?S\<lparr>server_src := s @ ''/'', round_counter := 1\<rparr>, C1)
      \<and> client_src C1 = c @ ''/'' \<and> 5 \<le> length (client_files C1) \<and> host_ok (client_host C1)
      \<and> (\<forall>p\<in>set (paths_of sl). files (client_host C1) (c # p) = files (server_host ?S) (s # p))
      \<and> (\<forall>k. k \<notin> (#) c ` set (paths_of sl) \<longrightarrow> files (client_host C1) k = files (client_host ?C) k)"
      by (intro first_round) (use assms in simp_all)
    then show thesis using that assms(20,21) by (elim exE conjE) simp
  qed
  let ?S1 = "?S\<lparr>server_src := s @ ''/'', round_counter := 1\<rparr>"
  obtain S2 C2 where r2: "sync_round junk (ss 1) (cs 1) ?S1 C1 = Inr (R_Blocks, False, S2, C2)"
      "server_src S2 = s @ ''/''" "round_counter S2 = 2" "client_src C2 = c @ ''//''"
      "files (server_host S2) = (\<lambda>k. if k \<in> (#) s ` set (paths_of cl) then Some [] else files shost k)"
      "files (client_host C2) = (\<lambda>k. if k \<in> (#) c ` set (paths_of sl) then Some [] else files (client_host C1) k)"
  proof -
    have "\<exists>S2 C2. sync_round junk sl cl ?S1 C1 = Inr (R_Blocks, False, S2, C2)
      \<and> server_src S2 = s @ ''/'' \<and> round_counter S2 = round_counter ?S1 + 1 \<and> client_src C2 = c @ ''//''
      \<and> files (server_host S2) = (\<lambda>k. if k \<in> (#) s ` set (paths_of cl) then Some [] else files (server_host ?S1) k)
      \<and> files (client_host C2) = (\<lambda>k. if k \<in> (#) c ` set (paths_of sl) then Some [] else files (client_host C1) k)"
      by (intro second_round) (use assms r1 in simp_all)
    moreover have "server_host ?S1 = shost" "ss 1 = sl" "round_counter ?S1 + 1 = 2" using assms(20) by simp_all
    ultimately show thesis using that assms(22) by (simp only:) blast
  qed
  \<comment> \<open>the processes follow the rounds\<close>
  have start: "at_round junk ?S ?C 0 ?d" "client_at (right_state ?d) = C_Scan"
    by (simp_all add: at_round_def talk_start_def server_side.truncate_def client_side.truncate_def)
  obtain d1 where "leads ?step ?d d1" "at_round junk ?S1 C1 1 d1" "client_at (right_state d1) = C_Name 0"
    using round_followed [where ss = ss and cs = cs, OF start, of "R_Done []" ?S1 C1] r1(1) by auto
  then obtain d2 where d2: "leads ?step ?d d2" "at_round junk ?S1 C1 1 d2" "client_at (right_state d2) = C_Scan"
    using next_scan [of junk ?S1 C1 1 d1 ss cs] leads_trans by metis
  obtain d3 m where d3: "leads ?step d2 d3" "at_round junk S2 C2 2 d3" "client_at (right_state d3) = C_Name (Suc m)"
    using round_followed [where ss = ss and cs = cs, OF d2(2,3), of R_Blocks S2 C2] r2(1)
    by (auto simp: gr0_conv_Suc numeral_2_eq_2)
  \<comment> \<open>and the server goes on\<close>
  obtain arr where scan: "take_files junk (server_src S2) (round_counter S2) (ss (round_counter S2)) (replicate 5 junk)
      = Inr (s @ ''/'', arr, length (names_of sl), length (names_of sl))"
    using take_files_all [OF assms(5) _ assms(7), of "replicate 5 junk" 2 "s @ ''/''" junk] assms(20) r2(2,3) by auto
  have "path_key (client_src C2 @ int_name (length (names_of sl))) = c # tokens (CHR ''/'') (int_name (length (names_of sl)))"
    using path_key_relative [OF assms(2)] r2(4) by (simp add: tokens_slash)
  moreover have none: "files chost (c # k) = None" for k
    using assms(18,19) by (cases k) (auto dest: spec [of _ "c # _"])
  ultimately have "files (client_host C2) (path_key (client_src C2 @ int_name (length (names_of sl)))) = None"
    using r2(6) r1(6) assms(23) none by auto
  then obtain t where t: "leads ?step d3 t" "stuck ?step t" "client_at (right_state t) = C_Exit"
      "server_host (left_state t) = server_host S2" "client_host (right_state t) = client_host C2"
    using client_misreads [where ss = ss and cs = cs, OF d3(2,3) scan] r2(4) assms(14) by auto
  have "leads ?step ?d t" using leads_trans [OF d2(1) leads_trans [OF d3(1) t(1)]] .
  then obtain N where "\<forall>rs. N \<le> length rs \<longrightarrow> (\<forall>r\<in>set rs. UNIV \<subseteq> set r) \<longrightarrow> sched_run ?step (concat rs) ?d = t"
    using talk.every_schedule [OF _ t(2)] by blast
  then show ?thesis using t(3-5) r2(5,6) assms(9) by (intro exI [of _ N]) auto
qed

section \<open>Witnesses\<close>

lemma sync_first_round_witness:
  "\<exists>S' C'. sync_round no_entry a_tree []
       \<lparr>server_src = ''s'', server_host = a_host ''s'', difference = [], round_counter = 0\<rparr>
       \<lparr>client_src = ''c'', client_host = \<lparr>dirs = {[''c'']}, files = Map.empty\<rparr>, client_files = replicate 5 no_entry\<rparr>
     = Inr (R_Done [], False, S', C') \<and> files (client_host C') [''c'', ''d'', ''b''] = Some ''xy''"
proof -
  let ?S = "\<lparr>server_src = ''s'', server_host = a_host ''s'', difference = [], round_counter = 0\<rparr>"
  let ?C = "\<lparr>client_src = ''c'', client_host = \<lparr>dirs = {[''c'']}, files = Map.empty\<rparr>, client_files = replicate 5 no_entry\<rparr>"
  have "\<exists>S' C'. sync_round no_entry a_tree [] ?S ?C = Inr (R_Done [], False, S', C') \<and> server_host S' = server_host ?S
    \<and> (\<forall>p\<in>set (paths_of a_tree). files (client_host C') (''c'' # p) = files (server_host ?S) (''s'' # p))
    \<and> (\<forall>k. k \<notin> (#) ''c'' ` set (paths_of a_tree) \<longrightarrow> files (client_host C') k = files (client_host ?C) k)"
    by (rule sync_first_round; (rule a_tree_scan | simp add: a_tree_scan plain_def PATH_LEN_def a_host_def host_ok_def)?) (auto simp: strict_prefix_def)
  then show ?thesis unfolding a_tree_scan(2) by (auto simp: a_host_def)
qed

lemma sync_session_destroys_witness:
  "\<exists>N. \<forall>rs. N \<le> length rs \<longrightarrow> (\<forall>r\<in>set rs. UNIV \<subseteq> set r) \<longrightarrow>
    (\<exists>d. sched_run (talk_step no_entry (\<lambda>_. a_tree) (\<lambda>k. if k = 0 then [] else a_tree)) (concat rs)
        (talk_start no_entry ''s'' (a_host ''s'') ''c'' \<lparr>dirs = {[''c'']}, files = Map.empty\<rparr>) = d
      \<and> client_at (right_state d) = C_Exit \<and> files (client_host (right_state d)) [''c'', ''a''] = Some []
      \<and> files (server_host (left_state d)) [''s'', ''d'', ''b''] = Some [])"
proof -
  let ?c = "\<lparr>dirs = {[''c'']}, files = Map.empty\<rparr> :: host"
  have "int_name (Suc (Suc 0)) = [CHR 0x02]" by (simp add: int_name_def upt_rec char_of_def bit_iff_odd)
  then have no: "tokens (CHR ''/'') (int_name (length (names_of a_tree))) \<notin> set (paths_of a_tree)"
    unfolding a_tree_scan by (simp add: tokens_def)
  have "\<exists>N. \<forall>rs. N \<le> length rs \<longrightarrow> (\<forall>r\<in>set rs. UNIV \<subseteq> set r) \<longrightarrow>
    (\<exists>d. sched_run (talk_step no_entry (\<lambda>_. a_tree) (\<lambda>k. if k = 0 then [] else a_tree)) (concat rs) (talk_start no_entry ''s'' (a_host ''s'') ''c'' ?c) = d
      \<and> client_at (right_state d) = C_Exit
      \<and> (\<forall>p\<in>set (paths_of a_tree). files (server_host (left_state d)) (''s'' # p) = Some []
          \<and> files (client_host (right_state d)) (''c'' # p) = Some []))"
  proof (rule sync_session_destroys [OF _ _ a_tree_scan(3,3-5) a_tree_scan(6,6) refl])
    show "host_ok (a_host ''s'')" by (rule a_host_ok) (simp_all add: plain_def)
    show "\<forall>p\<in>set (paths_of a_tree). files (a_host ''s'') (''s'' # p) \<noteq> None"
      unfolding a_tree_scan(2) by (simp add: a_host_def)
  qed (use no in \<open>simp_all only: a_tree_scan(1,2)\<close>, auto simp: plain_def PATH_LEN_def MAX_DIFFERENCE_def host_ok_def)
  then show ?thesis unfolding a_tree_scan(2) by auto
qed

text \<open>A round of two empty directories.\<close>

lemma sync_round_refined_witness:
  "\<exists>d' m. leads (talk_step no_entry (\<lambda>_. []) (\<lambda>_. [])) (talk_start no_entry ''s'' (a_host ''s'') ''c'' (a_host ''c'')) d'
    \<and> client_at (right_state d') = C_Name m \<and> client_src (right_state d') = ''c/''"
proof -
  let ?S = "\<lparr>server_src = ''s'', server_host = a_host ''s'', difference = [], round_counter = 0\<rparr>"
  let ?C = "\<lparr>client_src = ''c'', client_host = a_host ''c'', client_files = replicate 5 no_entry\<rparr>"
  let ?d = "talk_start no_entry ''s'' (a_host ''s'') ''c'' (a_host ''c'')"
  have start: "at_round no_entry ?S ?C 0 ?d" "client_at (right_state ?d) = C_Scan"
    by (simp_all add: at_round_def talk_start_def server_side.truncate_def client_side.truncate_def)
  have rnd: "sync_round no_entry ((\<lambda>_. []) (round_counter ?S)) ((\<lambda>_. []) 0) ?S ?C
    = Inr (R_Done [], False, ?S\<lparr>server_src := ''s/'', round_counter := 1\<rparr>, ?C\<lparr>client_src := ''c/''\<rparr>)"
    by (simp add: sync_round_def take_files_def write_to_client_def Let_def)
  obtain d' m where d': "leads (talk_step no_entry (\<lambda>_. []) (\<lambda>_. [])) ?d d'"
      "at_round no_entry (?S\<lparr>server_src := ''s/'', round_counter := 1\<rparr>) (?C\<lparr>client_src := ''c/''\<rparr>) (0 + 1) d'"
      "client_at (right_state d') = C_Name m"
    using sync_round_refined [where ss = "\<lambda>_. []" and cs = "\<lambda>_. []", OF start rnd] by blast
  have "client_src (client_side.truncate (right_state d')) = ''c/''" using d'(2) by (simp add: at_round_def)
  then have "client_src (right_state d') = ''c/''" by (simp add: client_side.truncate_def)
  then show ?thesis using d'(1,3) by blast
qed

end
