(* ===== verification/DirHosts.thy ===== *)
theory DirHosts
  imports DirTalk
begin

text \<open>
  The whole of \<^verbatim>\<open>hw6\<close>: the start of the server and of its clients, the accepting loop, and
  one thread \<open>synchronize_server_side\<close> per accepted client. All threads get the address of the
  same \<open>srv\<close>, so each of them uses the connection that was accepted last, and they share the
  arrays of files.

  A thread follows \<open>server_talk\<close>. A system call takes two steps: the first evaluates its
  arguments, so that the thread holds a connection (\<open>held\<close>), the second is the call, which may
  block; a thread that is blocked keeps the connection it holds whatever happens to \<open>srv.fd\<close>.
  The threads change the shared arrays, the path and the tree without a lock, also in the
  middle of another thread's scan, comparison or loop: the event \<open>Race\<close> puts anything in their
  place at any moment. Connections are numbered in the order of \<^verbatim>\<open>connect\<close>; the server never
  closes one. A thread that ends the process ends all threads; a client of a dead server
  still gets what has been sent, what it does after that is not modelled.
\<close>

section \<open>Start\<close>

text \<open>The flags say whether \<^verbatim>\<open>socket\<close>, \<^verbatim>\<open>bind\<close> and \<^verbatim>\<open>listen\<close> work; \<open>None\<close> is the exit.\<close>

definition sync_server_main :: "string list \<Rightarrow> bool \<Rightarrow> bool \<Rightarrow> bool \<Rightarrow> (string \<times> nat \<times> int) option cres" where
  "sync_server_main argv socket_ok bind_ok listen_ok =
     (if length argv \<noteq> 4 then Inr None
      else let thread_pool_size = c_atoi (argv ! 2); port = c_atoi (argv ! 3) mod 65536 in
      if thread_pool_size \<le> 0 then Inl OutOfBounds
      else if \<not> socket_ok \<or> \<not> bind_ok \<or> \<not> listen_ok then Inr None
      else Inr (Some (argv ! 1, nat thread_pool_size, port)))"

definition sync_client_main :: "string list \<Rightarrow> bool \<Rightarrow> (string \<times> int) option" where
  "sync_client_main argv socket_ok =
     (if length argv \<noteq> 3 \<or> \<not> socket_ok then None
      else Some (argv ! 1, c_atoi (argv ! 2) mod 65536))"

section \<open>The system\<close>

text \<open>\<open>out_fd\<close> is the argument of \<open>write_to_client\<close>, which keeps its connection until it returns.\<close>

record sync_thread =
  thread_at :: server_pc
  thread_counter :: nat
  out_fd :: nat
  held :: "nat option"

record sync_system =
  globals :: sync_server
  srv_fd :: nat
  slot :: nat
  pool_size :: nat
  listening :: int
  accepted :: nat
  threads :: "sync_thread list"
  sync_clients :: "sync_client list"
  down :: "nat \<Rightarrow> sync_msg list"
  up :: "nat \<Rightarrow> sync_msg list"

definition server_up :: "sync_system \<Rightarrow> bool" where
  "server_up s \<longleftrightarrow> list_all (\<lambda>t. case thread_at t of S_Exit \<Rightarrow> False | S_Fault e \<Rightarrow> False | _ \<Rightarrow> True) (threads s)"

text \<open>What a thread sees of the memory: the globals and its own variables.\<close>

definition thread_view :: "sync_system \<Rightarrow> sync_thread \<Rightarrow> sync_server" where
  "thread_view s t = (globals s)\<lparr>server_at := thread_at t, round_counter := thread_counter t\<rparr>"

definition writing :: "server_pc \<Rightarrow> bool" where
  "writing pc = (case pc of S_Write flag i \<Rightarrow> True | S_Length flag i bytes \<Rightarrow> True | S_Bytes flag i bytes \<Rightarrow> True | _ \<Rightarrow> False)"

text \<open>The connection that a thread uses.\<close>

definition thread_fd :: "sync_system \<Rightarrow> sync_thread \<Rightarrow> nat" where
  "thread_fd s t = (if writing (thread_at t) then out_fd t else srv_fd s)"

definition thread_after :: "nat \<Rightarrow> sync_server \<Rightarrow> sync_system \<Rightarrow> sync_system" where
  "thread_after i x s = (let t = threads s ! i in
     s\<lparr>globals := x, threads := (threads s)[i := \<lparr>thread_at = server_at x, thread_counter = round_counter x,
         out_fd = if thread_at t = S_Compare then srv_fd s else out_fd t, held = None\<rparr>]\<rparr>)"

definition sync_thread_step :: "sync_file \<Rightarrow> (nat \<Rightarrow> listing) \<Rightarrow> nat \<Rightarrow> sync_system \<Rightarrow> sync_system option" where
  "sync_thread_step junk scan i s =
     (if length (threads s) \<le> i \<or> \<not> server_up s then None
      else let t = threads s ! i; act = server_talk junk scan (thread_view s t) in
      case held t of
        None \<Rightarrow> (case act of
            Local x \<Rightarrow> Some (thread_after i x s)
          | Halt \<Rightarrow> None
          | _ \<Rightarrow> Some (s\<lparr>threads := (threads s)[i := t\<lparr>held := Some (thread_fd s t)\<rparr>]\<rparr>))
      | Some fd \<Rightarrow> (case act of
            Send m x \<Rightarrow> Some ((thread_after i x s)\<lparr>down := (down s)(fd := down s fd @ [m])\<rparr>)
          | Recv f \<Rightarrow> (case up s fd of [] \<Rightarrow> None
              | m # ms \<Rightarrow> Some ((thread_after i (f m) s)\<lparr>up := (up s)(fd := ms)\<rparr>))
          | _ \<Rightarrow> None))"

definition sync_client_step :: "sync_file \<Rightarrow> (nat \<Rightarrow> listing) \<Rightarrow> nat \<Rightarrow> sync_system \<Rightarrow> sync_system option" where
  "sync_client_step junk scan k s =
     (if length (sync_clients s) \<le> k then None
      else case client_talk junk scan (sync_clients s ! k) of
        Send m y \<Rightarrow> Some (s\<lparr>sync_clients := (sync_clients s)[k := y], up := (up s)(k := up s k @ [m])\<rparr>)
      | Recv f \<Rightarrow> (case down s k of [] \<Rightarrow> None
          | m # ms \<Rightarrow> Some (s\<lparr>sync_clients := (sync_clients s)[k := f m], down := (down s)(k := ms)\<rparr>))
      | Local y \<Rightarrow> Some (s\<lparr>sync_clients := (sync_clients s)[k := y]\<rparr>)
      | Halt \<Rightarrow> None)"

definition fresh_client :: "sync_file \<Rightarrow> string \<Rightarrow> host \<Rightarrow> sync_client" where
  "fresh_client junk c chost = \<lparr>client_src = c, client_host = chost, client_files = replicate 5 junk, client_at = C_Scan,
     scans = 0, size_of_client_inside = 0, server_files = []\<rparr>"

text \<open>\<^verbatim>\<open>accept\<close>, the assignment to \<open>srv.fd\<close> and the new thread.\<close>

definition accept_step :: "sync_system \<Rightarrow> sync_system option" where
  "accept_step s =
     (if accepted s = length (sync_clients s) \<or> \<not> server_up s then None
      else Some (s\<lparr>srv_fd := accepted s, accepted := accepted s + 1,
        threads := threads s @ [\<lparr>thread_at = S_Scan, thread_counter = 0, out_fd = 0, held = None\<rparr>],
        slot := (slot s + 1) mod pool_size s\<rparr>))"

datatype sync_event = Start_client "string list" bool host | Accept | Thread nat | Client nat | Race sync_server

text \<open>The listings that the scans find are given for every thread and every client.\<close>

definition sync_system_step :: "sync_file \<Rightarrow> (nat \<Rightarrow> nat \<Rightarrow> listing) \<Rightarrow> (nat \<Rightarrow> nat \<Rightarrow> listing) \<Rightarrow> sync_event
    \<Rightarrow> sync_system \<Rightarrow> sync_system option" where
  "sync_system_step junk ss cs e s = (case e of
     Start_client argv ok chost \<Rightarrow> (case sync_client_main argv ok of
         None \<Rightarrow> None
       | Some (c, port) \<Rightarrow> if port \<noteq> listening s \<or> \<not> server_up s then None
           else Some (s\<lparr>sync_clients := sync_clients s @ [fresh_client junk c chost]\<rparr>))
   | Accept \<Rightarrow> accept_step s
   | Thread i \<Rightarrow> sync_thread_step junk (ss i) i s
   | Client k \<Rightarrow> sync_client_step junk (cs k) k s
   | Race g \<Rightarrow> Some (s\<lparr>globals := g\<rparr>))"

definition sync_system_start :: "sync_file \<Rightarrow> host \<Rightarrow> string \<times> nat \<times> int \<Rightarrow> sync_system" where
  "sync_system_start junk shost args = (case args of (src, pool, port) \<Rightarrow>
     \<lparr>globals = \<lparr>server_src = src, server_host = shost, difference = [], round_counter = 0, server_at = S_Scan,
          server_files_information = replicate 5 junk, size_of_server_insides = 0, client_files_information = []\<rparr>,
      srv_fd = 0, slot = 0, pool_size = pool, listening = port, accepted = 0, threads = [], sync_clients = [],
      down = (\<lambda>k. []), up = (\<lambda>k. [])\<rparr>)"

section \<open>The steps of a thread\<close>

text \<open>A thread of the server is in \<open>write_to_client\<close> only after a comparison or from there.\<close>

definition starts_writing :: "(sync_msg, sync_server) action \<Rightarrow> bool" where
  "starts_writing a = (case a of Send m x \<Rightarrow> writing (server_at x) | Local x \<Rightarrow> writing (server_at x)
     | Recv f \<Rightarrow> (\<exists>m. writing (server_at (f m))) | Halt \<Rightarrow> False)"

lemma starts_writing:
  assumes "starts_writing (server_talk junk scan x)"
  shows "server_at x = S_Compare \<or> writing (server_at x)"
proof (rule ccontr)
  assume "\<not> ?thesis"
  then show False using assms
    by (cases "server_at x"; auto simp: server_talk_def starts_writing_def writing_def split: sum.splits prod.splits if_splits sync_msg.splits;
        metis sync_msg.exhaust)
qed

lemma after_frame [simp]:
  "srv_fd (thread_after i x s) = srv_fd s" "sync_clients (thread_after i x s) = sync_clients s"
  "down (thread_after i x s) = down s" "up (thread_after i x s) = up s" "accepted (thread_after i x s) = accepted s"
  "length (threads (thread_after i x s)) = length (threads s)"
  by (simp_all add: thread_after_def Let_def)

text \<open>
  A step of a thread evaluates the connection of a call, or is local, or completes a call on
  the connection that it holds.
\<close>

lemma thread_step_cases:
  assumes "sync_thread_step junk scan i s = Some s'"
  obtains (holds) "i < length (threads s)" "held (threads s ! i) = None"
      "s' = s\<lparr>threads := (threads s)[i := (threads s ! i)\<lparr>held := Some (thread_fd s (threads s ! i))\<rparr>]\<rparr>"
  | (goes) x where "i < length (threads s)" "threads s' = threads (thread_after i x s)" "srv_fd s' = srv_fd s"
      "sync_clients s' = sync_clients s" "accepted s' = accepted s"
      "writing (server_at x) \<Longrightarrow> thread_at (threads s ! i) = S_Compare \<or> writing (thread_at (threads s ! i))"
      "\<And>k. held (threads s ! i) \<noteq> Some k \<Longrightarrow> down s' k = down s k"
proof -
  have i: "i < length (threads s)" "server_up s" using assms by (auto simp: sync_thread_step_def split: if_splits)
  let ?t = "threads s ! i" and ?x = "thread_view s (threads s ! i)"
  have at: "server_at ?x = thread_at ?t" by (simp add: thread_view_def)
  note start = starts_writing [of junk scan ?x, unfolded at]
  show thesis
  proof (cases "held ?t")
    case None
    show thesis
    proof (cases "server_talk junk scan ?x")
      case (Local x)
      with assms i start None show thesis
        by (intro goes [of x]) (auto simp: sync_thread_step_def Let_def starts_writing_def)
    qed (use assms i None holds in \<open>auto simp: sync_thread_step_def Let_def\<close>)
  next
    case (Some fd)
    show thesis
    proof (cases "server_talk junk scan ?x")
      case (Send m x)
      with assms i start Some show thesis
        by (intro goes [of x]) (auto simp: sync_thread_step_def Let_def starts_writing_def)
    next
      case (Recv g)
      with assms i Some obtain m ms where "s' = (thread_after i (g m) s)\<lparr>up := (up s)(fd := ms)\<rparr>"
        by (auto simp: sync_thread_step_def Let_def split: list.splits)
      with Recv i start show thesis by (intro goes [of "g m"]) (auto simp: starts_writing_def)
    qed (use assms i Some in \<open>auto simp: sync_thread_step_def Let_def\<close>)
  qed
qed

end
