(* ===== verification/DirHostsProps.thy ===== *)
theory DirHostsProps
  imports DirHosts
begin

text \<open>
  The server of \<^verbatim>\<open>hw6\<close> with several clients: a second client cuts off the first, because every
  thread uses the connection that was accepted last.
\<close>

section \<open>Two clients\<close>

text \<open>No thread holds the connection for a call, or has it as the argument of \<open>write_to_client\<close>.\<close>

definition let_go :: "nat \<Rightarrow> sync_thread \<Rightarrow> bool" where
  "let_go k t \<longleftrightarrow> held t \<noteq> Some k \<and> (\<not> writing (thread_at t) \<or> out_fd t \<noteq> k)"

definition cut_off :: "nat \<Rightarrow> sync_system \<Rightarrow> bool" where
  "cut_off k s \<longleftrightarrow> srv_fd s \<noteq> k \<and> k < accepted s \<and> k < length (sync_clients s)
     \<and> (\<forall>i < length (threads s). let_go k (threads s ! i)) \<and> down s k = []"

lemma thread_cut_off:
  assumes "cut_off k s" "sync_thread_step junk scan i s = Some s'"
  shows "cut_off k s' \<and> sync_clients s' = sync_clients s"
  using assms(2)
proof (cases rule: thread_step_cases)
  case holds
  have "thread_fd s (threads s ! i) \<noteq> k" using assms(1) holds(1) by (auto simp: cut_off_def let_go_def thread_fd_def)
  then show ?thesis using assms(1) holds by (auto simp: cut_off_def let_go_def nth_list_update)
next
  case (goes x)
  have "down s' k = []" using goes(1,7) assms(1) by (auto simp: cut_off_def let_go_def)
  moreover have "let_go k (threads s' ! j)" if "j < length (threads s')" for j
  proof (cases "j = i")
    case True
    then show ?thesis using goes(1,2,6) assms(1) that
      by (auto simp: cut_off_def let_go_def thread_after_def Let_def split: if_splits)
  next
    case False
    then show ?thesis using goes(2) assms(1) that by (auto simp: cut_off_def thread_after_def Let_def)
  qed
  ultimately show ?thesis using goes assms(1) by (simp add: cut_off_def)
qed

lemma cut_off_step:
  assumes "cut_off k s" "client_talk junk (cs k) (sync_clients s ! k) = Recv f" "sync_system_step junk ss cs e s = Some s'"
  shows "cut_off k s' \<and> sync_clients s' ! k = sync_clients s ! k"
proof (cases e)
  case (Start_client argv ok h)
  then show ?thesis using assms
    by (auto simp: sync_system_step_def cut_off_def nth_append split: option.splits prod.splits if_splits)
next
  case Accept
  then show ?thesis using assms
    by (auto simp: sync_system_step_def accept_step_def cut_off_def let_go_def nth_append writing_def split: if_splits)
next
  case (Thread i)
  then show ?thesis using assms thread_cut_off [OF assms(1)] by (simp add: sync_system_step_def)
next
  case (Race g)
  then show ?thesis using assms by (auto simp: sync_system_step_def cut_off_def)
next
  case (Client j)
  show ?thesis
  proof (cases "j = k")
    case True
    then show ?thesis using assms Client by (auto simp: sync_system_step_def sync_client_step_def cut_off_def)
  next
    case False
    then show ?thesis using assms Client
      by (auto simp: sync_system_step_def sync_client_step_def cut_off_def split: if_splits action.splits list.splits)
  qed
qed

text \<open>
  C25. A second client cuts off the first. Let a client wait for the server that has accepted
  it, with nothing under way to it, and let another client have been accepted since. Unless
  a thread still holds the first connection, blocked in a call on it or in \<open>write_to_client\<close>,
  no schedule of the threads and of any number of clients sends the first client anything
  more, whatever the races of the threads make of the shared memory: it waits in the same
  place for ever, although its thread runs on.
\<close>

theorem sync_second_client_cuts_off:
  assumes "k < accepted s" "k < length (sync_clients s)" "srv_fd s \<noteq> k" "down s k = []"
    and "list_all (\<lambda>t. held t \<noteq> Some k \<and> (\<not> writing (thread_at t) \<or> out_fd t \<noteq> k)) (threads s)"
    and "client_talk junk (cs k) (sync_clients s ! k) = Recv f"
  shows "sync_clients (sched_run (sync_system_step junk ss cs) es s) ! k = sync_clients s ! k
    \<and> down (sched_run (sync_system_step junk ss cs) es s) k = []"
proof -
  have "cut_off k s" using assms(1-5) by (auto simp: cut_off_def let_go_def list_all_length)
  then have "cut_off k (sched_run (sync_system_step junk ss cs) es s) \<and> sync_clients (sched_run (sync_system_step junk ss cs) es s) ! k = sync_clients s ! k"
    by (intro sched_run_invariant [where I = "\<lambda>t. cut_off k t \<and> sync_clients t ! k = sync_clients s ! k" and step = "sync_system_step junk ss cs"])
      (use assms(6) cut_off_step in metis)+
  then show ?thesis by (simp add: cut_off_def)
qed

definition empty_host :: host where "empty_host = \<lparr>dirs = {}, files = Map.empty\<rparr>"
definition blank :: sync_file where "blank = \<lparr>filename = [], modification_time = [], file_modes = 0\<rparr>"

lemma waits_for_size: "client_at y = C_ReadSize n \<Longrightarrow> \<exists>f. client_talk junk scan y = Recv f"
  by (simp add: client_talk_def)

lemma sync_second_client_cuts_off_witness:
  "\<exists>s. s = sched_run (sync_system_step blank (\<lambda>_ _. []) (\<lambda>_ _. []))
      [Start_client [''client'', ''c'', ''8080''] True empty_host, Accept, Thread 0, Client 0,
       Start_client [''client'', ''d'', ''8080''] True empty_host, Accept]
      (sync_system_start blank empty_host (''s'', 2, 8080))
    \<and> (\<forall>es. client_at (sync_clients (sched_run (sync_system_step blank (\<lambda>_ _. []) (\<lambda>_ _. [])) es s) ! 0) = C_ReadSize 0)"
proof -
  let ?step = "sync_system_step blank (\<lambda>_ _. []) (\<lambda>_ _. [])"
  obtain s where s_def: "s = sched_run ?step [Start_client [''client'', ''c'', ''8080''] True empty_host, Accept, Thread 0, Client 0,
       Start_client [''client'', ''d'', ''8080''] True empty_host, Accept] (sync_system_start blank empty_host (''s'', 2, 8080))"
    by blast
  have port: "sync_client_main [''client'', c, ''8080''] True = Some (c, 8080)" for c
  proof -
    have "c_atoi ''8080'' = 8080" by code_simp
    then show ?thesis by (simp add: sync_client_main_def)
  qed
  have s: "accepted s = 2" "length (sync_clients s) = 2" "srv_fd s = 1" "down s 0 = []"
      "client_at (sync_clients s ! 0) = C_ReadSize 0" "list_all (\<lambda>t. held t \<noteq> Some 0 \<and> (\<not> writing (thread_at t) \<or> out_fd t \<noteq> 0)) (threads s)"
    unfolding s_def by (simp_all add: sync_system_step_def sync_system_start_def accept_step_def server_up_def port fresh_client_def
        sync_thread_step_def thread_view_def thread_after_def Let_def writing_def server_talk_def sync_client_step_def client_talk_def
        take_files_def)
  obtain f where f: "client_talk blank (\<lambda>_. []) (sync_clients s ! 0) = Recv f"
    using waits_for_size [OF s(5)] by blast
  have "sync_clients (sched_run ?step es s) ! 0 = sync_clients s ! 0" for es
    using sync_second_client_cuts_off [of 0 s blank "\<lambda>_ _. []", OF _ _ _ s(4) s(6) f] s(1-3) by simp
  then show ?thesis using s(5) s_def by metis
qed

end
