(* ===== verification/FileExercises.thy ===== *)
theory FileExercises
  imports CText "HOL-Library.Word" "HOL-Library.Monad_Syntax"
begin

text \<open>
  The exercises on files of \<^verbatim>\<open>hw1\<close>: \<open>part1.c\<close> (append bytes to a file, with and without
  \<^verbatim>\<open>O_APPEND\<close>), \<open>part2.c\<close> (\<^verbatim>\<open>dup\<close> and \<^verbatim>\<open>dup2\<close> over \<^verbatim>\<open>fcntl\<close>) and \<open>part3.c\<close> (the shared
  offset). An open file is its offset and its append flag; the descriptors of a process point
  to open files. A file has at most \<open>max_size\<close> bytes: a write that finds less room is short,
  one that finds none fails.
\<close>

section \<open>Numbers\<close>

text \<open>A \<^verbatim>\<open>char\<close> is signed. \<open>power_of\<close> with a negative exponent never returns.\<close>

definition s_char :: "char \<Rightarrow> int" where
  "s_char c = (if of_char c < (128 :: int) then of_char c else of_char c - 256)"

fun string_length :: "string \<Rightarrow> 64 word \<Rightarrow> 64 word" where
  "string_length [] len = len"
| "string_length (c # s) len = string_length s (len + 1)"

partial_function (option) power_of :: "int \<Rightarrow> int \<Rightarrow> 64 word option" where
  "power_of base e = (if e = 0 then Some 1
     else do { p \<leftarrow> power_of base (e - 1); Some (word_of_int base * p) })"

fun string_to_digit :: "string \<Rightarrow> 64 word \<Rightarrow> 64 word \<Rightarrow> 64 word option" where
  "string_to_digit [] len i = Some i"
| "string_to_digit (c # s) len i =
     (let len = len - 1; digit = s_char c - s_char (CHR ''0'')
      in do { p \<leftarrow> power_of 10 (sint (ucast len :: 32 word)); string_to_digit s len (i + word_of_int digit * p) })"

section \<open>Files\<close>

record open_file =
  pos :: nat
  o_append :: bool

text \<open>Bytes put at a position; a gap before it is filled with NUL.\<close>

definition put_bytes :: "nat \<Rightarrow> string \<Rightarrow> string \<Rightarrow> string" where
  "put_bytes p d c = take p c @ replicate (p - length c) (CHR 0x00) @ d @ drop (p + length d) c"

text \<open>\<^verbatim>\<open>write\<close>: with \<^verbatim>\<open>O_APPEND\<close> the offset moves to the end first.\<close>

definition do_write :: "nat \<Rightarrow> string \<Rightarrow> open_file \<Rightarrow> string \<Rightarrow> int \<times> open_file \<times> string" where
  "do_write max_size d f c =
     (let p = if o_append f then length c else pos f; n = min (length d) (max_size - p)
      in if n = 0 then (if d = [] then 0 else -1, f, c) else (int n, f\<lparr>pos := p + n\<rparr>, put_bytes p (take n d) c))"

section \<open>part1: several processes append to one file\<close>

datatype p1_pc = P_Loop | P_Write | P_Exit int

record p1 =
  p_file :: open_file
  p_seek :: bool
  p_i :: "64 word"
  p_digit :: "64 word"
  p_pc :: p1_pc

text \<open>\<open>main\<close> up to its loop; no result when the conversion of the number does not return.\<close>

definition part1_start :: "bool \<Rightarrow> string list \<Rightarrow> p1 option" where
  "part1_start opened argv =
     (let no_file = \<lparr>pos = 0, o_append = False\<rparr>;
          start = (\<lambda>seek. if \<not> opened then Some \<lparr>p_file = no_file, p_seek = seek, p_i = 0, p_digit = 0, p_pc = P_Exit (-1)\<rparr>
            else do { digit \<leftarrow> string_to_digit (argv ! 2) (string_length (argv ! 2) 0) 0;
                      Some \<lparr>p_file = \<lparr>pos = 0, o_append = \<not> seek\<rparr>, p_seek = seek, p_i = 0, p_digit = digit, p_pc = P_Loop\<rparr> })
      in if length argv = 3 then start False
         else if length argv = 4 \<and> take 1 (argv ! 3) = ''x'' then start True
         else Some \<lparr>p_file = no_file, p_seek = False, p_i = 0, p_digit = 0, p_pc = P_Exit (-1)\<rparr>)"

text \<open>One byte is written.\<close>

definition part1_write :: "nat \<Rightarrow> string \<Rightarrow> p1 \<Rightarrow> string \<times> p1" where
  "part1_write max_size c p = (case do_write max_size ''a'' (p_file p) c of (wr, f, c) \<Rightarrow>
     if wr = -1 then (c, p\<lparr>p_file := f, p_pc := P_Exit (-1)\<rparr>)
     else (c, p\<lparr>p_file := f, p_i := p_i p + 1, p_pc := P_Loop\<rparr>))"

text \<open>
  A step of one process on the shared file. Between \<^verbatim>\<open>lseek\<close> and \<^verbatim>\<open>write\<close> other processes may
  move; the result of \<^verbatim>\<open>lseek\<close> is cut to an \<^verbatim>\<open>int\<close>.
\<close>

definition part1_step :: "nat \<Rightarrow> string \<Rightarrow> p1 \<Rightarrow> (string \<times> p1) option" where
  "part1_step max_size c p = (case p_pc p of
       P_Exit r \<Rightarrow> None
     | P_Write \<Rightarrow> Some (part1_write max_size c p)
     | P_Loop \<Rightarrow>
         if p_i p < p_digit p then
           if p_seek p then
             let p = p\<lparr>p_file := (p_file p)\<lparr>pos := length c\<rparr>\<rparr>
             in if (word_of_nat (length c) :: 32 word) = -1 then Some (c, p\<lparr>p_pc := P_Exit (-1)\<rparr>)
                else Some (c, p\<lparr>p_pc := P_Write\<rparr>)
           else Some (part1_write max_size c p)
         else Some (c, p\<lparr>p_pc := P_Exit 0\<rparr>))"

definition part1_sched :: "nat \<Rightarrow> nat \<Rightarrow> string \<times> p1 list \<Rightarrow> (string \<times> p1 list) option" where
  "part1_sched max_size k s = (case s of (c, ps) \<Rightarrow>
     if length ps \<le> k then None
     else case part1_step max_size c (ps ! k) of None \<Rightarrow> None | Some (c, p) \<Rightarrow> Some (c, ps[k := p]))"

section \<open>part2 and part3: duplicated descriptors\<close>

text \<open>\<^verbatim>\<open>errno\<close>: the last error of a system call, kept by a call that succeeds.\<close>

datatype errno = EBADF | EINVAL | EMFILE | EFBIG

record proc_state =
  fds :: "nat \<rightharpoonup> nat"
  descs :: "open_file list"
  content :: "string option"
  fd_limit :: nat
  size_limit :: nat
  errno :: "errno option"

text \<open>The lowest free descriptor that is at least \<open>n\<close>.\<close>

definition lowest_fd :: "nat \<Rightarrow> proc_state \<Rightarrow> nat option" where
  "lowest_fd n s = find (\<lambda>k. fds s k = None) [n..<fd_limit s]"

definition is_open :: "int \<Rightarrow> proc_state \<Rightarrow> bool" where
  "is_open fd s \<longleftrightarrow> 0 \<le> fd \<and> fds s (nat fd) \<noteq> None"

definition fails :: "errno \<Rightarrow> proc_state \<Rightarrow> int \<times> proc_state" where
  "fails e s = (-1, s\<lparr>errno := Some e\<rparr>)"

text \<open>\<^verbatim>\<open>open\<close> with \<^verbatim>\<open>O_CREAT | O_RDWR\<close>.\<close>

definition sys_open :: "proc_state \<Rightarrow> int \<times> proc_state" where
  "sys_open s = (case lowest_fd 0 s of
       None \<Rightarrow> fails EMFILE s
     | Some k \<Rightarrow> (int k, s\<lparr>fds := (fds s)(k \<mapsto> length (descs s)), descs := descs s @ [\<lparr>pos = 0, o_append = False\<rparr>],
         content := (case content s of None \<Rightarrow> Some [] | Some c \<Rightarrow> Some c)\<rparr>))"

definition close_fd :: "int \<Rightarrow> proc_state \<Rightarrow> int \<times> proc_state" where
  "close_fd fd s = (if is_open fd s then (0, s\<lparr>fds := (fds s)(nat fd := None)\<rparr>) else fails EBADF s)"

definition sys_write :: "int \<Rightarrow> string \<Rightarrow> proc_state \<Rightarrow> int \<times> proc_state" where
  "sys_write fd d s =
     (if \<not> is_open fd s then fails EBADF s
      else let i = the (fds s (nat fd))
        in case do_write (size_limit s) d (descs s ! i) (case content s of None \<Rightarrow> [] | Some c \<Rightarrow> c) of (wr, f, c) \<Rightarrow>
             (wr, s\<lparr>descs := (descs s)[i := f], content := Some c, errno := (if wr = -1 then Some EFBIG else errno s)\<rparr>))"

text \<open>\<^verbatim>\<open>lseek(fd, 0, SEEK_CUR)\<close>.\<close>

definition sys_tell :: "int \<Rightarrow> proc_state \<Rightarrow> int" where
  "sys_tell fd s = (if is_open fd s then int (pos (descs s ! the (fds s (nat fd)))) else -1)"

definition fcntl_dupfd :: "int \<Rightarrow> int \<Rightarrow> proc_state \<Rightarrow> int \<times> proc_state" where
  "fcntl_dupfd fd low s =
     (if \<not> is_open fd s then fails EBADF s
      else if low < 0 \<or> int (fd_limit s) \<le> low then fails EINVAL s
      else case lowest_fd (nat low) s of
          None \<Rightarrow> fails EMFILE s
        | Some k \<Rightarrow> (int k, s\<lparr>fds := (fds s)(k := fds s (nat fd))\<rparr>))"

text \<open>\<open>dup\<close> leaves out the argument of \<^verbatim>\<open>F_DUPFD\<close>: \<open>low\<close> is whatever is found in its place.\<close>

definition dup_ex :: "int \<Rightarrow> int \<Rightarrow> proc_state \<Rightarrow> int \<times> proc_state" where
  "dup_ex low oldfd s =
     (if \<not> is_open oldfd s then fails EBADF s
      else case fcntl_dupfd oldfd low s of (new_file_descriptor, s) \<Rightarrow>
        if new_file_descriptor = -1 then (-1, s) else (new_file_descriptor, s))"

text \<open>The test of \<open>newfd\<close> by \<^verbatim>\<open>F_GETFD\<close> fails, and sets \<^verbatim>\<open>errno\<close>, when it is not open.\<close>

definition dup2_ex :: "int \<Rightarrow> int \<Rightarrow> proc_state \<Rightarrow> int \<times> proc_state" where
  "dup2_ex oldfd newfd s =
     (if \<not> is_open oldfd s then fails EBADF s
      else if oldfd = newfd then (newfd, s)
      else let s = if is_open newfd s then snd (close_fd newfd s) else snd (fails EBADF s)
        in case fcntl_dupfd oldfd newfd s of (r, s) \<Rightarrow> if r = -1 then (-1, s) else (newfd, s))"

definition msg :: "string \<Rightarrow> string" where
  "msg s = s @ [newline]"

definition part2_main :: "int \<Rightarrow> proc_state \<Rightarrow> int \<times> proc_state" where
  "part2_main low s =
     (case sys_open s of (fd, s) \<Rightarrow>
      case dup_ex low fd s of (fd_dup, s) \<Rightarrow>
      case sys_write fd (msg ''Hello from original file descriptor.'') s of (wr_orgnl, s) \<Rightarrow>
      if wr_orgnl = -1 then (-1, s) else
      case sys_write fd_dup (msg ''Hello from dup file descriptor.'') s of (wr_dup, s) \<Rightarrow>
      if wr_dup = -1 then (-1, s) else
      case dup2_ex fd fd_dup s of (fd_dup2, s) \<Rightarrow>
      case sys_write fd_dup2 (msg ''Hello from dup2 file descriptor.'') s of (wr_dup2, s) \<Rightarrow>
      if wr_dup2 = -1 then (-1, s) else
      case close_fd fd s of (r, s) \<Rightarrow>
      if r = -1 then (-1, s) else
      case (if fd_dup2 \<noteq> fd_dup then close_fd fd_dup s else (0, s)) of (r, s) \<Rightarrow>
      if r = -1 then (-1, s) else
      case close_fd fd_dup2 s of (r, s) \<Rightarrow> if r = -1 then (-1, s) else (0, s))"

text \<open>The two offsets that \<open>part3.c\<close> prints, if it gets there.\<close>

definition part3_main :: "int \<Rightarrow> proc_state \<Rightarrow> int \<times> (int \<times> int) option \<times> proc_state" where
  "part3_main low s =
     (case sys_open s of (fd_original, s) \<Rightarrow>
      if fd_original = -1 then (-1, None, s) else
      case dup_ex low fd_original s of (fd_duplicated, s) \<Rightarrow>
      if fd_duplicated = -1 then (-1, None, s) else
      case sys_write fd_original (msg ''Hello from original file descriptor.'') s of (wr_orgnl, s) \<Rightarrow>
      if wr_orgnl = -1 then (-1, None, s) else
      case sys_write fd_duplicated (msg ''Hello from duplicated file descriptor.'') s of (wr_dup, s) \<Rightarrow>
      if wr_dup = -1 then (-1, None, s) else
      let offsets = (sys_tell fd_original s, sys_tell fd_duplicated s) in
      case close_fd fd_original s of (r, s) \<Rightarrow>
      if r = -1 then (-1, Some offsets, s) else
      case close_fd fd_duplicated s of (r, s) \<Rightarrow>
      if r = -1 then (-1, Some offsets, s) else (0, Some offsets, s))"

end
