(* ===== verification/FileExerciseProps.thy ===== *)
theory FileExerciseProps
  imports FileExercises
begin

text \<open>
  Properties of the exercises on files: the number on the command line, the bytes that several
  processes append together, and the duplicated descriptors.
\<close>

section \<open>Numbers\<close>

lemma power_of_nat: "power_of b (int n) = Some (word_of_int b ^ n)"
proof (induction n)
  case 0
  then show ?case by (subst power_of.simps) simp
next
  case (Suc n)
  then show ?case by (subst power_of.simps) simp
qed

lemma power_of_returns:
  assumes "power_of b e = Some y"
  shows "0 \<le> e"
proof (rule power_of.raw_induct [where P = "\<lambda>b e r. 0 \<le> e", OF _ assms])
  fix f :: "int \<Rightarrow> int \<Rightarrow> 64 word option" and b e r
  assume IH: "\<And>b e r. f b e = Some r \<Longrightarrow> 0 \<le> e"
    and step: "(if e = 0 then Some 1 else do { p \<leftarrow> f b (e - 1); Some (word_of_int b * p) }) = Some r"
  show "0 \<le> e"
  proof (cases "e = 0")
    case False
    then obtain p where "f b (e - 1) = Some p" using step by (auto split: bind_splits)
    then show ?thesis using IH by fastforce
  qed simp
qed

text \<open>The number by Horner's rule.\<close>

definition number :: "string \<Rightarrow> 64 word" where
  "number s = foldl (\<lambda>a c. 10 * a + word_of_int (s_char c - s_char (CHR ''0''))) 0 s"

lemma foldl_number:
  "foldl (\<lambda>a c. 10 * a + f c) (a :: 64 word) s = 10 ^ length s * a + foldl (\<lambda>a c. 10 * a + f c) 0 s"
proof (induction s arbitrary: a)
  case (Cons c s)
  show ?case using Cons [of "10 * a + f c"] Cons [of "f c"] by (simp add: algebra_simps)
qed simp

lemma number_Cons: "number (c # s) = 10 ^ length s * word_of_int (s_char c - s_char (CHR ''0'')) + number s"
  using foldl_number [of "\<lambda>c. word_of_int (s_char c - s_char (CHR ''0''))"
      "word_of_int (s_char c - s_char (CHR ''0''))" s] by (simp add: number_def)

lemma string_length_eq: "string_length s len = len + word_of_nat (length s)"
  by (induction s arbitrary: len) simp_all

lemma small_int: "n < 2 ^ 31 \<Longrightarrow> sint (ucast (word_of_nat n :: 64 word) :: 32 word) = int n"
  by transfer (simp add: take_bit_nat_eq_self take_bit_int_eq_self signed_take_bit_int_eq_self)

lemma string_to_digit_eq:
  "length s < 2 ^ 31 \<Longrightarrow> string_to_digit s (word_of_nat (length s)) i = Some (i + number s)"
proof (induction s arbitrary: i)
  case Nil
  then show ?case by (simp add: number_def)
next
  case (Cons c s)
  have "sint (ucast (word_of_nat (length s) :: 64 word) :: 32 word) = int (length s)"
    using small_int Cons.prems by simp
  then show ?case using Cons by (simp add: power_of_nat number_Cons algebra_simps)
qed

lemma digit_value: "c_isdigit c \<Longrightarrow> s_char c - s_char (CHR ''0'') = int (digit_val c)"
proof -
  assume c: "c_isdigit c"
  obtain n :: nat where n: "of_char c = n" by simp
  then have "(of_char c :: int) = int n" by (metis of_nat_of_char)
  then show ?thesis using c n by (simp add: s_char_def c_isdigit_def digit_val_def of_nat_diff)
qed

lemma number_digits: "list_all c_isdigit s \<Longrightarrow> number s = word_of_nat (digits_val s)"
proof (induction s rule: rev_induct)
  case Nil
  then show ?case by (simp add: number_def digits_val_def)
next
  case (snoc c s)
  then have "number s = word_of_nat (digits_val s)" "c_isdigit c" by simp_all
  then show ?case by (simp add: number_def digits_val_def digit_value del: of_int_diff)
qed

text \<open>
  \<open>power_of\<close> returns exactly for the exponents that are not negative, and so the conversion
  of the number on the command line always returns: for every argument that is shorter than
  two to the power of 31 it gives the number by Horner's rule modulo two to the power of 64,
  that is the decimal value if there are only digits.
\<close>

theorem part1_number_returns:
  assumes "length s < 2 ^ 31"
  shows "(\<forall>base e. power_of base e \<noteq> None \<longleftrightarrow> 0 \<le> e)
    \<and> string_to_digit s (string_length s 0) 0 = Some (number s)
    \<and> (list_all c_isdigit s \<longrightarrow> number s = word_of_nat (digits_val s))"
proof -
  have "power_of base e \<noteq> None \<longleftrightarrow> 0 \<le> e" for base e
    using power_of_returns [of base e] power_of_nat [of base "nat e"] by fastforce
  then show ?thesis using string_to_digit_eq [OF assms, of 0] number_digits by (simp add: string_length_eq)
qed

lemma part1_number_returns_witness: "string_to_digit ''1204'' (string_length ''1204'' 0) 0 = Some 1204"
  using part1_number_returns [of "''1204''"]
  by (simp add: c_isdigit_def digits_val_def digit_val_def)

section \<open>Appending together\<close>

text \<open>What holds of every process when \<open>m\<close> bytes have been appended to the file.\<close>

definition p1_inv :: "nat \<Rightarrow> nat \<Rightarrow> p1 \<Rightarrow> bool" where
  "p1_inv len m q \<longleftrightarrow> unat (p_i q) \<le> m \<and> p_i q \<le> p_digit q \<and> o_append (p_file q) = (\<not> p_seek q)
     \<and> (p_pc q = P_Exit 0 \<longrightarrow> p_i q = p_digit q)
     \<and> (p_pc q = P_Write \<longrightarrow> p_seek q \<and> p_i q < p_digit q \<and> len + unat (p_i q) \<le> pos (p_file q) \<and> pos (p_file q) \<le> len + m)"

lemma p1_inv_mono: "p1_inv len m q \<Longrightarrow> m \<le> m' \<Longrightarrow> p1_inv len m' q"
  by (auto simp: p1_inv_def)

lemma unat_next: "i < d \<Longrightarrow> unat (i + 1) = Suc (unat i) \<and> i + 1 \<le> (d :: 'a::len word)"
proof -
  assume i: "i < d"
  have "1 + i \<noteq> 0"
  proof
    assume "1 + i = 0"
    then have "i = - 1" by (simp add: eq_neg_iff_add_eq_0 add.commute)
    then show False using i by (simp add: word_less_nat_alt) (metis linorder_not_less word_n1_ge word_less_nat_alt)
  qed
  then have "unat (i + 1) = Suc (unat i)" using unatSuc [of i] by (simp add: add.commute)
  then show ?thesis using i by (simp add: word_le_nat_alt word_less_nat_alt)
qed

lemma put_inside:
  assumes "length c0 \<le> p" "p \<le> length c0 + m"
  shows "put_bytes p [x] (c0 @ replicate m x) = c0 @ replicate (max m (Suc p - length c0)) x"
proof -
  obtain j where j: "p = length c0 + j" "j \<le> m" using assms by (metis add_le_cancel_left le_Suc_ex)
  have "replicate j x @ [x] @ replicate (m - Suc j) x = replicate (max m (Suc j)) x"
  proof -
    have "max m (Suc j) = j + Suc (m - Suc j)" using j(2) by (auto simp: max_def)
    then show ?thesis by (simp add: replicate_add replicate_append_same)
  qed
  then show ?thesis using j by (simp add: put_bytes_def min_def)
qed

lemma part1_write_inv:
  assumes "p1_inv (length c0) m q" "p_i q < p_digit q"
    and "p_pc q = P_Write \<or> (p_pc q = P_Loop \<and> \<not> p_seek q)"
    and "part1_write max_size (c0 @ replicate m (CHR ''a'')) q = (c', q')"
  shows "\<exists>m'. c' = c0 @ replicate m' (CHR ''a'') \<and> m \<le> m' \<and> m' + unat (p_i q) \<le> m + unat (p_i q') \<and> p1_inv (length c0) m' q'
    \<and> p_digit q' = p_digit q \<and> p_seek q' = p_seek q
    \<and> (\<not> p_seek q \<longrightarrow> m' + unat (p_i q) = m + unat (p_i q') \<and> p_pc q' \<noteq> P_Write \<and> (length c0 + m < max_size \<longrightarrow> p_pc q' = P_Loop))"
proof -
  let ?c = "c0 @ replicate m (CHR ''a'')"
  let ?p = "if o_append (p_file q) then length ?c else pos (p_file q)"
  have p: "length c0 + unat (p_i q) \<le> ?p" "?p \<le> length c0 + m" "p_seek q \<or> ?p = length c0 + m"
    using assms(1,3) by (auto simp: p1_inv_def)
  have nx: "unat (p_i q + 1) = Suc (unat (p_i q))" "p_i q + 1 \<le> p_digit q" using unat_next [OF assms(2)] by auto
  show ?thesis
  proof (cases "?p < max_size")
    case True
    then have n: "min (length ''a'') (max_size - ?p) = 1" by simp
    then have w: "part1_write max_size ?c q = (put_bytes ?p ''a'' ?c, q\<lparr>p_file := (p_file q)\<lparr>pos := ?p + 1\<rparr>, p_i := p_i q + 1, p_pc := P_Loop\<rparr>)"
      by (simp add: part1_write_def do_write_def Let_def del: length_append)
    let ?m = "max m (Suc ?p - length c0)"
    have "c' = c0 @ replicate ?m (CHR ''a'')" using w assms(4) put_inside [of c0 ?p m "CHR ''a''"] p by simp
    moreover have "?m \<le> Suc m" "unat (p_i q) < ?m" "p_seek q \<or> ?m = Suc m" using p by auto
    moreover have "p1_inv (length c0) ?m q'" using w assms(1,4) nx calculation(3) by (auto simp: p1_inv_def)
    ultimately show ?thesis using w assms(4) nx by (intro exI [of _ ?m]) auto
  next
    case False
    then have w: "part1_write max_size ?c q = (?c, q\<lparr>p_pc := P_Exit (-1)\<rparr>)"
      by (simp add: part1_write_def do_write_def Let_def del: length_append)
    then show ?thesis using assms(1,4) p(3) False by (intro exI [of _ m]) (auto simp: p1_inv_def)
  qed
qed

lemma part1_step_inv:
  assumes "p1_inv (length c0) m q" "part1_step max_size (c0 @ replicate m (CHR ''a'')) q = Some (c', q')"
  shows "\<exists>m'. c' = c0 @ replicate m' (CHR ''a'') \<and> m \<le> m' \<and> m' + unat (p_i q) \<le> m + unat (p_i q') \<and> p1_inv (length c0) m' q'
    \<and> p_digit q' = p_digit q \<and> p_seek q' = p_seek q
    \<and> (\<not> p_seek q \<longrightarrow> m' + unat (p_i q) = m + unat (p_i q') \<and> p_pc q' \<noteq> P_Write
       \<and> (p_i q < p_digit q \<and> length c0 + m < max_size \<or> \<not> p_i q < p_digit q \<longrightarrow> p_pc q' \<noteq> P_Exit (-1)))"
proof (cases "p_pc q")
  case P_Write
  then have i: "p_i q < p_digit q" using assms(1) by (simp add: p1_inv_def)
  show ?thesis
    using part1_write_inv [OF assms(1) i, of max_size c' q'] assms P_Write
    by (auto simp: part1_step_def p1_inv_def)
next
  case P_Loop
  show ?thesis
  proof (cases "p_i q < p_digit q")
    case True
    show ?thesis
    proof (cases "p_seek q")
      case True
      then show ?thesis using assms P_Loop \<open>p_i q < p_digit q\<close>
        by (intro exI [of _ m]) (auto simp: part1_step_def Let_def p1_inv_def split: if_splits)
    next
      case False
      then have "part1_write max_size (c0 @ replicate m (CHR ''a'')) q = (c', q')"
        using assms(2) P_Loop True by (simp add: part1_step_def)
      from part1_write_inv [OF assms(1) True _ this] False P_Loop True show ?thesis by auto
    qed
  next
    case False
    then show ?thesis using assms P_Loop by (intro exI [of _ m]) (auto simp: part1_step_def p1_inv_def)
  qed
qed (use assms(2) in \<open>simp add: part1_step_def\<close>)

definition written :: "p1 list \<Rightarrow> nat" where
  "written qs = sum_list (map (\<lambda>q. unat (p_i q)) qs)"

definition asked :: "p1 list \<Rightarrow> nat" where
  "asked qs = sum_list (map (\<lambda>q. unat (p_digit q)) qs)"

definition files_inv :: "nat \<Rightarrow> string \<Rightarrow> p1 list \<Rightarrow> string \<times> p1 list \<Rightarrow> bool" where
  "files_inv max_size c ps s \<longleftrightarrow> (case s of (c', qs) \<Rightarrow>
     (\<exists>m. c' = c @ replicate m (CHR ''a'') \<and> m \<le> written qs \<and> (\<forall>q\<in>set qs. p1_inv (length c) m q)
        \<and> ((\<forall>p\<in>set ps. \<not> p_seek p) \<longrightarrow> m = written qs
            \<and> (\<forall>q\<in>set qs. p_pc q \<noteq> P_Write \<and> (length c + asked ps \<le> max_size \<longrightarrow> p_pc q \<noteq> P_Exit (-1)))))
     \<and> map p_digit qs = map p_digit ps \<and> map p_seek qs = map p_seek ps)"

lemma written_less:
  "(\<forall>q\<in>set qs. p_i q \<le> p_digit q) \<Longrightarrow> q \<in> set qs \<Longrightarrow> p_i q < p_digit q \<Longrightarrow> written qs < asked qs"
proof (induction qs)
  case (Cons x qs)
  have le: "written qs \<le> asked qs"
    using Cons.prems(1) unfolding written_def asked_def by (intro sum_list_mono) (simp add: word_le_nat_alt)
  show ?case
  proof (cases "q = x")
    case True
    then show ?thesis using le Cons.prems by (simp add: written_def asked_def word_less_nat_alt)
  next
    case False
    then have "written qs < asked qs" using Cons by simp
    then show ?thesis using Cons.prems(1) by (simp add: written_def asked_def word_le_nat_alt)
  qed
qed simp

lemma asked_map: "asked qs = sum_list (map unat (map p_digit qs))"
  by (simp add: asked_def comp_def)

lemma map_update_same: "f y = f (xs ! k) \<Longrightarrow> map f (xs[k := y]) = map f xs"
  by (metis list_update_id map_update)

lemma files_inv_step:
  assumes "files_inv max_size c ps s" "part1_sched max_size k s = Some s'"
  shows "files_inv max_size c ps s'"
proof -
  obtain c1 qs where s: "s = (c1, qs)" by fastforce
  obtain m where m: "c1 = c @ replicate m (CHR ''a'')" "m \<le> written qs" "\<forall>q\<in>set qs. p1_inv (length c) m q"
      "map p_digit qs = map p_digit ps" "map p_seek qs = map p_seek ps"
      "(\<forall>p\<in>set ps. \<not> p_seek p) \<longrightarrow> m = written qs
         \<and> (\<forall>q\<in>set qs. p_pc q \<noteq> P_Write \<and> (length c + asked ps \<le> max_size \<longrightarrow> p_pc q \<noteq> P_Exit (-1)))"
    using assms(1) unfolding s files_inv_def by auto
  obtain c2 q' where q': "k < length qs" "part1_step max_size c1 (qs ! k) = Some (c2, q')" "s' = (c2, qs[k := q'])"
    using assms(2) unfolding s part1_sched_def by (auto split: if_splits option.splits)
  have k: "qs ! k \<in> set qs" using q'(1) by simp
  obtain m' where m': "c2 = c @ replicate m' (CHR ''a'')" "m \<le> m'" "m' + unat (p_i (qs ! k)) \<le> m + unat (p_i q')"
      "p1_inv (length c) m' q'" "p_digit q' = p_digit (qs ! k)" "p_seek q' = p_seek (qs ! k)"
      "\<not> p_seek (qs ! k) \<longrightarrow> m' + unat (p_i (qs ! k)) = m + unat (p_i q') \<and> p_pc q' \<noteq> P_Write
       \<and> (p_i (qs ! k) < p_digit (qs ! k) \<and> length c + m < max_size \<or> \<not> p_i (qs ! k) < p_digit (qs ! k) \<longrightarrow> p_pc q' \<noteq> P_Exit (-1))"
    using part1_step_inv [OF m(3) [rule_format, OF k] q'(2) [unfolded m(1)]] by blast
  have sum: "unat (p_i (qs ! k)) + written (qs[k := q']) = unat (p_i q') + written qs"
    using sum_list_update_add [OF q'(1), of "\<lambda>q. unat (p_i q)" q'] by (simp add: written_def)
  have set: "q = q' \<or> q \<in> set qs" if "q \<in> set (qs[k := q'])" for q
    using that set_update_subset_insert [of qs k q'] by auto
  have "map p_digit (qs[k := q']) = map p_digit ps" "map p_seek (qs[k := q']) = map p_seek ps"
    using m(4,5) map_update_same [of p_digit, OF m'(5)] map_update_same [of p_seek, OF m'(6)] by simp_all
  moreover have "m' = written (qs[k := q']) \<and> (\<forall>q\<in>set (qs[k := q']). p_pc q \<noteq> P_Write \<and> (length c + asked ps \<le> max_size \<longrightarrow> p_pc q \<noteq> P_Exit (-1)))"
    if app: "\<forall>p\<in>set ps. \<not> p_seek p"
  proof -
    have seek: "\<not> p_seek (qs ! k)"
    proof -
      have "p_seek (qs ! k) \<in> set (map p_seek ps)" using k m(5) by (metis image_eqI set_map)
      then show ?thesis using app by auto
    qed
    have eq: "m = written qs" using m(6) app by blast
    have "length c + m < max_size" if "p_i (qs ! k) < p_digit (qs ! k)" "length c + asked ps \<le> max_size"
    proof -
      have "written qs < asked qs" by (rule written_less [OF _ k that(1)]) (use m(3) in \<open>auto simp: p1_inv_def\<close>)
      then show ?thesis using eq that(2) m(4) by (simp add: asked_map)
    qed
    then have "length c + asked ps \<le> max_size \<longrightarrow> p_pc q' \<noteq> P_Exit (-1)" using m'(7) seek by blast
    then show ?thesis using m(6) app m'(7) seek eq sum set by fastforce
  qed
  moreover have "\<forall>q\<in>set (qs[k := q']). p1_inv (length c) m' q" using set m(3) m'(2,4) p1_inv_mono by blast
  moreover have "m' \<le> written (qs[k := q'])" using sum m(2) m'(3) by linarith
  ultimately show ?thesis unfolding q'(3) files_inv_def using m'(1) by auto
qed

lemma files_inv_run: "files_inv max_size c ps s \<Longrightarrow> files_inv max_size c ps (sched_run (part1_sched max_size) es s)"
  by (rule sched_run_invariant [where I = "files_inv max_size c ps" and step = "part1_sched max_size"])
    (auto intro: files_inv_step)

lemma part1_start_shape:
  "part1_start True argv = Some p \<Longrightarrow> length argv = 3 \<or> length argv = 4 \<and> take 1 (argv ! 3) = ''x'' \<Longrightarrow>
   p_i p = 0 \<and> p_pc p = P_Loop \<and> p_seek p = (length argv \<noteq> 3) \<and> o_append (p_file p) = (length argv = 3)"
  by (auto simp: part1_start_def Let_def split: bind_splits)

lemma files_inv_start:
  assumes "\<forall>p\<in>set ps. \<exists>argv. part1_start True argv = Some p \<and> (length argv = 3 \<or> length argv = 4 \<and> take 1 (argv ! 3) = ''x'')"
  shows "files_inv max_size c ps (c, ps)"
proof -
  have "p_i p = 0 \<and> p_pc p = P_Loop \<and> o_append (p_file p) = (\<not> p_seek p)" if p: "p \<in> set ps" for p
    using assms p part1_start_shape by metis
  then show ?thesis by (auto simp: files_inv_def p1_inv_def written_def intro!: exI [of _ 0])
qed

text \<open>
  C22. Any number of processes that append to one file, in every schedule: with \<^verbatim>\<open>O_APPEND\<close>
  no byte is lost. The file has grown by exactly the bytes that the processes have counted;
  no process fails while there is room; and when all have ended well, the file has grown by
  the sum of the numbers on their command lines.
\<close>

theorem part1_append_exact:
  assumes "\<forall>p\<in>set ps. \<exists>argv. length argv = 3 \<and> part1_start True argv = Some p"
    and "sched_run (part1_sched max_size) es (c, ps) = (c', qs)"
  shows "c' = c @ replicate (\<Sum>q\<leftarrow>qs. unat (p_i q)) (CHR ''a'')
    \<and> (length c + (\<Sum>p\<leftarrow>ps. unat (p_digit p)) \<le> max_size \<longrightarrow> (\<forall>q\<in>set qs. p_pc q \<noteq> P_Exit (-1)))
    \<and> ((\<forall>q\<in>set qs. p_pc q = P_Exit 0) \<longrightarrow> c' = c @ replicate (\<Sum>p\<leftarrow>ps. unat (p_digit p)) (CHR ''a''))"
proof -
  have "\<forall>p\<in>set ps. \<exists>argv. part1_start True argv = Some p \<and> (length argv = 3 \<or> length argv = 4 \<and> take 1 (argv ! 3) = ''x'')"
    using assms(1) by blast
  from files_inv_start [OF this] have "files_inv max_size c ps (c, ps)" .
  then have inv: "files_inv max_size c ps (c', qs)"
    unfolding assms(2) [symmetric] by (rule files_inv_run)
  have "\<not> p_seek p" if "p \<in> set ps" for p using assms(1) that part1_start_shape by metis
  then have eq: "c' = c @ replicate (written qs) (CHR ''a'')" "asked qs = asked ps" "\<forall>q\<in>set qs. p_pc q = P_Exit 0 \<longrightarrow> p_i q = p_digit q"
      "\<forall>q\<in>set qs. length c + asked ps \<le> max_size \<longrightarrow> p_pc q \<noteq> P_Exit (-1)"
    using inv by (auto simp: files_inv_def asked_map p1_inv_def)
  have "written qs = asked ps" if "\<forall>q\<in>set qs. p_pc q = P_Exit 0"
    using that eq(2,3) unfolding written_def asked_def by (metis (mono_tags, lifting) map_eq_conv)
  then show ?thesis using eq(1,4) unfolding written_def asked_def by auto
qed

text \<open>
  C36. The same with \<^verbatim>\<open>lseek\<close> to the end before every byte, for processes of either kind: the
  file never has a gap and never grows by more than the bytes written, and it holds at
  least as many as any single process has written.
\<close>

theorem part1_seek_bounds:
  assumes "\<forall>p\<in>set ps. \<exists>argv. part1_start True argv = Some p \<and> (length argv = 3 \<or> length argv = 4 \<and> take 1 (argv ! 3) = ''x'')"
    and "sched_run (part1_sched max_size) es (c, ps) = (c', qs)"
  shows "\<exists>m. c' = c @ replicate m (CHR ''a'') \<and> m \<le> (\<Sum>q\<leftarrow>qs. unat (p_i q)) \<and> (\<forall>q\<in>set qs. unat (p_i q) \<le> m)
    \<and> ((\<forall>q\<in>set qs. p_pc q = P_Exit 0) \<longrightarrow> m \<le> (\<Sum>p\<leftarrow>ps. unat (p_digit p)) \<and> (\<forall>p\<in>set ps. unat (p_digit p) \<le> m))"
proof -
  have "files_inv max_size c ps (c', qs)"
    unfolding assms(2) [symmetric] by (rule files_inv_run [OF files_inv_start [OF assms(1)]])
  then obtain m where m: "c' = c @ replicate m (CHR ''a'')" "m \<le> written qs" "\<forall>q\<in>set qs. p1_inv (length c) m q"
      "map p_digit qs = map p_digit ps" by (auto simp: files_inv_def)
  have fin: "m \<le> asked ps \<and> (\<forall>p\<in>set ps. unat (p_digit p) \<le> m)" if all: "\<forall>q\<in>set qs. p_pc q = P_Exit 0"
  proof
    have i: "\<forall>q\<in>set qs. p_i q = p_digit q" using all m(3) by (simp add: p1_inv_def)
    then have "written qs = asked qs" unfolding written_def asked_def by (metis (mono_tags, lifting) map_eq_conv)
    then show "m \<le> asked ps" using m(2,4) by (simp add: asked_map)
    have "\<forall>d\<in>set (map p_digit qs). unat d \<le> m" using i m(3) by (auto simp: p1_inv_def)
    then show "\<forall>p\<in>set ps. unat (p_digit p) \<le> m" unfolding m(4) by simp
  qed
  have "\<forall>q\<in>set qs. unat (p_i q) \<le> m" using m(3) by (simp add: p1_inv_def)
  then show ?thesis using m(1,2) fin unfolding written_def asked_def by blast
qed

text \<open>Two processes that seek and write in turn: both write the same byte.\<close>

definition at_loop :: "64 word \<Rightarrow> 64 word \<Rightarrow> p1 \<Rightarrow> bool" where
  "at_loop i d p \<longleftrightarrow> p_seek p \<and> \<not> o_append (p_file p) \<and> p_i p = i \<and> p_digit p = d \<and> p_pc p = P_Loop"

lemma word32_not_minus_1: "n < 2 ^ 32 - 1 \<Longrightarrow> (word_of_nat n :: 32 word) \<noteq> - 1"
proof
  assume n: "n < 2 ^ 32 - 1" and eq: "(word_of_nat n :: 32 word) = - 1"
  have "unat (word_of_nat n :: 32 word) = n" using n by (simp add: unsigned_of_nat take_bit_nat_eq_self)
  moreover have "unat (- 1 :: 32 word) = 2 ^ 32 - 1" by (simp add: unsigned_minus_1_eq_mask mask_eq_exp_minus_1)
  ultimately show False using n eq by simp
qed

lemma turn_about:
  assumes "at_loop i d p" "at_loop i d q" "i < d" "length c < max_size" "length c < 2 ^ 32 - 1"
  shows "\<exists>p' q'. sched_run (part1_sched max_size) [0, 1, 0, 1] (c, [p, q]) = (c @ ''a'', [p', q'])
    \<and> at_loop (i + 1) d p' \<and> at_loop (i + 1) d q'"
proof -
  note l = assms(1,2) [unfolded at_loop_def] word32_not_minus_1 [OF assms(5)] assms(3)
  have s: "part1_step max_size c r = Some (c, r\<lparr>p_file := (p_file r)\<lparr>pos := length c\<rparr>, p_pc := P_Write\<rparr>)" if "at_loop i d r" for r
    using that l(3,4) by (simp add: part1_step_def at_loop_def Let_def)
  have n: "min (length ''a'') (max_size - length c) = 1" using assms(4) by simp
  have w: "part1_step max_size e (r\<lparr>p_file := (p_file r)\<lparr>pos := length c\<rparr>, p_pc := P_Write\<rparr>)
      = Some (put_bytes (length c) ''a'' e, r\<lparr>p_file := (p_file r)\<lparr>pos := length c + 1\<rparr>, p_i := i + 1, p_pc := P_Loop\<rparr>)"
    if "at_loop i d r" for r e
    using that n by (simp add: part1_step_def part1_write_def do_write_def at_loop_def Let_def)
  have "put_bytes (length c) ''a'' c = c @ ''a''" "put_bytes (length c) ''a'' (c @ ''a'') = c @ ''a''"
    by (simp_all add: put_bytes_def)
  then have "sched_run (part1_sched max_size) [0, 1, 0, 1] (c, [p, q]) = (c @ ''a'',
      [p\<lparr>p_file := (p_file p)\<lparr>pos := length c + 1\<rparr>, p_i := i + 1, p_pc := P_Loop\<rparr>,
       q\<lparr>p_file := (p_file q)\<lparr>pos := length c + 1\<rparr>, p_i := i + 1, p_pc := P_Loop\<rparr>])"
    using s [OF assms(1)] s [OF assms(2)] w [OF assms(1)] w [OF assms(2)] by (simp add: part1_sched_def)
  then show ?thesis using l by (simp add: at_loop_def)
qed

lemma turns_about:
  "at_loop i d p \<Longrightarrow> at_loop i d q \<Longrightarrow> unat i + n = unat d \<Longrightarrow> length c + n \<le> max_size \<Longrightarrow> length c + n < 2 ^ 32 \<Longrightarrow>
   \<exists>p' q'. sched_run (part1_sched max_size) (concat (replicate n [0, 1, 0, 1]) @ [0, 1]) (c, [p, q]) = (c @ replicate n (CHR ''a''), [p', q'])
     \<and> p_pc p' = P_Exit 0 \<and> p_pc q' = P_Exit 0"
proof (induction n arbitrary: i p q c)
  case 0
  then have "i = d" by (simp add: word_unat_eq_iff)
  then show ?case using 0(1,2) by (simp add: part1_sched_def part1_step_def at_loop_def)
next
  case (Suc n)
  have lt: "i < d" using Suc.prems(3) by (simp add: word_less_nat_alt)
  obtain p1 q1 where r: "sched_run (part1_sched max_size) [0, 1, 0, 1] (c, [p, q]) = (c @ ''a'', [p1, q1])"
      "at_loop (i + 1) d p1" "at_loop (i + 1) d q1"
    using turn_about [OF Suc.prems(1,2) lt, of c max_size] Suc.prems(4,5) by auto
  have "unat (i + 1) + n = unat d" using Suc.prems(3) unat_next [OF lt] by simp
  from Suc.IH [OF r(2,3) this, of "c @ ''a''"] Suc.prems(4,5) obtain p' q' where
    "sched_run (part1_sched max_size) (concat (replicate n [0, 1, 0, 1]) @ [0, 1]) (c @ ''a'', [p1, q1])
       = ((c @ ''a'') @ replicate n (CHR ''a''), [p', q'])" "p_pc p' = P_Exit 0 \<and> p_pc q' = P_Exit 0" by auto
  moreover have "concat (replicate (Suc n) [0, 1, 0, 1]) @ [0, 1] = [0, 1, 0, 1] @ (concat (replicate n [0, 1, 0, 1]) @ [0, 1 :: nat])" by simp
  moreover have "(c @ ''a'') @ replicate n (CHR ''a'') = c @ replicate (Suc n) (CHR ''a'')" by simp
  ultimately show ?case by (simp only: sched_run_append r(1)) blast
qed

text \<open>
  Without \<^verbatim>\<open>O_APPEND\<close> half of the bytes can be lost with no error: two processes that
  are to append the same number of bytes, however many, have a schedule on which both end
  well and the file has grown by that number only.
\<close>

theorem part1_seek_loses:
  assumes "part1_start True [prog, file, num, ''x''] = Some p"
    and "length c + unat (p_digit p) \<le> max_size" "length c + unat (p_digit p) < 2 ^ 32"
  shows "\<exists>es p' q'. sched_run (part1_sched max_size) es (c, [p, p]) = (c @ replicate (unat (p_digit p)) (CHR ''a''), [p', q'])
    \<and> p_pc p' = P_Exit 0 \<and> p_pc q' = P_Exit 0"
proof -
  have "at_loop 0 (p_digit p) p" using part1_start_shape [OF assms(1)] by (simp add: at_loop_def)
  from turns_about [OF this this _ assms(2,3)] show ?thesis by (simp add: unsigned_0) blast
qed

section \<open>Witnesses\<close>

lemma three: "string_to_digit ''3'' (string_length ''3'' 0) 0 = Some 3"
proof -
  have "power_of 10 0 = Some 1" by (subst power_of.simps) simp
  then show ?thesis by (simp add: s_char_def)
qed

definition p_three :: "bool \<Rightarrow> p1" where
  "p_three seek = \<lparr>p_file = \<lparr>pos = 0, o_append = \<not> seek\<rparr>, p_seek = seek, p_i = 0, p_digit = 3, p_pc = P_Loop\<rparr>"

lemma p_three_start:
  "part1_start True [''part1'', ''f'', ''3''] = Some (p_three False)"
  "part1_start True [''part1'', ''f'', ''3'', ''x''] = Some (p_three True)"
  using three by (simp_all add: part1_start_def p_three_def)

lemma as_and_bs: "replicate 6 (CHR ''a'') = ''aaaaaa''" "replicate 3 (CHR ''a'') = ''aaa''"
  by (simp_all add: numeral_eq_Suc)

lemma part1_append_exact_witness:
  "fst (sched_run (part1_sched 100) (replicate 4 0 @ replicate 4 1) (''b'', [p_three False, p_three False])) = ''baaaaaa''"
proof -
  have "\<forall>p\<in>set [p_three False, p_three False]. \<exists>argv. length argv = 3 \<and> part1_start True argv = Some p"
    using p_three_start(1) by (auto intro!: exI [of _ "[''part1'', ''f'', ''3'']"])
  from part1_append_exact [OF this prod.collapse [symmetric], of 100 "replicate 4 0 @ replicate 4 1" "''b''"]
  have "(\<forall>q\<in>set (snd (sched_run (part1_sched 100) (replicate 4 0 @ replicate 4 1) (''b'', [p_three False, p_three False]))). p_pc q = P_Exit 0)
      \<longrightarrow> fst (sched_run (part1_sched 100) (replicate 4 0 @ replicate 4 1) (''b'', [p_three False, p_three False]))
        = ''b'' @ replicate (\<Sum>p\<leftarrow>[p_three False, p_three False]. unat (p_digit p)) (CHR ''a'')" by blast
  moreover have "\<forall>q\<in>set (snd (sched_run (part1_sched 100) (replicate 4 0 @ replicate 4 1) (''b'', [p_three False, p_three False]))). p_pc q = P_Exit 0"
    by code_simp
  moreover have "(\<Sum>p\<leftarrow>[p_three False, p_three False]. unat (p_digit p)) = 6" by (simp add: p_three_def)
  ultimately show ?thesis by (simp only: as_and_bs) simp
qed

lemma part1_seek_bounds_witness:
  "\<exists>m. fst (sched_run (part1_sched 100) [0, 1, 0, 0, 1, 1] (''b'', [p_three False, p_three True])) = ''b'' @ replicate m (CHR ''a'')"
proof -
  have "\<forall>p\<in>set [p_three False, p_three True]. \<exists>argv. part1_start True argv = Some p \<and> (length argv = 3 \<or> length argv = 4 \<and> take 1 (argv ! 3) = ''x'')"
    using p_three_start by (auto intro: exI [of _ "[''part1'', ''f'', ''3'']"] exI [of _ "[''part1'', ''f'', ''3'', ''x'']"])
  from part1_seek_bounds [OF this prod.collapse [symmetric], of 100 "[0, 1, 0, 0, 1, 1]" "''b''"] show ?thesis by blast
qed

lemma part1_seek_loses_witness:
  "\<exists>es p' q'. sched_run (part1_sched 100) es (''b'', [p_three True, p_three True]) = (''baaa'', [p', q']) \<and> p_pc p' = P_Exit 0 \<and> p_pc q' = P_Exit 0"
proof -
  have d: "unat (p_digit (p_three True)) = 3" by (simp add: p_three_def)
  show ?thesis using part1_seek_loses [OF p_three_start(2), of "''b''" 100] unfolding d as_and_bs by simp
qed

end
