(* ===== verification/FileDupProps.thy ===== *)
theory FileDupProps
  imports FileExercises
begin

text \<open>
  Properties of \<open>part2.c\<close> and \<open>part3.c\<close>: \<^verbatim>\<open>dup2\<close> against its specification, and the programs
  that write over duplicated descriptors.
\<close>

definition wf_fds :: "proc_state \<Rightarrow> bool" where
  "wf_fds s \<longleftrightarrow> (\<forall>k. fds s k \<noteq> None \<longrightarrow> k < fd_limit s)"

text \<open>
  The specification of \<^verbatim>\<open>dup2\<close>: close and reuse in one step, and nothing changed on failure
  but \<^verbatim>\<open>errno\<close>, which is \<^verbatim>\<open>EBADF\<close> both for an \<open>oldfd\<close> that is not open and for a \<open>newfd\<close> out
  of range.
\<close>

definition posix_dup2 :: "int \<Rightarrow> int \<Rightarrow> proc_state \<Rightarrow> int \<times> proc_state" where
  "posix_dup2 oldfd newfd s =
     (if is_open oldfd s \<and> 0 \<le> newfd \<and> newfd < int (fd_limit s)
      then (newfd, s\<lparr>fds := (fds s)(nat newfd := fds s (nat oldfd))\<rparr>) else fails EBADF s)"

lemma lowest_fd_here: "fds s n = None \<Longrightarrow> n < fd_limit s \<Longrightarrow> lowest_fd n s = Some n"
  by (simp add: lowest_fd_def upt_conv_Cons)

text \<open>
  C24. \<^verbatim>\<open>dup2\<close> made of \<^verbatim>\<open>fcntl\<close> and \<^verbatim>\<open>close\<close> against the specification of \<^verbatim>\<open>dup2\<close>, for every pair of
  descriptors and every state of the process whose open descriptors are below the limit: the
  same result, and, \<^verbatim>\<open>errno\<close> apart, the same state. \<^verbatim>\<open>errno\<close> is right when \<open>oldfd\<close> is not open
  and wrong in exactly one case: for a \<open>newfd\<close> out of range it is the \<^verbatim>\<open>EINVAL\<close> of \<^verbatim>\<open>F_DUPFD\<close>
  instead of \<^verbatim>\<open>EBADF\<close>.
\<close>

theorem dup2_posix:
  assumes "wf_fds s"
  shows "fst (dup2_ex oldfd newfd s) = fst (posix_dup2 oldfd newfd s)
    \<and> (snd (dup2_ex oldfd newfd s))\<lparr>errno := e\<rparr> = (snd (posix_dup2 oldfd newfd s))\<lparr>errno := e\<rparr>
    \<and> (fst (dup2_ex oldfd newfd s) = -1 \<longrightarrow> errno (snd (posix_dup2 oldfd newfd s)) = Some EBADF
        \<and> errno (snd (dup2_ex oldfd newfd s)) = Some (if is_open oldfd s then EINVAL else EBADF))"
proof (cases "is_open oldfd s \<and> oldfd \<noteq> newfd")
  case False
  then show ?thesis using assms
    by (auto simp: dup2_ex_def posix_dup2_def is_open_def wf_fds_def fun_upd_idem fails_def)
next
  case True
  let ?s = "s\<lparr>fds := (fds s)(nat newfd := None)\<rparr>"
  let ?t = "(snd (fails EBADF s))\<lparr>fds := (fds s)(nat newfd := None)\<rparr>"
  show ?thesis
  proof (cases "0 \<le> newfd \<and> newfd < int (fd_limit s)")
    case inside: True
    have ne: "nat oldfd \<noteq> nat newfd" using True inside by (auto simp: is_open_def)
    have eq: "(if is_open newfd s then snd (close_fd newfd s) else snd (fails EBADF s)) = (if is_open newfd s then ?s else ?t)"
      using inside by (auto simp: close_fd_def is_open_def fun_upd_idem fails_def)
    have "lowest_fd (nat newfd) ?s = Some (nat newfd)" "lowest_fd (nat newfd) ?t = Some (nat newfd)"
      using inside by (auto intro!: lowest_fd_here simp: fails_def)
    then have "fcntl_dupfd oldfd newfd ?s = (newfd, s\<lparr>fds := (fds s)(nat newfd := fds s (nat oldfd))\<rparr>)"
        "fcntl_dupfd oldfd newfd ?t = (newfd, (snd (fails EBADF s))\<lparr>fds := (fds s)(nat newfd := fds s (nat oldfd))\<rparr>)"
      using True inside ne by (simp_all add: fcntl_dupfd_def is_open_def fails_def)
    then show ?thesis using True inside eq by (simp add: dup2_ex_def posix_dup2_def Let_def fails_def)
  next
    case outside: False
    then have "\<not> is_open newfd s" using assms by (auto simp: is_open_def wf_fds_def)
    then show ?thesis using True outside
      by (auto simp: dup2_ex_def posix_dup2_def fcntl_dupfd_def Let_def fails_def is_open_def)
  qed
qed

section \<open>Writing over descriptors\<close>

lemma put_bytes_seq: "put_bytes (p + length d) e (put_bytes p d c) = put_bytes p (d @ e) c"
  by (auto simp: put_bytes_def min_def ac_simps drop_drop)

lemma do_write_all: "d \<noteq> [] \<Longrightarrow> p + length d \<le> max_size \<Longrightarrow>
    do_write max_size d \<lparr>pos = p, o_append = False\<rparr> c = (int (length d), \<lparr>pos = p + length d, o_append = False\<rparr>, put_bytes p d c)"
  by (simp add: do_write_def Let_def)

lemma sys_write_all:
  assumes "fds s k = Some (length ds)" "descs s = ds @ [\<lparr>pos = p, o_append = False\<rparr>]" "content s = Some c"
    and "d \<noteq> []" "p + length d \<le> size_limit s"
  shows "sys_write (int k) d s = (int (length d),
    s\<lparr>descs := ds @ [\<lparr>pos = p + length d, o_append = False\<rparr>], content := Some (put_bytes p d c)\<rparr>)"
  using assms do_write_all [OF assms(4,5), of c] by (simp add: sys_write_def is_open_def Let_def)

text \<open>The state of both programs after \<open>open\<close> and \<open>dup\<close>.\<close>

definition dup_state :: "nat \<Rightarrow> nat \<Rightarrow> nat \<Rightarrow> string \<Rightarrow> proc_state \<Rightarrow> proc_state" where
  "dup_state a b p c s = s\<lparr>fds := (fds s)(a \<mapsto> length (descs s), b \<mapsto> length (descs s)),
     descs := descs s @ [\<lparr>pos = p, o_append = False\<rparr>], content := Some c\<rparr>"

definition old_bytes :: "proc_state \<Rightarrow> string" where
  "old_bytes s = (case content s of None \<Rightarrow> [] | Some c \<Rightarrow> c)"

lemma lowest_fd_Some: "lowest_fd n s = Some k \<Longrightarrow> fds s k = None \<and> n \<le> k \<and> k < fd_limit s"
  by (auto simp: lowest_fd_def find_Some_iff dest!: nth_mem)

lemma open_dup:
  assumes "lowest_fd 0 s = Some a" "lowest_fd (nat low) (s\<lparr>fds := (fds s)(a \<mapsto> length (descs s))\<rparr>) = Some b"
    and "0 \<le> low" "low < int (fd_limit s)"
  shows "\<exists>s1. sys_open s = (int a, s1) \<and> dup_ex low (int a) s1 = (int b, dup_state a b 0 (old_bytes s) s)"
    and "a \<noteq> b" "fds s a = None" "fds s b = None" "b < fd_limit s"
proof -
  let ?s1 = "s\<lparr>fds := (fds s)(a \<mapsto> length (descs s)), descs := descs s @ [\<lparr>pos = 0, o_append = False\<rparr>], content := Some (old_bytes s)\<rparr>"
  have "sys_open s = (int a, ?s1)" using assms(1) by (auto simp: sys_open_def old_bytes_def split: option.split)
  moreover have "lowest_fd (nat low) ?s1 = Some b" using assms(2) by (simp add: lowest_fd_def)
  then have "dup_ex low (int a) ?s1 = (int b, dup_state a b 0 (old_bytes s) s)"
    using assms(3,4) by (simp add: dup_ex_def fcntl_dupfd_def is_open_def dup_state_def)
  ultimately show "\<exists>s1. sys_open s = (int a, s1) \<and> dup_ex low (int a) s1 = (int b, dup_state a b 0 (old_bytes s) s)" by blast
  show "fds s a = None" using lowest_fd_Some [OF assms(1)] by simp
  show "a \<noteq> b" "fds s b = None" "b < fd_limit s" using lowest_fd_Some [OF assms(2)] by (auto split: if_splits)
qed

lemma dup_state_write:
  assumes "k = a \<or> k = b" "d \<noteq> []" "p + length d \<le> size_limit s"
  shows "sys_write (int k) d (dup_state a b p c s) = (int (length d), dup_state a b (p + length d) (put_bytes p d c) s)"
  using sys_write_all [of "dup_state a b p c s" k "descs s" p c d] assms by (auto simp: dup_state_def)

lemma dup_state_close:
  assumes "a \<noteq> b" "fds s a = None" "fds s b = None"
  shows "\<exists>s1. close_fd (int a) (dup_state a b p c s) = (0, s1)
    \<and> close_fd (int b) s1 = (0, s\<lparr>descs := descs s @ [\<lparr>pos = p, o_append = False\<rparr>], content := Some c\<rparr>)"
proof -
  have "(fds s)(a := None, b := None) = fds s" using assms(2,3) by (simp add: fun_upd_idem)
  then have f: "((fds s)(b \<mapsto> length (descs s)))(a := None, b := None) = fds s" using assms(1) by (simp add: fun_upd_twist)
  then show ?thesis using assms(1) by (simp add: close_fd_def is_open_def dup_state_def fun_upd_twist)
qed

lemma dup_state_dup2:
  assumes "a \<noteq> b" "b < fd_limit s"
  shows "dup2_ex (int a) (int b) (dup_state a b p c s) = (int b, dup_state a b p c s)"
proof -
  let ?s = "(dup_state a b p c s)\<lparr>fds := (fds (dup_state a b p c s))(b := None)\<rparr>"
  have "lowest_fd b ?s = Some b" using assms by (intro lowest_fd_here) (simp_all add: dup_state_def)
  then have "fcntl_dupfd (int a) (int b) ?s = (int b, dup_state a b p c s)"
    using assms by (simp add: fcntl_dupfd_def is_open_def dup_state_def)
  moreover have "snd (close_fd (int b) (dup_state a b p c s)) = ?s"
    by (simp add: close_fd_def is_open_def dup_state_def)
  ultimately show ?thesis using assms by (simp add: dup2_ex_def is_open_def dup_state_def)
qed

section \<open>The programs\<close>

text \<open>
  \<open>part2\<close>, whenever two descriptors are free and the file has room, whatever stands in
  place of the missing argument of \<^verbatim>\<open>fcntl\<close>: it ends with 0, the three messages stand one
  after the other at the beginning of the file, and all descriptors are as before.
\<close>

theorem part2_messages:
  assumes "lowest_fd 0 s = Some a" "0 \<le> low" "low < int (fd_limit s)"
    and "lowest_fd (nat low) (s\<lparr>fds := (fds s)(a \<mapsto> length (descs s))\<rparr>) = Some b"
    and "102 \<le> size_limit s"
  shows "\<exists>s'. part2_main low s = (0, s') \<and> fds s' = fds s
    \<and> content s' = Some (put_bytes 0 (msg ''Hello from original file descriptor.'' @ msg ''Hello from dup file descriptor.''
        @ msg ''Hello from dup2 file descriptor.'') (old_bytes s))"
proof -
  let ?m1 = "msg ''Hello from original file descriptor.''" and ?m2 = "msg ''Hello from dup file descriptor.''"
  let ?m3 = "msg ''Hello from dup2 file descriptor.''"
  have len: "length ?m1 = 37" "length ?m2 = 32" "length ?m3 = 33" "?m1 \<noteq> []" "?m2 \<noteq> []" "?m3 \<noteq> []"
    by (simp_all add: msg_def)
  note od = open_dup [OF assms(1,4,2,3)]
  obtain s1 where s1: "sys_open s = (int a, s1)" "dup_ex low (int a) s1 = (int b, dup_state a b 0 (old_bytes s) s)"
    using od(1) by blast
  let ?c1 = "put_bytes 0 ?m1 (old_bytes s)" and ?c2 = "put_bytes 37 ?m2 (put_bytes 0 ?m1 (old_bytes s))"
  let ?c3 = "put_bytes 69 ?m3 ?c2"
  have w: "sys_write (int a) ?m1 (dup_state a b 0 (old_bytes s) s) = (37, dup_state a b 37 ?c1 s)"
    "sys_write (int b) ?m2 (dup_state a b 37 ?c1 s) = (32, dup_state a b 69 ?c2 s)"
    "sys_write (int b) ?m3 (dup_state a b 69 ?c2 s) = (33, dup_state a b 102 ?c3 s)"
    using dup_state_write [of a a b ?m1 0 s] dup_state_write [of b a b ?m2 37 s] dup_state_write [of b a b ?m3 69 s] len assms(5)
    by simp_all
  obtain s2 where s2: "close_fd (int a) (dup_state a b 102 ?c3 s) = (0, s2)"
      "close_fd (int b) s2 = (0, s\<lparr>descs := descs s @ [\<lparr>pos = 102, o_append = False\<rparr>], content := Some ?c3\<rparr>)"
    using dup_state_close [OF od(2-4)] by blast
  have "part2_main low s = (0, s\<lparr>descs := descs s @ [\<lparr>pos = 102, o_append = False\<rparr>], content := Some ?c3\<rparr>)"
    by (simp add: part2_main_def s1 w dup_state_dup2 [OF od(2,5)] s2)
  moreover have "?c3 = put_bytes 0 (?m1 @ ?m2 @ ?m3) (old_bytes s)"
    using put_bytes_seq [of 0 ?m1 ?m2 "old_bytes s"] put_bytes_seq [of 0 "?m1 @ ?m2" ?m3 "old_bytes s"] len by simp
  ultimately show ?thesis by simp
qed

text \<open>
  \<open>part3\<close> under the same conditions: the two messages stand at the beginning of the file,
  and the program prints the same offset, the length of both, for the descriptor and for
  its duplicate.
\<close>

theorem part3_shared_offset:
  assumes "lowest_fd 0 s = Some a" "0 \<le> low" "low < int (fd_limit s)"
    and "lowest_fd (nat low) (s\<lparr>fds := (fds s)(a \<mapsto> length (descs s))\<rparr>) = Some b"
    and "76 \<le> size_limit s"
  shows "\<exists>s'. part3_main low s = (0, Some (76, 76), s') \<and> fds s' = fds s
    \<and> content s' = Some (put_bytes 0 (msg ''Hello from original file descriptor.'' @ msg ''Hello from duplicated file descriptor.'') (old_bytes s))"
proof -
  let ?m1 = "msg ''Hello from original file descriptor.''" and ?m2 = "msg ''Hello from duplicated file descriptor.''"
  have len: "length ?m1 = 37" "length ?m2 = 39" "?m1 \<noteq> []" "?m2 \<noteq> []" by (simp_all add: msg_def)
  note od = open_dup [OF assms(1,4,2,3)]
  obtain s1 where s1: "sys_open s = (int a, s1)" "dup_ex low (int a) s1 = (int b, dup_state a b 0 (old_bytes s) s)"
    using od(1) by blast
  let ?c1 = "put_bytes 0 ?m1 (old_bytes s)"
  let ?c2 = "put_bytes 37 ?m2 ?c1"
  have w: "sys_write (int a) ?m1 (dup_state a b 0 (old_bytes s) s) = (37, dup_state a b 37 ?c1 s)"
    "sys_write (int b) ?m2 (dup_state a b 37 ?c1 s) = (39, dup_state a b 76 ?c2 s)"
    using dup_state_write [of a a b ?m1 0 s] dup_state_write [of b a b ?m2 37 s] len assms(5) by simp_all
  have tell: "sys_tell (int a) (dup_state a b 76 ?c2 s) = 76" "sys_tell (int b) (dup_state a b 76 ?c2 s) = 76"
    by (simp_all add: sys_tell_def is_open_def dup_state_def)
  obtain s2 where s2: "close_fd (int a) (dup_state a b 76 ?c2 s) = (0, s2)"
      "close_fd (int b) s2 = (0, s\<lparr>descs := descs s @ [\<lparr>pos = 76, o_append = False\<rparr>], content := Some ?c2\<rparr>)"
    using dup_state_close [OF od(2-4)] by blast
  have "part3_main low s = (0, Some (76, 76), s\<lparr>descs := descs s @ [\<lparr>pos = 76, o_append = False\<rparr>], content := Some ?c2\<rparr>)"
    by (simp add: part3_main_def s1 w tell s2 Let_def)
  moreover have "?c2 = put_bytes 0 (?m1 @ ?m2) (old_bytes s)"
    using put_bytes_seq [of 0 ?m1 ?m2 "old_bytes s"] len by simp
  ultimately show ?thesis by simp
qed

section \<open>Witnesses\<close>

definition a_process :: proc_state where
  "a_process = \<lparr>fds = [0 \<mapsto> 0, 1 \<mapsto> 1, 2 \<mapsto> 2], descs = replicate 3 \<lparr>pos = 0, o_append = False\<rparr>,
     content = None, fd_limit = 8, size_limit = 1000, errno = None\<rparr>"

lemma dup2_posix_witness:
  "fst (dup2_ex 1 2 a_process) = 2 \<and> fst (dup2_ex 1 9 a_process) = -1 \<and> errno (snd (dup2_ex 1 9 a_process)) = Some EINVAL"
proof -
  have "wf_fds a_process" by (auto simp: wf_fds_def a_process_def split: if_splits)
  then show ?thesis using dup2_posix [of a_process 1 2] dup2_posix [of a_process 1 9]
    by (simp add: posix_dup2_def is_open_def a_process_def fails_def)
qed

lemma a_process_free:
  "lowest_fd 0 a_process = Some 3" "lowest_fd (nat 0) (a_process\<lparr>fds := (fds a_process)(3 \<mapsto> length (descs a_process))\<rparr>) = Some 4"
  by (simp_all add: lowest_fd_def a_process_def upt_conv_Cons)

lemma part2_messages_witness: "fst (part2_main 0 a_process) = 0"
  using part2_messages [OF a_process_free(1) _ _ a_process_free(2)] by (auto simp: a_process_def)

lemma part3_shared_offset_witness: "fst (snd (part3_main 0 a_process)) = Some (76, 76)"
  using part3_shared_offset [OF a_process_free(1) _ _ a_process_free(2)] by (auto simp: a_process_def)

end
