(* ===== verification/Bibo.thy ===== *)
theory Bibo
  imports CText
begin

text \<open>
  The servers of \<^verbatim>\<open>hw3\<close> and \<^verbatim>\<open>hw4\<close> and their client (\<open>server.c\<close>, \<open>client.c\<close>, \<open>fifo.h\<close>).
  A client announces itself on one FIFO for all; the server of \<^verbatim>\<open>hw3\<close> forks a child for it,
  which answers its requests; the server of \<^verbatim>\<open>hw4\<close> has threads instead.

  A request is the text of its \<^verbatim>\<open>data\<close>. The \<^verbatim>\<open>data\<close> of a response is the whole array of
  characters, which the child keeps from one request to the next. The FIFO is its content in
  words of four bytes.
\<close>

section \<open>Responses\<close>

definition DATA_LEN :: nat where "DATA_LEN = 1024"
definition BIBO_BUFF :: nat where "BIBO_BUFF = 256"
definition BIBO_TOKENS :: nat where "BIBO_TOKENS = 100"

text \<open>A text with its NUL at a position of the array.\<close>

definition put_text :: "nat \<Rightarrow> string \<Rightarrow> string \<Rightarrow> string cres" where
  "put_text n d data =
     (if length data < n + length d + 1 then Inl OutOfBounds
      else Inr (take n data @ d @ [CHR 0x00] @ drop (n + length d + 1) data))"

text \<open>\<^verbatim>\<open>sprintf\<close> with a text as its format: a conversion would read an argument that is not there.\<close>

fun has_conversion :: "string \<Rightarrow> bool" where
  "has_conversion [] = False"
| "has_conversion (c # s) = (if c \<noteq> CHR ''%'' then has_conversion s
     else case s of [] \<Rightarrow> True | d # s' \<Rightarrow> d \<noteq> CHR ''%'' \<or> has_conversion s')"

text \<open>\<open>list\<close>: the names of the directory, one per line; every \<^verbatim>\<open>snprintf\<close> has 256 bytes.\<close>

fun list_names :: "string list \<Rightarrow> nat \<Rightarrow> string \<Rightarrow> string cres" where
  "list_names [] bytes_written data = Inr data"
| "list_names (d_name # names) bytes_written data =
     (if d_name \<noteq> ''.'' \<and> d_name \<noteq> ''..''
      then cbind (put_text bytes_written (take (BIBO_BUFF - 1) (d_name @ [newline])) data)
             (list_names names (bytes_written + length (d_name @ [newline])))
      else list_names names bytes_written data)"

definition list_dir :: "(string \<Rightarrow> string list option) \<Rightarrow> string \<times> string \<Rightarrow> (string \<times> string) cres" where
  "list_dir opendir s = (case s of (data, dirname) \<Rightarrow>
     let dirname = dirname @ ''/'' in
     case opendir dirname of
       None \<Rightarrow> Inl NullDeref
     | Some names \<Rightarrow> cbind (list_names names 0 data) (\<lambda>data. Inr (data, dirname)))"

definition bibo_help :: string where
  "bibo_help = [CHR 0x09] @ ''Available comments are:'' @ [newline]
     @ ''help, list, readF, writeT, upload, download, quit, killServer''"

definition help_readF :: string where
  "help_readF = ''readF <file <line#>'' @ [newline, CHR 0x09] @ ''display the #th line of the <file>, returns with an''
     @ [newline, CHR 0x09] @ '' error if <file> does not exists''"

definition help_writeT :: string where
  "help_writeT = ''writeT <file <line#> <string>'' @ [newline, CHR 0x09] @ ''dequest to write the content of ''
     @ [CHR 0xE2, CHR 0x80, CHR 0x9C] @ ''string'' @ [CHR 0xE2, CHR 0x80, CHR 0x9D]
     @ '' to the #th line the <file>, if the line # is not given'' @ [newline, CHR 0x09]
     @ '' writes to the end of file. If the file does not exists in Servers directory creates and edits the''
     @ ''file at the same time''"

text \<open>\<^verbatim>\<open>snprintf(resp->data, BUFF_SIZE, "%s\n", text)\<close>.\<close>

definition put_help :: "string \<Rightarrow> string \<Rightarrow> string cres" where
  "put_help text data = put_text 0 (take (BIBO_BUFF - 1) (text @ [newline])) data"

text \<open>The three comparisons with one word are independent, and so are the two with two.\<close>

definition handleRequests :: "(string \<Rightarrow> string list option) \<Rightarrow> string \<Rightarrow> string \<times> string \<Rightarrow> (string \<times> string) cres" where
  "handleRequests opendir req s =
     (if BIBO_BUFF \<le> length req then Inl OutOfBounds
      else if has_conversion req then Inl Uninitialised
      else let i = length (tokens (CHR '' '') req) in
      if BIBO_TOKENS \<le> i then Inl OutOfBounds
      else if i = 1 then
        cbind (if c_strncmp0 req ''quit'' 5 then cbind (put_text 0 ''quit'' (fst s)) (\<lambda>data. Inr (data, snd s)) else Inr s) (\<lambda>s.
        cbind (if c_strncmp0 req ''list'' 5 then list_dir opendir s else Inr s) (\<lambda>s.
        if c_strncmp0 req ''help'' 5 then cbind (put_help bibo_help (fst s)) (\<lambda>data. Inr (data, snd s)) else Inr s))
      else if i = 2 then
        cbind (if c_strncmp0 req ''help readF'' 11 then cbind (put_help help_readF (fst s)) (\<lambda>data. Inr (data, snd s)) else Inr s) (\<lambda>s.
        if c_strncmp0 req ''help writeT'' 11 then cbind (put_help help_writeT (fst s)) (\<lambda>data. Inr (data, snd s)) else Inr s)
      else Inr s)"

text \<open>The loop of a child: every request gets the array as the response.\<close>

fun serve_client :: "(string \<Rightarrow> string list option) \<Rightarrow> string list \<Rightarrow> string \<times> string \<Rightarrow> (string list \<times> string \<times> string) cres" where
  "serve_client opendir [] s = Inr ([], s)"
| "serve_client opendir (req # reqs) s =
     cbind (handleRequests opendir req s) (\<lambda>s.
     cbind (serve_client opendir reqs s) (\<lambda>(responses, s'). Inr (fst s # responses, s')))"

section \<open>The client\<close>

text \<open>
  The commands that a text on the standard input makes: \<^verbatim>\<open>fgets\<close> takes at most 255 characters,
  and the newline is cut off.
\<close>

function client_commands :: "string \<Rightarrow> string list" where
  "client_commands [] = []"
| "client_commands (c # s) =
     (let line = takeWhile (\<lambda>x. x \<noteq> newline) (take (BIBO_BUFF - 1) (c # s))
      in line # client_commands (drop (if length line < BIBO_BUFF - 1 then length line + 1 else length line) (c # s)))"
  by pat_completeness auto

termination client_commands
  by (relation "measure length") (auto simp: BIBO_BUFF_def Let_def)

text \<open>What the client prints: \<^verbatim>\<open>sprintf\<close> into 256 bytes with the response as its format.\<close>

definition client_show :: "string \<Rightarrow> string cres" where
  "client_show data =
     (if CHR 0x00 \<notin> set data \<or> BIBO_BUFF \<le> length (c_string data) then Inl OutOfBounds
      else if has_conversion (c_string data) then Inl Uninitialised
      else Inr (c_string data))"

text \<open>The name of the process and of the server it wants, and 255 words that are not set.\<close>

definition announce :: "int \<Rightarrow> int \<Rightarrow> int list \<Rightarrow> int list" where
  "announce pid inp_pid data = [pid, inp_pid] @ data"

definition REQUEST_WORDS :: nat where "REQUEST_WORDS = 257"
definition MAIN_WORDS :: nat where "MAIN_WORDS = 258"

section \<open>Accepting clients\<close>

datatype server_mode = Accepting | Waiting | Spinning | Ended

record bibo_server =
  fifo :: "int list"
  req_pid :: int
  req_inp_pid :: int
  clientNumber :: int
  oldPid :: int
  children :: "int list"
  living :: nat
  zombies :: nat
  s_mode :: server_mode

text \<open>\<^verbatim>\<open>read\<close> of a \<^verbatim>\<open>struct requestMainFifo\<close>: as many words as there are, 258 at most.\<close>

definition read_main :: "bibo_server \<Rightarrow> bibo_server" where
  "read_main s = (let ws = take MAIN_WORDS (fifo s) in
     s\<lparr>fifo := drop MAIN_WORDS (fifo s),
       req_pid := (if 0 < length ws then ws ! 0 else req_pid s),
       req_inp_pid := (if 1 < length ws then ws ! 1 else req_inp_pid s)\<rparr>)"

datatype bibo_event = Announce "int list" | Turn bool | ChildEnds

text \<open>
  The main loop of \<^verbatim>\<open>hw3\<close>. The turn knows whether \<^verbatim>\<open>fork\<close> succeeds. A child ends when it
  cannot open the FIFOs of its client, or by a signal; \<^verbatim>\<open>wait\<close> returns at once if there is an
  ended child that nobody has waited for, or no child at all.
\<close>

definition sys_wait :: "bibo_server \<Rightarrow> bibo_server" where
  "sys_wait s = (if 0 < zombies s then s\<lparr>zombies := zombies s - 1\<rparr>
     else if living s = 0 then s else s\<lparr>s_mode := Waiting\<rparr>)"

definition bibo_turn :: "int \<Rightarrow> int \<Rightarrow> bool \<Rightarrow> bibo_server \<Rightarrow> bibo_server option" where
  "bibo_turn self max_clients forked s =
     (if s_mode s \<noteq> Accepting \<or> fifo s = [] then None
      else let s = read_main s;
               s = (if clientNumber s = 0 then s\<lparr>oldPid := 0\<rparr> else s)
        in Some (if clientNumber s \<le> max_clients then
             if oldPid s \<noteq> req_pid s \<and> req_inp_pid s = self then
               let s = s\<lparr>oldPid := req_pid s, clientNumber := clientNumber s + 1\<rparr>
               in if \<not> forked then s\<lparr>s_mode := Ended\<rparr>
                  else let s = s\<lparr>children := children s @ [req_pid s], living := living s + 1\<rparr>
                    in if clientNumber s > max_clients then sys_wait s else s
             else s
           else sys_wait s))"

definition bibo_step :: "int \<Rightarrow> int \<Rightarrow> bibo_event \<Rightarrow> bibo_server \<Rightarrow> bibo_server option" where
  "bibo_step self max_clients e s = (case e of
       Announce ws \<Rightarrow> if length ws = REQUEST_WORDS then Some (s\<lparr>fifo := fifo s @ ws\<rparr>) else None
     | Turn forked \<Rightarrow> bibo_turn self max_clients forked s
     | ChildEnds \<Rightarrow> if living s = 0 then None
         else let s = s\<lparr>living := living s - 1\<rparr>
           in Some (if s_mode s = Waiting then s\<lparr>s_mode := Accepting\<rparr> else s\<lparr>zombies := zombies s + 1\<rparr>))"

definition bibo_start :: "int \<Rightarrow> int \<Rightarrow> int \<Rightarrow> bibo_server" where
  "bibo_start self junk1 junk2 = \<lparr>fifo = [], req_pid = self, req_inp_pid = junk1, clientNumber = 0, oldPid = junk2,
     children = [], living = 0, zombies = 0, s_mode = Accepting\<rparr>"

text \<open>The main loop of \<^verbatim>\<open>hw4\<close>: an empty loop takes the place of the child.\<close>

definition bibo4_turn :: "int \<Rightarrow> int \<Rightarrow> bibo_server \<Rightarrow> bibo_server option" where
  "bibo4_turn self max_clients s =
     (if s_mode s = Spinning then Some s
      else if s_mode s \<noteq> Accepting \<or> fifo s = [] then None
      else let s = read_main s;
               s = (if clientNumber s = 0 then s\<lparr>oldPid := 0\<rparr> else s)
        in Some (if clientNumber s \<le> max_clients \<and> oldPid s \<noteq> req_pid s \<and> req_inp_pid s = self
                 then s\<lparr>oldPid := req_pid s, clientNumber := clientNumber s + 1, s_mode := Spinning\<rparr>
                 else s))"

definition bibo4_step :: "int \<Rightarrow> int \<Rightarrow> bibo_event \<Rightarrow> bibo_server \<Rightarrow> bibo_server option" where
  "bibo4_step self max_clients e s = (case e of
       Announce ws \<Rightarrow> if length ws = REQUEST_WORDS then Some (s\<lparr>fifo := fifo s @ ws\<rparr>) else None
     | Turn forked \<Rightarrow> bibo4_turn self max_clients s
     | ChildEnds \<Rightarrow> None)"

end
