(* ===== verification/BiboProps.thy ===== *)
theory BiboProps
  imports Bibo
begin

text \<open>
  Properties of the servers of \<^verbatim>\<open>hw3\<close> and \<^verbatim>\<open>hw4\<close>: the replies of a session, the space for a
  listing, and which clients are served.
\<close>

section \<open>Replies\<close>

definition visible :: "string list \<Rightarrow> string list" where
  "visible names = filter (\<lambda>n. n \<noteq> ''.'' \<and> n \<noteq> ''..'') names"

definition listing :: "string list \<Rightarrow> string" where
  "listing names = concat (map (\<lambda>n. n @ [newline]) (visible names))"

text \<open>The reply to a request, after the last one.\<close>

definition bibo_reply :: "string list \<Rightarrow> string \<Rightarrow> string \<Rightarrow> string" where
  "bibo_reply names prev r =
     (if r = ''quit'' then ''quit''
      else if r = ''list'' then (if visible names = [] then prev else listing names)
      else if r = ''help'' then bibo_help @ [newline]
      else if r = ''help readF'' then help_readF @ [newline]
      else if take 11 r = ''help writeT'' \<and> length (tokens (CHR '' '') r) = 2 then help_writeT @ [newline]
      else prev)"

fun replies :: "string list \<Rightarrow> string \<Rightarrow> string list \<Rightarrow> string list" where
  "replies names prev [] = []"
| "replies names prev (r # rs) = bibo_reply names prev r # replies names (bibo_reply names prev r) rs"

lemma strncmp_whole: "m = Suc (length b) \<Longrightarrow> c_strncmp0 a b m \<longleftrightarrow> a = b"
proof
  assume "m = Suc (length b)" "c_strncmp0 a b m"
  then have t: "take (Suc (length b)) a = b" by (simp add: c_strncmp0_def)
  then have "length (take (Suc (length b)) a) = length b" by simp
  then have "length a \<le> length b" by simp
  then show "a = b" using t by simp
qed (simp add: c_strncmp0_def)

lemma strncmp_words:
  "c_strncmp0 r ''quit'' 5 \<longleftrightarrow> r = ''quit''" "c_strncmp0 r ''list'' 5 \<longleftrightarrow> r = ''list''"
  "c_strncmp0 r ''help'' 5 \<longleftrightarrow> r = ''help''" "c_strncmp0 r ''help readF'' 11 \<longleftrightarrow> r = ''help readF''"
  "c_strncmp0 r ''help writeT'' 11 \<longleftrightarrow> take 11 r = ''help writeT''"
  by (rule strncmp_whole; simp)+ (simp add: c_strncmp0_def)

lemma word_counts:
  "length (tokens (CHR '' '') ''quit'') = 1" "length (tokens (CHR '' '') ''list'') = 1"
  "length (tokens (CHR '' '') ''help'') = 1" "length (tokens (CHR '' '') ''help readF'') = 2"
  by (simp_all add: tokens_def)

lemma c_string_put: "c_text d \<Longrightarrow> c_string (d @ CHR 0x00 # rest) = d"
  unfolding c_string_def c_text_def by (subst takeWhile_append2) auto

lemma put_text_ok:
  "n + length d < length data \<Longrightarrow> \<exists>data'. put_text n d data = Inr data' \<and> length data' = length data
     \<and> take (n + length d) data' = take n data @ d \<and> (c_text (take n data @ d) \<longrightarrow> c_string data' = take n data @ d)"
  using c_string_put [of "take n data @ d" "drop (n + length d + 1) data"]
  by (simp add: put_text_def min_def)

lemma listing_Cons: "listing (n # names) = (if n \<noteq> ''.'' \<and> n \<noteq> ''..'' then n @ [newline] else []) @ listing names"
  by (simp add: listing_def visible_def)

text \<open>Names as a file system can give them.\<close>

definition names_ok :: "string list \<Rightarrow> bool" where
  "names_ok names \<longleftrightarrow> (\<forall>n\<in>set names. c_text n \<and> length n < 255)"

lemma list_names_ok:
  "names_ok names \<Longrightarrow> n + length (listing names) < length data \<Longrightarrow> c_text (take n data) \<Longrightarrow>
   \<exists>data'. list_names names n data = Inr data' \<and> length data' = length data
     \<and> (if visible names = [] then data' = data else c_string data' = take n data @ listing names)"
proof (induction names arbitrary: n data)
  case Nil
  then show ?case by (simp add: visible_def)
next
  case (Cons d names)
  have names: "names_ok names" and d: "c_text d" "length d < 255" using Cons.prems(1) by (auto simp: names_ok_def)
  show ?case
  proof (cases "d \<noteq> ''.'' \<and> d \<noteq> ''..''")
    case False
    then have "listing (d # names) = listing names" "visible (d # names) = visible names"
        "list_names (d # names) n data = list_names names n data"
      by (auto simp: listing_def visible_def)
    then show ?thesis using Cons.IH [OF names] Cons.prems(2,3) by metis
  next
    case True
    let ?l = "d @ [newline]"
    have fit: "n + length ?l + length (listing names) < length data" using Cons.prems(2) True by (simp add: listing_Cons)
    have t: "c_text (take n data @ ?l)" using Cons.prems(3) d(1) by (auto simp: c_text_def newline_def)
    obtain data1 where d1: "put_text n ?l data = Inr data1" "length data1 = length data"
        "take (n + length ?l) data1 = take n data @ ?l" "c_string data1 = take n data @ ?l"
      using put_text_ok [of n ?l data] fit t by auto
    have step: "list_names (d # names) n data = list_names names (n + length ?l) data1"
      using True d(2) d1(1) by (simp add: BIBO_BUFF_def)
    have "c_text (take (n + length ?l) data1)" using t d1(3) by simp
    from Cons.IH [OF names _ this] fit d1(2) obtain data' where
      "list_names names (n + length ?l) data1 = Inr data'" "length data' = length data1"
      "if visible names = [] then data' = data1 else c_string data' = take (n + length ?l) data1 @ listing names" by auto
    moreover have "visible (d # names) \<noteq> []" using True by (simp add: visible_def)
    moreover have "visible names = [] \<Longrightarrow> listing names = []" by (simp add: listing_def)
    ultimately show ?thesis using step d1 True by (auto simp: listing_Cons split: if_splits)
  qed
qed

lemma list_names_overflow:
  "names_ok names \<Longrightarrow> length data \<le> n + length (listing names) \<Longrightarrow> n < length data \<Longrightarrow>
   list_names names n data = Inl OutOfBounds"
proof (induction names arbitrary: n data)
  case Nil
  then show ?case by (simp add: listing_def visible_def)
next
  case (Cons d names)
  have names: "names_ok names" and d: "length d < 255" using Cons.prems(1) by (auto simp: names_ok_def)
  show ?case
  proof (cases "d \<noteq> ''.'' \<and> d \<noteq> ''..''")
    case False
    then have "listing (d # names) = listing names" "list_names (d # names) n data = list_names names n data"
      by (auto simp: listing_def visible_def)
    then show ?thesis using Cons.IH [OF names] Cons.prems(2,3) by simp
  next
    case True
    let ?l = "d @ [newline]"
    have more: "length data \<le> n + length ?l + length (listing names)" using Cons.prems(2) True by (simp add: listing_Cons)
    show ?thesis
    proof (cases "n + length ?l < length data")
      case False
      then show ?thesis using True d by (simp add: BIBO_BUFF_def put_text_def)
    next
      case fit: True
      obtain data1 where d1: "put_text n ?l data = Inr data1" "length data1 = length data"
        using put_text_ok [OF fit] by auto
      then show ?thesis using Cons.IH [OF names, of data1 "n + length ?l"] more fit True d by (simp add: BIBO_BUFF_def)
    qed
  qed
qed

text \<open>Opening the directory of the server, with the slashes that were appended to its name.\<close>

definition dir_has :: "(string \<Rightarrow> string list option) \<Rightarrow> string \<Rightarrow> string list \<Rightarrow> bool" where
  "dir_has opendir dirname names \<longleftrightarrow> (\<forall>k. opendir (dirname @ replicate (Suc k) (CHR ''/'')) = Some names)"

lemma dir_has_next: "dir_has opendir dirname names \<Longrightarrow> dir_has opendir (dirname @ ''/'') names \<and> opendir (dirname @ ''/'') = Some names"
proof -
  assume d: "dir_has opendir dirname names"
  have "opendir (dirname @ replicate (Suc (Suc k)) (CHR ''/'')) = Some names" for k using d by (simp only: dir_has_def)
  then have "dir_has opendir (dirname @ ''/'') names" by (simp add: dir_has_def)
  moreover have "opendir (dirname @ replicate (Suc 0) (CHR ''/'')) = Some names" using d by (simp only: dir_has_def)
  ultimately show ?thesis by simp
qed

lemma bibo_helps:
  "c_text (bibo_help @ [newline])" "c_text (help_readF @ [newline])" "c_text (help_writeT @ [newline])"
  "length (bibo_help @ [newline]) < BIBO_BUFF" "length (help_readF @ [newline]) < BIBO_BUFF" "length (help_writeT @ [newline]) < BIBO_BUFF"
  by (simp_all add: bibo_help_def help_readF_def help_writeT_def newline_def BIBO_BUFF_def)

lemma put_help_ok:
  assumes "c_text (t @ [newline])" "length (t @ [newline]) < BIBO_BUFF" "length data = DATA_LEN"
  shows "\<exists>data'. put_help t data = Inr data' \<and> length data' = DATA_LEN \<and> c_string data' = t @ [newline]"
  using put_text_ok [of 0 "t @ [newline]" data] assms by (auto simp: put_help_def BIBO_BUFF_def DATA_LEN_def)

definition bibo_request_ok :: "string \<Rightarrow> bool" where
  "bibo_request_ok r \<longleftrightarrow> length r < BIBO_BUFF \<and> \<not> has_conversion r \<and> length (tokens (CHR '' '') r) < BIBO_TOKENS"

lemma handleRequests_ok:
  assumes "bibo_request_ok r" "names_ok names" "length (listing names) < DATA_LEN" "dir_has opendir dirname names" "length data = DATA_LEN"
  shows "\<exists>data' dirname'. handleRequests opendir r (data, dirname) = Inr (data', dirname') \<and> dir_has opendir dirname' names
    \<and> length data' = DATA_LEN \<and> c_string data' = bibo_reply names (c_string data) r"
proof -
  let ?i = "length (tokens (CHR '' '') r)"
  have run: "handleRequests opendir r (data, dirname) = (if ?i = 1 then
        cbind (if r = ''quit'' then cbind (put_text 0 ''quit'' data) (\<lambda>data. Inr (data, dirname)) else Inr (data, dirname)) (\<lambda>s.
        cbind (if r = ''list'' then list_dir opendir s else Inr s) (\<lambda>s.
        if r = ''help'' then cbind (put_help bibo_help (fst s)) (\<lambda>data. Inr (data, snd s)) else Inr s))
      else if ?i = 2 then
        cbind (if r = ''help readF'' then cbind (put_help help_readF data) (\<lambda>data. Inr (data, dirname)) else Inr (data, dirname)) (\<lambda>s.
        if take 11 r = ''help writeT'' then cbind (put_help help_writeT (fst s)) (\<lambda>data. Inr (data, snd s)) else Inr s)
      else Inr (data, dirname))"
    using assms(1) by (simp add: handleRequests_def bibo_request_ok_def strncmp_words Let_def cong: if_cong)
  consider (quit) "r = ''quit''" | (list) "r = ''list''" | (help_all) "r = ''help''" | (readF) "r = ''help readF''"
    | (writeT) "take 11 r = ''help writeT''" "?i = 2" "r \<noteq> ''help readF''" | (other) "r \<notin> {''quit'', ''list'', ''help'', ''help readF''}" "\<not> (take 11 r = ''help writeT'' \<and> ?i = 2)"
    by auto
  then show ?thesis
  proof cases
    case quit
    obtain d where "put_text 0 ''quit'' data = Inr d" "length d = DATA_LEN" "c_string d = ''quit''"
      using put_text_ok [of 0 "''quit''" data] assms(5) by (auto simp: DATA_LEN_def)
    then show ?thesis using run quit word_counts assms(4) by (simp add: bibo_reply_def)
  next
    case list
    obtain d where "list_names names 0 data = Inr d" "length d = DATA_LEN"
        "if visible names = [] then d = data else c_string d = listing names"
      using list_names_ok [OF assms(2), of 0 data] assms(3,5) by auto
    then show ?thesis using run list word_counts dir_has_next [OF assms(4)] by (auto simp: bibo_reply_def list_dir_def Let_def)
  next
    case help_all
    obtain d where "put_help bibo_help data = Inr d" "length d = DATA_LEN" "c_string d = bibo_help @ [newline]"
      using put_help_ok [OF bibo_helps(1,4) assms(5)] by auto
    then show ?thesis using run help_all word_counts assms(4) by (simp add: bibo_reply_def)
  next
    case readF
    obtain d where "put_help help_readF data = Inr d" "length d = DATA_LEN" "c_string d = help_readF @ [newline]"
      using put_help_ok [OF bibo_helps(2,5) assms(5)] by auto
    then show ?thesis using run readF word_counts assms(4) by (simp add: bibo_reply_def)
  next
    case writeT
    obtain d where "put_help help_writeT data = Inr d" "length d = DATA_LEN" "c_string d = help_writeT @ [newline]"
      using put_help_ok [OF bibo_helps(3,6) assms(5)] by auto
    moreover have "r \<notin> {''quit'', ''list'', ''help''}" using writeT(1) by auto
    ultimately show ?thesis using run writeT assms(4) by (simp add: bibo_reply_def)
  next
    case other
    then have "handleRequests opendir r (data, dirname) = Inr (data, dirname)" using run by auto
    then show ?thesis using other assms(4,5) by (auto simp: bibo_reply_def)
  qed
qed

lemma serve_client_ok:
  assumes "names_ok names" "length (listing names) < DATA_LEN"
  shows "\<forall>r\<in>set reqs. bibo_request_ok r \<Longrightarrow> dir_has opendir dirname names \<Longrightarrow> length data = DATA_LEN \<Longrightarrow>
    \<exists>ds s. serve_client opendir reqs (data, dirname) = Inr (ds, s) \<and> map c_string ds = replies names (c_string data) reqs
      \<and> (\<forall>d\<in>set ds. length d = DATA_LEN)"
proof (induction reqs arbitrary: data dirname)
  case (Cons r reqs)
  obtain d p where d: "handleRequests opendir r (data, dirname) = Inr (d, p)" "dir_has opendir p names" "length d = DATA_LEN"
      "c_string d = bibo_reply names (c_string data) r"
    using handleRequests_ok [OF _ assms Cons.prems(2,3)] Cons.prems(1) by (meson list.set_intros(1))
  with Cons.IH [OF _ d(2,3)] Cons.prems(1) obtain ds s where
    "serve_client opendir reqs (d, p) = Inr (ds, s)" "map c_string ds = replies names (c_string d) reqs"
    "\<forall>d\<in>set ds. length d = DATA_LEN" by auto
  then show ?case using d by auto
qed simp

lemma client_commands_short: "r \<in> set (client_commands s) \<Longrightarrow> length r < BIBO_BUFF"
proof (induction s rule: client_commands.induct)
  case (2 c s)
  have "length (takeWhile P (take (BIBO_BUFF - 1) xs)) < BIBO_BUFF" for P and xs :: string
    using length_takeWhile_le [of P "take (BIBO_BUFF - 1) xs"] by (simp add: BIBO_BUFF_def)
  then show ?case using 2 by (auto simp: Let_def)
qed simp

text \<open>What the client makes of a reply: it has 256 bytes for it, and takes it as a format.\<close>

definition client_line :: "string \<Rightarrow> string cres" where
  "client_line r = (if BIBO_BUFF \<le> length r then Inl OutOfBounds else if has_conversion r then Inl Uninitialised else Inr r)"

lemma client_show_reply:
  assumes "length (c_string d) < length d"
  shows "client_show d = client_line (c_string d)"
proof -
  have "CHR 0x00 \<in> set d"
  proof (rule ccontr)
    assume "CHR 0x00 \<notin> set d"
    then have "c_string d = d" by (auto simp: c_string_def takeWhile_eq_all_conv)
    then show False using assms by simp
  qed
  then show ?thesis by (simp add: client_show_def client_line_def)
qed

lemma replies_short:
  assumes "length (listing names) < DATA_LEN"
  shows "length prev < DATA_LEN \<Longrightarrow> x \<in> set (replies names prev rs) \<Longrightarrow> length x < DATA_LEN"
proof (induction rs arbitrary: prev)
  case (Cons r rs)
  have "length (bibo_reply names prev r) < DATA_LEN"
    using bibo_helps assms Cons.prems(1) by (simp add: bibo_reply_def BIBO_BUFF_def DATA_LEN_def)
  then show ?case using Cons by auto
qed simp

text \<open>
  A session of \<^verbatim>\<open>hw3\<close>, for every text that the client reads: cut into commands of less
  than 256 characters, each command gets the reply that the table of \<open>bibo_reply\<close> gives, and
  nothing overflows, if no command has a conversion or a hundred words and the listing of the
  directory fits the response. An unknown command, and a listing of an empty directory, get
  the reply to the command before. The client prints exactly these replies, except that one
  of 256 bytes or more (a listing) overflows its buffer and one with a conversion is undefined.
\<close>

theorem bibo_session:
  assumes "\<forall>r\<in>set (client_commands input). \<not> has_conversion r \<and> length (tokens (CHR '' '') r) < BIBO_TOKENS"
    and "dir_has opendir dirname names" "names_ok names" "length (listing names) < DATA_LEN"
    and "length data = DATA_LEN" "length (c_string data) < DATA_LEN"
  shows "\<exists>ds s. serve_client opendir (client_commands input) (data, dirname) = Inr (ds, s)
    \<and> map c_string ds = replies names (c_string data) (client_commands input)
    \<and> map client_show ds = map client_line (replies names (c_string data) (client_commands input))"
proof -
  have "\<forall>r\<in>set (client_commands input). bibo_request_ok r"
    using assms(1) client_commands_short by (simp add: bibo_request_ok_def)
  then obtain ds s where ds: "serve_client opendir (client_commands input) (data, dirname) = Inr (ds, s)"
      "map c_string ds = replies names (c_string data) (client_commands input)" "\<forall>d\<in>set ds. length d = DATA_LEN"
    using serve_client_ok [OF assms(3,4) _ assms(2,5)] by metis
  have "client_show d = client_line (c_string d)" if "d \<in> set ds" for d
  proof (rule client_show_reply)
    have "c_string d \<in> set (replies names (c_string data) (client_commands input))" using that ds(2) by (metis imageI list.set_map)
    then show "length (c_string d) < length d" using replies_short [OF assms(4,6)] that ds(3) by simp
  qed
  then have "map client_show ds = map client_line (map c_string ds)" by simp
  then show ?thesis using ds by auto
qed

text \<open>
  The request \<^verbatim>\<open>list\<close> runs over the end of the response exactly when the names of the
  directory, with their newlines, take 1024 bytes or more.
\<close>

theorem bibo_list_bounds:
  assumes "dir_has opendir dirname names" "names_ok names" "length data = DATA_LEN"
  shows "handleRequests opendir ''list'' (data, dirname) = Inl OutOfBounds \<longleftrightarrow> DATA_LEN \<le> length (listing names)"
proof -
  have ok: "bibo_request_ok ''list''" by (simp add: bibo_request_ok_def BIBO_BUFF_def BIBO_TOKENS_def word_counts)
  then have run: "handleRequests opendir ''list'' (data, dirname) = list_dir opendir (data, dirname)"
    by (simp add: handleRequests_def bibo_request_ok_def strncmp_words word_counts Let_def cbind_def split: sum.split)
  show ?thesis
  proof (cases "DATA_LEN \<le> length (listing names)")
    case True
    then have "list_names names 0 data = Inl OutOfBounds"
      using list_names_overflow [OF assms(2), of data 0] assms(3) by (simp add: DATA_LEN_def)
    then show ?thesis using run True dir_has_next [OF assms(1)] by (simp add: list_dir_def Let_def)
  next
    case False
    then show ?thesis using handleRequests_ok [OF ok assms(2) _ assms(1,3)] by force
  qed
qed

section \<open>Accepting clients\<close>

definition bibo_inv :: "int \<Rightarrow> bibo_server \<Rightarrow> bool" where
  "bibo_inv max_clients s \<longleftrightarrow> int (length (children s)) \<le> clientNumber s \<and> clientNumber s \<le> max 0 (max_clients + 1)
     \<and> distinct_adj (children s) \<and> (children s \<noteq> [] \<and> s_mode s \<noteq> Ended \<longrightarrow> List.last (children s) = oldPid s)
     \<and> living s + zombies s \<le> length (children s)"

text \<open>The state in which a turn decides, and the state with one more client.\<close>

definition considered :: "bibo_server \<Rightarrow> bibo_server" where
  "considered s = (let s = read_main s in if clientNumber s = 0 then s\<lparr>oldPid := 0\<rparr> else s)"

definition counted_in :: "bibo_server \<Rightarrow> bibo_server" where
  "counted_in s = s\<lparr>oldPid := req_pid s, clientNumber := clientNumber s + 1\<rparr>"

definition served :: "bibo_server \<Rightarrow> bibo_server" where
  "served s = (counted_in s)\<lparr>children := children s @ [req_pid s], living := living s + 1\<rparr>"

definition accepted :: "int \<Rightarrow> int \<Rightarrow> bibo_server \<Rightarrow> bool" where
  "accepted self max_clients s \<longleftrightarrow> clientNumber s \<le> max_clients \<and> oldPid s \<noteq> req_pid s \<and> req_inp_pid s = self"

lemma bibo_turn_eq:
  "bibo_turn self max_clients forked s = (if s_mode s \<noteq> Accepting \<or> fifo s = [] then None
     else let s = considered s in Some (if accepted self max_clients s then
         (if \<not> forked then (counted_in s)\<lparr>s_mode := Ended\<rparr>
          else if clientNumber (served s) > max_clients then sys_wait (served s) else served s)
       else if clientNumber s \<le> max_clients then s else sys_wait s))"
  by (simp add: bibo_turn_def considered_def counted_in_def served_def accepted_def Let_def)

lemma considered_simps [simp]:
  "children (considered s) = children s" "clientNumber (considered s) = clientNumber s" "living (considered s) = living s"
  "zombies (considered s) = zombies s" "s_mode (considered s) = s_mode s" "fifo (considered s) = drop MAIN_WORDS (fifo s)"
  "oldPid (considered s) = (if clientNumber s = 0 then 0 else oldPid s)"
  "req_pid (considered s) = (if fifo s \<noteq> [] then fifo s ! 0 else req_pid s)"
  "req_inp_pid (considered s) = (if 1 < length (fifo s) then fifo s ! 1 else req_inp_pid s)"
  by (simp_all add: considered_def read_main_def Let_def MAIN_WORDS_def)

lemma considered_inv: "bibo_inv max_clients s \<Longrightarrow> bibo_inv max_clients (considered s)"
  by (auto simp: bibo_inv_def)

lemma sys_wait_inv: "bibo_inv max_clients s \<Longrightarrow> s_mode s = Accepting \<Longrightarrow> bibo_inv max_clients (sys_wait s)"
  by (auto simp: bibo_inv_def sys_wait_def)

lemma served_inv:
  "bibo_inv max_clients s \<Longrightarrow> s_mode s = Accepting \<Longrightarrow> accepted self max_clients s \<Longrightarrow> bibo_inv max_clients (served s)"
  by (auto simp: bibo_inv_def served_def counted_in_def accepted_def distinct_adj_append_iff)

lemma bibo_step_inv:
  assumes "bibo_inv max_clients s" "bibo_step self max_clients e s = Some s'"
  shows "bibo_inv max_clients s'"
proof (cases e)
  case (Announce ws)
  then show ?thesis using assms by (auto simp: bibo_step_def bibo_inv_def split: if_splits)
next
  case ChildEnds
  then show ?thesis using assms by (auto simp: bibo_step_def bibo_inv_def Let_def split: if_splits)
next
  case (Turn forked)
  then have m: "s_mode s = Accepting" and s': "s' = (let s = considered s in if accepted self max_clients s then
         (if \<not> forked then (counted_in s)\<lparr>s_mode := Ended\<rparr>
          else if clientNumber (served s) > max_clients then sys_wait (served s) else served s)
       else if clientNumber s \<le> max_clients then s else sys_wait s)"
    using assms(2) by (auto simp: bibo_step_def bibo_turn_eq Let_def split: if_splits)
  let ?c = "considered s"
  have c: "bibo_inv max_clients ?c" "s_mode ?c = Accepting" using considered_inv [OF assms(1)] m by auto
  have "bibo_inv max_clients ((counted_in ?c)\<lparr>s_mode := Ended\<rparr>)" if "accepted self max_clients ?c"
    using c that by (auto simp: bibo_inv_def counted_in_def accepted_def)
  moreover have "bibo_inv max_clients (served ?c)" "s_mode (served ?c) = Accepting" if "accepted self max_clients ?c"
    using served_inv [OF c that] c(2) by (simp_all add: served_def counted_in_def)
  ultimately show ?thesis using c sys_wait_inv unfolding s' by (auto simp: Let_def)
qed

lemma bibo_inv_start: "bibo_inv max_clients (bibo_start self j1 j2)"
  by (simp add: bibo_inv_def bibo_start_def)

text \<open>
  In every schedule, with any traffic on the FIFO and however many children have ended,
  the server of \<^verbatim>\<open>hw3\<close> starts at most \<open>max_clients + 1\<close> children in its whole life: one more than
  its limit, and none for the place of a client that has gone. No two successive children
  are for the same process.
\<close>

theorem bibo_admission:
  "length (children (sched_run (bibo_step self max_clients) es (bibo_start self j1 j2))) \<le> nat (max_clients + 1)
   \<and> distinct_adj (children (sched_run (bibo_step self max_clients) es (bibo_start self j1 j2)))"
proof -
  have "bibo_inv max_clients (sched_run (bibo_step self max_clients) es (bibo_start self j1 j2))"
    by (rule sched_run_invariant [where I = "bibo_inv max_clients" and step = "bibo_step self max_clients"])
      (auto intro: bibo_step_inv bibo_inv_start)
  then show ?thesis by (auto simp: bibo_inv_def)
qed

text \<open>The clients that announce themselves, one after the other.\<close>

definition hello :: "int \<Rightarrow> int \<times> int list \<Rightarrow> int list" where
  "hello self c = announce (fst c) self (snd c)"

definition in_turn :: "int \<Rightarrow> (int \<times> int list) list \<Rightarrow> bibo_event list" where
  "in_turn self cs = concat (map (\<lambda>c. [Announce (hello self c), Turn True]) cs)"

definition at_once :: "int \<Rightarrow> (int \<times> int list) list \<Rightarrow> nat \<Rightarrow> bibo_event list" where
  "at_once self cs n = map (\<lambda>c. Announce (hello self c)) cs @ replicate n (Turn True)"

lemma length_hello: "length (snd c) = 255 \<Longrightarrow> length (hello self c) = REQUEST_WORDS"
  by (simp add: hello_def announce_def REQUEST_WORDS_def)

lemma in_turn_children:
  "s_mode s = Accepting \<Longrightarrow> fifo s = [] \<Longrightarrow> clientNumber s = int (length (children s)) \<Longrightarrow>
   (children s = [] \<or> List.last (children s) = oldPid s) \<Longrightarrow> distinct_adj (children s @ map fst cs) \<Longrightarrow>
   0 \<notin> fst ` set cs \<Longrightarrow> int (length (children s) + length cs) \<le> max_clients + 1 \<Longrightarrow> \<forall>c\<in>set cs. length (snd c) = 255 \<Longrightarrow>
   children (sched_run (bibo_step self max_clients) (in_turn self cs) s) = children s @ map fst cs"
proof (induction cs arbitrary: s)
  case (Cons c cs)
  let ?s = "s\<lparr>fifo := hello self c\<rparr>"
  have a: "bibo_step self max_clients (Announce (hello self c)) s = Some ?s"
    using Cons.prems(2,8) length_hello [of c] by (simp add: bibo_step_def)
  have w: "length (fifo ?s) = 257" "fifo ?s ! 0 = fst c" "fifo ?s ! 1 = self"
    using length_hello [of c self] Cons.prems(8) by (simp_all add: hello_def announce_def REQUEST_WORDS_def)
  then have ne: "fifo ?s \<noteq> []" by (metis list.size(3) zero_neq_numeral)
  have new: "oldPid (considered ?s) \<noteq> fst c"
    using Cons.prems(3-6) by (auto simp: distinct_adj_append_iff)
  have acc: "accepted self max_clients (considered ?s)"
    using Cons.prems(3,7) w ne new by (simp add: accepted_def)
  let ?t = "served (considered ?s)"
  have t: "children ?t = children s @ [fst c]" "clientNumber ?t = clientNumber s + 1" "oldPid ?t = fst c"
      "s_mode ?t = Accepting" "fifo ?t = []"
    using w ne Cons.prems(1) by (simp_all add: served_def counted_in_def MAIN_WORDS_def)
  let ?u = "if clientNumber ?t > max_clients then sys_wait ?t else ?t"
  have b: "bibo_step self max_clients (Turn True) ?s = Some ?u"
    using acc ne Cons.prems(1) by (simp add: bibo_step_def bibo_turn_eq Let_def)
  have run: "sched_run (bibo_step self max_clients) (in_turn self (c # cs)) s = sched_run (bibo_step self max_clients) (in_turn self cs) ?u"
    using a b by (simp add: in_turn_def)
  show ?case
  proof (cases cs)
    case Nil
    then show ?thesis using run t(1) by (simp add: in_turn_def sys_wait_def)
  next
    case (Cons c2 cs2)
    then have "?u = ?t" using Cons.prems(3,7) t(2) by simp
    then show ?thesis using run Cons.IH [of ?t] t Cons.prems by simp
  qed
qed (simp add: in_turn_def)

lemma nth_blocks:
  "\<forall>b\<in>set bs. length b = L \<Longrightarrow> r < length bs \<Longrightarrow> j < L \<Longrightarrow> concat bs ! (L * r + j) = bs ! r ! j"
proof (induction bs arbitrary: r)
  case (Cons b bs)
  then show ?case by (cases r) (simp_all add: nth_append add.assoc)
qed simp

lemma length_blocks: "\<forall>b\<in>set bs. length b = L \<Longrightarrow> length (concat bs) = L * length bs"
  by (induction bs) simp_all

lemma announce_all:
  "\<forall>c\<in>set cs. length (snd c) = 255 \<Longrightarrow>
   sched_run (bibo_step self max_clients) (map (\<lambda>c. Announce (hello self c)) cs) s = s\<lparr>fifo := fifo s @ concat (map (hello self) cs)\<rparr>"
  by (induction cs arbitrary: s) (simp_all add: bibo_step_def length_hello)

text \<open>After the first message every \<^verbatim>\<open>read\<close> starts further inside a message.\<close>

lemma misread:
  assumes "\<forall>c\<in>set cs. length (snd c) = 255 \<and> self \<notin> set (snd c)" "length cs \<le> 256"
    and "0 < r" "fifo s = drop (MAIN_WORDS * r) (concat (map (hello self) cs))" "fifo s \<noteq> []"
  shows "\<not> accepted self max_clients (considered s)"
proof -
  let ?bs = "map (hello self) cs"
  have L: "\<forall>b\<in>set ?bs. length b = 257" using assms(1) length_hello by (auto simp: REQUEST_WORDS_def)
  have len: "length (concat ?bs) = 257 * length cs" using length_blocks [OF L] by simp
  have k: "r < length cs" using assms(4,5) len by (simp add: MAIN_WORDS_def)
  then have r: "r + 1 < 257" using assms(2) by simp
  have pos: "258 * r + 1 < 257 * length cs" using k r by simp
  have "fifo s ! 1 = concat ?bs ! (257 * r + (r + 1))"
    using assms(4) pos len by (simp add: MAIN_WORDS_def algebra_simps)
  also have "\<dots> = hello self (cs ! r) ! (r + 1)" using nth_blocks [OF L, of r "r + 1"] k r by simp
  also have "\<dots> = snd (cs ! r) ! (r - 1)" using assms(3) by (cases r) (simp_all add: hello_def announce_def)
  finally have at: "fifo s ! 1 = snd (cs ! r) ! (r - 1)" .
  have c: "length (snd (cs ! r)) = 255" "self \<notin> set (snd (cs ! r))" using assms(1) k by simp_all
  have "r - 1 < length (snd (cs ! r))" using c(1) r assms(3) by linarith
  then have "snd (cs ! r) ! (r - 1) \<in> set (snd (cs ! r))" by (rule nth_mem)
  then have "fifo s ! 1 \<noteq> self" using at c(2) by metis
  moreover have "1 < length (fifo s)" using assms(4) pos len by (simp add: MAIN_WORDS_def)
  ultimately show ?thesis by (simp add: accepted_def)
qed

lemma later_turns:
  assumes "\<forall>c\<in>set cs. length (snd c) = 255 \<and> self \<notin> set (snd c)" "length cs \<le> 256"
  shows "0 < r \<Longrightarrow> fifo s = drop (MAIN_WORDS * r) (concat (map (hello self) cs)) \<Longrightarrow> s_mode s = Accepting \<Longrightarrow>
    clientNumber s \<le> max_clients \<Longrightarrow>
    children (sched_run (bibo_step self max_clients) (replicate n (Turn True)) s) = children s"
proof (induction n arbitrary: r s)
  case (Suc n)
  show ?case
  proof (cases "fifo s = []")
    case True
    then show ?thesis using Suc.IH [OF Suc.prems] by (simp add: bibo_step_def bibo_turn_eq)
  next
    case False
    have "bibo_step self max_clients (Turn True) s = Some (considered s)"
      using misread [OF assms Suc.prems(1,2) False] False Suc.prems(3,4) by (simp add: bibo_step_def bibo_turn_eq Let_def)
    moreover have "fifo (considered s) = drop (MAIN_WORDS * Suc r) (concat (map (hello self) cs))"
      using Suc.prems(2) by (simp add: add.commute)
    ultimately show ?thesis using Suc.IH [of "Suc r" "considered s"] Suc.prems(3,4) by simp
  qed
qed simp

text \<open>
  C28. The client writes the 257 words of a \<^verbatim>\<open>struct request\<close>, the server reads the 258 of a
  \<^verbatim>\<open>struct requestMainFifo\<close>. Clients that announce themselves one at a time are all served, up
  to the limit. But if the same clients have all announced themselves when the server
  looks, it serves the first and loses all others, although it goes on reading until the
  FIFO is empty.
\<close>

theorem bibo_lost_clients:
  assumes "cs \<noteq> []" "length cs \<le> 256" "int (length cs) \<le> max_clients" "0 \<notin> fst ` set cs" "distinct_adj (map fst cs)"
    and "\<forall>c\<in>set cs. length (snd c) = 255 \<and> self \<notin> set (snd c)"
  shows "children (sched_run (bibo_step self max_clients) (in_turn self cs) (bibo_start self j1 j2)) = map fst cs
    \<and> children (sched_run (bibo_step self max_clients) (at_once self cs (Suc n)) (bibo_start self j1 j2)) = [fst (hd cs)]"
proof
  show "children (sched_run (bibo_step self max_clients) (in_turn self cs) (bibo_start self j1 j2)) = map fst cs"
    using in_turn_children [of "bibo_start self j1 j2" cs max_clients self] assms(3-6) by (simp add: bibo_start_def)
  obtain c cs' where cs: "cs = c # cs'" using assms(1) by (cases cs) auto
  let ?W = "concat (map (hello self) cs)"
  let ?s = "(bibo_start self j1 j2)\<lparr>fifo := ?W\<rparr>"
  have w: "?W ! 0 = fst c" "?W ! 1 = self" "257 \<le> length ?W"
    using length_hello [of c self] assms(6) by (simp_all add: cs hello_def announce_def REQUEST_WORDS_def)
  then have ne: "?W \<noteq> []" by (metis le_zero_eq list.size(3) zero_neq_numeral)
  let ?t = "served (considered ?s)"
  have max: "1 \<le> max_clients" using assms(1,3) by (simp add: cs)
  have acc: "accepted self max_clients (considered ?s)"
    using w ne max assms(4) by (simp add: accepted_def bibo_start_def cs)
  have t: "children ?t = [fst c]" "clientNumber ?t = 1" "s_mode ?t = Accepting" "fifo ?t = drop (MAIN_WORDS * 1) ?W"
    using w ne by (simp_all add: served_def counted_in_def bibo_start_def)
  have "bibo_step self max_clients (Turn True) ?s = Some ?t"
    using acc ne max t(2) by (simp add: bibo_step_def bibo_turn_eq Let_def bibo_start_def)
  moreover have "sched_run (bibo_step self max_clients) (map (\<lambda>c. Announce (hello self c)) cs) (bibo_start self j1 j2) = ?s"
    using announce_all [of cs self max_clients "bibo_start self j1 j2"] assms(6) by (simp add: bibo_start_def)
  ultimately have "sched_run (bibo_step self max_clients) (at_once self cs (Suc n)) (bibo_start self j1 j2)
      = sched_run (bibo_step self max_clients) (replicate n (Turn True)) ?t"
    by (simp add: at_once_def sched_run_append)
  then show "children (sched_run (bibo_step self max_clients) (at_once self cs (Suc n)) (bibo_start self j1 j2)) = [fst (hd cs)]"
    using later_turns [OF assms(6,2), of 1 ?t max_clients n] t max by (simp add: cs)
qed

text \<open>
  The server of \<^verbatim>\<open>hw4\<close> takes one client and then turns in an empty loop for ever: once it
  spins, no schedule makes it read the FIFO again.
\<close>

lemma bibo4_spins:
  "s_mode s = Spinning \<Longrightarrow> \<exists>ws. sched_run (bibo4_step self max_clients) es s = s\<lparr>fifo := fifo s @ ws\<rparr>"
proof (induction es arbitrary: s)
  case Nil
  have "s = s\<lparr>fifo := fifo s @ []\<rparr>" by simp
  then show ?case by (metis sched_run.simps(1))
next
  case (Cons e es)
  show ?case
  proof (cases "bibo4_step self max_clients e s")
    case None
    then show ?thesis using Cons by simp
  next
    case (Some s')
    then have "s' = s \<or> (\<exists>ws. s' = s\<lparr>fifo := fifo s @ ws\<rparr>)"
      using Cons.prems by (cases e) (auto simp: bibo4_step_def bibo4_turn_def split: if_splits)
    moreover have "s = s\<lparr>fifo := fifo s @ []\<rparr>" by simp
    ultimately obtain ws where s': "s' = s\<lparr>fifo := fifo s @ ws\<rparr>" by metis
    then have "s_mode s' = Spinning" using Cons.prems by simp
    from Cons.IH [OF this] obtain vs where "sched_run (bibo4_step self max_clients) es s' = s'\<lparr>fifo := fifo s' @ vs\<rparr>" by blast
    then show ?thesis using Some s' by (intro exI [of _ "ws @ vs"]) simp
  qed
qed

section \<open>Witnesses\<close>

definition a_server_dir :: "string \<Rightarrow> string list option" where
  "a_server_dir path = Some [''.'', ''a.txt'', ''..'']"

lemma two_commands: "client_commands (''list'' @ [newline] @ ''foo'') = [''list'', ''foo'']"
  by code_simp

lemma bibo_session_witness:
  "\<exists>ds s. serve_client a_server_dir [''list'', ''foo''] (replicate DATA_LEN (CHR 0x00), ''srv'') = Inr (ds, s)
    \<and> map client_show ds = [Inr (''a.txt'' @ [newline]), Inr (''a.txt'' @ [newline])]"
proof -
  have e: "c_string (replicate 1024 (CHR 0x00)) = []" by (simp add: c_string_def takeWhile_replicate)
  have l: "client_line (''a.txt'' @ [newline]) = Inr (''a.txt'' @ [newline])" by (simp add: client_line_def BIBO_BUFF_def newline_def)
  have "dir_has a_server_dir ''srv'' [''.'', ''a.txt'', ''..'']" by (simp add: dir_has_def a_server_dir_def)
  from bibo_session [OF _ this, of "''list'' @ [newline] @ ''foo''" "replicate DATA_LEN (CHR 0x00)"] show ?thesis
    unfolding two_commands
    using e l by (auto simp: names_ok_def c_text_def listing_def visible_def DATA_LEN_def BIBO_TOKENS_def tokens_def bibo_reply_def)
qed

lemma listing_replicate: "w \<noteq> ''.'' \<Longrightarrow> w \<noteq> ''..'' \<Longrightarrow> length (listing (replicate n w)) = n * Suc (length w)"
  by (induction n) (simp_all add: listing_def visible_def)

lemma bibo_list_bounds_witness:
  "handleRequests (\<lambda>p. Some (replicate 5 (replicate 250 (CHR ''x'')))) ''list'' (replicate DATA_LEN (CHR 0x00), ''srv'') = Inl OutOfBounds"
proof -
  let ?w = "replicate 250 (CHR ''x'')"
  have "length ?w \<noteq> length ''.''" "length ?w \<noteq> length ''..''" by simp_all
  then have w: "?w \<noteq> ''.''" "?w \<noteq> ''..''" by metis+
  have "dir_has (\<lambda>p. Some (replicate 5 ?w)) ''srv'' (replicate 5 ?w)" by (simp add: dir_has_def)
  moreover have "names_ok (replicate 5 ?w)" by (simp add: names_ok_def c_text_def)
  moreover have "length (replicate DATA_LEN (CHR 0x00)) = DATA_LEN" by simp
  ultimately show ?thesis
    using bibo_list_bounds listing_replicate [OF w, of 5] by (simp add: DATA_LEN_def)
qed

lemma bibo_lost_clients_witness:
  "let cs = [(11, replicate 255 0), (12, replicate 255 0)] in
   children (sched_run (bibo_step 5 3) (in_turn 5 cs) (bibo_start 5 0 0)) = [11, 12]
   \<and> children (sched_run (bibo_step 5 3) (at_once 5 cs 3) (bibo_start 5 0 0)) = [11]"
  using bibo_lost_clients [of "[(11, replicate 255 0), (12, replicate 255 0)]" 3 5 0 0 2]
  by (simp add: numeral_3_eq_3)

end
