(* ===== verification/BiboTalk.thy ===== *)
theory BiboTalk
  imports BiboProps Duplex
begin

text \<open>
  A client of \<^verbatim>\<open>hw3\<close> and the child that the server has forked for it, as two processes over the
  client's two FIFOs: both open the FIFOs, which blocks until the other side does the same,
  then the client sends the commands that are typed at its terminal and prints the replies.

  \<open>B_Open\<close> says that the other side has called \<^verbatim>\<open>open\<close> on a FIFO; a request is its text, a
  response the whole array. The name of the directory, \<open>argv[1]\<close>, is a string of any length: a
  slash that is appended to it behind its end is not a fault of the model. The terminal holds what has been typed so far; a client without a
  complete line waits for more.
\<close>

section \<open>The processes\<close>

datatype bibo_msg = B_Open string | B_Req string | B_Resp string

definition CLIENT_FIFO_TEMP_READ :: "int \<Rightarrow> string" where
  "CLIENT_FIFO_TEMP_READ pid = ''/tmp/bibofifo_rcl.'' @ dec pid"

definition CLIENT_FIFO_TEMP_WRITE :: "int \<Rightarrow> string" where
  "CLIENT_FIFO_TEMP_WRITE pid = ''/tmp/bibofifo_wcl.'' @ dec pid"

datatype child_pc = H_OpenR | H_WaitR | H_OpenW | H_WaitW | H_Take | H_Handle string | H_Send
  | H_Fault cfault | H_Garbled

record bibo_child =
  child_at :: child_pc
  child_client :: int
  resp_data :: string
  child_dir :: string

definition child_talk :: "(string \<Rightarrow> string list option) \<Rightarrow> bibo_child \<Rightarrow> (bibo_msg, bibo_child) action" where
  "child_talk opendir x = (case child_at x of
     H_OpenR \<Rightarrow> Send (B_Open (CLIENT_FIFO_TEMP_WRITE (child_client x))) (x\<lparr>child_at := H_WaitR\<rparr>)
   | H_WaitR \<Rightarrow> Recv (\<lambda>m. x\<lparr>child_at := if m = B_Open (CLIENT_FIFO_TEMP_WRITE (child_client x)) then H_OpenW else H_Garbled\<rparr>)
   | H_OpenW \<Rightarrow> Send (B_Open (CLIENT_FIFO_TEMP_READ (child_client x))) (x\<lparr>child_at := H_WaitW\<rparr>)
   | H_WaitW \<Rightarrow> Recv (\<lambda>m. x\<lparr>child_at := if m = B_Open (CLIENT_FIFO_TEMP_READ (child_client x)) then H_Take else H_Garbled\<rparr>)
   | H_Take \<Rightarrow> Recv (\<lambda>m. x\<lparr>child_at := (case m of B_Req req \<Rightarrow> H_Handle req | _ \<Rightarrow> H_Garbled)\<rparr>)
   | H_Handle req \<Rightarrow> Local (case handleRequests opendir req (resp_data x, child_dir x) of
         Inl e \<Rightarrow> x\<lparr>child_at := H_Fault e\<rparr>
       | Inr (data, dirname) \<Rightarrow> x\<lparr>resp_data := data, child_dir := dirname, child_at := H_Send\<rparr>)
   | H_Send \<Rightarrow> Send (B_Resp (resp_data x)) (x\<lparr>child_at := H_Take\<rparr>)
   | H_Fault e \<Rightarrow> Halt | H_Garbled \<Rightarrow> Halt)"

datatype bclient_pc = T_OpenW | T_WaitW | T_OpenR | T_WaitR | T_Command | T_Send string | T_Take | T_Show string
  | T_Fault cfault | T_Garbled

record bibo_client =
  bclient_at :: bclient_pc
  bclient_pid :: int
  typed :: string
  shown :: "string list"

text \<open>\<^verbatim>\<open>fgets\<close> from a terminal: a line, or 255 characters of one; \<open>None\<close> waits for more.\<close>

definition next_command :: "string \<Rightarrow> (string \<times> string) option" where
  "next_command s = (let line = takeWhile (\<lambda>c. c \<noteq> newline) (take (BIBO_BUFF - 1) s) in
     if length line = BIBO_BUFF - 1 then Some (line, drop (BIBO_BUFF - 1) s)
     else if length line < length s then Some (line, drop (length line + 1) s)
     else None)"

definition bclient_talk :: "bibo_client \<Rightarrow> (bibo_msg, bibo_client) action" where
  "bclient_talk y = (case bclient_at y of
     T_OpenW \<Rightarrow> Send (B_Open (CLIENT_FIFO_TEMP_WRITE (bclient_pid y))) (y\<lparr>bclient_at := T_WaitW\<rparr>)
   | T_WaitW \<Rightarrow> Recv (\<lambda>m. y\<lparr>bclient_at := if m = B_Open (CLIENT_FIFO_TEMP_WRITE (bclient_pid y)) then T_OpenR else T_Garbled\<rparr>)
   | T_OpenR \<Rightarrow> Send (B_Open (CLIENT_FIFO_TEMP_READ (bclient_pid y))) (y\<lparr>bclient_at := T_WaitR\<rparr>)
   | T_WaitR \<Rightarrow> Recv (\<lambda>m. y\<lparr>bclient_at := if m = B_Open (CLIENT_FIFO_TEMP_READ (bclient_pid y)) then T_Command else T_Garbled\<rparr>)
   | T_Command \<Rightarrow> (case next_command (typed y) of
         None \<Rightarrow> Halt
       | Some (command, rest) \<Rightarrow> Local (y\<lparr>typed := rest, bclient_at := T_Send command\<rparr>))
   | T_Send command \<Rightarrow> Send (B_Req command) (y\<lparr>bclient_at := T_Take\<rparr>)
   | T_Take \<Rightarrow> Recv (\<lambda>m. y\<lparr>bclient_at := (case m of B_Resp data \<Rightarrow> T_Show data | _ \<Rightarrow> T_Garbled)\<rparr>)
   | T_Show data \<Rightarrow> Local (case client_show data of
         Inl e \<Rightarrow> y\<lparr>bclient_at := T_Fault e\<rparr>
       | Inr text \<Rightarrow> y\<lparr>shown := shown y @ [text], bclient_at := T_Command\<rparr>)
   | T_Fault e \<Rightarrow> Halt | T_Garbled \<Rightarrow> Halt)"

type_synonym bibo_state = "(bibo_child, bibo_client, bibo_msg) duplex"

definition bibo_talk_step :: "(string \<Rightarrow> string list option) \<Rightarrow> side \<Rightarrow> bibo_state \<Rightarrow> bibo_state option" where
  "bibo_talk_step opendir = duplex_step (child_talk opendir) bclient_talk"

interpretation bibo_talk: commuting "bibo_talk_step opendir" for opendir
  by unfold_locales (metis duplex_commute bibo_talk_step_def)

text \<open>The child after \<^verbatim>\<open>fork\<close>, the client after its announcement.\<close>

definition bibo_talk_start :: "int \<Rightarrow> string \<Rightarrow> string \<Rightarrow> string \<Rightarrow> bibo_state" where
  "bibo_talk_start pid data dirname input =
     \<lparr>left_state = \<lparr>child_at = H_OpenR, child_client = pid, resp_data = data, child_dir = dirname\<rparr>,
      right_state = \<lparr>bclient_at = T_OpenW, bclient_pid = pid, typed = input, shown = []\<rparr>,
      to_right = [], to_left = []\<rparr>"

section \<open>The specification of a session\<close>

text \<open>The commands of a text that has been typed.\<close>

function typed_commands :: "string \<Rightarrow> string list" where
  "typed_commands s = (case next_command s of None \<Rightarrow> [] | Some (command, rest) \<Rightarrow> command # typed_commands rest)"
  by pat_completeness auto

lemma next_command_shorter: "next_command s = Some (command, rest) \<Longrightarrow> length rest < length s \<and> length command < BIBO_BUFF"
  using length_takeWhile_le [of "\<lambda>c. c \<noteq> newline" "take (BIBO_BUFF - 1) s"]
  by (auto simp: next_command_def Let_def BIBO_BUFF_def split: if_splits)

termination typed_commands
  by (relation "measure length") (auto dest: next_command_shorter)

declare typed_commands.simps [simp del]

lemma typed_commands_short: "r \<in> set (typed_commands s) \<Longrightarrow> length r < BIBO_BUFF"
proof (induction s rule: typed_commands.induct)
  case (1 s)
  show ?case
  proof (cases "next_command s")
    case (Some c)
    then show ?thesis using 1 next_command_shorter [of s] by (cases c) (auto simp: typed_commands.simps [of s])
  qed (use "1.prems" in \<open>simp add: typed_commands.simps [of s]\<close>)
qed

text \<open>What the client shows: the replies, up to the first that it cannot print.\<close>

fun session_output :: "string list \<Rightarrow> string \<Rightarrow> string list \<Rightarrow> string list \<times> cfault option" where
  "session_output names prev [] = ([], None)"
| "session_output names prev (r # rs) = (let reply = bibo_reply names prev r in
     case client_line reply of
       Inl e \<Rightarrow> ([], Some e)
     | Inr l \<Rightarrow> (case session_output names reply rs of (ls, e) \<Rightarrow> (l # ls, e)))"

definition session_end :: "cfault option \<Rightarrow> bclient_pc" where
  "session_end e = (case e of None \<Rightarrow> T_Command | Some f \<Rightarrow> T_Fault f)"

section \<open>The session\<close>

abbreviation two :: "bibo_child \<Rightarrow> bibo_client \<Rightarrow> bibo_msg list \<Rightarrow> bibo_msg list \<Rightarrow> bibo_state" where
  "two x y q p \<equiv> \<lparr>left_state = x, right_state = y, to_right = q, to_left = p\<rparr>"

lemma connected:
  "leads (bibo_talk_step od) (bibo_talk_start pid data dirname input)
    (two \<lparr>child_at = H_Take, child_client = pid, resp_data = data, child_dir = dirname\<rparr>
      \<lparr>bclient_at = T_Command, bclient_pid = pid, typed = input, shown = []\<rparr> [] [])"
  unfolding leads_def
  by (rule exI [of _ "[LeftSide, RightSide, LeftSide, RightSide, LeftSide, RightSide, LeftSide, RightSide]"])
    (simp add: bibo_talk_start_def bibo_talk_step_def child_talk_def bclient_talk_def)

text \<open>One command: it is sent, handled and answered, and the answer shown.\<close>

lemma one_command:
  assumes "child_at x = H_Take" "bclient_at y = T_Command" "next_command (typed y) = Some (r, rest)"
    and "handleRequests od r (resp_data x, child_dir x) = Inr (data, dirname)"
  shows "leads (bibo_talk_step od) (two x y [] [])
    (two (x\<lparr>resp_data := data, child_dir := dirname, child_at := H_Take\<rparr>)
      (case client_show data of Inl e \<Rightarrow> y\<lparr>typed := rest, bclient_at := T_Fault e\<rparr>
        | Inr l \<Rightarrow> y\<lparr>typed := rest, shown := shown y @ [l], bclient_at := T_Command\<rparr>) [] [])"
  unfolding leads_def
  by (rule exI [of _ "[RightSide, RightSide, LeftSide, LeftSide, LeftSide, RightSide, RightSide]"])
    (simp add: bibo_talk_step_def child_talk_def bclient_talk_def assms split: sum.split)

lemma session_runs:
  assumes "names_ok names" "length (listing names) < DATA_LEN"
  shows "\<forall>r\<in>set (typed_commands (typed y)). bibo_request_ok r \<Longrightarrow> dir_has od (child_dir x) names \<Longrightarrow> length (resp_data x) = DATA_LEN \<Longrightarrow>
    length (c_string (resp_data x)) < DATA_LEN \<Longrightarrow> child_at x = H_Take \<Longrightarrow> bclient_at y = T_Command \<Longrightarrow>
    session_output names (c_string (resp_data x)) (typed_commands (typed y)) = (ls, e) \<Longrightarrow>
    \<exists>x' y'. leads (bibo_talk_step od) (two x y [] []) (two x' y' [] []) \<and> stuck (bibo_talk_step od) (two x' y' [] [])
      \<and> shown y' = shown y @ ls \<and> bclient_at y' = session_end e"
proof (induction "typed y" arbitrary: x y ls rule: typed_commands.induct)
  case 1
  show ?case
  proof (cases "next_command (typed y)")
    case None
    then have "typed_commands (typed y) = []" by (simp add: typed_commands.simps)
    moreover have "stuck (bibo_talk_step od) (two x y [] [])"
      using "1.prems"(5,6) None by (simp add: bibo_talk_step_def stuck_duplex child_talk_def bclient_talk_def)
    ultimately show ?thesis using "1.prems"(6,7) by (intro exI [of _ x] exI [of _ y]) (simp add: session_end_def)
  next
    case (Some c)
    obtain r rest where c: "c = (r, rest)" by (cases c)
    then have cmds: "typed_commands (typed y) = r # typed_commands rest" using Some by (simp add: typed_commands.simps)
    obtain data dirname where d: "handleRequests od r (resp_data x, child_dir x) = Inr (data, dirname)" "dir_has od dirname names"
        "length data = DATA_LEN" "c_string data = bibo_reply names (c_string (resp_data x)) r"
      using handleRequests_ok [OF _ assms "1.prems"(2,3)] "1.prems"(1) cmds by (metis list.set_intros(1))
    let ?x = "x\<lparr>resp_data := data, child_dir := dirname, child_at := H_Take\<rparr>"
    have short: "length (c_string data) < DATA_LEN"
      using replies_short [OF assms(2) "1.prems"(4), of _ "[r]"] d(4) by simp
    then have line: "client_show data = client_line (bibo_reply names (c_string (resp_data x)) r)"
      using client_show_reply [of data] d(3,4) by simp
    note one = one_command [OF "1.prems"(5,6) Some [unfolded c] d(1)]
    show ?thesis
    proof (cases "client_show data")
      case (Inl f)
      then have "ls = []" "e = Some f" using "1.prems"(7) cmds line by (simp_all add: Let_def)
      moreover have "stuck (bibo_talk_step od) (two ?x (y\<lparr>typed := rest, bclient_at := T_Fault f\<rparr>) [] [])"
        by (simp add: bibo_talk_step_def stuck_duplex child_talk_def bclient_talk_def)
      ultimately show ?thesis using one Inl
        by (intro exI [of _ ?x] exI [of _ "y\<lparr>typed := rest, bclient_at := T_Fault f\<rparr>"]) (simp add: session_end_def)
    next
      case (Inr l)
      let ?y = "y\<lparr>typed := rest, shown := shown y @ [l], bclient_at := T_Command\<rparr>"
      obtain ls' where ls: "session_output names (c_string data) (typed_commands rest) = (ls', e)" "ls = l # ls'"
      proof -
        have "client_line (bibo_reply names (c_string (resp_data x)) r) = Inr l" using line Inr by simp
        then show thesis using that "1.prems"(7) cmds d(4) by (auto simp: Let_def split: prod.splits)
      qed
      have "\<exists>x' y'. leads (bibo_talk_step od) (two ?x ?y [] []) (two x' y' [] []) \<and> stuck (bibo_talk_step od) (two x' y' [] [])
          \<and> shown y' = shown ?y @ ls' \<and> bclient_at y' = session_end e"
        by (rule "1.hyps" [OF Some, of r ?y]) (use c "1.prems"(1) cmds d short ls(1) in simp_all)
      then obtain x' y' where r: "leads (bibo_talk_step od) (two ?x ?y [] []) (two x' y' [] [])"
          "stuck (bibo_talk_step od) (two x' y' [] [])" "shown y' = shown y @ ls" "bclient_at y' = session_end e"
        using ls(2) by auto
      have "leads (bibo_talk_step od) (two x y [] []) (two x' y' [] [])"
        using one Inr leads_trans [OF _ r(1)] by simp
      then show ?thesis using r(2-4) by blast
    qed
  qed
qed

text \<open>
  C31. A session of \<^verbatim>\<open>hw3\<close>, in every order in which the client and the server's child can run.
  After enough rounds of the scheduler the FIFOs have been opened, every complete line that
  has been typed was sent and answered, and the client has shown the replies of the table
  \<open>bibo_reply\<close> in order: all of them, and it waits for the next line, or those before the
  first reply that it cannot print (256 bytes or more overflow its buffer, a conversion is
  undefined). An unknown command, and a listing of an empty directory, get the reply to the
  command before. The commands must have no conversion and less than a hundred words, and
  the listing of the directory must fit the response. (\<open>argv[1]\<close> is taken to have room for the
  slash that a listing appends to it.)
\<close>

theorem bibo_talk_session:
  assumes "\<forall>r\<in>set (typed_commands input). \<not> has_conversion r \<and> length (tokens (CHR '' '') r) < BIBO_TOKENS"
    and "dir_has opendir dirname names" "names_ok names" "length (listing names) < DATA_LEN"
    and "length data = DATA_LEN" "length (c_string data) < DATA_LEN"
  shows "\<exists>N. \<forall>rs. N \<le> length rs \<longrightarrow> (\<forall>r\<in>set rs. UNIV \<subseteq> set r) \<longrightarrow>
    (\<exists>d. sched_run (bibo_talk_step opendir) (concat rs) (bibo_talk_start pid data dirname input) = d
      \<and> shown (right_state d) = fst (session_output names (c_string data) (typed_commands input))
      \<and> bclient_at (right_state d) = session_end (snd (session_output names (c_string data) (typed_commands input))))"
proof -
  let ?x = "\<lparr>child_at = H_Take, child_client = pid, resp_data = data, child_dir = dirname\<rparr>"
  let ?y = "\<lparr>bclient_at = T_Command, bclient_pid = pid, typed = input, shown = []\<rparr>"
  have "\<forall>r\<in>set (typed_commands input). length r < BIBO_BUFF"
    using typed_commands_short by blast
  then have ok: "\<forall>r\<in>set (typed_commands (typed ?y)). bibo_request_ok r" using assms(1) by (simp add: bibo_request_ok_def)
  obtain ls e where out: "session_output names (c_string data) (typed_commands input) = (ls, e)" by fastforce
  from ok obtain x' y' where "leads (bibo_talk_step opendir) (two ?x ?y [] []) (two x' y' [] [])"
      and t: "stuck (bibo_talk_step opendir) (two x' y' [] [])"
        "shown y' = ls" "bclient_at y' = session_end e"
    using session_runs [OF assms(3,4), of ?y opendir ?x ls e] assms(2,5,6) out by auto
  then have "leads (bibo_talk_step opendir) (bibo_talk_start pid data dirname input) (two x' y' [] [])"
    using leads_trans [OF connected] by blast
  from bibo_talk.every_schedule [OF this t(1)] show ?thesis using t(2,3) unfolding out by (metis duplex.select_convs(2) fst_conv snd_conv)
qed

lemma bibo_talk_session_witness:
  "\<exists>N. \<forall>rs. N \<le> length rs \<longrightarrow> (\<forall>r\<in>set rs. UNIV \<subseteq> set r) \<longrightarrow>
    (\<exists>d. sched_run (bibo_talk_step a_server_dir) (concat rs)
        (bibo_talk_start 7 (replicate DATA_LEN (CHR 0x00)) ''srv'' (''list'' @ [newline] @ ''foo'' @ [newline] @ ''he'')) = d
      \<and> shown (right_state d) = [''a.txt'' @ [newline], ''a.txt'' @ [newline]] \<and> bclient_at (right_state d) = T_Command)"
proof -
  let ?in = "''list'' @ [newline] @ ''foo'' @ [newline] @ ''he''"
  have cmds: "typed_commands ?in = [''list'', ''foo'']"
    by (simp add: typed_commands.simps next_command_def BIBO_BUFF_def newline_def Let_def)
  have e: "c_string (replicate DATA_LEN (CHR 0x00)) = []" by (simp add: c_string_def takeWhile_replicate DATA_LEN_def)
  have l: "client_line (''a.txt'' @ [newline]) = Inr (''a.txt'' @ [newline])" by (simp add: client_line_def BIBO_BUFF_def newline_def)
  have out: "session_output [''.'', ''a.txt'', ''..''] [] [''list'', ''foo''] = ([''a.txt'' @ [newline], ''a.txt'' @ [newline]], None)"
    using l by (simp add: bibo_reply_def listing_def visible_def Let_def)
  have "dir_has a_server_dir ''srv'' [''.'', ''a.txt'', ''..'']" by (simp add: dir_has_def a_server_dir_def)
  moreover have "names_ok [''.'', ''a.txt'', ''..'']" "length (listing [''.'', ''a.txt'', ''..'']) < DATA_LEN"
    by (simp_all add: names_ok_def c_text_def listing_def visible_def DATA_LEN_def newline_def)
  moreover have "\<forall>r\<in>set (typed_commands ?in). \<not> has_conversion r \<and> length (tokens (CHR '' '') r) < BIBO_TOKENS"
    unfolding cmds by (simp add: BIBO_TOKENS_def tokens_def)
  ultimately show ?thesis
    using bibo_talk_session [of ?in a_server_dir "''srv''" "[''.'', ''a.txt'', ''..'']" "replicate DATA_LEN (CHR 0x00)" 7]
    unfolding cmds e out by (simp add: session_end_def DATA_LEN_def)
qed

end
