(* ===== verification/Bibo4.thy ===== *)
theory Bibo4
  imports BiboTalk
begin

text \<open>
  The server and the clients of \<^verbatim>\<open>hw4\<close> together: the main thread, the pool of threads, and any
  number of clients, over the FIFOs that exist by name. \<^verbatim>\<open>open\<close> of a FIFO for writing blocks
  until somebody has it open for reading, and the other way round.
\<close>

section \<open>Start of the server\<close>

definition CLIENT_FIFO_TEMP :: "int \<Rightarrow> string" where
  "CLIENT_FIFO_TEMP pid = ''/tmp/bibofifo_cl.'' @ dec pid"

definition SERVER_FIFO4 :: string where "SERVER_FIFO4 = ''/tmp/bibofifo''"

definition THREAD_POOL :: nat where "THREAD_POOL = 20"

text \<open>
  The arguments (\<open>argv[argc]\<close> is NULL), whether \<^verbatim>\<open>mkdir\<close> works, and whether the FIFO can be made
  and opened. The result is the exit, or the limit of clients and the size of the pool;
  \<open>argv[3]\<close> is converted before the arguments are counted.
\<close>

definition server4_start :: "string list \<Rightarrow> bool \<Rightarrow> (int \<times> int) option cres" where
  "server4_start argv mkdir_ok =
     (if length argv < 3 then Inl OutOfBounds
      else if length argv = 3 then Inl NullDeref
      else let pool_size = c_atoi (argv ! 3) in
      if length argv \<noteq> 4 then Inr None
      else let max_clients = c_atoi (argv ! 2) in
      if 100 \<le> length (argv ! 1) then Inl OutOfBounds
      else if \<not> mkdir_ok then Inr None
      else if int THREAD_POOL < pool_size then Inl OutOfBounds
      else Inr (Some (max_clients, pool_size)))"

section \<open>The system\<close>

text \<open>
  \<open>consumeClient\<close>: all threads of the pool get the address of the same request, which is
  never set; \<open>K_Blocked\<close> is an \<^verbatim>\<open>open\<close> of a FIFO that exists.
\<close>

datatype pool_pc = K_Open | K_Blocked | K_Read | K_Ended

definition consumeClient :: "int \<Rightarrow> pool_pc \<Rightarrow> string set \<Rightarrow> (pool_pc \<times> string set) option" where
  "consumeClient pid pc names = (case pc of
     K_Open \<Rightarrow> Some (if CLIENT_FIFO_TEMP pid \<in> names then K_Blocked else K_Read, names)
   | K_Blocked \<Rightarrow> None
   | K_Read \<Rightarrow> Some (K_Ended, names - {CLIENT_FIFO_TEMP pid})
   | K_Ended \<Rightarrow> None)"

datatype client4_pc = D_Start | D_MakeW | D_OpenServer | D_Announce | D_OpenW | D_OpenR | D_Connected | D_Exit

record hw4_system =
  main4 :: bibo_server
  fifo_names :: "string set"
  pool4 :: "pool_pc list"
  clients4 :: "(int \<times> client4_pc) list"

text \<open>The names that are open for reading: those on which a thread of the pool is.\<close>

definition readers4 :: "int \<Rightarrow> hw4_system \<Rightarrow> string set" where
  "readers4 req_pid4 s = (if K_Blocked \<in> set (pool4 s) then {CLIENT_FIFO_TEMP req_pid4} else {})"

text \<open>
  A step of a client: whether its \<^verbatim>\<open>mkfifo\<close> works, the server that its argument names, the
  255 words of the announcement that it has not set. No process opens a FIFO of a client for
  writing, except the client itself.
\<close>

definition client4_step :: "int \<Rightarrow> bool \<Rightarrow> int \<Rightarrow> int list \<Rightarrow> nat \<Rightarrow> hw4_system \<Rightarrow> hw4_system option" where
  "client4_step req_pid4 ok server ws i s =
     (if length (clients4 s) \<le> i then None
      else let (pid, pc) = clients4 s ! i; at = (\<lambda>pc. (clients4 s)[i := (pid, pc)]) in
      case pc of
        D_Start \<Rightarrow> Some (if ok then s\<lparr>fifo_names := insert (CLIENT_FIFO_TEMP_READ pid) (fifo_names s), clients4 := at D_MakeW\<rparr>
          else s\<lparr>clients4 := at D_Exit\<rparr>)
      | D_MakeW \<Rightarrow> Some (if ok then s\<lparr>fifo_names := insert (CLIENT_FIFO_TEMP_WRITE pid) (fifo_names s), clients4 := at D_OpenServer\<rparr>
          else s\<lparr>clients4 := at D_Exit\<rparr>)
      | D_OpenServer \<Rightarrow> Some (s\<lparr>clients4 := at (if SERVER_FIFO4 \<in> fifo_names s then D_Announce else D_Exit)\<rparr>)
      | D_Announce \<Rightarrow> if length ws \<noteq> REQUEST_WORDS - 2 then None
          else Some (s\<lparr>main4 := (main4 s)\<lparr>fifo := fifo (main4 s) @ announce pid server ws\<rparr>, clients4 := at D_OpenW\<rparr>)
      | D_OpenW \<Rightarrow> if CLIENT_FIFO_TEMP_WRITE pid \<notin> fifo_names s then Some (s\<lparr>clients4 := at D_Exit\<rparr>)
          else if CLIENT_FIFO_TEMP_WRITE pid \<in> readers4 req_pid4 s then Some (s\<lparr>clients4 := at D_OpenR\<rparr>)
          else None
      | D_OpenR \<Rightarrow> if CLIENT_FIFO_TEMP_READ pid \<notin> fifo_names s then Some (s\<lparr>clients4 := at D_Exit\<rparr>) else None
      | D_Connected \<Rightarrow> None
      | D_Exit \<Rightarrow> None)"

datatype event4 = Main4 | Pool4 nat | Client4 nat bool int "int list"

definition hw4_step :: "int \<Rightarrow> int \<Rightarrow> int \<Rightarrow> event4 \<Rightarrow> hw4_system \<Rightarrow> hw4_system option" where
  "hw4_step self max_clients req_pid4 e s = (case e of
     Main4 \<Rightarrow> map_option (\<lambda>m. s\<lparr>main4 := m\<rparr>) (bibo4_turn self max_clients (main4 s))
   | Pool4 i \<Rightarrow> if length (pool4 s) \<le> i then None
       else map_option (\<lambda>(pc, names). s\<lparr>pool4 := (pool4 s)[i := pc], fifo_names := names\<rparr>)
         (consumeClient req_pid4 (pool4 s ! i) (fifo_names s))
   | Client4 i ok server ws \<Rightarrow> client4_step req_pid4 ok server ws i s)"

text \<open>The server waits for announcements, its pool is created, the clients have been started.\<close>

definition hw4_start :: "int \<Rightarrow> int \<Rightarrow> int \<Rightarrow> int \<Rightarrow> string set \<Rightarrow> int list \<Rightarrow> hw4_system" where
  "hw4_start self pool_size j1 j2 names pids =
     \<lparr>main4 = bibo_start self j1 j2, fifo_names = insert SERVER_FIFO4 names,
      pool4 = replicate (nat pool_size) K_Open, clients4 = map (\<lambda>pid. (pid, D_Start)) pids\<rparr>"

section \<open>Nobody is served\<close>

definition unserved :: "hw4_system \<Rightarrow> bool" where
  "unserved s \<longleftrightarrow> (\<forall>c\<in>set (clients4 s). snd c \<notin> {D_OpenR, D_Connected})
     \<and> (s_mode (main4 s) = Accepting \<and> clientNumber (main4 s) = 0 \<or> s_mode (main4 s) = Spinning \<and> clientNumber (main4 s) = 1)
     \<and> SERVER_FIFO4 \<in> fifo_names s"

lemma fifo_names_differ:
  "CLIENT_FIFO_TEMP_WRITE p \<noteq> CLIENT_FIFO_TEMP q" "SERVER_FIFO4 \<noteq> CLIENT_FIFO_TEMP q"
  by (simp_all add: CLIENT_FIFO_TEMP_WRITE_def CLIENT_FIFO_TEMP_def SERVER_FIFO4_def)

lemma unserved_step:
  assumes "unserved s" "hw4_step self max_clients req_pid4 e s = Some s'"
  shows "unserved s'"
proof (cases e)
  case Main4
  then show ?thesis using assms
    by (auto simp: unserved_def hw4_step_def bibo4_turn_def read_main_def Let_def split: if_splits)
next
  case (Pool4 i)
  then show ?thesis using assms fifo_names_differ(2) [of req_pid4]
    by (cases "pool4 s ! i") (auto simp: unserved_def hw4_step_def consumeClient_def split: if_splits)
next
  case (Client4 i ok server ws)
  obtain pid pc where c: "clients4 s ! i = (pid, pc)" by (cases "clients4 s ! i")
  have i: "i < length (clients4 s)" using assms(2) Client4 by (simp add: hw4_step_def client4_step_def split: if_splits)
  have pc: "pc \<notin> {D_OpenR, D_Connected}" using assms(1) i c by (metis nth_mem snd_conv unserved_def)
  have "CLIENT_FIFO_TEMP_WRITE pid \<notin> readers4 req_pid4 s" using fifo_names_differ(1) by (simp add: readers4_def)
  then have s': "\<exists>pc'. clients4 s' = (clients4 s)[i := (pid, pc')] \<and> pc' \<notin> {D_OpenR, D_Connected}"
      "s_mode (main4 s') = s_mode (main4 s)" "clientNumber (main4 s') = clientNumber (main4 s)" "fifo_names s \<subseteq> fifo_names s'"
    using assms(2) Client4 i pc c by (cases pc; auto simp: hw4_step_def client4_step_def Let_def split: if_splits)+
  then show ?thesis using assms(1) by (auto simp: unserved_def dest!: set_update_subset_insert [THEN subsetD])
qed

text \<open>
  C38. The server of \<^verbatim>\<open>hw4\<close> serves nobody. Whatever clients are started, with whatever FIFOs
  left over from earlier runs and whatever the uninitialised request holds, and in every
  order of the main thread, the pool and the clients: no client gets past the opening of its
  FIFO, since a thread of the pool opens a name of another pattern; the main thread counts
  at most one client and then spins.
\<close>

theorem hw4_serves_nobody:
  "list_all (\<lambda>c. snd c \<noteq> D_OpenR \<and> snd c \<noteq> D_Connected)
      (clients4 (sched_run (hw4_step self max_clients req_pid4) es (hw4_start self pool_size j1 j2 names pids)))
   \<and> clientNumber (main4 (sched_run (hw4_step self max_clients req_pid4) es (hw4_start self pool_size j1 j2 names pids))) \<le> 1"
proof -
  have "unserved (hw4_start self pool_size j1 j2 names pids)"
    by (auto simp: unserved_def hw4_start_def bibo_start_def)
  then have "unserved (sched_run (hw4_step self max_clients req_pid4) es (hw4_start self pool_size j1 j2 names pids))"
    by (intro sched_run_invariant [where I = unserved and step = "hw4_step self max_clients req_pid4"]) (rule unserved_step)
  then show ?thesis unfolding unserved_def list_all_iff by auto
qed

text \<open>With fewer than three arguments the server converts an argument that is not there.\<close>

lemma server4_start_crashes: "length argv \<le> 3 \<Longrightarrow> \<exists>f. server4_start argv ok = Inl f"
  by (simp add: server4_start_def)

end
