(* ===== verification/MidOldTransfer.thy ===== *)
theory MidOldTransfer
  imports MidTransfer
begin

text \<open>
  The older transfer of \<^verbatim>\<open>midterm/common.c\<close>, \<open>producer\<close> and \<open>consumerr\<close>, which the header
  still offers: blocks of a page through the shared segment, with the three named semaphores
  \<open>mutex\<close>, \<open>full\<close> and \<open>empty\<close>. A step is one system call, one copy or one look at the segment;
  a schedule names the process that moves. The semaphores and the segment outlive the
  processes, so a second transfer starts from what the first has left. The three \<^verbatim>\<open>sem_open\<close>s of
  a process are one step: both open them in the same order and the consumer gives up when
  one is missing, whichever it is.
\<close>

section \<open>The two processes\<close>

datatype prod3_pc = O_open | O_clear | O_sems | O_fopen | O_read nat | O_empty nat string | O_mutex nat string
  | O_store nat string | O_post_mutex nat string | O_post_full nat string | O_done | O_exit

datatype cons3_pc = N_open | N_sems | N_fopen | N_full | N_mutex | N_test | N_write | N_clear
  | N_post_mutex | N_post_empty | N_check | N_done | N_exit | N_fault

record shared3 =
  seg :: "string option"
  sem_mutex :: "nat option"
  sem_full :: "nat option"
  sem_empty :: "nat option"
  disk :: "string \<Rightarrow> string option"
  prod_at :: prod3_pc
  cons_at :: cons3_pc

text \<open>\<open>O_read pos\<close> is \<^verbatim>\<open>fread\<close> at a position; the control points after it carry the block.\<close>

definition producer3 :: "string \<Rightarrow> shared3 \<Rightarrow> shared3 option" where
  "producer3 filename s = (case prod_at s of
     O_open \<Rightarrow> Some (s\<lparr>seg := Some (case seg s of None \<Rightarrow> zeros | Some m \<Rightarrow> m), prod_at := O_clear\<rparr>)
   | O_clear \<Rightarrow> Some (s\<lparr>seg := Some zeros, prod_at := O_sems\<rparr>)
   | O_sems \<Rightarrow> Some (s\<lparr>sem_mutex := sem_create 1 (sem_mutex s), sem_full := sem_create 0 (sem_full s),
         sem_empty := sem_create 1 (sem_empty s), prod_at := O_fopen\<rparr>)
   | O_fopen \<Rightarrow> Some (s\<lparr>prod_at := if disk s filename = None then O_exit else O_read 0\<rparr>)
   | O_read pos \<Rightarrow> Some (s\<lparr>prod_at := O_empty pos (take BUFFER_SIZE (drop pos (case disk s filename of None \<Rightarrow> [] | Some d \<Rightarrow> d)))\<rparr>)
   | O_empty pos b \<Rightarrow> (case sem_empty s of
         Some (Suc n) \<Rightarrow> Some (s\<lparr>sem_empty := Some n, prod_at := O_mutex pos b\<rparr>)
       | _ \<Rightarrow> None)
   | O_mutex pos b \<Rightarrow> (case sem_mutex s of
         Some (Suc n) \<Rightarrow> Some (s\<lparr>sem_mutex := Some n, prod_at := O_store pos b\<rparr>)
       | _ \<Rightarrow> None)
   | O_store pos b \<Rightarrow> Some (s\<lparr>seg := map_option (\<lambda>m. if b = [] then CHR 0x00 # tl m else b @ drop (length b) m) (seg s),
         prod_at := O_post_mutex pos b\<rparr>)
   | O_post_mutex pos b \<Rightarrow> Some (s\<lparr>sem_mutex := map_option Suc (sem_mutex s), prod_at := O_post_full pos b\<rparr>)
   | O_post_full pos b \<Rightarrow> Some (s\<lparr>sem_full := map_option Suc (sem_full s),
         prod_at := if b = [] then O_done else O_read (pos + length b)\<rparr>)
   | O_done \<Rightarrow> None
   | O_exit \<Rightarrow> None)"

definition consumer3 :: "string \<Rightarrow> shared3 \<Rightarrow> shared3 option" where
  "consumer3 filename s = (case cons_at s of
     N_open \<Rightarrow> Some (s\<lparr>cons_at := if seg s = None then N_exit else N_sems\<rparr>)
   | N_sems \<Rightarrow> Some (s\<lparr>cons_at := if sem_mutex s = None \<or> sem_full s = None \<or> sem_empty s = None then N_exit else N_fopen\<rparr>)
   | N_fopen \<Rightarrow> Some (s\<lparr>disk := (disk s)(filename \<mapsto> []), cons_at := N_full\<rparr>)
   | N_full \<Rightarrow> (case sem_full s of
         Some (Suc n) \<Rightarrow> Some (s\<lparr>sem_full := Some n, cons_at := N_mutex\<rparr>)
       | _ \<Rightarrow> None)
   | N_mutex \<Rightarrow> (case sem_mutex s of
         Some (Suc n) \<Rightarrow> Some (s\<lparr>sem_mutex := Some n, cons_at := N_test\<rparr>)
       | _ \<Rightarrow> None)
   | N_test \<Rightarrow> Some (s\<lparr>cons_at := case shm_string (seg s) of None \<Rightarrow> N_fault | Some t \<Rightarrow> if t = [] then N_done else N_write\<rparr>)
   | N_write \<Rightarrow> (case shm_string (seg s) of
         None \<Rightarrow> Some (s\<lparr>cons_at := N_fault\<rparr>)
       | Some t \<Rightarrow> Some (s\<lparr>disk := (disk s)(filename \<mapsto> (case disk s filename of None \<Rightarrow> [] | Some d \<Rightarrow> d) @ t), cons_at := N_clear\<rparr>))
   | N_clear \<Rightarrow> Some (s\<lparr>seg := Some zeros, cons_at := N_post_mutex\<rparr>)
   | N_post_mutex \<Rightarrow> Some (s\<lparr>sem_mutex := map_option Suc (sem_mutex s), cons_at := N_post_empty\<rparr>)
   | N_post_empty \<Rightarrow> Some (s\<lparr>sem_empty := map_option Suc (sem_empty s), cons_at := N_check\<rparr>)
   | N_check \<Rightarrow> Some (s\<lparr>cons_at := case shm_string (seg s) of None \<Rightarrow> N_fault | Some t \<Rightarrow> if t = [] then N_done else N_full\<rparr>)
   | N_done \<Rightarrow> None
   | N_exit \<Rightarrow> None
   | N_fault \<Rightarrow> None)"

datatype end3 = Producing | Consuming

fun transfer3 :: "string \<Rightarrow> string \<Rightarrow> end3 \<Rightarrow> shared3 \<Rightarrow> shared3 option" where
  "transfer3 p q Producing s = producer3 p s"
| "transfer3 p q Consuming s = consumer3 q s"

text \<open>Both processes are started; the segment, the semaphores and the files are as they were.\<close>

definition start3 :: "shared3 \<Rightarrow> shared3" where
  "start3 s = s\<lparr>prod_at := O_open, cons_at := N_open\<rparr>"

section \<open>The first transfer\<close>

definition sems3 :: "nat \<Rightarrow> nat \<Rightarrow> nat \<Rightarrow> shared3 \<Rightarrow> bool" where
  "sems3 m f e s \<longleftrightarrow> sem_mutex s = Some m \<and> sem_full s = Some f \<and> sem_empty s = Some e"

text \<open>The consumer before it has waited, and while it serves the one block \<open>d\<close>.\<close>

definition before3 :: "string \<Rightarrow> shared3 \<Rightarrow> bool" where
  "before3 q s \<longleftrightarrow> cons_at s \<in> {N_open, N_sems, N_fopen, N_exit} \<or> cons_at s = N_full \<and> disk s q = Some []"

definition serving3 :: "string \<Rightarrow> string \<Rightarrow> shared3 \<Rightarrow> bool" where
  "serving3 q d s \<longleftrightarrow> (case cons_at s of
     N_mutex \<Rightarrow> sems3 1 0 0 s \<and> seg s = Some (filled d) \<and> disk s q = Some []
   | N_test \<Rightarrow> sems3 0 0 0 s \<and> seg s = Some (filled d) \<and> disk s q = Some []
   | N_write \<Rightarrow> sems3 0 0 0 s \<and> seg s = Some (filled d) \<and> disk s q = Some []
   | N_clear \<Rightarrow> sems3 0 0 0 s \<and> disk s q = Some d
   | N_post_mutex \<Rightarrow> sems3 0 0 0 s \<and> seg s = Some zeros \<and> disk s q = Some d
   | N_post_empty \<Rightarrow> sems3 1 0 0 s \<and> seg s = Some zeros \<and> disk s q = Some d
   | N_check \<Rightarrow> sems3 1 0 1 s \<and> seg s = Some zeros \<and> disk s q = Some d
   | N_done \<Rightarrow> sems3 1 0 1 s \<and> seg s = Some zeros \<and> disk s q = Some d
   | _ \<Rightarrow> before3 q s \<and> sems3 1 1 0 s \<and> seg s = Some (filled d))"

definition served3 :: "string \<Rightarrow> string \<Rightarrow> shared3 \<Rightarrow> bool" where
  "served3 q d s \<longleftrightarrow> cons_at s \<in> {N_check, N_done} \<and> seg s = Some zeros \<and> disk s q = Some d"

definition first3 :: "string \<Rightarrow> string \<Rightarrow> string \<Rightarrow> shared3 \<Rightarrow> bool" where
  "first3 p q d s \<longleftrightarrow> disk s p = Some d \<and> (case prod_at s of
     O_open \<Rightarrow> cons_at s \<in> {N_open, N_exit} \<and> seg s = None \<and> sem_mutex s = None \<and> sem_full s = None \<and> sem_empty s = None
   | O_clear \<Rightarrow> cons_at s \<in> {N_open, N_sems, N_exit} \<and> seg s = Some zeros \<and> sem_mutex s = None \<and> sem_full s = None \<and> sem_empty s = None
   | O_sems \<Rightarrow> cons_at s \<in> {N_open, N_sems, N_exit} \<and> seg s = Some zeros \<and> sem_mutex s = None \<and> sem_full s = None \<and> sem_empty s = None
   | O_fopen \<Rightarrow> before3 q s \<and> sems3 1 0 1 s \<and> seg s = Some zeros
   | O_read pos \<Rightarrow> (if pos = 0 then before3 q s \<and> sems3 1 0 1 s \<and> seg s = Some zeros else pos = length d \<and> serving3 q d s)
   | O_empty pos b \<Rightarrow> (if pos = 0 then b = d \<and> before3 q s \<and> sems3 1 0 1 s \<and> seg s = Some zeros
       else pos = length d \<and> b = [] \<and> serving3 q d s)
   | O_mutex pos b \<Rightarrow> (if pos = 0 then b = d \<and> before3 q s \<and> sems3 1 0 0 s \<and> seg s = Some zeros
       else b = [] \<and> served3 q d s \<and> sems3 1 0 0 s)
   | O_store pos b \<Rightarrow> (if pos = 0 then b = d \<and> before3 q s \<and> sems3 0 0 0 s \<and> seg s = Some zeros
       else b = [] \<and> served3 q d s \<and> sems3 0 0 0 s)
   | O_post_mutex pos b \<Rightarrow> (if pos = 0 then b = d \<and> before3 q s \<and> sems3 0 0 0 s \<and> seg s = Some (filled d)
       else b = [] \<and> served3 q d s \<and> sems3 0 0 0 s)
   | O_post_full pos b \<Rightarrow> (if pos = 0 then b = d \<and> before3 q s \<and> sems3 1 0 0 s \<and> seg s = Some (filled d)
       else b = [] \<and> served3 q d s \<and> sems3 1 0 0 s)
   | O_done \<Rightarrow> served3 q d s \<and> sems3 1 1 0 s
   | O_exit \<Rightarrow> False)"

text \<open>A file of less than a page, without a NUL.\<close>

definition short_text :: "string \<Rightarrow> bool" where
  "short_text d \<longleftrightarrow> d \<noteq> [] \<and> length d < BUFFER_SIZE \<and> CHR 0x00 \<notin> set d"

lemma short_text_filled:
  assumes "short_text d"
  shows "shm_string (Some (filled d)) = Some d" "take BUFFER_SIZE d = d" "d \<noteq> []"
proof -
  have "c_string d = d" using assms by (auto simp: short_text_def c_string_def takeWhile_eq_all_conv)
  then show "shm_string (Some (filled d)) = Some d"
    using shm_string_filled [of d] assms by (simp add: short_text_def one_page_def)
qed (use assms in \<open>simp_all add: short_text_def\<close>)

lemma zeros_again: "CHR 0x00 # tl zeros = zeros"
proof -
  have "zeros = replicate (Suc 4095) (CHR 0x00)" by (simp add: zeros_def BUFFER_SIZE_def)
  then have "zeros = CHR 0x00 # replicate 4095 (CHR 0x00)" by (simp only: replicate_Suc)
  then show ?thesis by (metis list.sel(3))
qed

lemma frame3 [simp]:
  "serving3 q d (s\<lparr>prod_at := P\<rparr>) = serving3 q d s" "before3 q (s\<lparr>prod_at := P\<rparr>) = before3 q s"
  "served3 q d (s\<lparr>prod_at := P\<rparr>) = served3 q d s" "sems3 m f e (s\<lparr>prod_at := P\<rparr>) = sems3 m f e s"
  "before3 q (s\<lparr>seg := g\<rparr>) = before3 q s" "before3 q (s\<lparr>sem_mutex := x\<rparr>) = before3 q s"
  "before3 q (s\<lparr>sem_full := x\<rparr>) = before3 q s" "before3 q (s\<lparr>sem_empty := x\<rparr>) = before3 q s"
  "served3 q d (s\<lparr>sem_mutex := x\<rparr>) = served3 q d s"
  "served3 q d (s\<lparr>sem_full := x\<rparr>) = served3 q d s" "served3 q d (s\<lparr>sem_empty := x\<rparr>) = served3 q d s"
  by (cases "cons_at s"; simp add: serving3_def before3_def served3_def sems3_def)+

lemma serving3_start: "before3 q s \<Longrightarrow> sems3 1 1 0 s \<Longrightarrow> seg s = Some (filled d) \<Longrightarrow> serving3 q d s"
  by (cases "cons_at s") (simp_all add: serving3_def before3_def)

lemma serving3_end: "serving3 q d s \<Longrightarrow> sem_empty s = Some (Suc n) \<Longrightarrow> served3 q d s \<and> sems3 1 0 1 s"
  by (cases "cons_at s") (simp_all add: serving3_def served3_def sems3_def)

lemma unready3_before: "cons_at s \<in> {N_open, N_sems, N_exit} \<Longrightarrow> before3 q s"
  by (auto simp: before3_def)

lemma first3_producer:
  assumes "first3 p q d s" "producer3 p s = Some s'" "short_text d"
  shows "first3 p q d s'"
proof (cases "prod_at s")
  case (O_empty pos b)
  then show ?thesis using assms serving3_end [of q d s]
    by (auto simp: first3_def producer3_def sems3_def split: if_splits option.splits nat.splits)
next
  case (O_post_full pos b)
  then show ?thesis using assms
    by (auto simp: first3_def producer3_def sems3_def short_text_def intro!: serving3_start split: if_splits)
next
  case (O_store pos b)
  then show ?thesis using assms
    by (auto simp: first3_def producer3_def sems3_def served3_def filled_def zeros_again short_text_def split: if_splits)
qed (use assms short_text_filled [OF assms(3)] unready3_before [of s q] in
    \<open>auto simp: first3_def producer3_def sems3_def sem_create_def split: if_splits option.splits nat.splits\<close>)

text \<open>Every step brings the transfer nearer to its end.\<close>

fun prod3_rank :: "prod3_pc \<Rightarrow> nat" where
  "prod3_rank O_open = 16" | "prod3_rank O_clear = 15" | "prod3_rank O_sems = 14" | "prod3_rank O_fopen = 13"
| "prod3_rank (O_read pos) = (if pos = 0 then 12 else 6)" | "prod3_rank (O_empty pos b) = (if pos = 0 then 11 else 5)"
| "prod3_rank (O_mutex pos b) = (if pos = 0 then 10 else 4)" | "prod3_rank (O_store pos b) = (if pos = 0 then 9 else 3)"
| "prod3_rank (O_post_mutex pos b) = (if pos = 0 then 8 else 2)" | "prod3_rank (O_post_full pos b) = (if pos = 0 then 7 else 1)"
| "prod3_rank O_done = 0" | "prod3_rank O_exit = 0"

fun cons3_rank :: "cons3_pc \<Rightarrow> nat" where
  "cons3_rank N_open = 11" | "cons3_rank N_sems = 10" | "cons3_rank N_fopen = 9" | "cons3_rank N_full = 8"
| "cons3_rank N_mutex = 7" | "cons3_rank N_test = 6" | "cons3_rank N_write = 5" | "cons3_rank N_clear = 4"
| "cons3_rank N_post_mutex = 3" | "cons3_rank N_post_empty = 2" | "cons3_rank N_check = 1"
| "cons3_rank N_done = 0" | "cons3_rank N_exit = 0" | "cons3_rank N_fault = 0"

definition rank3 :: "shared3 \<Rightarrow> nat" where
  "rank3 s = prod3_rank (prod_at s) + cons3_rank (cons_at s)"

text \<open>The consumer's steps, by what the producer has done.\<close>

lemma consumer3_frame: "consumer3 q s = Some s' \<Longrightarrow> p \<noteq> q \<Longrightarrow> prod_at s' = prod_at s \<and> disk s' p = disk s p"
  by (cases "cons_at s") (auto simp: consumer3_def split: option.splits nat.splits)

lemma before3_step:
  assumes "before3 q s" "consumer3 q s = Some s'" "sem_full s = Some 0"
  shows "before3 q s' \<and> seg s' = seg s \<and> sems3 m f e s' = sems3 m f e s \<and> cons3_rank (cons_at s') < cons3_rank (cons_at s)"
  using assms by (cases "cons_at s") (auto simp: before3_def consumer3_def sems3_def split: if_splits)

lemma unready3_step:
  assumes "cons_at s \<in> {N_open, N_sems, N_exit}" "consumer3 q s = Some s'" "sem_mutex s = None"
  shows "cons_at s' \<in> {N_sems, N_exit} \<and> (seg s = None \<longrightarrow> cons_at s = N_open \<longrightarrow> cons_at s' = N_exit)
    \<and> s' = s\<lparr>cons_at := cons_at s'\<rparr> \<and> cons3_rank (cons_at s') < cons3_rank (cons_at s)"
  using assms by (cases "cons_at s") (auto simp: consumer3_def split: if_splits)

lemma serving3_step:
  assumes "serving3 q d s" "consumer3 q s = Some s'" "short_text d"
  shows "serving3 q d s' \<and> cons3_rank (cons_at s') < cons3_rank (cons_at s)"
  using assms short_text_filled [OF assms(3)]
  by (cases "cons_at s") (simp_all add: serving3_def before3_def sems3_def consumer3_def shm_string_zeros; (auto simp: sems3_def before3_def)?)+

lemma served3_step:
  assumes "served3 q d s" "consumer3 q s = Some s'"
  shows "served3 q d s' \<and> sems3 m f e s' = sems3 m f e s \<and> cons3_rank (cons_at s') < cons3_rank (cons_at s)"
  using assms by (cases "cons_at s") (auto simp: served3_def sems3_def consumer3_def shm_string_zeros)

lemma first3_consumer:
  assumes "first3 p q d s" "consumer3 q s = Some s'" "short_text d" "p \<noteq> q"
  shows "first3 p q d s' \<and> cons3_rank (cons_at s') < cons3_rank (cons_at s)"
proof -
  note fr = consumer3_frame [OF assms(2,4)]
  have full: "sem_full s = Some 0" if "sems3 m 0 e s" for m e using that by (simp add: sems3_def)
  note steps = before3_step [OF _ assms(2)] serving3_step [OF _ assms(2,3)] served3_step [OF _ assms(2)] unready3_step [OF _ assms(2)]
  show ?thesis
  proof (cases "prod_at s")
    case O_open
    then show ?thesis using assms(1) fr steps(4) by (auto simp: first3_def)
  next
    case O_clear
    then show ?thesis using assms(1) fr steps(4) by (auto simp: first3_def)
  next
    case O_sems
    then show ?thesis using assms(1) fr steps(4) by (auto simp: first3_def)
  qed (use assms(1) fr steps(1-3) full in \<open>auto simp: first3_def split: if_splits\<close>)
qed

lemma first3_producer_lowers:
  assumes "first3 p q d s" "producer3 p s = Some s'" "short_text d"
  shows "cons_at s' = cons_at s \<and> prod3_rank (prod_at s') < prod3_rank (prod_at s)"
  using assms short_text_filled [OF assms(3)]
  by (cases "prod_at s") (auto simp: first3_def producer3_def split: if_splits option.splits nat.splits)

definition good3 :: "string \<Rightarrow> string \<Rightarrow> string \<Rightarrow> shared3 \<Rightarrow> bool" where
  "good3 p q d s \<longleftrightarrow> short_text d \<and> p \<noteq> q \<and> first3 p q d s"

lemma good3_step: "good3 p q d s \<Longrightarrow> transfer3 p q e s = Some s' \<Longrightarrow> good3 p q d s'"
  using first3_producer [of p q d s s'] first3_consumer [of p q d s s'] by (cases e) (simp_all add: good3_def)

lemma good3_lowers: "good3 p q d s \<Longrightarrow> transfer3 p q e s = Some s' \<Longrightarrow> rank3 s' < rank3 s"
  using first3_producer_lowers [of p q d s s'] first3_consumer [of p q d s s'] consumer3_frame [of q s s' p]
  by (cases e) (simp_all add: good3_def rank3_def)

interpretation first3: round_progress "transfer3 p q" "good3 p q d" rank3 "\<lambda>e s. transfer3 p q e s \<noteq> None"
    "stuck (transfer3 p q)" UNIV for p q d
proof (unfold_locales, goal_cases)
  case (1 s e s')
  then show ?case by (rule good3_step)
next
  case (2 s e s')
  then show ?case using good3_lowers by fastforce
next
  case (3 s e s' f)
  then show ?case using good3_lowers by fastforce
next
  case (4 s e)
  then show ?case using good3_lowers by fastforce
qed (auto simp: stuck_def)

text \<open>When nothing moves any more: an exact copy, or a consumer that came too early.\<close>

lemma blocked3:
  assumes "stuck (transfer3 p q) s"
  shows "producer3 p s = None" "consumer3 q s = None"
  using assms transfer3.simps by (metis stuck_def)+

lemma serving3_stuck:
  assumes "serving3 q d s" "consumer3 q s = None" "\<forall>n. sem_empty s \<noteq> Some (Suc n)"
  shows "cons_at s = N_exit"
  using assms by (cases "cons_at s") (simp_all add: serving3_def consumer3_def sems3_def before3_def split: option.splits)

lemma first3_stuck:
  assumes "first3 p q d s" "stuck (transfer3 p q) s" "short_text d"
  shows "prod_at s = O_done \<and> cons_at s = N_done \<and> disk s q = Some d \<and> sems3 1 1 0 s \<and> seg s = Some zeros
    \<or> cons_at s = N_exit \<and> prod_at s = O_empty (length d) []"
proof (cases "prod_at s")
  case (O_empty pos b)
  then have n: "\<forall>n. sem_empty s \<noteq> Some (Suc n)" using blocked3(1) [OF assms(2)] by (auto simp: producer3_def split: option.splits nat.splits)
  then have "pos \<noteq> 0" using assms(1) O_empty by (auto simp: first3_def sems3_def split: if_splits)
  then show ?thesis using assms(1) O_empty serving3_stuck [OF _ blocked3(2) [OF assms(2)] n] by (auto simp: first3_def)
next
  case (O_mutex pos b)
  then show ?thesis using assms(1) blocked3(1) [OF assms(2)] by (auto simp: first3_def producer3_def sems3_def split: if_splits)
next
  case O_done
  then have "served3 q d s" "sems3 1 1 0 s" using assms(1) by (simp_all add: first3_def)
  then show ?thesis using O_done blocked3(2) [OF assms(2)] by (auto simp: served3_def consumer3_def)
qed (use assms(1) blocked3(1) [OF assms(2)] in \<open>simp_all add: first3_def producer3_def\<close>)

section \<open>The next transfer\<close>

text \<open>
  The first transfer leaves \<open>full\<close> raised and \<open>empty\<close> lowered. The next consumer finds the
  empty segment at once, and leaves with the mutex taken; the producer waits before its
  first block.
\<close>

definition second3 :: "string \<Rightarrow> string \<Rightarrow> shared3 \<Rightarrow> bool" where
  "second3 p q s \<longleftrightarrow> disk s p \<noteq> None \<and> sem_empty s = Some 0 \<and> seg s = Some zeros
     \<and> prod_at s \<in> {O_open, O_clear, O_sems, O_fopen, O_read 0} \<union> range (O_empty 0)
     \<and> (case cons_at s of
         N_open \<Rightarrow> sems3 1 1 0 s
       | N_sems \<Rightarrow> sems3 1 1 0 s
       | N_fopen \<Rightarrow> sems3 1 1 0 s
       | N_full \<Rightarrow> sems3 1 1 0 s \<and> disk s q = Some []
       | N_mutex \<Rightarrow> sems3 1 0 0 s \<and> disk s q = Some []
       | N_test \<Rightarrow> sems3 0 0 0 s \<and> disk s q = Some []
       | N_done \<Rightarrow> sems3 0 0 0 s \<and> disk s q = Some []
       | _ \<Rightarrow> False)"

lemma second3_step:
  assumes "second3 p q s" "transfer3 p q e s = Some s'" "p \<noteq> q"
  shows "second3 p q s' \<and> rank3 s' < rank3 s"
proof (cases e)
  case Producing
  have "\<exists>m f. sem_mutex s = Some m \<and> sem_full s = Some f" using assms(1) by (cases "cons_at s") (simp_all add: second3_def sems3_def)
  then show ?thesis using assms Producing
    by (cases "cons_at s"; cases "prod_at s") (auto simp: second3_def producer3_def rank3_def sems3_def sem_create_def split: if_splits)
next
  case Consuming
  then show ?thesis using assms
    by (cases "cons_at s") (auto simp: second3_def consumer3_def rank3_def sems3_def shm_string_zeros)
qed

interpretation second3: round_progress "transfer3 p q" "\<lambda>s. p \<noteq> q \<and> second3 p q s" rank3 "\<lambda>e s. transfer3 p q e s \<noteq> None"
    "stuck (transfer3 p q)" UNIV for p q
proof (unfold_locales, goal_cases)
  case (2 s e s')
  then show ?case using second3_step by (meson less_imp_le)
next
  case (3 s e s' f)
  then show ?case using second3_step by fastforce
qed (use second3_step in \<open>(auto simp: stuck_def)\<close>)

lemma second3_stuck:
  assumes "second3 p q s" "stuck (transfer3 p q) s"
  shows "cons_at s = N_done \<and> disk s q = Some [] \<and> sem_mutex s = Some 0 \<and> (\<exists>b. prod_at s = O_empty 0 b)"
proof -
  have "cons_at s = N_done" using assms(1) blocked3(2) [OF assms(2)]
    by (cases "cons_at s") (simp_all add: second3_def consumer3_def sems3_def)
  moreover have "prod_at s \<in> range (O_empty 0)" using assms(1) blocked3(1) [OF assms(2)]
    by (cases "prod_at s") (auto simp: second3_def producer3_def)
  ultimately show ?thesis using assms(1) by (auto simp: second3_def sems3_def)
qed

section \<open>Property\<close>

text \<open>
  C37. The older transfer works once. Let the file be a short text and no transfer have taken
  place, and let the two processes be scheduled in rounds, in any order. After 27 rounds
  either the file has been copied exactly, or the consumer came before the producer had
  made the names, and the producer waits for ever. When the file was copied and both ends
  are started again, then after 27 further rounds, for whatever file, the consumer has left
  with an empty file and holding the mutex, and the producer waits for ever before its first
  block.
\<close>

theorem mid_old_transfer_once:
  assumes "short_text d" "p \<noteq> q" "disk s p = Some d" "seg s = None" "sem_mutex s = None" "sem_full s = None" "sem_empty s = None"
    and "27 \<le> length rs" "\<forall>r\<in>set rs. set r = UNIV"
    and "27 \<le> length rs'" "\<forall>r\<in>set rs'. set r = UNIV" "p' \<noteq> q'"
  defines "t \<equiv> sched_run (transfer3 p q) (concat rs) (start3 s)"
  shows "(prod_at t = O_done \<and> cons_at t = N_done \<and> disk t q = Some d
      \<or> cons_at t = N_exit \<and> prod_at t = O_empty (length d) [] \<and> stuck (transfer3 p q) t)
    \<and> (cons_at t = N_done \<and> disk t p' \<noteq> None \<longrightarrow>
        (\<exists>u b. sched_run (transfer3 p' q') (concat rs') (start3 t) = u \<and> stuck (transfer3 p' q') u
          \<and> cons_at u = N_done \<and> disk u q' = Some [] \<and> sem_mutex u = Some 0 \<and> prod_at u = O_empty 0 b))"
proof -
  have "good3 p q d (start3 s)" using assms(1-7) by (simp add: good3_def first3_def start3_def)
  moreover have "rank3 (start3 s) \<le> length rs" "rank3 (start3 t) \<le> length rs'"
    using assms(8,10) by (simp_all add: rank3_def start3_def)
  ultimately have t: "stuck (transfer3 p q) t" "good3 p q d t"
    unfolding t_def using first3.rounds_reach [of p q d "start3 s" rs] first3.run_down [of p q d "start3 s" "concat rs"] assms(9)
    by (simp_all add: subset_eq)
  then have e: "prod_at t = O_done \<and> cons_at t = N_done \<and> disk t q = Some d \<and> sems3 1 1 0 t \<and> seg t = Some zeros
      \<or> cons_at t = N_exit \<and> prod_at t = O_empty (length d) []"
    using first3_stuck [of p q d t] assms(1) by (simp add: good3_def)
  have "\<exists>u b. sched_run (transfer3 p' q') (concat rs') (start3 t) = u \<and> stuck (transfer3 p' q') u
      \<and> cons_at u = N_done \<and> disk u q' = Some [] \<and> sem_mutex u = Some 0 \<and> prod_at u = O_empty 0 b"
    if c: "cons_at t = N_done" "disk t p' \<noteq> None"
  proof -
    let ?u = "sched_run (transfer3 p' q') (concat rs') (start3 t)"
    have "second3 p' q' (start3 t)" using e c by (simp add: second3_def start3_def sems3_def)
    then have "stuck (transfer3 p' q') ?u" "second3 p' q' ?u"
      using second3.rounds_reach [of p' q' "start3 t" rs'] second3.run_down [of p' q' "start3 t" "concat rs'"] assms(11,12)
        \<open>rank3 (start3 t) \<le> length rs'\<close> by (simp_all add: subset_eq)
    then show ?thesis using second3_stuck by blast
  qed
  then show ?thesis using e t(1) by blast
qed

text \<open>A consumer that starts after the names have been made does not come too early.\<close>

definition named3 :: "shared3 \<Rightarrow> bool" where
  "named3 s \<longleftrightarrow> seg s \<noteq> None \<and> sem_mutex s \<noteq> None \<and> sem_full s \<noteq> None \<and> sem_empty s \<noteq> None \<and> cons_at s \<noteq> N_exit"

lemma named3_step:
  assumes "named3 s" "transfer3 p q e s = Some s'"
  shows "named3 s'"
proof (cases e)
  case Producing
  then show ?thesis using assms
    by (cases "prod_at s") (auto simp: named3_def producer3_def sem_create_def split: option.splits nat.splits)
next
  case Consuming
  then show ?thesis using assms
    by (cases "cons_at s") (auto simp: named3_def consumer3_def split: if_splits option.splits nat.splits)
qed

lemma named3_run: "named3 s \<Longrightarrow> named3 (sched_run (transfer3 p q) es s)"
  by (rule sched_run_invariant [where I = named3 and step = "transfer3 p q"]) (rule named3_step)

lemma mid_old_transfer_once_witness:
  "\<exists>t u. sched_run (transfer3 ''a'' ''b'') (concat ([Producing, Producing, Producing, Consuming] # replicate 26 [Consuming, Producing]))
      (start3 \<lparr>seg = None, sem_mutex = None, sem_full = None, sem_empty = None, disk = [''a'' \<mapsto> ''xy''], prod_at = O_done, cons_at = N_done\<rparr>) = t
    \<and> disk t ''b'' = Some ''xy''
    \<and> sched_run (transfer3 ''b'' ''c'') (concat (replicate 27 [Producing, Consuming])) (start3 t) = u \<and> disk u ''c'' = Some []"
proof -
  let ?s = "\<lparr>seg = None, sem_mutex = None, sem_full = None, sem_empty = None, disk = [''a'' \<mapsto> ''xy''], prod_at = O_done, cons_at = N_done\<rparr>"
  let ?rs = "[Producing, Producing, Producing, Consuming] # replicate 26 [Consuming, Producing]"
  let ?t = "sched_run (transfer3 ''a'' ''b'') (concat ?rs) (start3 ?s)"
  have ends: "UNIV = {Producing, Consuming}" by (auto intro: end3.exhaust)
  have "named3 ?t"
    by (simp add: start3_def producer3_def consumer3_def sem_create_def del: replicate.simps) (rule named3_run, simp add: named3_def)
  then have no: "cons_at ?t \<noteq> N_exit" unfolding named3_def by blast
  have m: "(prod_at ?t = O_done \<and> cons_at ?t = N_done \<and> disk ?t ''b'' = Some ''xy''
      \<or> cons_at ?t = N_exit \<and> prod_at ?t = O_empty (length ''xy'') [] \<and> stuck (transfer3 ''a'' ''b'') ?t)
    \<and> (cons_at ?t = N_done \<and> disk ?t ''b'' \<noteq> None \<longrightarrow>
        (\<exists>u b. sched_run (transfer3 ''b'' ''c'') (concat (replicate 27 [Producing, Consuming])) (start3 ?t) = u \<and> stuck (transfer3 ''b'' ''c'') u
          \<and> cons_at u = N_done \<and> disk u ''c'' = Some [] \<and> sem_mutex u = Some 0 \<and> prod_at u = O_empty 0 b))"
    by (rule mid_old_transfer_once) (auto simp: short_text_def BUFFER_SIZE_def ends simp del: replicate.simps)
  from m no have t: "cons_at ?t = N_done" "disk ?t ''b'' = Some ''xy''" by blast+
  then have "disk ?t ''b'' \<noteq> None" by (simp only: option.distinct not_False_eq_True)
  with m t(1) obtain u where "sched_run (transfer3 ''b'' ''c'') (concat (replicate 27 [Producing, Consuming])) (start3 ?t) = u"
      "disk u ''c'' = Some []" by blast
  with t(2) show ?thesis by (intro exI [of _ ?t] exI [of _ u] conjI refl)
qed

end
