(* ===== verification/CopierDraft.thy ===== *)
theory CopierDraft
  imports CText
begin

text \<open>
  The first draft of the parallel copier, \<^verbatim>\<open>hw5/pCp.c\<close>: a producer that walks one directory, a
  buffer of ten places, and any number of consumers. The file has two mistakes that a compiler
  refuses (\<open>total_bytes_copied\<close> is not declared, the handler assigns to \<open>signal\<close>, and nothing
  installs it); the model is of the rest, with the counter of bytes left out.

  What stands between \<open>pthread_mutex_lock\<close> and \<open>pthread_mutex_unlock\<close>, with its \<^verbatim>\<open>while\<close> around
  \<open>pthread_cond_wait\<close>, is one step that is enabled when the loop would end; every \<^verbatim>\<open>open\<close>, \<^verbatim>\<open>read\<close>,
  \<^verbatim>\<open>write\<close> and \<^verbatim>\<open>close\<close> is a step. Descriptors are places of one table, \<^verbatim>\<open>open\<close> takes the first free one;
  the places 0 to 2 are the terminal.
\<close>

section \<open>Data\<close>

definition MAX_PATH_LENGTH :: nat where "MAX_PATH_LENGTH = 256"
definition MAX_BUFFER_SIZE :: nat where "MAX_BUFFER_SIZE = 10"

record draft_info =
  fd_src :: int
  fd_dest :: int
  src_filename :: string
  dest_filename :: string

text \<open>A place of the buffer before anything has been stored in it.\<close>

definition zero_info :: draft_info where
  "zero_info = \<lparr>fd_src = 0, fd_dest = 0, src_filename = [], dest_filename = []\<rparr>"

lemma zero_fields: "fd_src zero_info = 0" "fd_dest zero_info = 0" "src_filename zero_info = []"
  by (simp_all add: zero_info_def)

text \<open>An entry of the directory: what \<^verbatim>\<open>lstat\<close> says, and whether the two files can be opened.\<close>

datatype draft_kind = KGone | KDir | KReg string | KFifo | KOther

record draft_entry =
  d_name :: string
  d_kind :: draft_kind
  d_opens_src :: bool
  d_opens_dest :: bool

datatype draft_fd = F_Term | F_Src string | F_Dest string

datatype draft_producer = P_Start | P_Next "draft_entry list" | P_Dest draft_info bool "draft_entry list"
  | P_Put draft_info "draft_entry list" | P_Done | P_Return | P_Fault

datatype draft_consumer = C_Take | C_Read draft_info nat | C_Write draft_info string nat
  | C_Close_src draft_info nat | C_Close_dest draft_info nat | C_Return

record draft =
  buffer :: "draft_info list"
  buffer_count :: nat
  buffer_index :: nat
  finished :: bool
  num_files_copied :: nat
  num_dirs_copied :: nat
  fd_table :: "draft_fd option list"
  terminal_in :: string
  terminal_out :: string
  dest_files :: "string \<Rightarrow> string option"
  printed :: "(string \<times> nat option) list"
  producer_at :: draft_producer
  consumers_at :: "draft_consumer list"

section \<open>Descriptors\<close>

fun put_fd :: "draft_fd \<Rightarrow> draft_fd option list \<Rightarrow> nat \<times> draft_fd option list" where
  "put_fd f [] = (0, [Some f])"
| "put_fd f (None # t) = (0, Some f # t)"
| "put_fd f (Some g # t) = (case put_fd f t of (fd, t) \<Rightarrow> (fd + 1, Some g # t))"

definition get_fd :: "int \<Rightarrow> draft_fd option list \<Rightarrow> draft_fd option" where
  "get_fd fd t = (if fd < 0 \<or> int (length t) \<le> fd then None else t ! nat fd)"

definition free_fd :: "int \<Rightarrow> draft_fd option list \<Rightarrow> draft_fd option list" where
  "free_fd fd t = (if fd < 0 then t else t[nat fd := None])"

section \<open>Threads\<close>

text \<open>\<open>junk\<close> holds the descriptors of \<open>file_info\<close> that the producer has not set.\<close>

definition draft_producer_step :: "string \<Rightarrow> string option \<Rightarrow> draft_entry list option \<Rightarrow> draft_info \<Rightarrow> draft \<Rightarrow> draft option" where
  "draft_producer_step src_directory dest_directory dirp junk s = (case producer_at s of
     P_Start \<Rightarrow> Some (s\<lparr>producer_at := case dirp of None \<Rightarrow> P_Return | Some es \<Rightarrow> P_Next es\<rparr>)
   | P_Next [] \<Rightarrow> Some (s\<lparr>producer_at := P_Done\<rparr>)
   | P_Next (e # es) \<Rightarrow>
       if d_name e = ''.'' \<or> d_name e = ''..'' then Some (s\<lparr>producer_at := P_Next es\<rparr>)
       else (case dest_directory of
         None \<Rightarrow> Some (s\<lparr>producer_at := P_Fault\<rparr>)
       | Some dest \<Rightarrow>
         let info = junk\<lparr>src_filename := take (MAX_PATH_LENGTH - 1) (src_directory @ ''/'' @ d_name e),
               dest_filename := take (MAX_PATH_LENGTH - 1) (dest @ ''/'' @ d_name e)\<rparr>
         in case d_kind e of
           KGone \<Rightarrow> Some (s\<lparr>producer_at := P_Next es\<rparr>)
         | KDir \<Rightarrow> Some (s\<lparr>num_dirs_copied := num_dirs_copied s + 1, producer_at := P_Put info es\<rparr>)
         | KReg bytes \<Rightarrow>
             if \<not> d_opens_src e then Some (s\<lparr>producer_at := P_Next es\<rparr>)
             else (case put_fd (F_Src bytes) (fd_table s) of (fd, t) \<Rightarrow>
               Some (s\<lparr>fd_table := t, producer_at := P_Dest (info\<lparr>fd_src := int fd\<rparr>) (d_opens_dest e) es\<rparr>))
         | KFifo \<Rightarrow> Some (s\<lparr>num_files_copied := num_files_copied s + 1, producer_at := P_Put info es\<rparr>)
         | KOther \<Rightarrow> Some (s\<lparr>producer_at := P_Put info es\<rparr>))
   | P_Dest info opens es \<Rightarrow>
       if \<not> opens then Some (s\<lparr>fd_table := free_fd (fd_src info) (fd_table s), producer_at := P_Next es\<rparr>)
       else (case put_fd (F_Dest (dest_filename info)) (fd_table s) of (fd, t) \<Rightarrow>
         Some (s\<lparr>fd_table := t, dest_files := (dest_files s)(dest_filename info \<mapsto> []), num_files_copied := num_files_copied s + 1,
           producer_at := P_Put (info\<lparr>fd_dest := int fd\<rparr>) es\<rparr>))
   | P_Put info es \<Rightarrow>
       if buffer_count s = MAX_BUFFER_SIZE then None
       else Some (s\<lparr>buffer := (buffer s)[buffer_index s := info], buffer_count := buffer_count s + 1,
         buffer_index := (buffer_index s + 1) mod MAX_BUFFER_SIZE, producer_at := P_Next es\<rparr>)
   | P_Done \<Rightarrow> Some (s\<lparr>finished := True, producer_at := P_Return\<rparr>)
   | P_Return \<Rightarrow> None
   | P_Fault \<Rightarrow> None)"

text \<open>A place of the buffer may hold descriptors that are closed or of the wrong kind.\<close>

definition draft_consumer_step :: "nat \<Rightarrow> draft \<Rightarrow> draft option" where
  "draft_consumer_step i s =
     (if length (consumers_at s) \<le> i then None
      else let at = (\<lambda>pc. (consumers_at s)[i := pc]) in
      case consumers_at s ! i of
        C_Take \<Rightarrow>
          if buffer_count s = 0 \<and> \<not> finished s then None
          else if buffer_count s = 0 then Some (s\<lparr>consumers_at := at C_Return\<rparr>)
          else let info = buffer s ! buffer_index s;
                   s = s\<lparr>buffer_count := buffer_count s - 1, buffer_index := (buffer_index s + 1) mod MAX_BUFFER_SIZE\<rparr>
            in if fd_src info \<noteq> -1 then Some (s\<lparr>consumers_at := at (C_Read info 0)\<rparr>)
               else Some (s\<lparr>consumers_at := at C_Take, printed := printed s @ [(src_filename info, None)]\<rparr>)
      | C_Read info n \<Rightarrow> (case get_fd (fd_src info) (fd_table s) of
            Some (F_Src bytes) \<Rightarrow>
              if bytes = [] then Some (s\<lparr>consumers_at := at (C_Close_src info n)\<rparr>)
              else Some (s\<lparr>fd_table := (fd_table s)[nat (fd_src info) := Some (F_Src (drop 1024 bytes))],
                consumers_at := at (C_Write info (take 1024 bytes) n)\<rparr>)
          | Some F_Term \<Rightarrow>
              if terminal_in s = [] then Some (s\<lparr>consumers_at := at (C_Close_src info n)\<rparr>)
              else Some (s\<lparr>terminal_in := drop 1024 (terminal_in s), consumers_at := at (C_Write info (take 1024 (terminal_in s)) n)\<rparr>)
          | _ \<Rightarrow> Some (s\<lparr>consumers_at := at (C_Close_src info n)\<rparr>))
      | C_Write info bytes n \<Rightarrow> (case get_fd (fd_dest info) (fd_table s) of
            Some (F_Dest p) \<Rightarrow> Some (s\<lparr>dest_files := (dest_files s)(p \<mapsto> (case dest_files s p of None \<Rightarrow> [] | Some d \<Rightarrow> d) @ bytes),
                consumers_at := at (C_Read info (n + length bytes))\<rparr>)
          | Some F_Term \<Rightarrow> Some (s\<lparr>terminal_out := terminal_out s @ bytes, consumers_at := at (C_Read info (n + length bytes))\<rparr>)
          | _ \<Rightarrow> Some (s\<lparr>consumers_at := at (C_Close_src info n)\<rparr>))
      | C_Close_src info n \<Rightarrow> Some (s\<lparr>fd_table := free_fd (fd_src info) (fd_table s), consumers_at := at (C_Close_dest info n)\<rparr>)
      | C_Close_dest info n \<Rightarrow> Some (s\<lparr>fd_table := free_fd (fd_dest info) (fd_table s),
            printed := printed s @ [(src_filename info, Some n)], consumers_at := at C_Take\<rparr>)
      | C_Return \<Rightarrow> None)"

datatype draft_thread = Producer | Consumer nat

definition draft_step :: "string \<Rightarrow> string option \<Rightarrow> draft_entry list option \<Rightarrow> draft_info \<Rightarrow> draft_thread \<Rightarrow> draft \<Rightarrow> draft option" where
  "draft_step src dest dirp junk e s = (case e of
     Producer \<Rightarrow> draft_producer_step src dest dirp junk s
   | Consumer i \<Rightarrow> draft_consumer_step i s)"

section \<open>Main\<close>

text \<open>The size of the buffer is read and not used; \<open>argv[argc]\<close> is NULL.\<close>

definition draft_main :: "string list \<Rightarrow> (nat \<times> string \<times> string option) option cres" where
  "draft_main argv =
     (if length argv < 4 then Inr None
      else let num_consumers = c_atoi (argv ! 2) in
      if num_consumers \<le> 0 then Inl OutOfBounds
      else Inr (Some (nat num_consumers, argv ! 3, if length argv = 4 then None else Some (argv ! 4))))"

definition draft_start :: "nat \<Rightarrow> string \<Rightarrow> (string \<Rightarrow> string option) \<Rightarrow> draft" where
  "draft_start num_consumers input disk =
     \<lparr>buffer = replicate MAX_BUFFER_SIZE zero_info, buffer_count = 0, buffer_index = 0, finished = False,
      num_files_copied = 0, num_dirs_copied = 0, fd_table = replicate 3 (Some F_Term), terminal_in = input, terminal_out = [],
      dest_files = disk, printed = [], producer_at = P_Start, consumers_at = replicate num_consumers C_Take\<rparr>"

text \<open>All threads have been joined.\<close>

definition draft_joined :: "draft \<Rightarrow> bool" where
  "draft_joined s \<longleftrightarrow> producer_at s = P_Return \<and> list_all (\<lambda>c. c = C_Return) (consumers_at s)"

section \<open>A small directory\<close>

fun entries_left :: "draft_entry list option \<Rightarrow> draft_producer \<Rightarrow> nat" where
  "entries_left dirp P_Start = (case dirp of None \<Rightarrow> 0 | Some es \<Rightarrow> length es)"
| "entries_left dirp (P_Next es) = length es"
| "entries_left dirp (P_Dest info opens es) = length es + 1"
| "entries_left dirp (P_Put info es) = length es + 1"
| "entries_left dirp P_Done = 0"
| "entries_left dirp P_Return = 0"
| "entries_left dirp P_Fault = 0"

fun in_hand :: "draft_consumer \<Rightarrow> draft_info option" where
  "in_hand (C_Read info n) = Some info"
| "in_hand (C_Write info bytes n) = Some info"
| "in_hand (C_Close_src info n) = Some info"
| "in_hand (C_Close_dest info n) = Some info"
| "in_hand C_Take = None"
| "in_hand C_Return = None"

text \<open>\<open>puts\<close> entries have been stored and \<open>takes\<close> taken, which together make the one index.\<close>

definition ring_at :: "nat \<Rightarrow> nat \<Rightarrow> draft \<Rightarrow> bool" where
  "ring_at puts takes s \<longleftrightarrow> takes \<le> puts \<and> buffer_count s = puts - takes \<and> buffer_index s = (puts + takes) mod MAX_BUFFER_SIZE
     \<and> length (buffer s) = MAX_BUFFER_SIZE \<and> (\<forall>j. puts + takes \<le> j \<and> j < MAX_BUFFER_SIZE \<longrightarrow> buffer s ! j = zero_info)"

definition blank_hand :: "draft_consumer \<Rightarrow> bool" where
  "blank_hand c \<longleftrightarrow> in_hand c = None \<or> in_hand c = Some zero_info"

definition blank_hands :: "draft \<Rightarrow> bool" where
  "blank_hands s \<longleftrightarrow> list_all blank_hand (consumers_at s) \<and> list_all (\<lambda>(name, n). name = [] \<and> n \<noteq> None) (printed s)"

definition small :: "draft_entry list option \<Rightarrow> draft \<Rightarrow> bool" where
  "small dirp s \<longleftrightarrow> blank_hands s \<and> (\<exists>puts takes. puts + entries_left dirp (producer_at s) \<le> 5 \<and> ring_at puts takes s)"

lemma producer_ring:
  assumes "draft_producer_step src dest dirp junk s = Some s'" "ring_at puts takes s" "puts + entries_left dirp (producer_at s) \<le> 5"
  shows "\<exists>puts'. puts' + entries_left dirp (producer_at s') \<le> 5 \<and> ring_at puts' takes s'"
proof (cases "\<exists>info es. producer_at s = P_Put info es")
  case True
  then obtain info es where p: "producer_at s = P_Put info es" by blast
  with assms have s': "s' = s\<lparr>buffer := (buffer s)[buffer_index s := info], buffer_count := buffer_count s + 1,
      buffer_index := (buffer_index s + 1) mod MAX_BUFFER_SIZE, producer_at := P_Next es\<rparr>"
    by (simp add: draft_producer_step_def split: if_splits)
  have n: "puts + length es + 1 \<le> 5" "takes \<le> puts" using assms(2,3) p by (simp_all add: ring_at_def)
  then have "buffer_index s = puts + takes" using assms(2) by (simp add: ring_at_def MAX_BUFFER_SIZE_def)
  then have "ring_at (puts + 1) takes s'" using s' assms(2) n by (auto simp: ring_at_def mod_Suc_eq)
  then show ?thesis using n s' by (intro exI [of _ "puts + 1"]) simp
next
  case False
  then have "ring_at puts takes s' \<and> entries_left dirp (producer_at s') \<le> entries_left dirp (producer_at s)"
    using assms(1,2)
    by (cases "producer_at s" rule: draft_producer.exhaust)
      (auto simp: draft_producer_step_def ring_at_def Let_def split: list.splits option.splits draft_kind.splits if_splits prod.splits)
  then show ?thesis using assms(3) by (intro exI [of _ puts]) simp
qed

lemma producer_hands:
  "draft_producer_step src dest dirp junk s = Some s' \<Longrightarrow> consumers_at s' = consumers_at s \<and> printed s' = printed s"
  by (cases "producer_at s" rule: draft_producer.exhaust)
    (auto simp: draft_producer_step_def Let_def split: list.splits option.splits draft_kind.splits if_splits prod.splits)

text \<open>A consumer can only take a place that nothing has been stored in.\<close>

lemma consumer_ring:
  assumes "draft_consumer_step i s = Some s'" "ring_at puts takes s" "puts \<le> 5"
  shows "producer_at s' = producer_at s \<and> (\<exists>takes'. ring_at puts takes' s')"
proof (cases "consumers_at s ! i = C_Take \<and> buffer_count s \<noteq> 0")
  case True
  let ?t = "s\<lparr>buffer_count := buffer_count s - 1, buffer_index := (buffer_index s + 1) mod MAX_BUFFER_SIZE\<rparr>"
  have "ring_at puts (takes + 1) ?t" using assms(2) True by (auto simp: ring_at_def mod_Suc_eq)
  then have "ring_at puts (takes + 1) s' \<and> producer_at s' = producer_at s"
    using assms(1) True by (auto simp: draft_consumer_step_def Let_def ring_at_def split: if_splits)
  then show ?thesis by blast
next
  case False
  then have "ring_at puts takes s' \<and> producer_at s' = producer_at s"
    using assms(1,2)
    by (cases "consumers_at s ! i")
      (auto simp: draft_consumer_step_def Let_def ring_at_def split: if_splits option.splits draft_fd.splits)
  then show ?thesis by blast
qed

lemma take_is_blank:
  assumes "ring_at puts takes s" "puts \<le> 5" "buffer_count s \<noteq> 0"
  shows "buffer s ! buffer_index s = zero_info"
proof -
  have "takes < puts" using assms by (simp add: ring_at_def)
  then have "buffer_index s = puts + takes" "puts + takes < MAX_BUFFER_SIZE" using assms by (simp_all add: ring_at_def MAX_BUFFER_SIZE_def)
  then show ?thesis using assms(1) by (simp add: ring_at_def)
qed

lemma consumer_hands:
  assumes "draft_consumer_step i s = Some s'" "blank_hands s" "buffer_count s \<noteq> 0 \<longrightarrow> buffer s ! buffer_index s = zero_info"
  shows "blank_hands s'"
proof -
  have i: "i < length (consumers_at s)" using assms(1) by (auto simp: draft_consumer_step_def split: if_splits)
  have hand: "blank_hand (consumers_at s ! i)" using assms(2) i by (simp add: blank_hands_def list_all_length)
  have "\<exists>pc. consumers_at s' = (consumers_at s)[i := pc] \<and> blank_hand pc
      \<and> (printed s' = printed s \<or> (\<exists>n. printed s' = printed s @ [([], Some n)]))"
    using assms(1,3) hand i
    by (cases "consumers_at s ! i")
      (auto simp: draft_consumer_step_def Let_def blank_hand_def zero_info_def split: if_splits option.splits draft_fd.splits)
  then obtain pc where "consumers_at s' = (consumers_at s)[i := pc]" "blank_hand pc"
      "printed s' = printed s \<or> (\<exists>n. printed s' = printed s @ [([], Some n)])" by blast
  then show ?thesis using assms(2) set_update_subset_insert [of "consumers_at s" i pc]
    by (auto simp: blank_hands_def list_all_iff)
qed

lemma small_step:
  assumes "small dirp s" "draft_step src dest dirp junk e s = Some s'"
  shows "small dirp s'"
proof -
  obtain puts takes where r: "puts + entries_left dirp (producer_at s) \<le> 5" "ring_at puts takes s" and h: "blank_hands s"
    using assms(1) by (auto simp: small_def)
  show ?thesis
  proof (cases e)
    case Producer
    then have run: "draft_producer_step src dest dirp junk s = Some s'" using assms(2) by (simp add: draft_step_def)
    then have "blank_hands s'" using producer_hands [OF run] h by (simp add: blank_hands_def)
    then show ?thesis using producer_ring [OF run r(2,1)] by (auto simp: small_def)
  next
    case (Consumer i)
    then have run: "draft_consumer_step i s = Some s'" using assms(2) by (simp add: draft_step_def)
    have five: "puts \<le> 5" using r(1) by simp
    have "blank_hands s'" by (rule consumer_hands [OF run h]) (use take_is_blank [OF r(2) five] in blast)
    then show ?thesis using consumer_ring [OF run r(2) five] r(1) by (auto simp: small_def)
  qed
qed

text \<open>
  C39. The consumers of the draft never get an entry that the producer has stored. In a
  directory of up to five entries, with any number of consumers and in any schedule, every
  entry that a consumer has in its hands is an empty place of the buffer, behind the last
  one stored: descriptor 0 for reading and for writing, and no names. Every line it prints
  reports a nameless file as copied. (It still moves bytes: from descriptor 0 to descriptor
  0, which is the terminal until the consumer closes it, and after that whatever the
  producer opens next.)
\<close>

theorem draft_takes_empty_places:
  assumes "length entries \<le> 5"
  shows "\<exists>s. s = sched_run (draft_step src dest (Some entries) junk) es (draft_start n input disk)
    \<and> list_all blank_hand (consumers_at s)
    \<and> list_all (\<lambda>(name, bytes). name = [] \<and> bytes \<noteq> None) (printed s)"
proof -
  let ?s = "sched_run (draft_step src dest (Some entries) junk) es (draft_start n input disk)"
  have "ring_at 0 0 (draft_start n input disk)" by (simp add: ring_at_def draft_start_def)
  moreover have "blank_hands (draft_start n input disk)" by (simp add: blank_hands_def blank_hand_def draft_start_def list_all_iff)
  ultimately have "small (Some entries) (draft_start n input disk)"
    using assms(1) unfolding small_def by (intro conjI exI [of _ 0]) (simp_all add: draft_start_def)
  then have "small (Some entries) ?s"
    by (intro sched_run_invariant [where I = "small (Some entries)" and step = "draft_step src dest (Some entries) junk"]) (rule small_step)
  then show ?thesis by (simp add: small_def blank_hands_def)
qed

definition draft_demo :: "draft_entry list" where
  "draft_demo = [\<lparr>d_name = ''x'', d_kind = KReg ''data'', d_opens_src = True, d_opens_dest = True\<rparr>]"

lemma draft_demo_producer:
  "sched_run (draft_step ''a'' (Some ''b'') (Some draft_demo) zero_info) [Producer, Producer, Producer, Producer, Producer, Producer]
      (draft_start 1 [] Map.empty)
    = \<lparr>buffer = (replicate MAX_BUFFER_SIZE zero_info)[0 := \<lparr>fd_src = 3, fd_dest = 4, src_filename = ''a/x'', dest_filename = ''b/x''\<rparr>],
       buffer_count = 1, buffer_index = 1, finished = True, num_files_copied = 1, num_dirs_copied = 0,
       fd_table = [Some F_Term, Some F_Term, Some F_Term, Some (F_Src ''data''), Some (F_Dest ''b/x'')], terminal_in = [], terminal_out = [],
       dest_files = [''b/x'' \<mapsto> []], printed = [], producer_at = P_Return, consumers_at = [C_Take]\<rparr>"
  by (simp add: draft_demo_def draft_start_def draft_step_def draft_producer_step_def zero_info_def MAX_PATH_LENGTH_def numeral_3_eq_3)
    (simp add: MAX_BUFFER_SIZE_def)

lemma draft_takes_empty_places_witness:
  "\<exists>t. t = sched_run (draft_step ''a'' (Some ''b'') (Some draft_demo) zero_info)
      ([Producer, Producer, Producer, Producer, Producer, Producer]
        @ [Consumer 0, Consumer 0, Consumer 0, Consumer 0, Consumer 0]) (draft_start 1 [] Map.empty)
    \<and> draft_joined t \<and> dest_files t ''b/x'' = Some [] \<and> list_all (\<lambda>(name, bytes). name = [] \<and> bytes \<noteq> None) (printed t)"
proof -
  let ?t = "sched_run (draft_step ''a'' (Some ''b'') (Some draft_demo) zero_info) ([Producer, Producer, Producer, Producer, Producer, Producer]
        @ [Consumer 0, Consumer 0, Consumer 0, Consumer 0, Consumer 0]) (draft_start 1 [] Map.empty)"
  have five: "length draft_demo \<le> 5" by (simp add: draft_demo_def)
  let ?u = "sched_run (draft_step ''a'' (Some ''b'') (Some draft_demo) zero_info) [Producer, Producer, Producer, Producer, Producer, Producer]
        (draft_start 1 [] Map.empty)"
  have place: "buffer ?u ! 1 = zero_info" unfolding draft_demo_producer by (simp add: MAX_BUFFER_SIZE_def)
  have "consumers_at ?t = [C_Return] \<and> producer_at ?t = P_Return \<and> dest_files ?t = [''b/x'' \<mapsto> []]"
    unfolding sched_run_append using place unfolding draft_demo_producer
    by (simp add: draft_step_def draft_consumer_step_def zero_fields Let_def get_fd_def free_fd_def)
  then have "draft_joined ?t \<and> dest_files ?t ''b/x'' = Some []" by (simp add: draft_joined_def)
  moreover have "list_all (\<lambda>(name, bytes). name = [] \<and> bytes \<noteq> None) (printed ?t)"
  proof -
    obtain s where "s = ?t" "list_all (\<lambda>(name, bytes). name = [] \<and> bytes \<noteq> None) (printed s)"
      by (rule exE [OF draft_takes_empty_places [OF five]], elim conjE, rule that)
    then show ?thesis by (simp only:)
  qed
  ultimately show ?thesis by (intro exI [of _ ?t] conjI refl) simp_all
qed

section \<open>A directory that cannot be opened\<close>

text \<open>The producer returns without setting \<open>done\<close>: no consumer ever returns, and \<open>main\<close> waits for ever.\<close>

lemma draft_hangs:
  assumes "0 < n"
  shows "\<not> draft_joined (sched_run (draft_step src dest None junk) es (draft_start n input disk))"
proof -
  let ?I = "\<lambda>s. consumers_at s = replicate n C_Take \<and> buffer_count s = 0 \<and> \<not> finished s \<and> producer_at s \<in> {P_Start, P_Return}"
  have "?I (sched_run (draft_step src dest None junk) es (draft_start n input disk))"
  proof (rule sched_run_invariant [where I = ?I and step = "draft_step src dest None junk"])
    show "?I s'" if "?I s" "draft_step src dest None junk e s = Some s'" for s e s'
      using that by (cases e) (auto simp: draft_step_def draft_producer_step_def draft_consumer_step_def split: if_splits)
  qed (simp add: draft_start_def)
  then show ?thesis using assms by (cases n) (auto simp: draft_joined_def)
qed

end
