(* ===== verification/ShopClient.thy ===== *)
theory ShopClient
  imports ShopModel CText
begin

text \<open>
  The client of the pide shop, \<open>final/client.c\<close>, and the log that client and server share,
  \<open>writeToLog\<close> of \<open>final/final_common.c\<close>.

  The client is a function of the messages that the server sends; \<^verbatim>\<open>rand\<close> is a sequence of
  numbers that are not negative. The log is a step function: processes with several threads
  write to one file under a lock that belongs to the process.
\<close>

section \<open>The order\<close>

record sehirPopulasyon =
  city_X :: int
  city_Y :: int
  clientCapacity :: int
  orderID :: int
  motoID :: int
  c_pid :: int
  status :: orderStatus

text \<open>\<^verbatim>\<open>rand() % m\<close>.\<close>

definition rand_mod :: "int \<Rightarrow> int \<Rightarrow> int cres" where
  "rand_mod r m = (if m = 0 then Inl DivByZero else Inr (c_mod r m))"

fun initializeVariables :: "(nat \<Rightarrow> int) \<Rightarrow> int \<Rightarrow> int \<Rightarrow> nat \<Rightarrow> nat \<Rightarrow> (int \<times> int) list cres" where
  "initializeVariables rand X Y k 0 = Inr []"
| "initializeVariables rand X Y k (Suc n) =
     cbind (rand_mod (rand k) X) (\<lambda>x. cbind (rand_mod (rand (k + 1)) Y) (\<lambda>y.
     cbind (initializeVariables rand X Y (k + 2) n) (\<lambda>vs. Inr ((x, y) # vs))))"

text \<open>What is sent after the connection; the array of homes must have a positive length.\<close>

definition client_order :: "(nat \<Rightarrow> int) \<Rightarrow> int \<Rightarrow> string list \<Rightarrow> (sehirPopulasyon \<times> (int \<times> int) list) option cres" where
  "client_order rand pid argv =
     (if length argv \<noteq> 6 then Inr None
      else let numClients = c_atoi (argv ! 3); sizex = c_atoi (argv ! 4); sizey = c_atoi (argv ! 5) in
      if numClients \<le> 0 then Inl OutOfBounds
      else cbind (initializeVariables rand sizex sizey 0 (nat numClients)) (\<lambda>vs.
        Inr (Some (\<lparr>city_X = sizex, city_Y = sizey, clientCapacity = numClients, orderID = 0, motoID = 0,
          c_pid = pid, status = REQUESTED\<rparr>, vs))))"

section \<open>The messages\<close>

text \<open>The line for a message, and, if the client ends with it, its exit code.\<close>

definition client_turn :: "sehirPopulasyon \<Rightarrow> string \<times> int option" where
  "client_turn m = (case status m of
       BURNED \<Rightarrow> (ln ''>Shop has been burned down, don't wait orders'', Some 1)
     | PREPARED \<Rightarrow> (ln (''>pide id :'' @ dec (orderID m) @ '' is prepared''), None)
     | ON_DELIVERY \<Rightarrow> (ln (''>pide id :'' @ dec (orderID m) @ '' on delivery (Moto id: '' @ dec (motoID m) @ '')''), None)
     | DELIVERED \<Rightarrow> (ln ''>All customers served '' @ ln ''>Log file written ..'', Some 0)
     | _ \<Rightarrow> (ln ''>Unknown Error occured'', None))"

text \<open>
  How the loop goes on when the messages are used up: it blocks in \<^verbatim>\<open>recv\<close>, or, when the server
  has closed the connection, \<^verbatim>\<open>recv\<close> returns at once and the last message is taken again.
\<close>

datatype client_end = C_Exited int | C_Blocked | C_Repeats string

record client_run =
  printed :: string
  answers :: "orderStatus list"
  outcome :: client_end

fun client_loop :: "bool \<Rightarrow> sehirPopulasyon \<Rightarrow> sehirPopulasyon list \<Rightarrow> client_run" where
  "client_loop closed cityInfo [] =
     (if \<not> closed then \<lparr>printed = [], answers = [], outcome = C_Blocked\<rparr>
      else case client_turn cityInfo of
          (text, None) \<Rightarrow> \<lparr>printed = [], answers = [], outcome = C_Repeats text\<rparr>
        | (text, Some code) \<Rightarrow> \<lparr>printed = text, answers = [status cityInfo], outcome = C_Exited code\<rparr>)"
| "client_loop closed cityInfo (m # ms) = (case client_turn m of
       (text, None) \<Rightarrow> let r = client_loop closed m ms in r\<lparr>printed := text @ printed r\<rparr>
     | (text, Some code) \<Rightarrow> \<lparr>printed = text, answers = [status m], outcome = C_Exited code\<rparr>)"

text \<open>\<^verbatim>\<open>SIGINT\<close>.\<close>

definition client_handler :: "orderStatus list \<times> string \<times> int" where
  "client_handler = ([CANCELLED], ln ''^C signal .. cancelling orders.. editing log..'', 0)"

section \<open>The log\<close>

datatype log_pc = L_Open | L_Lock | L_Write | L_Unlock | L_Close | L_Done int

record log_call =
  l_process :: nat
  l_text :: string
  l_pc :: log_pc

record log_state =
  l_file :: string
  l_owner :: "nat option"
  l_calls :: "log_call list"

definition log_goto :: "nat \<Rightarrow> log_pc \<Rightarrow> log_state \<Rightarrow> log_state" where
  "log_goto k pc s = s\<lparr>l_calls := (l_calls s)[k := (l_calls s ! k)\<lparr>l_pc := pc\<rparr>]\<rparr>"

text \<open>
  A step of a call. \<^verbatim>\<open>F_SETLK\<close> does not wait: it fails if another process has the lock. Every
  \<^verbatim>\<open>close\<close> of the file, also that of another thread or behind an error, gives up the lock of the
  process. \<^verbatim>\<open>O_APPEND\<close> makes a \<^verbatim>\<open>write\<close> one step; the flag says whether the call of the
  system works.
\<close>

definition log_release :: "nat \<Rightarrow> log_state \<Rightarrow> log_state" where
  "log_release p s = (if l_owner s = Some p then s\<lparr>l_owner := None\<rparr> else s)"

definition writeToLog_step :: "nat \<times> bool \<Rightarrow> log_state \<Rightarrow> log_state option" where
  "writeToLog_step e s = (case e of (k, ok) \<Rightarrow>
     if length (l_calls s) \<le> k then None
     else let c = l_calls s ! k; p = l_process c in case l_pc c of
         L_Open \<Rightarrow> Some (log_goto k (if ok then L_Lock else L_Done (-1)) s)
       | L_Lock \<Rightarrow> if ok \<and> (l_owner s = None \<or> l_owner s = Some p)
           then Some (log_goto k L_Write (s\<lparr>l_owner := Some p\<rparr>))
           else Some (log_goto k (L_Done (-1)) (log_release p s))
       | L_Write \<Rightarrow> if ok then Some (log_goto k L_Unlock (s\<lparr>l_file := l_file s @ l_text c\<rparr>))
           else Some (log_goto k (L_Done (-1)) (log_release p s))
       | L_Unlock \<Rightarrow> if ok then Some (log_goto k L_Close (log_release p s))
           else Some (log_goto k (L_Done (-1)) (log_release p s))
       | L_Close \<Rightarrow> Some (log_goto k (L_Done (if ok then 0 else -1)) (log_release p s))
       | L_Done r \<Rightarrow> None)"

end
