(* ===== verification/ShopClientProps.thy ===== *)
theory ShopClientProps
  imports ShopClient ShopInv
begin

text \<open>
  Properties of the client of the pide shop, alone and with the messages that the server can
  send, and of the log.
\<close>

section \<open>The client\<close>

definition final :: "sehirPopulasyon \<Rightarrow> bool" where
  "final m \<longleftrightarrow> status m = BURNED \<or> status m = DELIVERED"

lemma client_turn_final: "snd (client_turn m) = (if final m then Some (if status m = BURNED then 1 else 0) else None)"
  by (simp add: client_turn_def final_def split: orderStatus.split)

text \<open>The first message that ends the client, if there is one.\<close>

lemma client_loop_eq:
  "\<not> final c \<Longrightarrow> client_loop closed c ms =
     (let before = takeWhile (\<lambda>m. \<not> final m) ms in case dropWhile (\<lambda>m. \<not> final m) ms of
        m # _ \<Rightarrow> \<lparr>printed = concat (map (fst \<circ> client_turn) before) @ fst (client_turn m), answers = [status m],
                  outcome = C_Exited (if status m = BURNED then 1 else 0)\<rparr>
      | [] \<Rightarrow> \<lparr>printed = concat (map (fst \<circ> client_turn) before), answers = [],
                outcome = if closed then C_Repeats (fst (client_turn (List.last (c # ms)))) else C_Blocked\<rparr>)"
proof (induction ms arbitrary: c)
  case Nil
  then show ?case using client_turn_final [of c] by (cases "client_turn c") simp
next
  case (Cons m ms)
  show ?case
  proof (cases "final m")
    case True
    then show ?thesis using client_turn_final [of m] by (cases "client_turn m") simp
  next
    case False
    then have "client_loop closed c (m # ms) = (let r = client_loop closed m ms in r\<lparr>printed := fst (client_turn m) @ printed r\<rparr>)"
      using client_turn_final [of m] by (cases "client_turn m") simp
    then show ?thesis using Cons.IH [OF False] False
      by (cases "dropWhile (\<lambda>m. \<not> final m) ms") (simp_all add: Let_def del: dropWhile_eq_Nil_conv)
  qed
qed

section \<open>The messages of the server\<close>

definition known :: "shop \<Rightarrow> bool" where
  "known s \<longleftrightarrow> (\<forall>m\<in>set (sent s). fst m = PREPARED \<or> fst m = ON_DELIVERY \<or> fst m = DELIVERED \<or> fst m = BURNED)"

lemma known_sent: "known s \<Longrightarrow> sent s' = sent s \<Longrightarrow> known s'"
  by (simp add: known_def)

lemma sent_sel [simp]:
  "sent (cook_goto i cp s) = sent s" "sent (timer_goto k tp s) = sent s" "sent (moto_set j f s) = sent s"
  "sent (moto_goto j mp s) = sent s" "sent (main_goto gp s) = sent s" "sent (broadcast c s) = sent s"
  by (simp_all add: cook_goto_def timer_goto_def moto_set_def moto_goto_def main_goto_def broadcast_def)

lemma asci_sent: "pideShopAsci i s = Some s' \<Longrightarrow> sent s' = sent s"
  by (auto simp: pideShopAsci_def cook_order_def cook_app_def cook_take_def cook_put_def cook_oven_test_def cook_start_def
      split: if_splits cook_pc.splits sum.splits)

lemma timer_sent: "timerHandler k s = Some s' \<Longrightarrow> sent s' = sent s \<or> (\<exists>n. sent s' = sent s @ [(PREPARED, n)])"
  by (auto simp: timerHandler_def timer_app_def timer_take_def timer_dequeue_def timer_oven_def timer_put_def timer_prep_def
      split: if_splits timer_pc.splits sum.splits)

lemma moto_sent:
  "pideShopMoto j s = Some s' \<Longrightarrow> sent s' = sent s \<or> (\<exists>n. sent s' = sent s @ [(ON_DELIVERY, n)]) \<or> sent s' = sent s @ [(DELIVERED, 0)]"
  by (auto simp: pideShopMoto_def moto_take_def moto_unlock_def moto_woke_def delivery_def moto_count_def moto_arrive_def
      moto_check_def Let_def split: if_splits moto_pc.splits sum.splits)

lemma main_sent: "shop_main s = Some s' \<Longrightarrow> sent s' = sent s"
  by (auto simp: shop_main_def handleClient_put_def split: if_splits main_pc.splits sum.splits list.splits)

lemma message_sent: "client_message st s = Some s' \<Longrightarrow> sent s' = sent s"
  by (auto simp: client_message_def cancel_handler_def split: if_splits orderStatus.splits)

lemma known_step: "known s \<Longrightarrow> shop_step ev s = Some s' \<Longrightarrow> known s'"
proof (cases ev)
  case (Step t)
  assume k: "known s" and s: "shop_step ev s = Some s'"
  show ?thesis
  proof (cases t)
    case Main
    then show ?thesis using k s Step main_sent [of s s'] by (simp add: shop_step_def known_def)
  next
    case (Cook i)
    then show ?thesis using k s Step asci_sent [of i s s'] by (simp add: shop_step_def known_def)
  next
    case (Timer i)
    then show ?thesis using k s Step timer_sent [of i s s'] by (auto simp: shop_step_def known_def)
  next
    case (Moto i)
    then show ?thesis using k s Step moto_sent [of i s s'] by (auto simp: shop_step_def known_def)
  qed
next
  case (Message st)
  assume "known s" "shop_step ev s = Some s'"
  then show ?thesis using Message message_sent [of st s s'] by (simp add: shop_step_def known_def)
qed (auto simp: shop_step_def prepare_def accept_connection_def burn_handler_def known_def
     split: if_splits cook_pc.splits)

lemma known_run: "known (sched_run shop_step es (shop_start n k oq vq pq))"
  by (rule sched_run_invariant [where I = known and step = shop_step])
    (auto intro: known_step simp: known_def [of "shop_start n k oq vq pq"], simp add: shop_start_def)

lemma known_line:
  "status m = PREPARED \<or> status m = ON_DELIVERY \<or> status m = DELIVERED \<or> status m = BURNED \<Longrightarrow>
   fst (client_turn m) \<noteq> ln ''>Unknown Error occured''"
  by (auto simp: client_turn_def ln_def)

text \<open>
  Every message that the server can send, in any schedule, has one of the four states that
  the client's \<^verbatim>\<open>switch\<close> knows.
\<close>

theorem shop_messages_typed:
  "fst ` set (sent (sched_run shop_step es (shop_start n k oq vq pq))) \<subseteq> {PREPARED, ON_DELIVERY, DELIVERED, BURNED}"
  using known_run [of es n k oq vq pq] by (auto simp: known_def)

text \<open>
  C34. Server and client together, for every schedule of the server and all messages it has
  sent: the client knows every one of them, so that it never reports an unknown error; it
  ends exactly when there is a message that the orders are delivered or the shop has burned,
  with the exit code and the answer for the first of these. Without one it waits, and if the
  server has closed the connection, it prints the line of the last message for ever.
\<close>

theorem shop_client_ends:
  assumes "map status ms = map fst (sent (sched_run shop_step es (shop_start n k oq vq pq)))" "status c = REQUESTED"
  shows "(\<forall>m\<in>set ms. fst (client_turn m) \<noteq> ln ''>Unknown Error occured'')
    \<and> (case find final ms of
         Some m \<Rightarrow> outcome (client_loop closed c ms) = C_Exited (if status m = BURNED then 1 else 0)
           \<and> answers (client_loop closed c ms) = [status m]
       | None \<Rightarrow> outcome (client_loop closed c ms) = (if closed then C_Repeats (fst (client_turn (List.last (c # ms)))) else C_Blocked)
           \<and> answers (client_loop closed c ms) = [])"
proof
  let ?s = "sched_run shop_step es (shop_start n k oq vq pq)"
  have "status m \<in> set (map fst (sent ?s))" if "m \<in> set ms" for m
    using that assms(1) by (metis image_eqI set_map)
  then have "status m = PREPARED \<or> status m = ON_DELIVERY \<or> status m = DELIVERED \<or> status m = BURNED" if "m \<in> set ms" for m
    using that known_run [of es n k oq vq pq] unfolding known_def by fastforce
  then show "\<forall>m\<in>set ms. fst (client_turn m) \<noteq> ln ''>Unknown Error occured''" using known_line by blast
  have "\<not> final c" using assms(2) by (simp add: final_def)
  from client_loop_eq [OF this, of closed ms]
  show "case find final ms of
         Some m \<Rightarrow> outcome (client_loop closed c ms) = C_Exited (if status m = BURNED then 1 else 0)
           \<and> answers (client_loop closed c ms) = [status m]
       | None \<Rightarrow> outcome (client_loop closed c ms) = (if closed then C_Repeats (fst (client_turn (List.last (c # ms)))) else C_Blocked)
           \<and> answers (client_loop closed c ms) = []"
    unfolding find_dropWhile comp_def Let_def
    by (cases "dropWhile (\<lambda>m. \<not> final m) ms") (simp_all del: dropWhile_eq_Nil_conv client_loop.simps)
qed

lemma burned_run:
  "sent (sched_run shop_step [Connect [(1, 1)], Step Main, Step Main, Interrupt] (shop_start n k oq vq pq)) = [(BURNED, 0)]"
  by (simp add: shop_step_def shop_start_def accept_connection_def shop_main_def main_goto_def burn_handler_def)

definition a_city :: "orderStatus \<Rightarrow> sehirPopulasyon" where
  "a_city st = \<lparr>city_X = 9, city_Y = 9, clientCapacity = 1, orderID = 0, motoID = 0, c_pid = 7, status = st\<rparr>"

lemma shop_client_ends_witness:
  "outcome (client_loop True (a_city REQUESTED) [a_city BURNED]) = C_Exited 1"
proof -
  let ?q = "\<lparr>q_data = replicate 6 undefined, q_front = 0, q_rear = 5, q_size = 0, q_capacity = 6\<rparr>"
  have "map status [a_city BURNED] = map fst (sent (sched_run shop_step [Connect [(1, 1)], Step Main, Step Main, Interrupt] (shop_start 1 1 ?q ?q ?q)))"
    unfolding burned_run by (simp add: a_city_def)
  from shop_client_ends [OF this, of "a_city REQUESTED" True] show ?thesis
    by (simp add: final_def a_city_def del: client_loop.simps)
qed

end
