(* ===== verification/ShopLogProps.thy ===== *)
theory ShopLogProps
  imports ShopClient
begin

text \<open>Properties of the log that the processes of the pide shop write together.\<close>

text \<open>Which calls have written, and which have not.\<close>

definition has_written :: "log_pc \<Rightarrow> bool" where
  "has_written pc \<longleftrightarrow> pc = L_Unlock \<or> pc = L_Close \<or> pc = L_Done 0"

definition not_yet :: "log_pc \<Rightarrow> bool" where
  "not_yet pc \<longleftrightarrow> pc = L_Open \<or> pc = L_Lock \<or> pc = L_Write"

definition locked :: "log_pc \<Rightarrow> bool" where
  "locked pc \<longleftrightarrow> pc = L_Write \<or> pc = L_Unlock"

lemmas log_pc_defs = has_written_def not_yet_def locked_def

definition log_inv :: "string \<Rightarrow> (nat \<times> string) list \<Rightarrow> log_state \<Rightarrow> bool" where
  "log_inv file calls s \<longleftrightarrow> map (\<lambda>c. (l_process c, l_text c)) (l_calls s) = calls
     \<and> (\<exists>ws. distinct ws \<and> l_file s = file @ concat (map (\<lambda>k. snd (calls ! k)) ws)
        \<and> (\<forall>k\<in>set ws. k < length calls \<and> \<not> not_yet (l_pc (l_calls s ! k)))
        \<and> (\<forall>k<length calls. has_written (l_pc (l_calls s ! k)) \<longrightarrow> k \<in> set ws))"

text \<open>A step moves one call; it appends the text of the call exactly when the call has just written.\<close>

lemma writeToLog_step_cases:
  assumes "writeToLog_step (k, ok) s = Some s'"
  shows "k < length (l_calls s) \<and> (\<exists>pc. l_calls s' = (l_calls s)[k := (l_calls s ! k)\<lparr>l_pc := pc\<rparr>]
     \<and> (if l_pc (l_calls s ! k) = L_Write \<and> pc = L_Unlock then l_file s' = l_file s @ l_text (l_calls s ! k)
        else l_file s' = l_file s \<and> (has_written pc \<longrightarrow> has_written (l_pc (l_calls s ! k)))
          \<and> (not_yet pc \<longrightarrow> not_yet (l_pc (l_calls s ! k))))
     \<and> (locked pc \<longrightarrow> l_owner s' = Some (l_process (l_calls s ! k)) \<and> (l_owner s = None \<or> l_owner s = Some (l_process (l_calls s ! k)))
          \<or> l_owner s' = l_owner s \<and> locked (l_pc (l_calls s ! k)))
     \<and> (\<not> locked pc \<longrightarrow> l_owner s' = l_owner s \<or> l_owner s = Some (l_process (l_calls s ! k))))"
proof -
  have k: "k < length (l_calls s)" using assms by (simp add: writeToLog_step_def split: if_splits)
  note d = assms [unfolded writeToLog_step_def] k
  show ?thesis
  proof (cases "l_pc (l_calls s ! k)")
    case L_Open
    then have "s' = log_goto k (if ok then L_Lock else L_Done (-1)) s" using d by (simp add: Let_def)
    then show ?thesis using k L_Open
      by (intro conjI exI [of _ "if ok then L_Lock else L_Done (-1)"]) (simp_all add: log_goto_def log_pc_defs)
  next
    case L_Lock
    show ?thesis
    proof (cases "ok \<and> (l_owner s = None \<or> l_owner s = Some (l_process (l_calls s ! k)))")
      case True
      then have "s' = log_goto k L_Write (s\<lparr>l_owner := Some (l_process (l_calls s ! k))\<rparr>)" using d L_Lock by (simp add: Let_def)
      then show ?thesis using k L_Lock True
        by (intro conjI exI [of _ L_Write]) (simp_all add: log_goto_def log_pc_defs)
    next
      case False
      then have "s' = log_goto k (L_Done (-1)) (log_release (l_process (l_calls s ! k)) s)" using d L_Lock by (auto simp: Let_def)
      then show ?thesis using k L_Lock
        by (intro conjI exI [of _ "L_Done (-1)"]) (simp_all add: log_goto_def log_pc_defs log_release_def)
    qed
  next
    case L_Write
    show ?thesis
    proof (cases ok)
      case True
      then have "s' = log_goto k L_Unlock (s\<lparr>l_file := l_file s @ l_text (l_calls s ! k)\<rparr>)" using d L_Write by (simp add: Let_def)
      then show ?thesis using k L_Write
        by (intro conjI exI [of _ L_Unlock]) (simp_all add: log_goto_def log_pc_defs)
    next
      case False
      then have "s' = log_goto k (L_Done (-1)) (log_release (l_process (l_calls s ! k)) s)" using d L_Write by (simp add: Let_def)
      then show ?thesis using k L_Write
        by (intro conjI exI [of _ "L_Done (-1)"]) (simp_all add: log_goto_def log_pc_defs log_release_def)
    qed
  next
    case L_Unlock
    then have "s' = log_goto k (if ok then L_Close else L_Done (-1)) (log_release (l_process (l_calls s ! k)) s)" using d by (auto simp: Let_def)
    then show ?thesis using k L_Unlock
      by (intro conjI exI [of _ "if ok then L_Close else L_Done (-1)"]) (simp_all add: log_goto_def log_pc_defs log_release_def)
  next
    case L_Close
    then have "s' = log_goto k (L_Done (if ok then 0 else -1)) (log_release (l_process (l_calls s ! k)) s)" using d by (simp add: Let_def)
    then show ?thesis using k L_Close
      by (intro conjI exI [of _ "L_Done (if ok then 0 else -1)"]) (simp_all add: log_goto_def log_pc_defs log_release_def)
  next
    case (L_Done r)
    then show ?thesis using d by (simp add: Let_def)
  qed
qed

lemma log_inv_step:
  assumes "log_inv file calls s" "writeToLog_step e s = Some s'"
  shows "log_inv file calls s'"
proof -
  obtain k ok where e: "e = (k, ok)" by fastforce
  obtain ws where ws: "map (\<lambda>c. (l_process c, l_text c)) (l_calls s) = calls" "distinct ws"
      "l_file s = file @ concat (map (\<lambda>k. snd (calls ! k)) ws)"
      "\<forall>k\<in>set ws. k < length calls \<and> \<not> not_yet (l_pc (l_calls s ! k))"
      "\<forall>k<length calls. has_written (l_pc (l_calls s ! k)) \<longrightarrow> k \<in> set ws"
    using assms(1) unfolding log_inv_def by blast
  obtain pc where k: "k < length (l_calls s)" and pc: "l_calls s' = (l_calls s)[k := (l_calls s ! k)\<lparr>l_pc := pc\<rparr>]"
      "if l_pc (l_calls s ! k) = L_Write \<and> pc = L_Unlock then l_file s' = l_file s @ l_text (l_calls s ! k)
        else l_file s' = l_file s \<and> (has_written pc \<longrightarrow> has_written (l_pc (l_calls s ! k)))
          \<and> (not_yet pc \<longrightarrow> not_yet (l_pc (l_calls s ! k)))"
    using writeToLog_step_cases [OF assms(2) [unfolded e]] by blast
  have len: "length calls = length (l_calls s)" and tx: "snd (calls ! k) = l_text (l_calls s ! k)"
    using ws(1) k by auto
  have "(\<lambda>c. (l_process c, l_text c)) ((l_calls s ! k)\<lparr>l_pc := pc\<rparr>) = (l_process (l_calls s ! k), l_text (l_calls s ! k))" by simp
  then have same: "map (\<lambda>c. (l_process c, l_text c)) (l_calls s') = calls"
    using ws(1) k pc(1) by (metis (no_types, lifting) list_update_id map_update)
  have sel: "l_pc (l_calls s' ! i) = (if i = k then pc else l_pc (l_calls s ! i))" if "i < length calls" for i
    using k pc(1) by simp
  let ?ws = "if l_pc (l_calls s ! k) = L_Write \<and> pc = L_Unlock then ws @ [k] else ws"
  have "distinct ?ws" using ws(2,4) by (auto simp: not_yet_def)
  moreover have "l_file s' = file @ concat (map (\<lambda>k. snd (calls ! k)) ?ws)" using pc(2) ws(3) tx by auto
  moreover have "\<forall>i\<in>set ?ws. i < length calls \<and> \<not> not_yet (l_pc (l_calls s' ! i))"
    using ws(4) sel pc(2) k len by (auto simp: not_yet_def split: if_splits)
  moreover have "\<forall>i<length calls. has_written (l_pc (l_calls s' ! i)) \<longrightarrow> i \<in> set ?ws"
    using ws(5) sel pc(2) by (auto split: if_splits)
  ultimately show ?thesis unfolding log_inv_def using same by blast
qed

lemma log_inv_run: "log_inv file calls s \<Longrightarrow> log_inv file calls (sched_run writeToLog_step es s)"
  by (rule sched_run_invariant [where I = "log_inv file calls" and step = writeToLog_step]) (erule (1) log_inv_step)

definition log_excl :: "log_state \<Rightarrow> bool" where
  "log_excl s \<longleftrightarrow> (\<forall>k<length (l_calls s). locked (l_pc (l_calls s ! k)) \<longrightarrow> l_owner s = Some (l_process (l_calls s ! k)))
     \<and> distinct (map l_process (l_calls s))"

lemma log_excl_step:
  assumes "log_excl s" "writeToLog_step e s = Some s'"
  shows "log_excl s'"
proof -
  obtain k ok where e: "e = (k, ok)" by fastforce
  let ?p = "l_process (l_calls s ! k)"
  obtain pc where k: "k < length (l_calls s)" and calls: "l_calls s' = (l_calls s)[k := (l_calls s ! k)\<lparr>l_pc := pc\<rparr>]"
      and lock: "locked pc \<longrightarrow> l_owner s' = Some ?p \<and> (l_owner s = None \<or> l_owner s = Some ?p) \<or> l_owner s' = l_owner s \<and> locked (l_pc (l_calls s ! k))"
      and free: "\<not> locked pc \<longrightarrow> l_owner s' = l_owner s \<or> l_owner s = Some ?p"
    using writeToLog_step_cases [OF assms(2) [unfolded e]] by blast
  have "l_process ((l_calls s ! k)\<lparr>l_pc := pc\<rparr>) = ?p" by simp
  then have procs: "map l_process (l_calls s') = map l_process (l_calls s)"
    unfolding calls by (metis list_update_id map_update)
  have other: "l_process (l_calls s ! i) \<noteq> ?p" if "i < length (l_calls s)" "i \<noteq> k" for i
    using assms(1) that k unfolding log_excl_def by (metis length_map nth_eq_iff_index_eq nth_map)
  have "l_owner s' = Some (l_process (l_calls s' ! i))" if i: "i < length (l_calls s')" "locked (l_pc (l_calls s' ! i))" for i
  proof (cases "i = k")
    case True
    then show ?thesis using i lock calls k assms(1) by (auto simp: log_excl_def)
  next
    case False
    then have "l_owner s = Some (l_process (l_calls s ! i))" using i calls assms(1) by (simp add: log_excl_def)
    then show ?thesis using False other [of i] lock free calls i by (auto split: if_splits)
  qed
  then show ?thesis using assms(1) procs by (simp add: log_excl_def)
qed

lemma log_excl_run: "log_excl s \<Longrightarrow> log_excl (sched_run writeToLog_step es s)"
  by (rule sched_run_invariant [where I = log_excl and step = writeToLog_step]) (erule (1) log_excl_step)

text \<open>
  The log, in every schedule of any number of calls in any processes, with any errors: it
  consists of the whole lines of some of the calls, in some order and none of them twice, and
  the line of every call that has returned 0 is among them. If every call is in a process of
  its own, no two of them are between the lock and the unlock at once.
\<close>

theorem log_lines:
  assumes "\<forall>c\<in>set (l_calls s). l_pc c = L_Open"
    and "sched_run writeToLog_step es s = s'"
  shows "(\<exists>ws. distinct ws \<and> l_file s' = l_file s @ concat (map (\<lambda>k. l_text (l_calls s ! k)) ws)
       \<and> (\<forall>k<length (l_calls s). l_pc (l_calls s' ! k) = L_Done 0 \<longrightarrow> k \<in> set ws)
       \<and> (\<forall>k\<in>set ws. k < length (l_calls s) \<and> l_pc (l_calls s' ! k) \<notin> {L_Open, L_Lock, L_Write}))
    \<and> (distinct (map l_process (l_calls s)) \<longrightarrow>
        (\<forall>i<length (l_calls s'). \<forall>j<length (l_calls s').
           locked (l_pc (l_calls s' ! i)) \<and> locked (l_pc (l_calls s' ! j)) \<longrightarrow> i = j))"
proof
  let ?calls = "map (\<lambda>c. (l_process c, l_text c)) (l_calls s)"
  have pc: "l_pc (l_calls s ! k) = L_Open" if "k < length (l_calls s)" for k using that assms(1) by simp
  have "log_inv (l_file s) ?calls s" using pc by (auto simp: log_inv_def has_written_def intro!: exI [of _ "[]"])
  then have "log_inv (l_file s) ?calls s'" unfolding assms(2) [symmetric]
    by (rule log_inv_run)
  then obtain ws where ws: "distinct ws" "l_file s' = l_file s @ concat (map (\<lambda>k. snd (?calls ! k)) ws)"
      "\<forall>k\<in>set ws. k < length ?calls \<and> \<not> not_yet (l_pc (l_calls s' ! k))"
      "\<forall>k<length ?calls. has_written (l_pc (l_calls s' ! k)) \<longrightarrow> k \<in> set ws"
    unfolding log_inv_def by blast
  have eq: "map (\<lambda>k. snd (?calls ! k)) ws = map (\<lambda>k. l_text (l_calls s ! k)) ws" using ws(3) by simp
  show "\<exists>ws. distinct ws \<and> l_file s' = l_file s @ concat (map (\<lambda>k. l_text (l_calls s ! k)) ws)
       \<and> (\<forall>k<length (l_calls s). l_pc (l_calls s' ! k) = L_Done 0 \<longrightarrow> k \<in> set ws)
       \<and> (\<forall>k\<in>set ws. k < length (l_calls s) \<and> l_pc (l_calls s' ! k) \<notin> {L_Open, L_Lock, L_Write})"
  proof (intro exI [of _ ws] conjI)
    show "l_file s' = l_file s @ concat (map (\<lambda>k. l_text (l_calls s ! k)) ws)" using ws(2) by (simp only: eq)
    show "\<forall>k<length (l_calls s). l_pc (l_calls s' ! k) = L_Done 0 \<longrightarrow> k \<in> set ws" using ws(4) by (simp add: has_written_def)
    show "\<forall>k\<in>set ws. k < length (l_calls s) \<and> l_pc (l_calls s' ! k) \<notin> {L_Open, L_Lock, L_Write}"
      using ws(3) by (simp add: not_yet_def)
  qed (rule ws(1))
  show "distinct (map l_process (l_calls s)) \<longrightarrow>
        (\<forall>i<length (l_calls s'). \<forall>j<length (l_calls s').
           locked (l_pc (l_calls s' ! i)) \<and> locked (l_pc (l_calls s' ! j)) \<longrightarrow> i = j)"
  proof
    assume "distinct (map l_process (l_calls s))"
    then have "log_excl s" using pc by (simp add: log_excl_def locked_def)
    then have x: "log_excl s'" unfolding assms(2) [symmetric]
      by (rule log_excl_run)
    show "\<forall>i<length (l_calls s'). \<forall>j<length (l_calls s').
           locked (l_pc (l_calls s' ! i)) \<and> locked (l_pc (l_calls s' ! j)) \<longrightarrow> i = j"
    proof (intro allI impI)
      fix i j
      assume ij: "i < length (l_calls s')" "j < length (l_calls s')" "locked (l_pc (l_calls s' ! i)) \<and> locked (l_pc (l_calls s' ! j))"
      then have "l_owner s' = Some (l_process (l_calls s' ! i))" "l_owner s' = Some (l_process (l_calls s' ! j))"
        using x unfolding log_excl_def by blast+
      then have "map l_process (l_calls s') ! i = map l_process (l_calls s') ! j" using ij(1,2) by simp
      then show "i = j" using x ij(1,2) nth_eq_iff_index_eq [of "map l_process (l_calls s')" i j] by (simp add: log_excl_def)
    qed
  qed
qed

text \<open>A call that finds the lock taken loses its line: \<^verbatim>\<open>F_SETLK\<close> does not wait.\<close>

definition two_calls :: log_state where
  "two_calls = \<lparr>l_file = [], l_owner = None, l_calls = [\<lparr>l_process = 0, l_text = ''a'', l_pc = L_Open\<rparr>, \<lparr>l_process = 1, l_text = ''b'', l_pc = L_Open\<rparr>]\<rparr>"

lemma log_line_lost:
  "let s = sched_run writeToLog_step (map (\<lambda>k. (k, True)) [0, 0, 1, 1, 0, 0, 0]) two_calls
   in l_file s = ''a'' \<and> l_pc (l_calls s ! 0) = L_Done 0 \<and> l_pc (l_calls s ! 1) = L_Done (-1)"
  by code_simp

lemma log_lines_witness:
  "\<exists>ws. distinct ws \<and> ''ba'' = concat (map (\<lambda>k. l_text (l_calls two_calls ! k)) ws) \<and> {0, 1} \<subseteq> set ws"
proof -
  let ?es = "map (\<lambda>k. (k, True)) ([1, 1, 1, 1, 1, 0, 0, 0, 0, 0] :: nat list)"
  have run: "sched_run writeToLog_step ?es two_calls = \<lparr>l_file = ''ba'', l_owner = None,
     l_calls = [\<lparr>l_process = 0, l_text = ''a'', l_pc = L_Done 0\<rparr>, \<lparr>l_process = 1, l_text = ''b'', l_pc = L_Done 0\<rparr>]\<rparr>"
    by code_simp
  show ?thesis using log_lines [OF _ run] by (auto simp: two_calls_def less_Suc_eq)
qed

end
