(* ===== verification/Spec2Isabelle.thy ===== *)
theory Spec2Isabelle
  imports PideQueue CopyEnd ParkingLot MidStartProps GradeProps FifoSystemProps MidProps MidTable MidTransfer ShopProps TermProps OldCopierProps DirSession DirHostsProps
    FileExerciseProps FileDupProps Bibo4 MidOldTransfer CopierDraft ShopClientProps ShopLogProps
begin

text \<open>
  Verification library of the system-programming exercises.

  The repository is a collection of independent C programs, one per directory of
  \<^verbatim>\<open>src\<close>. Each is modelled by its own theories, over a small shared layer; programs do not
  call each other. Where two programs have the same shape (a producer, a bounded queue, a
  pool of consumers), they share the interface of \<^verbatim>\<open>BoundedQueue\<close>.

  Shared layer

  \<^item> \<^verbatim>\<open>Prelude\<close>: results (\<open>cres\<close>: a fault or a value; the faults are the undefined
    behaviours of C that the programs can reach, and a loop that never returns), the
    truncating division of C, lists used as rings, schedules (\<open>sched_run\<close>: a list of events,
    a blocked event changes nothing) with their invariant rules, and the locale
    \<open>round_progress\<close>: what a rank, a readiness predicate and a goal need for the goal to be
    reached under every scheduler that runs in rounds (used for the copier, the calculator and
    the older transfer of the midterm).
  \<^item> \<^verbatim>\<open>Duplex\<close>: two processes over two channels, given by what each does next (\<open>action\<close>), and
    the locale \<open>commuting\<close>: where the moves of different processes commute, one run that ends
    decides every schedule, and \<open>round_progress\<close> holds (a \<open>sublocale\<close>). Interpreted on the
    sessions of \<^verbatim>\<open>hw3\<close> (\<open>bibo_talk\<close>) and \<^verbatim>\<open>hw6\<close> (\<open>talk\<close>).
  \<^item> \<^verbatim>\<open>CText\<close>: C strings, printing and reading of numbers, splitting, comparison.
  \<^item> \<^verbatim>\<open>BoundedQueue\<close>: the locale \<open>bounded_queue\<close>, the contract of a bounded FIFO
    queue over the list of its items, interpreted on the two queues of the repository
    (\<open>pq\<close> in \<^verbatim>\<open>PideQueue\<close>, \<open>cq\<close> in \<^verbatim>\<open>CopyQueue\<close>).

  Programs

  \<^item> \<^verbatim>\<open>hw4_2024\<close>, the parallel copier: \<^verbatim>\<open>CopyQueue\<close> is \<^verbatim>\<open>queue.c\<close> with the two-line
    uses in the main file; \<^verbatim>\<open>CopyPool\<close> is \<^verbatim>\<open>1801042624_main.c\<close>, a step machine of the
    manager (the recursion of \<open>copyAll\<close> as a stack of frames), any number of workers, the
    signal handler, the mutex and the condition variables (each the set of the threads that
    sleep on it, emptied by a broadcast; spurious wake-ups are events of the schedule), one
    step per access to shared state; \<^verbatim>\<open>CopyPlan\<close> has the specification of the traversal (\<open>tree_jobs\<close>) and the
    invariants that tie every byte to it; \<^verbatim>\<open>CopyProps\<close>: the tree is copied exactly in
    every complete run, mutual exclusion and bounds, no deadlock before a failure, and the
    runs that go wrong; \<^verbatim>\<open>CopyEnd\<close>: the program finishes under every scheduler that
    runs each thread once per round (\<open>round_progress\<close>), whatever spurious wake-ups came before.
  \<^item> \<^verbatim>\<open>final\<close>, the pide shop: \<^verbatim>\<open>PideQueue\<close> models every function of \<^verbatim>\<open>queue.c\<close>, which
    refines the list of its items; \<^verbatim>\<open>ShopModel\<close> is \<^verbatim>\<open>server.c\<close>, a step machine of the main
    thread, the manager, the cooks with their timer threads, the couriers and the signal;
    \<^verbatim>\<open>ShopInv\<close> has the accounts of apparatuses, oven places and pides, as weights of
    program counters (locale \<open>thread_weight\<close>, interpreted three times); \<^verbatim>\<open>ShopProps\<close> the
    properties and the schedules on which the shop stops; \<^verbatim>\<open>ShopClient\<close>,
    \<^verbatim>\<open>ShopClientProps\<close> and \<^verbatim>\<open>ShopLogProps\<close> are \<^verbatim>\<open>client.c\<close>, the client against every message
    the server can send, and \<open>writeToLog\<close>.
  \<^item> \<^verbatim>\<open>hw3_2024\<close>, the parking lot: \<^verbatim>\<open>ParkingLot\<close>, a step machine of the owner and two
    attendants with semaphores and unprotected counters; a signal makes blocked calls of
    \<open>sem_wait\<close> return with \<^verbatim>\<open>EINTR\<close>, which the threads do not check (\<open>interrupt_step\<close>).
  \<^item> \<^verbatim>\<open>hw1_2024\<close>, the grade book: \<^verbatim>\<open>GradeParse\<close> (command line), \<^verbatim>\<open>GradeBook\<close> (every
    operation on the files, the fixed arrays as bounds), \<^verbatim>\<open>GradeProps\<close> (searching, adding,
    displaying and sorting against lists of records).
  \<^item> \<^verbatim>\<open>hw2_2024\<close>, the FIFO calculator: \<^verbatim>\<open>FifoCalc\<close> (\<^verbatim>\<open>common.c\<close> and the children of
    \<^verbatim>\<open>hw2.c\<close> as functions of the bytes they read), \<^verbatim>\<open>FifoProps\<close> (the printed total for
    every array that fits, both orders of the writers, and the waiting loop of the parent),
    \<^verbatim>\<open>FifoSystem\<close> (start, parent, both children and the handler of \<^verbatim>\<open>SIGCHLD\<close> as one machine over
    the two FIFOs) and \<^verbatim>\<open>FifoSystemProps\<close> (its invariant, its progress by
    \<open>round_progress\<close>, and which arrays the allocated buffers can hold at all).
  \<^item> \<^verbatim>\<open>midterm\<close>, the file server: \<^verbatim>\<open>MidStart\<close> and \<^verbatim>\<open>MidStartProps\<close> (starting servers and
    clients over the names in \<^verbatim>\<open>/tmp\<close>), \<^verbatim>\<open>MidCommand\<close> (splitting and recognising requests,
    help), \<^verbatim>\<open>MidFile\<close> (\<open>readF\<close>, \<open>writeT\<close> and the other commands, the loop of the child
    process and the command loop of \<^verbatim>\<open>client.c\<close>), \<^verbatim>\<open>MidProps\<close> (their properties),
    \<^verbatim>\<open>MidTable\<close> (the accept loop with the process tables and the handlers),
    \<^verbatim>\<open>MidTransfer\<close> (\<open>producerr\<close> and \<open>consumerrr\<close> over the shared memory, interleaved) and
    \<^verbatim>\<open>MidOldTransfer\<close> (the older \<open>producer\<close> and \<open>consumerr\<close> with three semaphores: a first
    transfer and the one after it).
  \<^item> \<^verbatim>\<open>hw1\<close>: \<^verbatim>\<open>FileExercises\<close> (\<^verbatim>\<open>part1.c\<close> to \<^verbatim>\<open>part3.c\<close> over a table of descriptors and open
    files), \<^verbatim>\<open>FileExerciseProps\<close> (the writers of \<^verbatim>\<open>part1\<close>), \<^verbatim>\<open>FileDupProps\<close> (\<open>dup2\<close> against
    its specification, with \<^verbatim>\<open>errno\<close>).
  \<^item> \<^verbatim>\<open>hw2\<close>, the terminal emulator: \<^verbatim>\<open>Terminal\<close> (splitting of the line, pipes, forked
    children) and \<^verbatim>\<open>TermProps\<close>.
  \<^item> \<^verbatim>\<open>hw3\<close> and \<^verbatim>\<open>hw4\<close>, the bibo servers: \<^verbatim>\<open>Bibo\<close> (requests and replies, the accepting loops,
    the client) and \<^verbatim>\<open>BiboProps\<close>; \<^verbatim>\<open>BiboTalk\<close> (the client of \<^verbatim>\<open>hw3\<close> and the child that serves
    it, as two processes over their FIFOs, in every schedule) and \<^verbatim>\<open>Bibo4\<close> (main thread, pool
    and clients of \<^verbatim>\<open>hw4\<close> over the FIFOs that exist).
  \<^item> \<^verbatim>\<open>hw5\<close>: \<^verbatim>\<open>OldCopier\<close> and \<^verbatim>\<open>OldCopierProps\<close> (\<^verbatim>\<open>copy.c\<close>, the older copier: producer,
    consumers, their stack of descriptors) and \<^verbatim>\<open>CopierDraft\<close> (\<^verbatim>\<open>pCp.c\<close>, a draft of it whose
    threads share the index of the buffer).
  \<^item> \<^verbatim>\<open>hw6\<close>, directory synchronisation, at three levels: \<^verbatim>\<open>DirSync\<close> and \<^verbatim>\<open>DirSyncProps\<close> (scan,
    comparison and transfer as a function of a round), \<^verbatim>\<open>DirTalk\<close> and \<^verbatim>\<open>DirTalkProps\<close> (the
    thread of the server and the client as two processes, object by object; they follow the
    round), \<^verbatim>\<open>DirSession\<close> (what a session does, from the first round to its end),
    \<^verbatim>\<open>DirHosts\<close> and \<^verbatim>\<open>DirHostsProps\<close> (the whole program: start, accepting loop, threads that
    share one descriptor and hold it across the two steps of a call, any number of clients).

  How the code corresponds. A struct or a group of globals is a record, an enumeration a
  datatype, and a function keeps its name. Threads and processes are program counters; a
  schedule is a list of events or a relation, and the theorems about concurrent programs
  hold for every schedule. A C \<^verbatim>\<open>int\<close> is an \<open>int\<close> whose range is either an invariant or a
  checked fault (\<open>IntOverflow\<close>); a fixed array is a bound whose violation is the fault
  \<open>OutOfBounds\<close>; \<^verbatim>\<open>exit\<close> and abnormal ends are values. No definition needs fuel: the loops
  recurse on the text, the array or the schedule they consume. What the environment
  decides (contents of uninitialised memory, results of \<^verbatim>\<open>fork\<close>, \<^verbatim>\<open>malloc\<close> and \<^verbatim>\<open>open\<close>,
  directory listings, random digits, \<^verbatim>\<open>qsort\<close>) is an argument.

  What the lemmas show. The properties carry the numbers C1 to C40 in their text blocks.
  Functional correctness: the copiers, the parking counters, the grade book, the
  calculator, the file commands, a transfer, a synchronisation round, the terminal's
  wiring, a session of \<^verbatim>\<open>hw3\<close>. Refinement: the queue of the shop and the round
  of a synchronisation by its processes. Invariants and safety of the thread pools, the shop's accounts and its log.
  Progress: the copier always finishes when nothing fails, the calculator finishes after
  4 n + 36 rounds for an argument n or writes past a buffer, every car that no interrupt
  spares is served, every synchronisation ends (with all files empty).
  And, as theorems too, the inputs and schedules on
  which the programs fail: lost updates and clients, hangs after an interrupt or a failed
  \<^verbatim>\<open>open\<close>, a second start or a second client that cuts off the first, servers that serve
  nobody, a second transfer that delivers nothing, overrun arrays, files lost by a seek.
  Some of these facts are lemmas without a number.

  Not modelled: \<^verbatim>\<open>final/timer_example.c\<close> (an example beside the program), the floating-point
  distance and matrix functions of \<^verbatim>\<open>final_common.c\<close> (their results are delays, which the step
  machines leave open), functions that no program calls (the copies of \<open>handleRequests\<close> and
  \<open>list\<close> in \<^verbatim>\<open>hw4\<close> with its \<open>sendResponse\<close> and \<open>getRequest\<close>, \<open>get_file_size\<close> of the midterm, the
  transfer back from client to server of \<^verbatim>\<open>hw6\<close>), what a process of \<^verbatim>\<open>hw6\<close> does after the other
  end of its connection is gone, and races inside one scan or comparison there
  (\<^verbatim>\<open>DirHosts\<close> has the races on the descriptor of the connection), the command
  loop of the client of \<^verbatim>\<open>hw4\<close>, which is never reached, and pure input and output. Limits of the number model: \<^verbatim>\<open>atoi\<close> is the
  number written, also from 2^31 on; offsets of lines in files of the midterm are not bounded
  by \<^verbatim>\<open>int\<close> (files below 2 GiB); a directory given as \<^verbatim>\<open>argv[1]\<close> has room for the \<^verbatim>\<open>/\<close> that
  \<^verbatim>\<open>strcat\<close> appends in place.
\<close>

end
